(* ===== verification/Prelude.thy ===== *)
theory Prelude
  imports Main "HOL-Library.Word"
begin

text \<open>
  Shared vocabulary of the development: the types every component uses, the lemma
  collections, the generic lemmas on lists and maps, and the two interfaces several
  components implement (an operation set that keeps an invariant, and a bounded queue).

  Conventions.  A Go \<^verbatim>\<open>time.Duration\<close> (int64 nanoseconds) and a
  \<^verbatim>\<open>time.Time\<close> read from an injected clock are mathematical integers of nanoseconds:
  int64 overflow, 292 years away, is not modelled.  Lengths, indices and event counters
  are natural numbers.  Identifiers that arrive from outside the process and are compared
  and incremented at a fixed width (frame sequence numbers) are 64-bit words.  A Go error
  is a value of a component's error datatype, in a sum (\<open>Inl\<close> is the error) or an option.
\<close>

section \<open>Types\<close>

type_synonym duration = int
type_synonym instant = int
type_synonym u64 = "64 word"
type_synonym byte = "8 word"

abbreviation millisecond :: duration where "millisecond \<equiv> 1000000"
abbreviation second :: duration where "second \<equiv> 1000000000"

text \<open>Go divides integers towards zero.\<close>

definition go_div :: "int \<Rightarrow> int \<Rightarrow> int" where
  "go_div a b = sgn a * sgn b * (\<bar>a\<bar> div \<bar>b\<bar>)"

lemma go_div_nonneg: "0 \<le> a \<Longrightarrow> 0 < b \<Longrightarrow> go_div a b = a div b"
  by (cases "a = 0") (auto simp: go_div_def sgn_if)

lemma go_div_neg: "a < 0 \<Longrightarrow> 0 < b \<Longrightarrow> go_div a b = - ((- a) div b)"
  by (simp add: go_div_def sgn_if)

section \<open>Lemma collections\<close>

named_theorems model_defs "definitions that symbolic execution of an operation unfolds"
named_theorems inv_defs "the invariants of the components"
named_theorems keeps_inv "preservation of the invariants, one rule per operation"

section \<open>Runs of operations and their invariants\<close>

text \<open>
  A component is used through a sequence of operations.  \<open>run_ops\<close> executes one, and the
  locale states the contract the components share: each operation keeps the invariant.
\<close>

fun run_ops :: "('s \<Rightarrow> 'op \<Rightarrow> 's) \<Rightarrow> 's \<Rightarrow> 'op list \<Rightarrow> 's" where
  "run_ops step s [] = s"
| "run_ops step s (x # xs) = run_ops step (step s x) xs"

lemma run_ops_append: "run_ops step s (xs @ ys) = run_ops step (run_ops step s xs) ys"
  by (induction xs arbitrary: s) auto

locale invariant_ops =
  fixes step :: "'s \<Rightarrow> 'op \<Rightarrow> 's"
    and inv :: "'s \<Rightarrow> bool"
  assumes step_inv: "inv s \<Longrightarrow> inv (step s x)"
begin

lemma run_inv: "inv s \<Longrightarrow> inv (run_ops step s xs)"
  by (induction xs arbitrary: s) (auto intro: step_inv)

lemma run_prefix_inv: "inv s \<Longrightarrow> inv (run_ops step s (take n xs))"
  by (rule run_inv)

end

text \<open>
  A field or predicate that no operation undoes: once it holds it holds for ever.
\<close>

locale stable_ops =
  fixes step :: "'s \<Rightarrow> 'op \<Rightarrow> 's"
    and inv :: "'s \<Rightarrow> bool"
    and stable :: "'s \<Rightarrow> bool"
  assumes keeps: "inv s \<Longrightarrow> inv (step s x)"
    and stays: "inv s \<Longrightarrow> stable s \<Longrightarrow> stable (step s x)"
begin

sublocale both: invariant_ops step "\<lambda>s. inv s \<and> stable s"
  by unfold_locales (auto intro: keeps stays)

lemma stable_run: "inv s \<Longrightarrow> stable s \<Longrightarrow> stable (run_ops step s xs)"
  using both.run_inv by blast

end

section \<open>Declared state machines\<close>

text \<open>
  The contract of every lifecycle of the platform: a machine has a current state, a fixed
  set of declared edges and of terminal states, and one operation \<open>move\<close> that either takes
  a declared edge to the requested state or leaves the state alone.
\<close>

locale declared_machine =
  fixes cur :: "'m \<Rightarrow> 's"
    and edge :: "'m \<Rightarrow> 's \<Rightarrow> 's \<Rightarrow> bool"
    and final :: "'m \<Rightarrow> 's \<Rightarrow> bool"
    and invar :: "'m \<Rightarrow> bool"
    and move :: "'m \<Rightarrow> 'i \<Rightarrow> 'm"
    and target :: "'i \<Rightarrow> 's"
  assumes move_cur: "invar m \<Longrightarrow> cur (move m i) \<noteq> cur m \<Longrightarrow>
        edge m (cur m) (target i) \<and> cur (move m i) = target i"
    and move_edge: "edge (move m i) = edge m"
    and move_final: "final (move m i) = final m"
    and move_invar: "invar m \<Longrightarrow> invar (move m i)"
    and final_no_edge: "invar m \<Longrightarrow> final m s \<Longrightarrow> \<not> edge m s t"
begin

sublocale ops: invariant_ops move invar
  by unfold_locales (rule move_invar)

lemma run_edge: "edge (run_ops move m xs) = edge m"
  by (induction xs arbitrary: m) (auto simp: move_edge)

lemma final_absorbs: "invar m \<Longrightarrow> final m (cur m) \<Longrightarrow> cur (run_ops move m xs) = cur m"
proof (induction xs arbitrary: m)
  case Nil
  then show ?case by simp
next
  case (Cons i xs)
  have same: "cur (move m i) = cur m"
    using Cons.prems move_cur final_no_edge by blast
  then have "final (move m i) (cur (move m i))"
    using Cons.prems(2) by (simp add: move_final)
  then have "cur (run_ops move (move m i) xs) = cur (move m i)"
    using Cons.IH move_invar [OF Cons.prems(1)] by blast
  with same show ?case by simp
qed

text \<open>Where a run ends is reachable from where it started along declared edges.\<close>

lemma run_path: "invar m \<Longrightarrow> (edge m)\<^sup>*\<^sup>* (cur m) (cur (run_ops move m xs))"
proof (induction xs arbitrary: m)
  case Nil
  then show ?case by simp
next
  case (Cons i xs)
  have "(edge m)\<^sup>*\<^sup>* (cur (move m i)) (cur (run_ops move (move m i) xs))"
    using Cons.IH [of "move m i"] move_invar [OF Cons.prems] by (simp add: move_edge)
  moreover have "(edge m)\<^sup>*\<^sup>* (cur m) (cur (move m i))"
    using move_cur [OF Cons.prems, of i] by (cases "cur (move m i) = cur m") auto
  ultimately show ?case by (simp add: rtranclp_trans)
qed

end

section \<open>A bounded queue\<close>

text \<open>
  The contract of a bounded first-in first-out buffer that refuses when full: \<open>enq\<close> either
  refuses and keeps the contents or appends, \<open>deq\<close> takes the oldest element.  \<open>ok\<close> says
  which elements the queue takes.
\<close>

locale bounded_queue =
  fixes contents :: "'q \<Rightarrow> 'a list"
    and invar :: "'q \<Rightarrow> bool"
    and ok :: "'a \<Rightarrow> bool"
    and enq :: "'a \<Rightarrow> 'q \<Rightarrow> 'q \<times> bool"
    and deq :: "'q \<Rightarrow> 'q \<times> 'a option"
    and capacity :: "'q \<Rightarrow> nat"
  assumes enq_invar: "invar q \<Longrightarrow> ok x \<Longrightarrow> invar (fst (enq x q))"
    and enq_capacity: "invar q \<Longrightarrow> ok x \<Longrightarrow> capacity (fst (enq x q)) = capacity q"
    and enq_room: "invar q \<Longrightarrow> ok x \<Longrightarrow> length (contents q) < capacity q \<Longrightarrow>
        snd (enq x q) \<and> contents (fst (enq x q)) = contents q @ [x]"
    and enq_full: "invar q \<Longrightarrow> ok x \<Longrightarrow> \<not> length (contents q) < capacity q \<Longrightarrow>
        \<not> snd (enq x q) \<and> contents (fst (enq x q)) = contents q"
    and deq_invar: "invar q \<Longrightarrow> invar (fst (deq q))"
    and deq_empty: "invar q \<Longrightarrow> contents q = [] \<Longrightarrow>
        snd (deq q) = None \<and> contents (fst (deq q)) = []"
    and deq_some: "invar q \<Longrightarrow> contents q = x # xs \<Longrightarrow>
        snd (deq q) = Some x \<and> contents (fst (deq q)) = xs"
    and within: "invar q \<Longrightarrow> length (contents q) \<le> capacity q"

text \<open>A schedule: \<open>Some x\<close> offers an element, \<open>None\<close> takes one.\<close>

fun drive :: "('a \<Rightarrow> 'q \<Rightarrow> 'q \<times> bool) \<Rightarrow> ('q \<Rightarrow> 'q \<times> 'a option) \<Rightarrow> 'a option list \<Rightarrow> 'q
    \<Rightarrow> 'a list \<times> 'a list \<times> 'q" where
  "drive enq deq [] q = ([], [], q)"
| "drive enq deq (Some x # es) q =
     (let (q', taken) = enq x q; (ins, outs, q'') = drive enq deq es q'
      in (if taken then x # ins else ins, outs, q''))"
| "drive enq deq (None # es) q =
     (let (q', got) = deq q; (ins, outs, q'') = drive enq deq es q'
      in (ins, (case got of None \<Rightarrow> outs | Some x \<Rightarrow> x # outs), q''))"

context bounded_queue
begin

text \<open>
  Whatever the schedule, what was accepted is exactly what was delivered followed by what
  is still queued, in order: nothing is lost, duplicated, reordered or altered.
\<close>

lemma drive_fifo:
  assumes "invar q" and "\<forall>x. Some x \<in> set es \<longrightarrow> ok x" and "drive enq deq es q = (ins, outs, q')"
  shows "contents q @ ins = outs @ contents q' \<and> invar q'"
  using assms
proof (induction es arbitrary: q ins outs q')
  case Nil
  then show ?case by simp
next
  case (Cons e es)
  show ?case
  proof (cases e)
    case None
    obtain q1 got where d: "deq q = (q1, got)" by (cases "deq q")
    obtain ins' outs' qf where r: "drive enq deq es q1 = (ins', outs', qf)"
      by (cases "drive enq deq es q1") auto
    have "invar q1" using deq_invar [OF Cons.prems(1)] d by simp
    then have IH: "contents q1 @ ins' = outs' @ contents qf \<and> invar qf"
      using Cons.IH [OF _ _ r] Cons.prems(2) by simp
    show ?thesis
      using IH Cons.prems d r None deq_empty [of q] deq_some [of q]
      by (cases "contents q") auto
  next
    case (Some x)
    obtain q1 taken where d: "enq x q = (q1, taken)" by (cases "enq x q")
    obtain ins' outs' qf where r: "drive enq deq es q1 = (ins', outs', qf)"
      by (cases "drive enq deq es q1") auto
    have ok: "ok x" using Cons.prems(2) Some by simp
    have "invar q1" using enq_invar [OF Cons.prems(1) ok] d by simp
    then have IH: "contents q1 @ ins' = outs' @ contents qf \<and> invar qf"
      using Cons.IH [OF _ _ r] Cons.prems(2) by simp
    show ?thesis
      using IH Cons.prems(1,3) d r Some ok enq_room [of q x] enq_full [of q x]
      by (cases "length (contents q) < capacity q") auto
  qed
qed

end

section \<open>Relations\<close>

lemma rtranclp_last_step: "r\<^sup>*\<^sup>* a b \<Longrightarrow> a = b \<or> (\<exists>u. r u b)"
  by (erule rtranclp.cases) auto

section \<open>Lists\<close>

text \<open>Dropping the oldest entries so that at most \<open>n\<close> remain.\<close>

definition keep_last :: "nat \<Rightarrow> 'a list \<Rightarrow> 'a list" where
  "keep_last n xs = drop (length xs - n) xs"

lemma length_keep_last [simp]: "length (keep_last n xs) = min n (length xs)"
  by (auto simp: keep_last_def)

lemma keep_last_short: "length xs \<le> n \<Longrightarrow> keep_last n xs = xs"
  by (simp add: keep_last_def)

lemma set_keep_last: "set (keep_last n xs) \<subseteq> set xs"
  by (simp add: keep_last_def set_drop_subset)

lemma last_keep_last: "0 < n \<Longrightarrow> xs \<noteq> [] \<Longrightarrow> last (keep_last n xs) = last xs"
  by (simp add: keep_last_def last_drop)

lemma successively_drop: "successively P xs \<Longrightarrow> successively P (drop n xs)"
proof (induction n arbitrary: xs)
  case 0
  then show ?case by simp
next
  case (Suc n)
  then show ?case by (cases xs) (auto simp: successively_Cons)
qed

lemma successively_keep_last: "successively P xs \<Longrightarrow> successively P (keep_last n xs)"
  by (simp add: keep_last_def successively_drop)

lemma successively_snoc:
  "successively P (xs @ [x]) \<longleftrightarrow> successively P xs \<and> (xs = [] \<or> P (last xs) x)"
  by (auto simp: successively_append_iff)

lemma map_of_Some_mem: "map_of xs k = Some v \<Longrightarrow> (k, v) \<in> set xs"
  by (rule map_of_SomeD)

lemma map_of_None_iff: "map_of xs k = None \<longleftrightarrow> k \<notin> fst ` set xs"
  by (induction xs) auto

end
