(* ===== verification/RtFsm.thy ===== *)
theory RtFsm
  imports Prelude
begin

text \<open>
  The generic finite state machine of \<^verbatim>\<open>packages/go/runtime/fsm.go\<close>: the declaration of
  a machine (\<^verbatim>\<open>FSMSpec\<close>), its validation at construction (\<^verbatim>\<open>NewFSM\<close>, \<^verbatim>\<open>specProblems\<close>,
  \<^verbatim>\<open>specGuards\<close>) and the operations of the machine (\<^verbatim>\<open>To\<close>, \<^verbatim>\<open>TryTo\<close>, \<^verbatim>\<open>MustBe\<close>, \<^verbatim>\<open>CanGo\<close>
  and the readers).  A Go map is an association list with distinct keys where the code
  ranges over it.  The problems are values; the code renders them as text and sorts the
  text, so their order here is immaterial.  A guard is a function of the two states; a hook
  is a name, and \<open>fsm_to\<close> returns the hook calls it makes, in order.  Locking is not
  modelled: each operation is one critical section (the hooks run after it).
\<close>

section \<open>Declarations\<close>

type_synonym ('s, 'e) guard = "'s \<Rightarrow> 's \<Rightarrow> 'e option"

record ('s, 'e) fsm_spec =
  fs_initial :: 's
  fs_transitions :: "('s \<times> 's list) list"
  fs_terminal :: "'s list"
  fs_guards :: "('s \<times> ('s \<times> ('s, 'e) guard) list) list"

datatype 's spec_problem =
    Reached_Undeclared 's
  | Terminal_With_Exits 's nat
  | Self_Transition 's

datatype ('s, 'e) fsm_error =
    Config_Problems "'s spec_problem list"
  | Guard_On_Undeclared 's 's
  | Already_In 's
  | From_Terminal 's 's
  | Not_Declared 's 's
  | Guard_Refused 'e
  | Not_One_Of 's "'s list"

definition spec_reached :: "('s, 'e) fsm_spec \<Rightarrow> 's list" where
  "spec_reached spec = remdups (fs_initial spec # concat (map snd (fs_transitions spec)))"

definition spec_problems :: "('s, 'e) fsm_spec \<Rightarrow> 's spec_problem list" where
  "spec_problems spec =
     map Reached_Undeclared
       (filter (\<lambda>s. map_of (fs_transitions spec) s = None \<and> s \<notin> set (fs_terminal spec))
         (spec_reached spec))
     @ concat (map (\<lambda>(from, tos).
         (if from \<in> set (fs_terminal spec) \<and> length tos > 0
          then [Terminal_With_Exits from (length tos)] else [])
         @ map (\<lambda>_. Self_Transition from) (filter (\<lambda>to. from = to) tos)) (fs_transitions spec))"

definition spec_allowed :: "('s, 'e) fsm_spec \<Rightarrow> 's \<Rightarrow> 's \<Rightarrow> bool" where
  "spec_allowed spec from to =
     (case map_of (fs_transitions spec) from of None \<Rightarrow> False | Some tos \<Rightarrow> to \<in> set tos)"

definition guard_entries :: "('s, 'e) fsm_spec \<Rightarrow> (('s \<times> 's) \<times> ('s, 'e) guard) list" where
  "guard_entries spec =
     concat (map (\<lambda>(from, m). map (\<lambda>(to, g). ((from, to), g)) m) (fs_guards spec))"

definition spec_guards ::
  "('s, 'e) fsm_spec \<Rightarrow> ('s, 'e) fsm_error + ('s \<times> 's \<rightharpoonup> ('s, 'e) guard)" where
  "spec_guards spec =
     (case find (\<lambda>((from, to), _). \<not> spec_allowed spec from to) (guard_entries spec) of
        Some ((from, to), _) \<Rightarrow> Inl (Guard_On_Undeclared from to)
      | None \<Rightarrow> Inr (map_of (guard_entries spec)))"

section \<open>The machine\<close>

record ('s, 'e, 'h) fsm =
  f_state :: 's
  f_terminal :: "'s list"
  f_allowed :: "'s \<Rightarrow> 's \<Rightarrow> bool"
  f_guards :: "'s \<times> 's \<rightharpoonup> ('s, 'e) guard"
  f_hooks :: "'h list"
  f_entered :: "'s \<Rightarrow> nat"

definition new_fsm :: "('s, 'e) fsm_spec \<Rightarrow> ('s, 'e) fsm_error + ('s, 'e, 'h) fsm" where
  "new_fsm spec =
     (if spec_problems spec \<noteq> [] then Inl (Config_Problems (spec_problems spec))
      else case spec_guards spec of
        Inl e \<Rightarrow> Inl e
      | Inr gs \<Rightarrow> Inr \<lparr>f_state = fs_initial spec, f_terminal = fs_terminal spec,
          f_allowed = spec_allowed spec, f_guards = gs, f_hooks = [],
          f_entered = (\<lambda>_. 0)(fs_initial spec := 1)\<rparr>)"

definition fsm_is :: "('s, 'e, 'h) fsm \<Rightarrow> 's \<Rightarrow> bool" where
  "fsm_is f s = (f_state f = s)"

definition is_terminal :: "('s, 'e, 'h) fsm \<Rightarrow> bool" where
  "is_terminal f = (f_state f \<in> set (f_terminal f))"

definition on_transition :: "('s, 'e, 'h) fsm \<Rightarrow> 'h \<Rightarrow> ('s, 'e, 'h) fsm" where
  "on_transition f h = f\<lparr>f_hooks := f_hooks f @ [h]\<rparr>"

text \<open>
  \<open>fsm_to\<close> returns the machine, the state departed from, the error if the move was refused,
  and the hook calls.
\<close>

definition fsm_to :: "('s, 'e, 'h) fsm \<Rightarrow> 's \<Rightarrow>
    ('s, 'e, 'h) fsm \<times> 's \<times> ('s, 'e) fsm_error option \<times> ('h \<times> 's \<times> 's) list" where
  "fsm_to f to =
     (let from = f_state f;
          moved = f\<lparr>f_state := to, f_entered := (f_entered f)(to := f_entered f to + 1)\<rparr>;
          calls = map (\<lambda>h. (h, from, to)) (f_hooks f)
      in if from = to then (f, from, Some (Already_In to), [])
         else if from \<in> set (f_terminal f) then (f, from, Some (From_Terminal from to), [])
         else if \<not> f_allowed f from to then (f, from, Some (Not_Declared from to), [])
         else case f_guards f (from, to) of
                Some g \<Rightarrow> (case g from to of
                            Some e \<Rightarrow> (f, from, Some (Guard_Refused e), [])
                          | None \<Rightarrow> (moved, from, None, calls))
              | None \<Rightarrow> (moved, from, None, calls))"

definition fsm_move :: "('s, 'e, 'h) fsm \<Rightarrow> 's \<Rightarrow> ('s, 'e, 'h) fsm" where
  "fsm_move f to = fst (fsm_to f to)"

definition fsm_error_of :: "('s, 'e, 'h) fsm \<Rightarrow> 's \<Rightarrow> ('s, 'e) fsm_error option" where
  "fsm_error_of f to = fst (snd (snd (fsm_to f to)))"

definition try_to :: "('s, 'e, 'h) fsm \<Rightarrow> 's \<Rightarrow> ('s, 'e, 'h) fsm \<times> bool" where
  "try_to f to = (case fsm_to f to of (f', _, err, _) \<Rightarrow> (f', err = None))"

definition must_be :: "('s, 'e, 'h) fsm \<Rightarrow> 's list \<Rightarrow> ('s, 'e) fsm_error option" where
  "must_be f states =
     (if f_state f \<in> set states then None else Some (Not_One_Of (f_state f) states))"

definition can_go :: "('s, 'e, 'h) fsm \<Rightarrow> 's \<Rightarrow> bool" where
  "can_go f to = (f_state f \<notin> set (f_terminal f) \<and> f_allowed f (f_state f) to)"

section \<open>What a good declaration is\<close>

text \<open>
  The specification \<^verbatim>\<open>specProblems\<close> decides: every state a machine can be in is declared or
  terminal, nothing follows a terminal state, and no state leads to itself.
\<close>

definition spec_good :: "('s, 'e) fsm_spec \<Rightarrow> bool" where
  "spec_good spec \<longleftrightarrow>
     (\<forall>s. s = fs_initial spec \<or> (\<exists>from tos. (from, tos) \<in> set (fs_transitions spec) \<and> s \<in> set tos)
        \<longrightarrow> s \<in> fst ` set (fs_transitions spec) \<or> s \<in> set (fs_terminal spec))
   \<and> (\<forall>(from, tos) \<in> set (fs_transitions spec).
        (from \<in> set (fs_terminal spec) \<longrightarrow> tos = []) \<and> from \<notin> set tos)"

lemma set_spec_reached: "s \<in> set (spec_reached spec) \<longleftrightarrow>
    s = fs_initial spec \<or> (\<exists>from tos. (from, tos) \<in> set (fs_transitions spec) \<and> s \<in> set tos)"
  by (force simp: spec_reached_def)

lemma entry_problems_empty:
  "(if from \<in> T \<and> length tos > 0 then [Terminal_With_Exits from (length tos)] else [])
     @ map (\<lambda>_. Self_Transition from) (filter (\<lambda>to. from = to) tos) = []
   \<longleftrightarrow> (from \<in> T \<longrightarrow> tos = []) \<and> from \<notin> set tos"
  by (auto simp: filter_empty_conv)

lemma entries_empty:
  "(\<forall>x \<in> set ts. (case x of (from, tos) \<Rightarrow>
       (if from \<in> T \<and> length tos > 0 then [Terminal_With_Exits from (length tos)] else [])
       @ map (\<lambda>_. Self_Transition from) (filter (\<lambda>to. from = to) tos)) = [])
   \<longleftrightarrow> (\<forall>(from, tos) \<in> set ts. (from \<in> T \<longrightarrow> tos = []) \<and> from \<notin> set tos)"
  by (simp only: entry_problems_empty case_prod_beta) (simp add: case_prod_beta)

lemma undeclared_empty:
  "filter (\<lambda>s. map_of ts s = None \<and> s \<notin> T) xs = [] \<longleftrightarrow> (\<forall>s \<in> set xs. s \<in> fst ` set ts \<or> s \<in> T)"
  by (auto simp: filter_empty_conv map_of_None_iff)

lemma spec_problems_empty: "spec_problems spec = [] \<longleftrightarrow> spec_good spec"
proof -
  have "spec_problems spec = [] \<longleftrightarrow>
      (\<forall>s \<in> set (spec_reached spec). s \<in> fst ` set (fs_transitions spec) \<or> s \<in> set (fs_terminal spec))
      \<and> (\<forall>(from, tos) \<in> set (fs_transitions spec).
          (from \<in> set (fs_terminal spec) \<longrightarrow> tos = []) \<and> from \<notin> set tos)"
    unfolding spec_problems_def append_is_Nil_conv map_is_Nil_conv undeclared_empty
      concat_eq_Nil_conv set_map ball_simps entries_empty ..
  then show ?thesis by (simp only: spec_good_def Ball_def set_spec_reached)
qed

lemma spec_allowedD: "spec_allowed spec from to \<Longrightarrow>
    \<exists>tos. (from, tos) \<in> set (fs_transitions spec) \<and> to \<in> set tos"
  by (auto simp: spec_allowed_def split: option.splits dest: map_of_SomeD)

definition fsm_wf :: "('s, 'e, 'h) fsm \<Rightarrow> bool" where
  "fsm_wf f \<longleftrightarrow> (\<forall>s t. f_allowed f s t \<longrightarrow> s \<notin> set (f_terminal f) \<and> s \<noteq> t)
     \<and> (\<forall>s t g. f_guards f (s, t) = Some g \<longrightarrow> f_allowed f s t)"

lemma new_fsm_wf:
  assumes "new_fsm spec = Inr f"
  shows "fsm_wf f"
proof -
  have good: "spec_good spec"
    using assms by (auto simp: new_fsm_def spec_problems_empty [symmetric] split: if_splits)
  obtain gs where gs: "spec_guards spec = Inr gs" "f_guards f = gs"
    and al: "f_allowed f = spec_allowed spec" "f_terminal f = fs_terminal spec"
    using assms by (auto simp: new_fsm_def split: if_splits sum.splits)
  have "spec_allowed spec s t" if "gs (s, t) = Some g" for s t g
  proof -
    have none: "find (\<lambda>((from, to), _). \<not> spec_allowed spec from to) (guard_entries spec) = None"
      and eq: "gs = map_of (guard_entries spec)"
      using gs(1) by (auto simp: spec_guards_def split: option.splits)
    have "((s, t), g) \<in> set (guard_entries spec)" using that eq by (auto dest: map_of_SomeD)
    with none show ?thesis by (auto simp: find_None_iff)
  qed
  moreover have "s \<notin> set (fs_terminal spec) \<and> s \<noteq> t" if "spec_allowed spec s t" for s t
    using good spec_allowedD [OF that] by (fastforce simp: spec_good_def)
  ultimately show ?thesis using gs al by (auto simp: fsm_wf_def)
qed

lemma fsm_move_cases:
  "fsm_move f to = f \<and> fsm_error_of f to \<noteq> None \<or>
   fsm_error_of f to = None \<and> f_allowed f (f_state f) to \<and> f_state f \<notin> set (f_terminal f) \<and>
   fsm_move f to = f\<lparr>f_state := to, f_entered := (f_entered f)(to := f_entered f to + 1)\<rparr>"
  by (auto simp: fsm_move_def fsm_error_of_def fsm_to_def Let_def split: option.splits)

lemma fsm_move_frame [simp]:
  "f_allowed (fsm_move f to) = f_allowed f" "f_terminal (fsm_move f to) = f_terminal f"
  "f_guards (fsm_move f to) = f_guards f" "f_hooks (fsm_move f to) = f_hooks f"
  using fsm_move_cases [of f to] by auto

interpretation rt: declared_machine f_state f_allowed "\<lambda>f s. s \<in> set (f_terminal f)" fsm_wf
    fsm_move "\<lambda>to. to"
proof unfold_locales
  fix m :: "('a, 'b, 'c) fsm" and i :: 'a
  show "f_allowed m (f_state m) i \<and> f_state (fsm_move m i) = i"
    if "fsm_wf m" "f_state (fsm_move m i) \<noteq> f_state m"
    using that fsm_move_cases [of m i] by auto
qed (auto simp: fsm_wf_def)

section \<open>Properties\<close>

text \<open>A machine that NewFSM accepts never dead-ends silently: after any sequence of
  attempted moves its state is a terminal one or one the specification declares exits for,
  it was reached along declared edges only, and no declared edge leaves a terminal state.\<close>

theorem fsm_no_silent_dead_end:
  assumes "new_fsm spec = Inr f"
  shows "let s = f_state (run_ops fsm_move f tos) in
      (s \<in> fst ` set (fs_transitions spec) \<or> s \<in> set (fs_terminal spec))
      \<and> (spec_allowed spec)\<^sup>*\<^sup>* (fs_initial spec) s
      \<and> (s \<in> set (fs_terminal spec) \<longrightarrow> (\<forall>t. \<not> spec_allowed spec s t))"
proof -
  have good: "spec_good spec"
    using assms by (auto simp: new_fsm_def spec_problems_empty [symmetric] split: if_splits)
  have wf: "fsm_wf f" by (rule new_fsm_wf [OF assms])
  have f: "f_state f = fs_initial spec" "f_allowed f = spec_allowed spec"
    "f_terminal f = fs_terminal spec"
    using assms by (auto simp: new_fsm_def split: if_splits sum.splits)
  let ?s = "f_state (run_ops fsm_move f tos)"
  have path: "(spec_allowed spec)\<^sup>*\<^sup>* (fs_initial spec) ?s"
    using rt.run_path [OF wf, of tos] f by simp
  then have "?s = fs_initial spec \<or> (\<exists>u. spec_allowed spec u ?s)"
    by (auto dest: rtranclp_last_step)
  then have "?s = fs_initial spec \<or>
      (\<exists>from tos. (from, tos) \<in> set (fs_transitions spec) \<and> ?s \<in> set tos)"
    by (auto dest: spec_allowedD)
  then have "?s \<in> fst ` set (fs_transitions spec) \<or> ?s \<in> set (fs_terminal spec)"
    using good unfolding spec_good_def by (elim conjE allE impE)
  moreover have "\<forall>t. \<not> spec_allowed spec ?s t" if "?s \<in> set (fs_terminal spec)"
    using wf that f by (auto simp: fsm_wf_def)
  ultimately show ?thesis using path by (simp add: Let_def)
qed

definition demo_spec :: "(nat, unit) fsm_spec" where
  "demo_spec = \<lparr>fs_initial = 0, fs_transitions = [(0, [1, 2]), (1, [0, 2])],
     fs_terminal = [2], fs_guards = [(0, [(1, \<lambda>_ _. None)])]\<rparr>"

definition demo_fsm :: "(nat, unit, nat) fsm" where
  "demo_fsm = \<lparr>f_state = 0, f_terminal = [2], f_allowed = spec_allowed demo_spec,
     f_guards = map_of (guard_entries demo_spec), f_hooks = [], f_entered = (\<lambda>_. 0)(0 := 1)\<rparr>"

lemma demo_new: "new_fsm demo_spec = Inr demo_fsm"
  by (simp add: new_fsm_def demo_fsm_def spec_problems_def demo_spec_def spec_reached_def
      spec_guards_def guard_entries_def spec_allowed_def)

theorem fsm_no_silent_dead_end_witness:
  "f_state (run_ops fsm_move demo_fsm [1, 2, 0]) = 2
   \<and> (spec_allowed demo_spec)\<^sup>*\<^sup>* 0 2 \<and> \<not> spec_allowed demo_spec 2 0"
proof -
  have e: "f_state (run_ops fsm_move demo_fsm [1, 2, 0]) = 2"
    by (simp add: fsm_move_def fsm_to_def demo_fsm_def Let_def spec_allowed_def demo_spec_def
        guard_entries_def)
  then show ?thesis
    using fsm_no_silent_dead_end [OF demo_new, of "[1, 2, 0]"]
    by (simp add: demo_spec_def del: run_ops.simps)
qed

text \<open>NewFSM is complete about malformed declarations: it returns a machine exactly when
  the declaration is good and every guard is on a declared transition, and otherwise it
  refuses with the list of every problem.\<close>

theorem new_fsm_decides:
  "(\<exists>f. (new_fsm spec :: ('s, 'e) fsm_error + ('s, 'e, 'h) fsm) = Inr f) \<longleftrightarrow>
     spec_good spec \<and> (\<forall>((s, t), g) \<in> set (guard_entries spec). spec_allowed spec s t)"
proof -
  have "(\<exists>gs. spec_guards spec = Inr gs) \<longleftrightarrow>
      (\<forall>((s, t), g) \<in> set (guard_entries spec). spec_allowed spec s t)"
    by (fastforce simp: spec_guards_def find_None_iff find_Some_iff in_set_conv_nth
        split: option.splits)
  then show ?thesis
    by (auto simp: new_fsm_def spec_problems_empty split: sum.splits)
qed

text \<open>A move either takes effect entirely or not at all: it succeeds exactly when the
  target differs, the current state is not terminal, the edge is declared and its guard, if
  any, does not object; then the entry count of the target rises by one and every hook is
  called once, in registration order, with the pair of states; otherwise the machine is
  untouched and no hook is called.\<close>

theorem fsm_to_all_or_nothing:
  "let (f', from, err, calls) = fsm_to f to in
     from = f_state f \<and>
     (if f_state f \<noteq> to \<and> can_go f to \<and>
         (\<forall>g. f_guards f (f_state f, to) = Some g \<longrightarrow> g (f_state f) to = None)
      then err = None \<and> f_state f' = to \<and> f_entered f' to = Suc (f_entered f to)
           \<and> (\<forall>s. s \<noteq> to \<longrightarrow> f_entered f' s = f_entered f s)
           \<and> calls = map (\<lambda>h. (h, f_state f, to)) (f_hooks f)
      else err \<noteq> None \<and> f' = f \<and> calls = [])"
  by (auto simp: fsm_to_def can_go_def Let_def split: option.splits)

theorem fsm_to_all_or_nothing_witness:
  "(case fsm_to demo_fsm 1 of (f', from, err, calls) \<Rightarrow> from = 0 \<and> err = None \<and> f_state f' = 1)
   \<and> (case fsm_to demo_fsm 0 of (f', from, err, calls) \<Rightarrow> err \<noteq> None \<and> f' = demo_fsm)"
  using fsm_to_all_or_nothing [of demo_fsm 1] fsm_to_all_or_nothing [of demo_fsm 0]
  by (auto simp: Let_def can_go_def demo_fsm_def spec_allowed_def demo_spec_def guard_entries_def
      split: prod.splits if_splits)

end
