(* ===== verification/SessionFsm.thy ===== *)
theory SessionFsm
  imports Prelude "HOL-Library.Char_ord" "HOL-Library.List_Lexorder"
begin

text \<open>
  The lifecycle of a voice session, \<^verbatim>\<open>packages/go/voice/state.go\<close> and \<^verbatim>\<open>fsm.go\<close>, with the
  reason vocabulary of \<^verbatim>\<open>classifications.go\<close> and the label check of \<^verbatim>\<open>ids.go\<close>: the declared
  transition table, and the state machine \<^verbatim>\<open>SessionFSM\<close> with its bounded history.  The
  clock is an argument (the instant it reads); the metric increments and the published
  event are the outputs of \<open>session_to\<close>, in order.  A publisher's error is dropped by the
  code, so it does not appear.  Each operation is one critical section.
\<close>

section \<open>Session states\<close>

text \<open>The Go type is a string; a value outside the declared eleven is \<open>Unknown_State\<close>.\<close>

datatype session_state =
    Created | Listening | Speaking_Detected | Transcribing | Thinking | Synthesizing | Speaking
  | Interrupted | Cancelled | Failed | Completed | Unknown_State string

fun state_name :: "session_state \<Rightarrow> string" where
  "state_name Created = ''created''"
| "state_name Listening = ''listening''"
| "state_name Speaking_Detected = ''speaking_detected''"
| "state_name Transcribing = ''transcribing''"
| "state_name Thinking = ''thinking''"
| "state_name Synthesizing = ''synthesizing''"
| "state_name Speaking = ''speaking''"
| "state_name Interrupted = ''interrupted''"
| "state_name Cancelled = ''cancelled''"
| "state_name Failed = ''failed''"
| "state_name Completed = ''completed''"
| "state_name (Unknown_State s) = s"

definition all_session_states :: "session_state list" where
  "all_session_states = [Created, Listening, Speaking_Detected, Transcribing, Thinking,
     Synthesizing, Speaking, Interrupted, Cancelled, Failed, Completed]"

definition state_valid :: "session_state \<Rightarrow> bool" where
  "state_valid s = (s \<in> set all_session_states)"

definition state_terminal :: "session_state \<Rightarrow> bool" where
  "state_terminal s = (case s of Cancelled \<Rightarrow> True | Failed \<Rightarrow> True | Completed \<Rightarrow> True | _ \<Rightarrow> False)"

definition accepts_audio :: "session_state \<Rightarrow> bool" where
  "accepts_audio s = (\<not> state_terminal s)"

definition agent_holds_floor :: "session_state \<Rightarrow> bool" where
  "agent_holds_floor s = (s = Synthesizing \<or> s = Speaking)"

section \<open>The transition table\<close>

text \<open>The rationale texts are carried as in the source, shortened to their first clause.\<close>

definition session_transitions :: "(session_state \<times> session_state \<times> string) list" where
  "session_transitions =
    [(Created, Listening, ''the session begins listening''),
     (Listening, Speaking_Detected, ''Phase 11D confirmed a speech onset''),
     (Speaking_Detected, Transcribing, ''a recognition stream is open and receiving audio''),
     (Transcribing, Thinking, ''a final transcript exists''),
     (Thinking, Synthesizing, ''a response is being generated''),
     (Synthesizing, Speaking, ''the first synthesised frame is on its way to the caller''),
     (Speaking, Listening, ''the turn finished speaking''),
     (Speaking_Detected, Listening, ''the onset did not become speech worth recognising''),
     (Transcribing, Listening, ''recognition produced nothing''),
     (Thinking, Listening, ''the turn concluded with nothing to say''),
     (Synthesizing, Listening, ''the synthesiser produced no audio for the response''),
     (Synthesizing, Interrupted, ''the caller spoke over a turn not yet heard''),
     (Speaking, Interrupted, ''the caller spoke over audio already playing''),
     (Interrupted, Listening, ''the interruption has been orchestrated'')]"

definition terminal_reachable_from :: "session_state list" where
  "terminal_reachable_from = [Created, Listening, Speaking_Detected, Transcribing, Thinking,
     Synthesizing, Speaking, Interrupted]"

type_synonym table = "session_state \<Rightarrow> (session_state \<times> string) list"

definition table_add :: "session_state \<times> session_state \<times> string \<Rightarrow> table \<Rightarrow> table" where
  "table_add e t = (case e of (from, to, why) \<Rightarrow>
     t(from := (to, why) # filter (\<lambda>p. fst p \<noteq> to) (t from)))"

definition build_transition_table :: table where
  "build_transition_table =
     fold table_add
       (session_transitions
        @ concat (map (\<lambda>from. [(from, Completed, ''the call ended''),
                               (from, Cancelled, ''the session was asked to stop''),
                               (from, Failed, ''an unrecoverable fault ended the session'')])
            terminal_reachable_from))
       (\<lambda>_. [])"

definition can_transition :: "session_state \<Rightarrow> session_state \<Rightarrow> bool" where
  "can_transition from to = (map_of (build_transition_table from) to \<noteq> None)"

definition transition_rationale :: "session_state \<Rightarrow> session_state \<Rightarrow> string" where
  "transition_rationale from to =
     (case map_of (build_transition_table from) to of None \<Rightarrow> '''' | Some why \<Rightarrow> why)"

definition transitions_from :: "session_state \<Rightarrow> session_state list" where
  "transitions_from from = sort_key state_name (map fst (build_transition_table from))"

section \<open>Labels and reasons\<close>

definition label_char :: "char \<Rightarrow> bool" where
  "label_char c = (CHR ''a'' \<le> c \<and> c \<le> CHR ''z'' \<or> CHR ''0'' \<le> c \<and> c \<le> CHR ''9'' \<or>
     c = CHR ''-'' \<or> c = CHR ''_'' \<or> c = CHR ''.'' \<or> c = CHR '':'')"

definition max_id_len :: nat where "max_id_len = 64"

definition valid_label :: "string \<Rightarrow> bool" where
  "valid_label s = (s \<noteq> [] \<and> length s \<le> max_id_len \<and> list_all label_char s)"

definition all_reason_codes :: "string list" where
  "all_reason_codes = [''requested'', ''runtime_stopped'', ''call_ended'', ''ok'', ''unavailable'',
     ''timeout'', ''crashed'', ''invalid_output'', ''cancelled'', ''restarted'', ''start_failed'',
     ''stop_failed'', ''exit_non_zero'', ''barge_in'', ''governance_denied'', ''turn_timeout'',
     ''empty_transcript'', ''transcript_too_long'', ''response_too_long'', ''allowed'',
     ''denied'', ''queue_full'', ''stale_chunk'']"

definition valid_reason :: "string \<Rightarrow> bool" where
  "valid_reason r = (r \<in> set all_reason_codes)"

section \<open>The session machine\<close>

record state_change =
  sc_from :: session_state
  sc_to :: session_state
  sc_reason :: string
  sc_at :: instant
  sc_seq :: nat
  sc_in_previous :: duration

record session_fsm =
  sf_session :: string
  sf_call :: string
  sf_publishes :: bool
  sf_max_hist :: nat
  sf_state :: session_state
  sf_turn :: string
  sf_entered_at :: instant
  sf_seq :: nat
  sf_history :: "state_change list"

datatype transition_error =
    Target_Undeclared session_state
  | Session_Ended session_state
  | Reason_Undeclared string
  | No_Such_Edge session_state session_state

datatype session_config_problem = Session_Label_Invalid | Max_History_Negative

datatype session_output =
    Count_Invalid session_state session_state
  | Count_Transition session_state session_state
  | Publish_Change string state_change

definition default_max_history :: nat where "default_max_history = 64"

definition new_session_fsm ::
  "string \<Rightarrow> string \<Rightarrow> bool \<Rightarrow> int \<Rightarrow> instant \<Rightarrow> session_config_problem list + session_fsm" where
  "new_session_fsm session call publishes max_history now =
     (let problems = (if \<not> valid_label session then [Session_Label_Invalid] else [])
                   @ (if max_history < 0 then [Max_History_Negative] else [])
      in if problems \<noteq> [] then Inl problems
         else Inr \<lparr>sf_session = session, sf_call = call, sf_publishes = publishes,
           sf_max_hist = (if max_history = 0 then default_max_history else nat max_history),
           sf_state = Created, sf_turn = '''', sf_entered_at = now, sf_seq = 0, sf_history = []\<rparr>)"

definition set_turn :: "session_fsm \<Rightarrow> string \<Rightarrow> session_fsm" where
  "set_turn f tid = f\<lparr>sf_turn := tid\<rparr>"

definition time_in_state :: "session_fsm \<Rightarrow> instant \<Rightarrow> duration" where
  "time_in_state f now = now - sf_entered_at f"

definition check_transition :: "session_fsm \<Rightarrow> session_state \<Rightarrow> string \<Rightarrow> transition_error option" where
  "check_transition f to reason =
     (let from = sf_state f in
      if \<not> state_valid to then Some (Target_Undeclared to)
      else if state_terminal from then Some (Session_Ended from)
      else if \<not> valid_reason reason then Some (Reason_Undeclared reason)
      else if \<not> can_transition from to then Some (No_Such_Edge from to)
      else None)"

definition session_to :: "session_fsm \<Rightarrow> session_state \<Rightarrow> string \<Rightarrow> instant \<Rightarrow>
    session_fsm \<times> transition_error option \<times> session_output list" where
  "session_to f to reason now =
     (let from = sf_state f in
      if from = to \<and> state_terminal to then (f, None, [])
      else case check_transition f to reason of
        Some e \<Rightarrow> (f, Some e, [Count_Invalid from to])
      | None \<Rightarrow>
          (let change = \<lparr>sc_from = from, sc_to = to, sc_reason = reason, sc_at = now,
                 sc_seq = sf_seq f + 1, sc_in_previous = now - sf_entered_at f\<rparr>;
               f' = f\<lparr>sf_state := to, sf_entered_at := now, sf_seq := sf_seq f + 1,
                 sf_history := keep_last (sf_max_hist f) (sf_history f @ [change])\<rparr>
           in (f', None, Count_Transition from to
                 # (if sf_publishes f then [Publish_Change (sf_turn f) change] else []))))"

text \<open>The operations of a session, as one type of requests.\<close>

datatype session_req = Req_To session_state string instant | Req_Set_Turn string

fun session_step :: "session_fsm \<Rightarrow> session_req \<Rightarrow> session_fsm" where
  "session_step f (Req_To to reason now) = fst (session_to f to reason now)"
| "session_step f (Req_Set_Turn tid) = set_turn f tid"

section \<open>The table, decided\<close>

definition spec_edge :: "session_state \<Rightarrow> session_state \<Rightarrow> bool" where
  "spec_edge from to =
     ((from, to) \<in> set (map (\<lambda>(a, b, _). (a, b)) session_transitions)
      \<or> from \<in> set terminal_reachable_from \<and> to \<in> {Completed, Cancelled, Failed})"

text \<open>
  Building the table by insertion keeps exactly the inserted edges; the rationale found for
  an edge is the one inserted last.
\<close>

lemma table_add_lookup: "map_of (table_add (a, b, why) t from) to =
    (if from = a \<and> to = b then Some why else map_of (t from) to)"
proof -
  have "map_of (filter (\<lambda>p. fst p \<noteq> b) xs) to = (if to = b then None else map_of xs to)"
    for xs :: "(session_state \<times> string) list"
    by (induction xs) auto
  then show ?thesis by (simp add: table_add_def)
qed

lemma fold_table_dom: "map_of (fold table_add es t from) to \<noteq> None \<longleftrightarrow>
    (from, to) \<in> set (map (\<lambda>(a, b, _). (a, b)) es) \<or> map_of (t from) to \<noteq> None"
  by (induction es arbitrary: t) (auto simp: table_add_lookup split: if_splits)

lemma end_edges_mem:
  "(a, b) \<in> set (map (\<lambda>(x, y, _). (x, y))
     (concat (map (\<lambda>s. [(s, Completed, u), (s, Cancelled, v), (s, Failed, w)]) xs)))
   \<longleftrightarrow> a \<in> set xs \<and> b \<in> {Completed, Cancelled, Failed}"
  by (induction xs) auto

lemma can_transition_spec: "can_transition from to \<longleftrightarrow> spec_edge from to"
  unfolding can_transition_def build_transition_table_def fold_table_dom spec_edge_def
    map_append set_append Un_iff end_edges_mem by simp

lemma fold_table_distinct:
  "(\<And>s. distinct (map fst (t s))) \<Longrightarrow> distinct (map fst (fold table_add es t from))"
proof (induction es arbitrary: t)
  case Nil
  then show ?case by simp
next
  case (Cons e es)
  have "distinct (map fst (table_add e t s))" for s
    using Cons.prems [of s] distinct_map_filter [of fst "t s"]
    by (cases e) (auto simp: table_add_def)
  then show ?case by (simp add: Cons.IH)
qed

lemma table_distinct: "distinct (map fst (build_transition_table from))"
  unfolding build_transition_table_def by (rule fold_table_distinct) simp

lemma spec_edge_terminal: "spec_edge from to \<Longrightarrow> \<not> state_terminal from"
  by (auto simp: spec_edge_def session_transitions_def terminal_reachable_from_def state_terminal_def)

section \<open>The machine's invariant\<close>

definition linked :: "state_change \<Rightarrow> state_change \<Rightarrow> bool" where
  "linked a b \<longleftrightarrow> sc_to a = sc_from b \<and> sc_seq b = Suc (sc_seq a)
     \<and> sc_at b = sc_at a + sc_in_previous b"

definition session_inv :: "session_fsm \<Rightarrow> bool" where
  "session_inv f \<longleftrightarrow> 0 < sf_max_hist f \<and> length (sf_history f) = min (sf_max_hist f) (sf_seq f)
     \<and> successively linked (sf_history f)
     \<and> (\<forall>c \<in> set (sf_history f). can_transition (sc_from c) (sc_to c) \<and> valid_reason (sc_reason c))
     \<and> (sf_history f \<noteq> [] \<longrightarrow> sc_to (last (sf_history f)) = sf_state f
          \<and> sc_seq (last (sf_history f)) = sf_seq f \<and> sc_at (last (sf_history f)) = sf_entered_at f)
     \<and> (sf_history f = [] \<longrightarrow> sf_state f = Created)"

lemma new_session_fsm_inv: "new_session_fsm s c p m now = Inr f \<Longrightarrow> session_inv f"
  by (auto simp: new_session_fsm_def session_inv_def Let_def default_max_history_def split: if_splits)

lemma session_to_cases:
  obtains (ended) "sf_state f = to" "state_terminal to" "session_to f to r now = (f, None, [])"
  | (refused) e where "check_transition f to r = Some e"
      "session_to f to r now = (f, Some e, [Count_Invalid (sf_state f) to])"
  | (moved) c where "check_transition f to r = None"
      "c = \<lparr>sc_from = sf_state f, sc_to = to, sc_reason = r, sc_at = now,
         sc_seq = sf_seq f + 1, sc_in_previous = now - sf_entered_at f\<rparr>"
      "session_to f to r now = (f\<lparr>sf_state := to, sf_entered_at := now, sf_seq := sf_seq f + 1,
         sf_history := keep_last (sf_max_hist f) (sf_history f @ [c])\<rparr>, None,
         Count_Transition (sf_state f) to # (if sf_publishes f then [Publish_Change (sf_turn f) c] else []))"
proof (cases "sf_state f = to \<and> state_terminal to")
  case True
  then show ?thesis by (intro ended) (auto simp: session_to_def)
next
  case False
  show ?thesis
  proof (cases "check_transition f to r")
    case None
    with False show ?thesis by (intro moved [OF None refl]) (simp add: session_to_def Let_def)
  next
    case (Some e)
    with False show ?thesis by (intro refused [OF Some]) (simp add: session_to_def Let_def)
  qed
qed

lemma check_NoneD: "check_transition f to r = None \<Longrightarrow>
    state_valid to \<and> \<not> state_terminal (sf_state f) \<and> valid_reason r \<and> can_transition (sf_state f) to"
  by (auto simp: check_transition_def Let_def split: if_splits)

lemma push_history_inv:
  assumes inv: "session_inv f" and edge: "can_transition (sf_state f) (sc_to c)"
    and c: "sc_from c = sf_state f" "sc_seq c = Suc (sf_seq f)" "valid_reason (sc_reason c)"
      "sc_at c = sf_entered_at f + sc_in_previous c"
  shows "session_inv (f\<lparr>sf_state := sc_to c, sf_entered_at := sc_at c, sf_seq := Suc (sf_seq f),
           sf_history := keep_last (sf_max_hist f) (sf_history f @ [c])\<rparr>)"
proof -
  have pos: "0 < sf_max_hist f" using inv by (simp add: session_inv_def)
  let ?h = "keep_last (sf_max_hist f) (sf_history f @ [c])"
  have last: "last ?h = c" using pos by (simp add: last_keep_last)
  have ne: "?h \<noteq> []" using pos by (metis length_keep_last length_0_conv min_0R
        append_is_Nil_conv list.distinct(1) min_less_iff_conj length_greater_0_conv)
  have "successively linked (sf_history f @ [c])"
    using inv c by (auto simp: session_inv_def successively_snoc linked_def)
  then have "successively linked ?h" by (rule successively_keep_last)
  moreover have "\<forall>x \<in> set ?h. can_transition (sc_from x) (sc_to x) \<and> valid_reason (sc_reason x)"
    using inv edge c set_keep_last [of "sf_max_hist f" "sf_history f @ [c]"]
    by (auto simp: session_inv_def)
  moreover have "length ?h = min (sf_max_hist f) (Suc (sf_seq f))"
    using inv pos by (auto simp: session_inv_def)
  ultimately show ?thesis using pos last ne c by (simp add: session_inv_def)
qed

lemma session_step_inv [keeps_inv]: "session_inv f \<Longrightarrow> session_inv (session_step f x)"
proof (cases x)
  case (Req_To to r now)
  assume inv: "session_inv f"
  show ?thesis
  proof (cases rule: session_to_cases [of f to r now])
    case (moved c)
    then show ?thesis
      using push_history_inv [OF inv, of c] check_NoneD [OF moved(1)] Req_To by simp
  qed (use inv Req_To in auto)
next
  case (Req_Set_Turn tid)
  assume "session_inv f"
  then show ?thesis using Req_Set_Turn by (simp add: session_inv_def set_turn_def)
qed

definition req_target :: "session_fsm \<Rightarrow> session_req \<Rightarrow> session_state" where
  "req_target f x = (case x of Req_To to _ _ \<Rightarrow> to | Req_Set_Turn _ \<Rightarrow> sf_state f)"

lemma session_step_moves: "sf_state (session_step f x) \<noteq> sf_state f \<Longrightarrow>
    \<exists>to r now. x = Req_To to r now \<and> can_transition (sf_state f) to \<and> sf_state (session_step f x) = to"
proof (cases x)
  case (Req_To to r now)
  assume "sf_state (session_step f x) \<noteq> sf_state f"
  then show ?thesis using Req_To
    by (cases rule: session_to_cases [of f to r now]) (auto dest: check_NoneD)
qed (simp add: set_turn_def)

interpretation voice: declared_machine sf_state "\<lambda>_. can_transition" "\<lambda>_. state_terminal"
    session_inv session_step "\<lambda>x. case x of Req_To to _ _ \<Rightarrow> to | Req_Set_Turn _ \<Rightarrow> Created"
  by unfold_locales
     (auto intro: keeps_inv simp: can_transition_spec dest: session_step_moves spec_edge_terminal)

section \<open>Properties\<close>

text \<open>The compiled table is exactly the declared one: for every ordered pair of states a
  change is permitted if and only if it is one of the fourteen declared edges or leads from a
  state that has not ended to one of the three ends; the reachable targets CanTransition and
  TransitionsFrom report agree and come sorted by name without repetition.\<close>

theorem table_is_exact:
  "(can_transition from to \<longleftrightarrow> spec_edge from to)
   \<and> (to \<in> set (transitions_from from) \<longleftrightarrow> can_transition from to)
   \<and> distinct (transitions_from from)
   \<and> sorted (map state_name (transitions_from from))"
proof -
  have "to \<in> set (transitions_from from) \<longleftrightarrow> can_transition from to"
    by (simp add: transitions_from_def can_transition_def map_of_None_iff)
  then show ?thesis
    using table_distinct [of "from"] by (simp add: can_transition_spec transitions_from_def)
qed

text \<open>C12. Whatever sequence of requests a session receives, its retained history is a
  contiguous record of permitted moves: at most MaxHistory entries and exactly the latest
  ones, consecutive sequence numbers ending at the number of transitions made, each entry
  starting where the previous one ended, holding a vocabulary reason, and the last one ending
  in the current state at the instant it was entered.\<close>

theorem session_history_is_a_trace:
  assumes "new_session_fsm s c p m now = Inr f"
  shows "session_inv (run_ops session_step f reqs)"
  using voice.ops.run_inv new_session_fsm_inv [OF assms] by blast

definition demo_session :: session_fsm where
  "demo_session = \<lparr>sf_session = ''vs1'', sf_call = '''', sf_publishes = True, sf_max_hist = 2,
     sf_state = Created, sf_turn = '''', sf_entered_at = 0, sf_seq = 0, sf_history = []\<rparr>"

lemma demo_session_new: "new_session_fsm ''vs1'' '''' True 2 0 = Inr demo_session"
  by code_simp

theorem session_history_is_a_trace_witness:
  "session_inv (run_ops session_step demo_session
     [Req_To Listening ''ok'' 5, Req_To Speaking ''ok'' 7, Req_To Speaking_Detected ''ok'' 9])"
  by (rule session_history_is_a_trace [OF demo_session_new])

text \<open>A refused request changes nothing and is counted as invalid exactly once; the same
  end requested twice succeeds silently; a different end after the first is refused; and a
  successful move is counted once and published at most once, carrying the held time.\<close>

theorem session_to_outcomes:
  "(case session_to f to r now of
      (f', Some e, out) \<Rightarrow> f' = f \<and> out = [Count_Invalid (sf_state f) to]
    | (f', None, out) \<Rightarrow>
        (f' = f \<and> out = [] \<and> sf_state f = to \<and> state_terminal to)
        \<or> (\<not> state_terminal (sf_state f) \<and> can_transition (sf_state f) to \<and> valid_reason r
           \<and> sf_state f' = to \<and> sf_seq f' = Suc (sf_seq f) \<and> sf_entered_at f' = now
           \<and> (\<exists>ch. sc_in_previous ch = time_in_state f now \<and> sc_seq ch = sf_seq f'
                \<and> sf_history f' = keep_last (sf_max_hist f) (sf_history f @ [ch])
                \<and> out = Count_Transition (sf_state f) to
                     # (if sf_publishes f then [Publish_Change (sf_turn f) ch] else []))))"
proof (cases rule: session_to_cases [of f to r now])
  case (moved c)
  moreover have "sc_in_previous c = time_in_state f now" "sc_seq c = Suc (sf_seq f)"
    using moved(2) by (simp_all add: time_in_state_def)
  ultimately show ?thesis using check_NoneD [OF moved(1)] by (auto intro!: exI [of _ c])
qed auto

text \<open>A session that has ended stays ended, in the same end: no sequence of requests moves
  it, so whether it completed, was cancelled or failed has one answer for ever.\<close>

theorem session_end_is_final:
  assumes "new_session_fsm s c p m now = Inr f"
    and "state_terminal (sf_state (run_ops session_step f reqs))"
  shows "sf_state (run_ops session_step f (reqs @ later)) = sf_state (run_ops session_step f reqs)"
  using voice.final_absorbs voice.ops.run_inv new_session_fsm_inv [OF assms(1)] assms(2)
  by (simp add: run_ops_append)

theorem session_end_is_final_witness:
  "sf_state (run_ops session_step demo_session
     ([Req_To Completed ''call_ended'' 3] @ [Req_To Failed ''crashed'' 4, Req_To Listening ''ok'' 5]))
   = Completed"
proof -
  have e: "sf_state (run_ops session_step demo_session [Req_To Completed ''call_ended'' 3]) = Completed"
    by code_simp
  then show ?thesis
    using session_end_is_final [OF demo_session_new, of "[Req_To Completed ''call_ended'' 3]"
      "[Req_To Failed ''crashed'' 4, Req_To Listening ''ok'' 5]"]
    by (simp add: state_terminal_def)
qed

text \<open>Every session that has not ended can end at once, whichever end is asked for, and
  the agent takes the floor only by thinking first: a request that moves a session into a
  state in which the agent holds the floor moved it from thinking, or from synthesizing to
  speaking.\<close>

theorem session_can_end_and_floor_is_earned:
  "(state_valid (sf_state f) \<and> \<not> state_terminal (sf_state f) \<and> state_terminal to \<and> valid_reason r
      \<longrightarrow> fst (snd (session_to f to r now)) = None
          \<and> sf_state (fst (session_to f to r now)) = to)
   \<and> (agent_holds_floor (sf_state (session_step f x)) \<and> sf_state (session_step f x) \<noteq> sf_state f
      \<longrightarrow> sf_state f = Thinking \<or> sf_state f = Synthesizing \<and> sf_state (session_step f x) = Speaking)"
proof (intro conjI impI)
  assume a: "state_valid (sf_state f) \<and> \<not> state_terminal (sf_state f) \<and> state_terminal to \<and> valid_reason r"
  have "can_transition (sf_state f) to"
    using a unfolding can_transition_spec
    by (auto simp: spec_edge_def state_valid_def all_session_states_def terminal_reachable_from_def
        state_terminal_def split: session_state.splits)
  moreover have "state_valid to"
    using a by (auto simp: state_valid_def all_session_states_def state_terminal_def
        split: session_state.splits)
  ultimately have "check_transition f to r = None"
    using a by (simp add: check_transition_def Let_def)
  moreover have "sf_state f \<noteq> to" using a by auto
  ultimately show "fst (snd (session_to f to r now)) = None"
    and "sf_state (fst (session_to f to r now)) = to"
    by (simp_all add: session_to_def Let_def)
next
  assume a: "agent_holds_floor (sf_state (session_step f x)) \<and> sf_state (session_step f x) \<noteq> sf_state f"
  then have "spec_edge (sf_state f) (sf_state (session_step f x))"
    using session_step_moves [of f x] by (auto simp: can_transition_spec)
  then show "sf_state f = Thinking \<or> sf_state f = Synthesizing \<and> sf_state (session_step f x) = Speaking"
    using a by (auto simp: spec_edge_def agent_holds_floor_def session_transitions_def)
qed

theorem session_can_end_and_floor_is_earned_witness:
  "sf_state (fst (session_to demo_session Failed ''crashed'' 4)) = Failed"
  using session_can_end_and_floor_is_earned [of demo_session Failed "''crashed''" 4]
  by (simp add: demo_session_def state_valid_def all_session_states_def state_terminal_def
      valid_reason_def all_reason_codes_def)

end
