(* ===== verification/MediaFrame.thy ===== *)
theory MediaFrame
  imports Prelude
begin

text \<open>
  Audio formats and frames, \<^verbatim>\<open>packages/go/media/frame.go\<close>, with the sentinel errors of
  \<^verbatim>\<open>errors.go\<close>.  A payload is a list of bytes; the model passes payloads by value, so a
  \<^verbatim>\<open>Clone\<close> is the frame itself, and the borrowing rule of the code (a frame read from a
  buffer is valid until the next operation) is outside the model: a frame is what it was
  when it was returned.  Values of the small enums outside the declared constants are the
  \<open>Other\<close> constructors.
\<close>

unbundle bit_operations_syntax

section \<open>Formats\<close>

datatype sample_format = Format_Unset | PCM16 | PCM32 | Format_Other nat
datatype channel_layout = Layout_Unset | Mono | Stereo | Layout_Other nat
datatype codec = Codec_PCM | Codec_Opaque | Codec_Other nat

definition format_valid :: "sample_format \<Rightarrow> bool" where
  "format_valid f = (f = PCM16 \<or> f = PCM32)"

definition bytes_per_sample :: "sample_format \<Rightarrow> nat" where
  "bytes_per_sample f = (case f of PCM16 \<Rightarrow> 2 | PCM32 \<Rightarrow> 4 | _ \<Rightarrow> 0)"

definition layout_valid :: "channel_layout \<Rightarrow> bool" where
  "layout_valid c = (c = Mono \<or> c = Stereo)"

definition channels :: "channel_layout \<Rightarrow> nat" where
  "channels c = (case c of Mono \<Rightarrow> 1 | Stereo \<Rightarrow> 2 | _ \<Rightarrow> 0)"

definition rate_valid :: "nat \<Rightarrow> bool" where
  "rate_valid r = (8000 \<le> r \<and> r \<le> 192000)"

record audio_format =
  af_format :: sample_format
  af_layout :: channel_layout
  af_rate :: nat
  af_codec :: codec

definition pcm16_mono_8k :: audio_format where
  "pcm16_mono_8k = \<lparr>af_format = PCM16, af_layout = Mono, af_rate = 8000, af_codec = Codec_PCM\<rparr>"

datatype format_problem = Bad_Sample_Format | Bad_Layout | Bad_Rate

definition format_problems :: "audio_format \<Rightarrow> format_problem list" where
  "format_problems a =
     (if \<not> format_valid (af_format a) then [Bad_Sample_Format] else [])
     @ (if \<not> layout_valid (af_layout a) then [Bad_Layout] else [])
     @ (if \<not> rate_valid (af_rate a) then [Bad_Rate] else [])"

definition bytes_per_frame_sample :: "audio_format \<Rightarrow> nat" where
  "bytes_per_frame_sample a = bytes_per_sample (af_format a) * channels (af_layout a)"

definition bytes_for :: "audio_format \<Rightarrow> duration \<Rightarrow> nat" where
  "bytes_for a d =
     (if d \<le> 0 then 0
      else nat (int (af_rate a) * d div second) * bytes_per_frame_sample a)"

definition duration_for :: "audio_format \<Rightarrow> nat \<Rightarrow> duration" where
  "duration_for a n =
     (if af_codec a \<noteq> Codec_PCM then 0
      else let stride = bytes_per_frame_sample a in
        if stride = 0 \<or> af_rate a = 0 then 0
        else int (n div stride) * second div int (af_rate a))"

section \<open>Frames\<close>

type_synonym frame_flags = "8 word"

definition flag_silence :: frame_flags where "flag_silence = 1"
definition flag_discontinuity :: frame_flags where "flag_discontinuity = 2"
definition flag_end_of_stream :: frame_flags where "flag_end_of_stream = 4"

definition has_flag :: "frame_flags \<Rightarrow> frame_flags \<Rightarrow> bool" where
  "has_flag f flag = (f AND flag \<noteq> 0)"

record frame =
  fr_seq :: u64
  fr_timestamp :: duration
  fr_arrival :: instant
  fr_format :: audio_format
  fr_payload :: "byte list"
  fr_flags :: frame_flags

datatype media_error =
    Err_Format "format_problem list"
  | Err_Empty_Payload u64
  | Err_Partial_Sample u64
  | Err_Frame_Too_Large nat nat
  | Err_Format_Mismatch
  | Err_Stream_Closed
  | Err_Buffer_Full
  | Err_Buffer_Empty

definition frame_samples :: "frame \<Rightarrow> nat" where
  "frame_samples f =
     (if af_codec (fr_format f) \<noteq> Codec_PCM then 0
      else let stride = bytes_per_frame_sample (fr_format f) in
        if stride = 0 then 0 else length (fr_payload f) div stride)"

definition frame_duration :: "frame \<Rightarrow> duration" where
  "frame_duration f = duration_for (fr_format f) (length (fr_payload f))"

definition frame_end :: "frame \<Rightarrow> duration" where
  "frame_end f = fr_timestamp f + frame_duration f"

definition frame_empty :: "frame \<Rightarrow> bool" where
  "frame_empty f = (length (fr_payload f) = 0)"

definition clone_into :: "frame \<Rightarrow> nat \<Rightarrow> frame option" where
  "clone_into f dst_len = (if dst_len < length (fr_payload f) then None else Some f)"

definition validate_frame :: "frame \<Rightarrow> media_error option" where
  "validate_frame f =
     (if format_problems (fr_format f) \<noteq> [] then Some (Err_Format (format_problems (fr_format f)))
      else if frame_empty f then Some (Err_Empty_Payload (fr_seq f))
      else if af_codec (fr_format f) \<noteq> Codec_PCM then None
      else if length (fr_payload f) mod bytes_per_frame_sample (fr_format f) \<noteq> 0
           then Some (Err_Partial_Sample (fr_seq f))
      else None)"

definition silence_frame :: "u64 \<Rightarrow> duration \<Rightarrow> audio_format \<Rightarrow> duration \<Rightarrow> frame" where
  "silence_frame sq ts a d =
     \<lparr>fr_seq = sq, fr_timestamp = ts, fr_arrival = 0, fr_format = a,
      fr_payload = replicate (bytes_for a d) 0,
      fr_flags = flag_silence OR flag_discontinuity\<rparr>"

section \<open>Facts about formats\<close>

lemma format_ok: "format_problems a = [] \<longleftrightarrow>
    format_valid (af_format a) \<and> layout_valid (af_layout a) \<and> rate_valid (af_rate a)"
  by (simp add: format_problems_def)

lemma stride_pos: "format_problems a = [] \<Longrightarrow> 0 < bytes_per_frame_sample a"
  by (auto simp: format_ok bytes_per_frame_sample_def format_valid_def layout_valid_def
      bytes_per_sample_def channels_def)

lemma duration_for_nonneg: "0 \<le> duration_for a n"
  by (auto simp: duration_for_def Let_def intro!: pos_imp_zdiv_nonneg_iff [THEN iffD2])

lemma frame_duration_nonneg: "0 \<le> frame_duration f"
  by (simp add: frame_duration_def duration_for_nonneg)

lemma frame_end_ge: "fr_timestamp f \<le> frame_end f"
  using duration_for_nonneg by (simp add: frame_end_def frame_duration_def)

lemma div_div_bounds:
  assumes "0 < (r::int)" and "0 < s" and "0 \<le> d"
  shows "(r * d div s) * s div r \<le> d \<and> r * (d - (r * d div s) * s div r) < s + r"
proof -
  let ?k = "r * d div s"
  have "?k * s + r * d mod s = r * d" by (rule div_mult_mod_eq)
  then have k: "?k * s \<le> r * d" "r * d < ?k * s + s"
    using pos_mod_bound [OF assms(2), of "r * d"] pos_mod_sign [OF assms(2), of "r * d"] by linarith+
  let ?q = "?k * s div r"
  have "?q * r + ?k * s mod r = ?k * s" by (rule div_mult_mod_eq)
  then have q: "?q * r \<le> ?k * s" "?k * s < ?q * r + r"
    using pos_mod_bound [OF assms(1), of "?k * s"] pos_mod_sign [OF assms(1), of "?k * s"] by linarith+
  have "?q * r \<le> d * r" using k(1) q(1) by (simp add: mult.commute)
  then have "?q \<le> d" using assms by simp
  moreover have "r * (d - ?q) = r * d - ?q * r" by (simp add: algebra_simps)
  then have "r * (d - ?q) < s + r" using k(2) q(2) by linarith
  ultimately show ?thesis by simp
qed

lemma bytes_duration_aux:
  assumes "format_problems a = []" and "af_codec a = Codec_PCM" and "0 \<le> d"
  shows "duration_for a (bytes_for a d) \<le> d
    \<and> int (af_rate a) * (d - duration_for a (bytes_for a d)) < second + int (af_rate a)"
proof -
  have r: "0 < int (af_rate a)" using assms(1) by (auto simp: format_ok rate_valid_def)
  have st: "0 < bytes_per_frame_sample a" by (rule stride_pos [OF assms(1)])
  have "0 \<le> int (af_rate a) * d div second" using assms(3) by (simp add: pos_imp_zdiv_nonneg_iff)
  then have "duration_for a (bytes_for a d) = (int (af_rate a) * d div second) * second div int (af_rate a)"
    using assms(2,3) r st by (auto simp: duration_for_def bytes_for_def Let_def)
  then show ?thesis using div_div_bounds [OF r, of second d] assms(3) by simp
qed

section \<open>Properties\<close>

text \<open>Converting a duration to bytes and back never lengthens it, and loses less than
  one sample period plus a nanosecond; the payload is a whole number of samples.\<close>

theorem bytes_duration_roundtrip:
  assumes "format_problems a = []" and "af_codec a = Codec_PCM" and "0 \<le> d"
  shows "duration_for a (bytes_for a d) \<le> d
    \<and> int (af_rate a) * (d - duration_for a (bytes_for a d)) < second + int (af_rate a)
    \<and> bytes_for a d mod bytes_per_frame_sample a = 0"
  using bytes_duration_aux [OF assms] by (simp add: bytes_for_def)

theorem bytes_duration_roundtrip_witness:
  "duration_for pcm16_mono_8k (bytes_for pcm16_mono_8k (20 * millisecond)) \<le> 20 * millisecond"
  using bytes_duration_roundtrip [of pcm16_mono_8k "20 * millisecond"]
  by (simp add: pcm16_mono_8k_def format_problems_def format_valid_def layout_valid_def rate_valid_def)

text \<open>The silence the pipeline synthesises for a lost frame is a valid frame of its format
  whenever it covers at least one sample, it is marked as silence and as a discontinuity and
  not as the end of the stream, and it does not outlast the gap it fills.\<close>

theorem silence_frame_valid:
  assumes "format_problems a = []" and "second \<le> int (af_rate a) * d"
  shows "validate_frame (silence_frame sq ts a d) = None
    \<and> has_flag (fr_flags (silence_frame sq ts a d)) flag_silence
    \<and> has_flag (fr_flags (silence_frame sq ts a d)) flag_discontinuity
    \<and> \<not> has_flag (fr_flags (silence_frame sq ts a d)) flag_end_of_stream
    \<and> frame_end (silence_frame sq ts a d) \<le> ts + d"
proof -
  have st: "0 < bytes_per_frame_sample a" by (rule stride_pos [OF assms(1)])
  have d: "0 < d"
  proof (rule ccontr)
    assume "\<not> 0 < d"
    then have "int (af_rate a) * d \<le> 0" by (simp add: mult_nonneg_nonpos)
    with assms(2) show False by simp
  qed
  have "1 \<le> int (af_rate a) * d div second" using assms(2) by simp
  then have "0 < bytes_for a d" using st d by (simp add: bytes_for_def)
  moreover have "bytes_for a d mod bytes_per_frame_sample a = 0" using d by (simp add: bytes_for_def)
  moreover have "duration_for a (bytes_for a d) \<le> d"
    using bytes_duration_aux [OF assms(1)] d by (cases "af_codec a = Codec_PCM") (auto simp: duration_for_def)
  ultimately show ?thesis using assms(1)
    by (simp add: validate_frame_def silence_frame_def frame_empty_def has_flag_def
        flag_silence_def flag_discontinuity_def flag_end_of_stream_def frame_end_def frame_duration_def)
qed

theorem silence_frame_valid_witness:
  "validate_frame (silence_frame 7 0 pcm16_mono_8k (20 * millisecond)) = None"
  using silence_frame_valid [of pcm16_mono_8k "20 * millisecond" 7 0]
  by (simp add: pcm16_mono_8k_def format_problems_def format_valid_def layout_valid_def rate_valid_def)

end
