(* ===== verification/RingBuffer.thy ===== *)
theory RingBuffer
  imports MediaFrame
begin

text \<open>
  The bounded frame queue of \<^verbatim>\<open>packages/go/media/buffer.go\<close>: a ring of frame metadata
  (\<open>rb_slots\<close>, \<open>rb_head\<close>, \<open>rb_tail\<close>, \<open>rb_count\<close>) over one payload array (\<open>rb_data\<close>) whose
  write position restarts at 0 when a payload would straddle its end; and the pool of payload
  buffers, \<^verbatim>\<open>FramePool\<close>.  Each operation is one critical section of the code's mutex.  Go's
  \<^verbatim>\<open>copy\<close> into \<^verbatim>\<open>data[i:i+n]\<close> is \<open>blit\<close>, and \<^verbatim>\<open>data[i:i+n]\<close> is \<open>slice\<close>.

  What is shown: the ring is a first-in first-out queue whenever the payloads of a stream
  have one length (the interpretation of \<open>bounded_queue\<close>), and it is not one for payloads of
  mixed lengths: an accepted, unread frame can be overwritten.
\<close>

section \<open>State\<close>

datatype overflow_policy = Drop_Newest | Drop_Oldest | Block | Policy_Other nat

definition policy_valid :: "overflow_policy \<Rightarrow> bool" where
  "policy_valid p = (p = Drop_Newest \<or> p = Drop_Oldest \<or> p = Block)"

record slot =
  sl_seq :: u64
  sl_timestamp :: duration
  sl_arrival :: instant
  sl_flags :: frame_flags
  sl_off :: nat
  sl_length :: nat

record ring =
  rb_format :: audio_format
  rb_policy :: overflow_policy
  rb_max_frame :: nat
  rb_slots :: "slot list"
  rb_head :: nat
  rb_tail :: nat
  rb_count :: nat
  rb_data :: "byte list"
  rb_data_head :: nat
  rb_data_tail :: nat
  rb_data_used :: int
  rb_written :: nat
  rb_read :: nat
  rb_dropped :: nat
  rb_overflows :: nat
  rb_underflows :: nat
  rb_closed :: bool

datatype buffer_problem = Bad_Format "format_problem list" | Bad_Capacity | Bad_Max_Frame | Bad_Policy

definition buffer_problems :: "audio_format \<Rightarrow> int \<Rightarrow> int \<Rightarrow> overflow_policy \<Rightarrow> buffer_problem list" where
  "buffer_problems fmt capacity max_frame policy =
     (if format_problems fmt \<noteq> [] then [Bad_Format (format_problems fmt)] else [])
     @ (if capacity \<le> 0 then [Bad_Capacity] else [])
     @ (if max_frame \<le> 0 then [Bad_Max_Frame] else [])
     @ (if \<not> policy_valid policy then [Bad_Policy] else [])"

definition zero_slot :: slot where
  "zero_slot = \<lparr>sl_seq = 0, sl_timestamp = 0, sl_arrival = 0, sl_flags = 0, sl_off = 0, sl_length = 0\<rparr>"

definition new_ring :: "audio_format \<Rightarrow> int \<Rightarrow> int \<Rightarrow> overflow_policy \<Rightarrow> buffer_problem list + ring" where
  "new_ring fmt capacity max_frame policy =
     (if buffer_problems fmt capacity max_frame policy \<noteq> []
      then Inl (buffer_problems fmt capacity max_frame policy)
      else Inr \<lparr>rb_format = fmt, rb_policy = policy, rb_max_frame = nat max_frame,
        rb_slots = replicate (nat capacity) zero_slot, rb_head = 0, rb_tail = 0, rb_count = 0,
        rb_data = replicate (nat capacity * nat max_frame) 0, rb_data_head = 0, rb_data_tail = 0,
        rb_data_used = 0, rb_written = 0, rb_read = 0, rb_dropped = 0, rb_overflows = 0,
        rb_underflows = 0, rb_closed = False\<rparr>)"

definition rb_capacity :: "ring \<Rightarrow> nat" where "rb_capacity b = length (rb_slots b)"
definition rb_full :: "ring \<Rightarrow> bool" where "rb_full b = (rb_count b = length (rb_slots b))"
definition rb_empty :: "ring \<Rightarrow> bool" where "rb_empty b = (rb_count b = 0)"

definition live_slots :: "ring \<Rightarrow> slot list" where
  "live_slots b =
     map (\<lambda>i. rb_slots b ! ((rb_head b + i) mod length (rb_slots b))) [0..<rb_count b]"

definition rb_depth :: "ring \<Rightarrow> duration" where
  "rb_depth b = sum_list (map (\<lambda>s. duration_for (rb_format b) (sl_length s)) (live_slots b))"

definition slice :: "'a list \<Rightarrow> nat \<Rightarrow> nat \<Rightarrow> 'a list" where
  "slice xs i n = take n (drop i xs)"

definition blit :: "'a list \<Rightarrow> nat \<Rightarrow> 'a list \<Rightarrow> 'a list" where
  "blit xs i ys = take i xs @ ys @ drop (i + length ys) xs"

definition slot_frame :: "ring \<Rightarrow> slot \<Rightarrow> frame" where
  "slot_frame b s = \<lparr>fr_seq = sl_seq s, fr_timestamp = sl_timestamp s, fr_arrival = sl_arrival s,
     fr_format = rb_format b, fr_payload = slice (rb_data b) (sl_off s) (sl_length s),
     fr_flags = sl_flags s\<rparr>"

section \<open>Operations\<close>

definition drop_oldest :: "ring \<Rightarrow> ring" where
  "drop_oldest b =
     b\<lparr>rb_data_used := rb_data_used b - int (sl_length (rb_slots b ! rb_head b)),
       rb_head := (rb_head b + 1) mod length (rb_slots b),
       rb_count := rb_count b - 1,
       rb_dropped := rb_dropped b + 1\<rparr>"

text \<open>Placing a payload and its slot: the end of \<^verbatim>\<open>Write\<close>, and the body of \<^verbatim>\<open>Restore\<close>'s loop.\<close>

definition place_frame :: "ring \<Rightarrow> frame \<Rightarrow> ring" where
  "place_frame b f =
     (let n = length (fr_payload f);
          at = (if rb_data_tail b + n > length (rb_data b) then 0 else rb_data_tail b)
      in b\<lparr>rb_data := blit (rb_data b) at (fr_payload f),
           rb_slots := (rb_slots b)[rb_tail b := \<lparr>sl_seq = fr_seq f, sl_timestamp = fr_timestamp f,
              sl_arrival = fr_arrival f, sl_flags = fr_flags f, sl_off = at, sl_length = n\<rparr>],
           rb_data_tail := at + n,
           rb_data_used := rb_data_used b + int n,
           rb_tail := (rb_tail b + 1) mod length (rb_slots b),
           rb_count := rb_count b + 1\<rparr>)"

definition rb_write :: "frame \<Rightarrow> ring \<Rightarrow> ring \<times> media_error option" where
  "rb_write f b =
     (if length (fr_payload f) > rb_max_frame b
      then (b, Some (Err_Frame_Too_Large (length (fr_payload f)) (rb_max_frame b)))
      else if fr_format f \<noteq> rb_format b then (b, Some Err_Format_Mismatch)
      else if rb_closed b then (b, Some Err_Stream_Closed)
      else if rb_count b = length (rb_slots b) then
        (let b1 = b\<lparr>rb_overflows := rb_overflows b + 1\<rparr> in
         if rb_policy b = Drop_Oldest then
           (let b2 = place_frame (drop_oldest b1) f in (b2\<lparr>rb_written := rb_written b2 + 1\<rparr>, None))
         else (b1\<lparr>rb_dropped := rb_dropped b1 + 1\<rparr>, Some Err_Buffer_Full))
      else (let b2 = place_frame b f in (b2\<lparr>rb_written := rb_written b2 + 1\<rparr>, None)))"

definition advance_head :: "ring \<Rightarrow> ring" where
  "advance_head b =
     b\<lparr>rb_head := (rb_head b + 1) mod length (rb_slots b),
       rb_count := rb_count b - 1,
       rb_data_used := rb_data_used b - int (sl_length (rb_slots b ! rb_head b)),
       rb_read := rb_read b + 1\<rparr>"

definition rb_read_op :: "ring \<Rightarrow> ring \<times> (media_error + frame)" where
  "rb_read_op b =
     (if rb_count b = 0 then (b\<lparr>rb_underflows := rb_underflows b + 1\<rparr>, Inl Err_Buffer_Empty)
      else (advance_head b, Inr (slot_frame b (rb_slots b ! rb_head b))))"

definition rb_peek :: "ring \<Rightarrow> media_error + frame" where
  "rb_peek b =
     (if rb_count b = 0 then Inl Err_Buffer_Empty
      else Inr (slot_frame b (rb_slots b ! rb_head b)))"

definition rb_read_into :: "nat \<Rightarrow> ring \<Rightarrow> ring \<times> (media_error + frame)" where
  "rb_read_into dst_len b =
     (if rb_count b = 0 then (b\<lparr>rb_underflows := rb_underflows b + 1\<rparr>, Inl Err_Buffer_Empty)
      else let s = rb_slots b ! rb_head b in
        if dst_len < sl_length s then (b, Inl (Err_Frame_Too_Large (sl_length s) dst_len))
        else (advance_head b, Inr (slot_frame b s)))"

fun drain_loop :: "nat \<Rightarrow> ring \<Rightarrow> ring \<times> frame list" where
  "drain_loop 0 b = (b, [])"
| "drain_loop (Suc n) b =
     (let f = slot_frame b (rb_slots b ! rb_head b); (b', fs) = drain_loop n (advance_head b)
      in (b', f # fs))"

definition rb_drain :: "int \<Rightarrow> ring \<Rightarrow> ring \<times> frame list" where
  "rb_drain n b =
     drain_loop (if n \<le> 0 \<or> n > int (rb_count b) then rb_count b else nat n) b"

text \<open>Emptying the ring, the common part of \<^verbatim>\<open>Flush\<close> and \<^verbatim>\<open>Restore\<close>.\<close>

definition rewound :: "ring \<Rightarrow> ring" where
  "rewound b = b\<lparr>rb_head := 0, rb_tail := 0, rb_count := 0, rb_data_head := 0,
     rb_data_tail := 0, rb_data_used := 0\<rparr>"

definition rb_flush :: "ring \<Rightarrow> ring \<times> nat" where
  "rb_flush b =
     ((rewound b)\<lparr>rb_dropped := rb_dropped b + rb_count b\<rparr>, rb_count b)"

definition rb_close :: "ring \<Rightarrow> ring" where "rb_close b = b\<lparr>rb_closed := True\<rparr>"

definition rb_frames :: "ring \<Rightarrow> frame list" where
  "rb_frames b = map (slot_frame b) (live_slots b)"

text \<open>
  \<^verbatim>\<open>Restore\<close> does not check the size of the frames: slicing the payload array beyond its
  capacity panics, which is \<open>None\<close>.
\<close>

fun restore_loop :: "frame list \<Rightarrow> ring \<Rightarrow> ring option" where
  "restore_loop [] b = Some b"
| "restore_loop (f # fs) b =
     (if length (fr_payload f) > length (rb_data b) then None
      else restore_loop fs (place_frame b f))"

definition rb_restore :: "audio_format \<Rightarrow> frame list \<Rightarrow> ring \<Rightarrow> (ring \<times> media_error option) option" where
  "rb_restore fmt frames b =
     (if fmt \<noteq> rb_format b then Some (b, Some Err_Format_Mismatch)
      else if length frames > length (rb_slots b) then Some (b, Some Err_Buffer_Full)
      else map_option (\<lambda>b'. (b', None)) (restore_loop frames (rewound b)))"

section \<open>The frame pool\<close>

text \<open>A buffer is known by its capacity; \<^verbatim>\<open>Get\<close> hands out a buffer of the pool's size.\<close>

record frame_pool =
  fp_bufs :: "nat list"
  fp_size :: nat
  fp_max :: nat
  fp_gets :: nat
  fp_puts :: nat
  fp_misses :: nat

definition new_frame_pool :: "int \<Rightarrow> int \<Rightarrow> frame_pool" where
  "new_frame_pool buffer_size max_buffers =
     \<lparr>fp_bufs = [], fp_size = (if buffer_size \<le> 0 then 4096 else nat buffer_size),
      fp_max = (if max_buffers \<le> 0 then 64 else nat max_buffers),
      fp_gets = 0, fp_puts = 0, fp_misses = 0\<rparr>"

text \<open>\<open>pool_get\<close> returns the capacity of the buffer handed out and its length.\<close>

definition pool_get :: "frame_pool \<Rightarrow> frame_pool \<times> nat \<times> nat" where
  "pool_get p =
     (let p1 = p\<lparr>fp_gets := fp_gets p + 1\<rparr> in
      if fp_bufs p \<noteq> [] then (p1\<lparr>fp_bufs := butlast (fp_bufs p)\<rparr>, last (fp_bufs p), fp_size p)
      else (p1\<lparr>fp_misses := fp_misses p + 1\<rparr>, fp_size p, fp_size p))"

definition pool_put :: "nat \<Rightarrow> frame_pool \<Rightarrow> frame_pool" where
  "pool_put cap p =
     (if cap < fp_size p then p
      else let p1 = p\<lparr>fp_puts := fp_puts p + 1\<rparr> in
        if length (fp_bufs p) \<ge> fp_max p then p1
        else p1\<lparr>fp_bufs := fp_bufs p @ [cap]\<rparr>)"

section \<open>Slices and blits\<close>

lemma length_blit: "i + length ys \<le> length xs \<Longrightarrow> length (blit xs i ys) = length xs"
  by (simp add: blit_def)

lemma slice_blit_same: "i + length ys \<le> length xs \<Longrightarrow> slice (blit xs i ys) i (length ys) = ys"
  by (simp add: slice_def blit_def)

lemma nth_blit: "i + length ys \<le> length xs \<Longrightarrow> k < length xs \<Longrightarrow>
    blit xs i ys ! k = (if i \<le> k \<and> k < i + length ys then ys ! (k - i) else xs ! k)"
  by (auto simp: blit_def nth_append)

lemma slice_blit_other:
  assumes "i + length ys \<le> length xs" and "j + n \<le> length xs" and "j + n \<le> i \<or> i + length ys \<le> j"
  shows "slice (blit xs i ys) j n = slice xs j n"
  using assms by (intro nth_equalityI) (auto simp: slice_def length_blit nth_blit)

section \<open>Well-formed rings\<close>

definition rb_wf :: "ring \<Rightarrow> bool" where
  "rb_wf b \<longleftrightarrow> 0 < length (rb_slots b) \<and> rb_head b < length (rb_slots b)
     \<and> rb_count b \<le> length (rb_slots b)
     \<and> rb_tail b = (rb_head b + rb_count b) mod length (rb_slots b)
     \<and> length (rb_data b) = length (rb_slots b) * rb_max_frame b
     \<and> rb_data_tail b \<le> length (rb_data b)
     \<and> (\<forall>s \<in> set (live_slots b). sl_off s + sl_length s \<le> length (rb_data b)
          \<and> sl_length s \<le> rb_max_frame b)
     \<and> rb_data_used b = int (sum_list (map sl_length (live_slots b)))"

lemma length_live [simp]: "length (live_slots b) = rb_count b"
  by (simp add: live_slots_def)

lemma nth_live: "i < rb_count b \<Longrightarrow>
    live_slots b ! i = rb_slots b ! ((rb_head b + i) mod length (rb_slots b))"
  by (simp add: live_slots_def)

lemma mod_shift_inj:
  assumes "i < (c::nat)" and "j < c" and "(h + i) mod c = (h + j) mod c"
  shows "i = j"
proof -
  have le: "i = j" if "i \<le> j" "i < c" "j < c" "(h + i) mod c = (h + j) mod c" for i j
  proof -
    have "c dvd (h + j) - (h + i)" using that by (metis add_le_cancel_left mod_eq_dvd_iff_nat)
    then have "c dvd j - i" by simp
    moreover have "j - i < c" using that by simp
    ultimately have "j - i = 0" using dvd_imp_le [of c "j - i"] by linarith
    with that show ?thesis by simp
  qed
  show ?thesis using assms le [of i j] le [of j i] by linarith
qed

lemma live_shift:
  assumes "rb_slots b' = rb_slots b" and "rb_head b' = (rb_head b + 1) mod length (rb_slots b)"
    and "rb_count b' = rb_count b - 1"
  shows "live_slots b' = tl (live_slots b)"
proof (rule nth_equalityI)
  show "length (live_slots b') = length (tl (live_slots b))" using assms by simp
next
  fix i assume "i < length (live_slots b')"
  then have i: "i < rb_count b - 1" using assms by simp
  have "((rb_head b + 1) mod length (rb_slots b) + i) mod length (rb_slots b)
      = (rb_head b + Suc i) mod length (rb_slots b)"
    by (simp add: mod_add_left_eq)
  then show "live_slots b' ! i = tl (live_slots b) ! i"
    using i assms by (simp add: nth_live nth_tl)
qed

lemma hd_live: "0 < rb_count b \<Longrightarrow> rb_head b < length (rb_slots b) \<Longrightarrow>
    live_slots b = rb_slots b ! rb_head b # tl (live_slots b)"
  using nth_live [of 0 b] length_live [of b] by (cases "live_slots b") auto

lemma live_advance: "live_slots (advance_head b) = tl (live_slots b)"
  by (rule live_shift) (simp_all add: advance_head_def)

lemma live_drop_oldest: "live_slots (drop_oldest b) = tl (live_slots b)"
  by (rule live_shift) (simp_all add: drop_oldest_def)

definition place_at :: "ring \<Rightarrow> nat \<Rightarrow> nat" where
  "place_at b n = (if rb_data_tail b + n > length (rb_data b) then 0 else rb_data_tail b)"

definition new_slot :: "frame \<Rightarrow> nat \<Rightarrow> slot" where
  "new_slot f i = \<lparr>sl_seq = fr_seq f, sl_timestamp = fr_timestamp f,
     sl_arrival = fr_arrival f, sl_flags = fr_flags f, sl_off = i, sl_length = length (fr_payload f)\<rparr>"

lemma live_place:
  assumes "rb_wf b" and "rb_count b < length (rb_slots b)"
  shows "live_slots (place_frame b f) = live_slots b @ [new_slot f (place_at b (length (fr_payload f)))]"
proof (rule nth_equalityI)
  show "length (live_slots (place_frame b f)) = length (live_slots b @ [new_slot f (place_at b (length (fr_payload f)))])"
    by (simp add: place_frame_def Let_def)
next
  fix i assume "i < length (live_slots (place_frame b f))"
  then have i: "i \<le> rb_count b" by (simp add: place_frame_def Let_def)
  let ?c = "length (rb_slots b)"
  have tail: "rb_tail b = (rb_head b + rb_count b) mod ?c" "rb_tail b < ?c"
    using assms by (auto simp: rb_wf_def)
  have "(rb_head b + i) mod ?c \<noteq> rb_tail b" if "i < rb_count b"
    using mod_shift_inj [of i ?c "rb_count b" "rb_head b"] that assms(2) tail(1) by auto
  then show "live_slots (place_frame b f) ! i
      = (live_slots b @ [new_slot f (place_at b (length (fr_payload f)))]) ! i"
    using i tail
    by (auto simp: live_slots_def place_frame_def Let_def nth_append new_slot_def place_at_def
        simp del: upt_Suc)
qed

lemma place_room: "rb_wf b \<Longrightarrow> n \<le> rb_max_frame b \<Longrightarrow> place_at b n + n \<le> length (rb_data b)"
  by (cases "length (rb_slots b)") (auto simp: rb_wf_def place_at_def)

lemma wf_place:
  assumes "rb_wf b" and "rb_count b < length (rb_slots b)" and "length (fr_payload f) \<le> rb_max_frame b"
  shows "rb_wf (place_frame b f)"
proof -
  let ?n = "length (fr_payload f)"
  have room: "place_at b ?n + ?n \<le> length (rb_data b)" by (rule place_room [OF assms(1,3)])
  have fields: "rb_slots (place_frame b f) = (rb_slots b)[rb_tail b := new_slot f (place_at b ?n)]"
    "rb_data (place_frame b f) = blit (rb_data b) (place_at b ?n) (fr_payload f)"
    "rb_data_tail (place_frame b f) = place_at b ?n + ?n"
    "rb_head (place_frame b f) = rb_head b" "rb_count (place_frame b f) = Suc (rb_count b)"
    "rb_max_frame (place_frame b f) = rb_max_frame b"
    "rb_tail (place_frame b f) = (rb_tail b + 1) mod length (rb_slots b)"
    "rb_data_used (place_frame b f) = rb_data_used b + int ?n"
    by (auto simp: place_frame_def Let_def place_at_def new_slot_def)
  have "(rb_tail b + 1) mod length (rb_slots b) = (rb_head b + Suc (rb_count b)) mod length (rb_slots b)"
    using assms(1) by (simp add: rb_wf_def mod_Suc_eq)
  then show ?thesis
    using assms room unfolding rb_wf_def live_place [OF assms(1,2)] fields
    by (auto simp: length_blit new_slot_def)
qed

lemma wf_shift:
  assumes "rb_wf b" and "0 < rb_count b"
    and "rb_slots b' = rb_slots b" "rb_head b' = (rb_head b + 1) mod length (rb_slots b)"
      "rb_count b' = rb_count b - 1" "rb_tail b' = rb_tail b" "rb_data b' = rb_data b"
      "rb_data_tail b' = rb_data_tail b" "rb_max_frame b' = rb_max_frame b"
      "rb_data_used b' = rb_data_used b - int (sl_length (rb_slots b ! rb_head b))"
  shows "rb_wf b'"
proof -
  have live: "live_slots b = rb_slots b ! rb_head b # live_slots b'"
    using hd_live [of b] live_shift [of b' b] assms by (simp add: rb_wf_def)
  have "((rb_head b + 1) mod length (rb_slots b) + (rb_count b - 1)) mod length (rb_slots b)
      = (rb_head b + rb_count b) mod length (rb_slots b)"
    using assms(2) mod_add_left_eq [of "rb_head b + 1" "length (rb_slots b)" "rb_count b - 1"]
    by (simp add: algebra_simps)
  then show ?thesis
    using assms live by (auto simp: rb_wf_def)
qed

lemma wf_advance: "rb_wf b \<Longrightarrow> 0 < rb_count b \<Longrightarrow> rb_wf (advance_head b)"
  by (erule wf_shift) (simp_all add: advance_head_def)

lemma wf_drop_oldest: "rb_wf b \<Longrightarrow> 0 < rb_count b \<Longrightarrow> rb_wf (drop_oldest b)"
  by (erule wf_shift) (simp_all add: drop_oldest_def)

text \<open>The counters and the closed flag play no part in well-formedness or contents.\<close>

definition same_ring :: "ring \<Rightarrow> ring \<Rightarrow> bool" where
  "same_ring a b \<longleftrightarrow> rb_slots a = rb_slots b \<and> rb_head a = rb_head b \<and> rb_count a = rb_count b
     \<and> rb_tail a = rb_tail b \<and> rb_data a = rb_data b \<and> rb_data_tail a = rb_data_tail b
     \<and> rb_data_used a = rb_data_used b \<and> rb_max_frame a = rb_max_frame b \<and> rb_format a = rb_format b"

lemma same_ring_live: "same_ring a b \<Longrightarrow> live_slots a = live_slots b"
  by (simp add: live_slots_def same_ring_def)

lemma same_ring_frames: "same_ring a b \<Longrightarrow> rb_frames a = rb_frames b"
  by (simp add: rb_frames_def same_ring_live) (simp add: same_ring_def slot_frame_def)

lemma same_ring_wf: "same_ring a b \<Longrightarrow> rb_wf a = rb_wf b"
  by (simp add: rb_wf_def same_ring_live) (simp add: same_ring_def)

section \<open>Where a payload lands on free space\<close>

definition clear_of :: "nat \<Rightarrow> nat \<Rightarrow> slot \<Rightarrow> bool" where
  "clear_of i n s \<longleftrightarrow> sl_off s + sl_length s \<le> i \<or> i + n \<le> sl_off s"

definition lands_clear :: "ring \<Rightarrow> frame \<Rightarrow> bool" where
  "lands_clear b f \<longleftrightarrow>
     (\<forall>s \<in> set (live_slots b). clear_of (place_at b (length (fr_payload f))) (length (fr_payload f)) s)"

lemma place_frames:
  assumes "rb_wf b" and "rb_count b < length (rb_slots b)" and "length (fr_payload f) \<le> rb_max_frame b"
    and "fr_format f = rb_format b" and "lands_clear b f"
  shows "rb_frames (place_frame b f) = rb_frames b @ [f]"
proof -
  let ?n = "length (fr_payload f)" and ?at = "place_at b (length (fr_payload f))"
  have room: "?at + ?n \<le> length (rb_data b)" by (rule place_room [OF assms(1,3)])
  have data: "rb_data (place_frame b f) = blit (rb_data b) ?at (fr_payload f)"
    and fmt: "rb_format (place_frame b f) = rb_format b"
    by (auto simp: place_frame_def Let_def place_at_def)
  have "slot_frame (place_frame b f) s = slot_frame b s" if "s \<in> set (live_slots b)" for s
    using that assms(1,5) room
    by (auto simp: slot_frame_def data fmt rb_wf_def lands_clear_def clear_of_def
        intro!: slice_blit_other)
  moreover have "slot_frame (place_frame b f) (new_slot f ?at) = f"
    using room assms(4) by (simp add: slot_frame_def data fmt new_slot_def slice_blit_same)
  ultimately show ?thesis by (simp add: rb_frames_def live_place [OF assms(1,2)])
qed

lemma shift_frames:
  assumes "live_slots b' = tl (live_slots b)" "rb_data b' = rb_data b" "rb_format b' = rb_format b"
  shows "rb_frames b' = tl (rb_frames b)"
proof -
  have "slot_frame b' = slot_frame b" using assms by (intro ext) (simp add: slot_frame_def)
  then show ?thesis using assms(1) by (simp add: rb_frames_def map_tl)
qed

lemma advance_frames: "rb_frames (advance_head b) = tl (rb_frames b)"
  by (rule shift_frames [OF live_advance]) (simp_all add: advance_head_def)

lemma drop_oldest_frames: "rb_frames (drop_oldest b) = tl (rb_frames b)"
  by (rule shift_frames [OF live_drop_oldest]) (simp_all add: drop_oldest_def)

lemma read_head: "rb_wf b \<Longrightarrow> 0 < rb_count b \<Longrightarrow>
    rb_frames b = slot_frame b (rb_slots b ! rb_head b) # tl (rb_frames b)"
  using hd_live [of b] unfolding rb_frames_def rb_wf_def by (metis list.simps(9) list.sel(3))

section \<open>Streams with one payload length\<close>

text \<open>
  With payloads of length \<open>s\<close> the array is a sequence of \<open>L\<close> cells and the live payloads are
  consecutive cells of it, modulo \<open>L\<close>; \<open>L\<close> is at least the number of slots.
\<close>

definition laid_out :: "nat \<Rightarrow> ring \<Rightarrow> bool" where
  "laid_out s b \<longleftrightarrow> (\<exists>q t. let L = length (rb_data b) div s in
      t \<le> L \<and> rb_data_tail b = s * t \<and> t mod L = (q + rb_count b) mod L
      \<and> (\<forall>i < rb_count b. sl_off (live_slots b ! i) = s * ((q + i) mod L)
           \<and> sl_length (live_slots b ! i) = s))"

definition uniform :: "nat \<Rightarrow> ring \<Rightarrow> bool" where
  "uniform s b \<longleftrightarrow> rb_wf b \<and> 0 < s \<and> s \<le> rb_max_frame b \<and> laid_out s b"

lemma cells_ge_slots: "rb_wf b \<Longrightarrow> 0 < s \<Longrightarrow> s \<le> rb_max_frame b \<Longrightarrow>
    length (rb_slots b) \<le> length (rb_data b) div s"
  by (simp add: rb_wf_def less_eq_div_iff_mult_less_eq)

lemma laid_out_place:
  assumes "uniform s b" and "rb_count b < length (rb_slots b)" and "length (fr_payload f) = s"
  shows "lands_clear b f \<and> uniform s (place_frame b f)"
proof -
  let ?L = "length (rb_data b) div s"
  have s: "0 < s" "s \<le> rb_max_frame b" and wf: "rb_wf b" using assms(1) by (auto simp: uniform_def)
  have L: "rb_count b < ?L" using cells_ge_slots [OF wf s] assms(2) by linarith
  then have L0: "0 < ?L" by linarith
  obtain q t where t: "t \<le> ?L" "rb_data_tail b = s * t" "t mod ?L = (q + rb_count b) mod ?L"
    and cells: "\<And>i. i < rb_count b \<Longrightarrow>
        sl_off (live_slots b ! i) = s * ((q + i) mod ?L) \<and> sl_length (live_slots b ! i) = s"
    using assms(1) by (auto simp: uniform_def laid_out_def Let_def)
  have full: "s * t + s > length (rb_data b) \<longleftrightarrow> t = ?L"
    using t(1) s(1) less_eq_div_iff_mult_less_eq [OF s(1), of "Suc t" "length (rb_data b)"]
    by (auto simp: algebra_simps)
  then have at: "place_at b s = s * (t mod ?L)"
    using t s(1) by (auto simp: place_at_def)
  have clear: "clear_of (place_at b s) s x" if x: "x \<in> set (live_slots b)" for x
  proof -
    obtain i where i: "i < rb_count b" "x = live_slots b ! i" using x by (auto simp: in_set_conv_nth)
    have "(q + i) mod ?L \<noteq> t mod ?L"
      using mod_shift_inj [of i ?L "rb_count b" q] i L t(3) by auto
    then have "(q + i) mod ?L < t mod ?L \<or> t mod ?L < (q + i) mod ?L" by linarith
    then have "s * ((q + i) mod ?L) + s \<le> s * (t mod ?L) \<or> s * (t mod ?L) + s \<le> s * ((q + i) mod ?L)"
      by (metis Suc_leI mult_Suc_right mult_le_mono2 add.commute)
    then show ?thesis using cells [OF i(1)] i(2) at by (simp add: clear_of_def)
  qed
  have wf': "rb_wf (place_frame b f)" using wf_place [OF wf assms(2)] assms(3) s by simp
  have "laid_out s (place_frame b f)"
  proof -
    have fields: "rb_data_tail (place_frame b f) = s * (t mod ?L + 1)"
      "rb_count (place_frame b f) = Suc (rb_count b)"
      "length (rb_data (place_frame b f)) = length (rb_data b)"
      using at wf' wf assms(3) by (auto simp: place_frame_def Let_def place_at_def rb_wf_def algebra_simps)
    have m: "t mod ?L < ?L" using L0 by simp
    have tail: "(t mod ?L + 1) mod ?L = (q + Suc (rb_count b)) mod ?L"
      using t(3) by (simp add: mod_Suc_eq)
    have "sl_off (live_slots (place_frame b f) ! i) = s * ((q + i) mod ?L)
        \<and> sl_length (live_slots (place_frame b f) ! i) = s" if "i < Suc (rb_count b)" for i
      using that cells t(3) at assms(3)
      by (cases "i = rb_count b") (auto simp: live_place [OF wf assms(2)] nth_append new_slot_def)
    then show ?thesis
      unfolding laid_out_def Let_def fields using m tail by (intro exI [of _ q] exI [of _ "t mod ?L + 1"]) auto
  qed
  then show ?thesis
    using clear wf' s assms(3) by (auto simp: lands_clear_def uniform_def place_frame_def Let_def)
qed

lemma laid_out_shift:
  assumes "uniform s b" and "0 < rb_count b" and "rb_wf b'" and "live_slots b' = tl (live_slots b)"
    and "rb_data b' = rb_data b" "rb_data_tail b' = rb_data_tail b" "rb_count b' = rb_count b - 1"
      "rb_max_frame b' = rb_max_frame b"
  shows "uniform s b'"
proof -
  obtain q t where "let L = length (rb_data b) div s in
      t \<le> L \<and> rb_data_tail b = s * t \<and> t mod L = (q + rb_count b) mod L
      \<and> (\<forall>i < rb_count b. sl_off (live_slots b ! i) = s * ((q + i) mod L)
           \<and> sl_length (live_slots b ! i) = s)"
    using assms(1) by (auto simp: uniform_def laid_out_def)
  then have "laid_out s b'"
    unfolding laid_out_def using assms
    by (intro exI [of _ "Suc q"] exI [of _ t]) (auto simp: Let_def nth_tl)
  then show ?thesis using assms by (auto simp: uniform_def)
qed

lemma uniform_advance: "uniform s b \<Longrightarrow> 0 < rb_count b \<Longrightarrow> uniform s (advance_head b)"
  by (rule laid_out_shift [of s b])
     (auto simp: live_advance wf_advance uniform_def intro: wf_advance, auto simp: advance_head_def)

lemma uniform_drop_oldest: "uniform s b \<Longrightarrow> 0 < rb_count b \<Longrightarrow> uniform s (drop_oldest b)"
  by (rule laid_out_shift [of s b])
     (auto simp: live_drop_oldest uniform_def intro: wf_drop_oldest, auto simp: drop_oldest_def)

lemma same_ring_uniform: "same_ring a b \<Longrightarrow> uniform s a = uniform s b"
  by (simp add: uniform_def laid_out_def same_ring_live same_ring_wf) (simp add: same_ring_def)

lemma uniform_empty:
  assumes "rb_wf b" and "rb_count b = 0" and "rb_data_tail b = 0" and "0 < s" and "s \<le> rb_max_frame b"
  shows "uniform s b"
  using assms unfolding uniform_def laid_out_def Let_def by (auto intro!: exI [of _ "0::nat"])

lemma new_ring_wf: "new_ring fmt cap mx pol = Inr b \<Longrightarrow> rb_wf b"
  by (auto simp: new_ring_def buffer_problems_def rb_wf_def live_slots_def split: if_splits)

lemma new_ring_uniform: "new_ring fmt cap mx pol = Inr b \<Longrightarrow> 0 < s \<Longrightarrow> int s \<le> mx \<Longrightarrow> uniform s b"
  by (rule uniform_empty [OF new_ring_wf]) (auto simp: new_ring_def split: if_splits)

lemma wf_counters:
  "rb_wf (b\<lparr>rb_overflows := i\<rparr>) = rb_wf b" "rb_wf (b\<lparr>rb_written := i\<rparr>) = rb_wf b"
  "rb_wf (b\<lparr>rb_dropped := i\<rparr>) = rb_wf b" "rb_wf (b\<lparr>rb_underflows := i\<rparr>) = rb_wf b"
  "rb_wf (b\<lparr>rb_closed := c\<rparr>) = rb_wf b"
  by (rule same_ring_wf, simp add: same_ring_def)+

lemma frames_counters:
  "rb_frames (b\<lparr>rb_overflows := i\<rparr>) = rb_frames b" "rb_frames (b\<lparr>rb_written := i\<rparr>) = rb_frames b"
  "rb_frames (b\<lparr>rb_dropped := i\<rparr>) = rb_frames b" "rb_frames (b\<lparr>rb_underflows := i\<rparr>) = rb_frames b"
  by (rule same_ring_frames, simp add: same_ring_def)+

lemma uniform_counters:
  "uniform s (b\<lparr>rb_overflows := i\<rparr>) = uniform s b" "uniform s (b\<lparr>rb_written := i\<rparr>) = uniform s b"
  "uniform s (b\<lparr>rb_dropped := i\<rparr>) = uniform s b" "uniform s (b\<lparr>rb_underflows := i\<rparr>) = uniform s b"
  by (rule same_ring_uniform, simp add: same_ring_def)+

section \<open>The ring as a bounded queue\<close>

definition rb_enq :: "frame \<Rightarrow> ring \<Rightarrow> ring \<times> bool" where
  "rb_enq f b = (case rb_write f b of (b', e) \<Rightarrow> (b', e = None))"

definition rb_deq :: "ring \<Rightarrow> ring \<times> frame option" where
  "rb_deq b = (case rb_read_op b of (b', r) \<Rightarrow> (b', case r of Inl _ \<Rightarrow> None | Inr f \<Rightarrow> Some f))"

definition refusing :: "nat \<Rightarrow> audio_format \<Rightarrow> ring \<Rightarrow> bool" where
  "refusing s fmt b \<longleftrightarrow> uniform s b \<and> rb_format b = fmt \<and> \<not> rb_closed b \<and> rb_policy b \<noteq> Drop_Oldest"

definition stream_frame :: "nat \<Rightarrow> audio_format \<Rightarrow> frame \<Rightarrow> bool" where
  "stream_frame s fmt f \<longleftrightarrow> length (fr_payload f) = s \<and> fr_format f = fmt"

lemma length_rb_frames [simp]: "length (rb_frames b) = rb_count b"
  by (simp add: rb_frames_def)

lemma write_room:
  assumes "uniform s b" and "stream_frame s (rb_format b) f" and "\<not> rb_closed b"
    and "rb_count b < length (rb_slots b)"
  obtains b' where "rb_write f b = (b', None)" "rb_frames b' = rb_frames b @ [f]" "uniform s b'"
    "rb_format b' = rb_format b" "rb_closed b' = rb_closed b" "rb_policy b' = rb_policy b"
    "length (rb_slots b') = length (rb_slots b)"
proof
  let ?p = "place_frame b f" and ?b = "(place_frame b f)\<lparr>rb_written := rb_written (place_frame b f) + 1\<rparr>"
  have s: "s \<le> rb_max_frame b" "rb_wf b" using assms(1) by (auto simp: uniform_def)
  show "rb_write f b = (?b, None)"
    using assms s by (simp add: rb_write_def stream_frame_def Let_def)
  have "lands_clear b f \<and> uniform s ?p"
    using laid_out_place assms by (simp add: stream_frame_def)
  then show "uniform s ?b" "rb_frames ?b = rb_frames b @ [f]"
    using place_frames [OF s(2) assms(4), of f] assms(2) s
    by (simp_all add: frames_counters uniform_counters stream_frame_def)
qed (simp_all add: place_frame_def Let_def)

lemma write_full:
  assumes "uniform s b" and "stream_frame s (rb_format b) f" and "\<not> rb_closed b"
    and "rb_count b = length (rb_slots b)" and "rb_policy b \<noteq> Drop_Oldest"
  shows "rb_write f b = (b\<lparr>rb_overflows := rb_overflows b + 1, rb_dropped := rb_dropped b + 1\<rparr>,
           Some Err_Buffer_Full)"
  using assms by (simp add: rb_write_def stream_frame_def uniform_def Let_def)

lemma enq_cases:
  assumes "refusing s fmt b" and "stream_frame s fmt f"
  shows "refusing s fmt (fst (rb_enq f b)) \<and> rb_capacity (fst (rb_enq f b)) = rb_capacity b
    \<and> (if rb_count b < rb_capacity b
       then snd (rb_enq f b) \<and> rb_frames (fst (rb_enq f b)) = rb_frames b @ [f]
       else \<not> snd (rb_enq f b) \<and> rb_frames (fst (rb_enq f b)) = rb_frames b)"
proof (cases "rb_count b < length (rb_slots b)")
  case True
  have u: "uniform s b" "stream_frame s (rb_format b) f" "\<not> rb_closed b"
    using assms by (auto simp: refusing_def)
  obtain b' where "rb_write f b = (b', None)" "rb_frames b' = rb_frames b @ [f]" "uniform s b'"
    "rb_format b' = rb_format b" "rb_closed b' = rb_closed b" "rb_policy b' = rb_policy b"
    "length (rb_slots b') = length (rb_slots b)"
    using write_room [OF u True] by blast
  then show ?thesis using assms True by (simp add: rb_enq_def refusing_def rb_capacity_def)
next
  case False
  let ?b = "b\<lparr>rb_overflows := rb_overflows b + 1, rb_dropped := rb_dropped b + 1\<rparr>"
  have "rb_count b = length (rb_slots b)"
    using assms False by (simp add: refusing_def uniform_def rb_wf_def)
  then have "rb_write f b = (?b, Some Err_Buffer_Full)"
    using assms write_full [of s b f] by (simp add: refusing_def)
  then show ?thesis
    using assms False
    by (simp add: rb_enq_def refusing_def rb_capacity_def frames_counters uniform_counters)
qed

lemma deq_cases:
  assumes "refusing s fmt b"
  shows "refusing s fmt (fst (rb_deq b)) \<and> rb_frames (fst (rb_deq b)) = tl (rb_frames b)
    \<and> snd (rb_deq b) = (if rb_frames b = [] then None else Some (hd (rb_frames b)))"
proof (cases "rb_count b = 0")
  case True
  then have "rb_frames b = []" by (simp add: rb_frames_def live_slots_def)
  then show ?thesis
    using True assms
    by (simp add: rb_deq_def rb_read_op_def refusing_def frames_counters uniform_counters)
next
  case False
  have u: "uniform s b" and wf: "rb_wf b" using assms by (auto simp: refusing_def uniform_def)
  have "rb_frames b = slot_frame b (rb_slots b ! rb_head b) # tl (rb_frames b)"
    using read_head [OF wf] False by simp
  moreover have "rb_format (advance_head b) = rb_format b" "rb_closed (advance_head b) = rb_closed b"
    "rb_policy (advance_head b) = rb_policy b" by (simp_all add: advance_head_def)
  ultimately show ?thesis
    using False assms uniform_advance [OF u] advance_frames [of b]
    by (auto simp: rb_deq_def rb_read_op_def refusing_def) (metis list.sel(1))
qed

interpretation rb: bounded_queue rb_frames "refusing s fmt" "stream_frame s fmt" rb_enq rb_deq rb_capacity
  for s fmt
proof unfold_locales
  fix q x xs
  assume q: "refusing s fmt q"
  show "length (rb_frames q) \<le> rb_capacity q"
    using q by (simp add: refusing_def uniform_def rb_wf_def rb_capacity_def)
  show "refusing s fmt (fst (rb_deq q))" using deq_cases [OF q] by blast
  show "snd (rb_deq q) = None \<and> rb_frames (fst (rb_deq q)) = []" if "rb_frames q = []"
    using deq_cases [OF q] that by simp
  show "snd (rb_deq q) = Some x \<and> rb_frames (fst (rb_deq q)) = xs" if "rb_frames q = x # xs"
    using deq_cases [OF q] that by simp
  assume x: "stream_frame s fmt x"
  show "refusing s fmt (fst (rb_enq x q))" "rb_capacity (fst (rb_enq x q)) = rb_capacity q"
    using enq_cases [OF q x] by blast+
  show "snd (rb_enq x q) \<and> rb_frames (fst (rb_enq x q)) = rb_frames q @ [x]"
    if "length (rb_frames q) < rb_capacity q"
    using enq_cases [OF q x] that by simp
  show "\<not> snd (rb_enq x q) \<and> rb_frames (fst (rb_enq x q)) = rb_frames q"
    if "\<not> length (rb_frames q) < rb_capacity q"
    using enq_cases [OF q x] that by simp
qed

section \<open>Every operation keeps the ring well-formed\<close>

datatype ring_op = Op_Write frame | Op_Read | Op_Read_Into nat | Op_Drain int | Op_Flush | Op_Close

fun rb_step :: "ring \<Rightarrow> ring_op \<Rightarrow> ring" where
  "rb_step b (Op_Write f) = fst (rb_write f b)"
| "rb_step b Op_Read = fst (rb_read_op b)"
| "rb_step b (Op_Read_Into n) = fst (rb_read_into n b)"
| "rb_step b (Op_Drain n) = fst (rb_drain n b)"
| "rb_step b Op_Flush = fst (rb_flush b)"
| "rb_step b Op_Close = rb_close b"

lemma wf_rewound: "rb_wf b \<Longrightarrow> rb_wf (rewound b)"
  by (auto simp: rb_wf_def rewound_def live_slots_def)

lemma drop_oldest_fields [simp]:
  "rb_slots (drop_oldest b) = rb_slots b" "rb_count (drop_oldest b) = rb_count b - 1"
  "rb_max_frame (drop_oldest b) = rb_max_frame b" "rb_format (drop_oldest b) = rb_format b"
  by (simp_all add: drop_oldest_def)

lemma wf_write: "rb_wf b \<Longrightarrow> rb_wf (fst (rb_write f b))"
proof -
  assume wf: "rb_wf b"
  let ?b = "b\<lparr>rb_overflows := rb_overflows b + 1\<rparr>"
  have le: "rb_count b \<le> length (rb_slots b)" "0 < length (rb_slots b)"
    using wf by (simp_all add: rb_wf_def)
  have "rb_wf (place_frame b f)" if "rb_count b \<noteq> length (rb_slots b)" "length (fr_payload f) \<le> rb_max_frame b"
    using wf_place [OF wf _ that(2)] le that(1) by simp
  moreover have "rb_wf (place_frame (drop_oldest ?b) f)"
    if "rb_count b = length (rb_slots b)" "length (fr_payload f) \<le> rb_max_frame b"
  proof (rule wf_place)
    show "rb_wf (drop_oldest ?b)" using wf that le by (intro wf_drop_oldest) (simp_all add: wf_counters)
  qed (use that le in simp_all)
  ultimately show ?thesis
    using wf by (simp add: rb_write_def Let_def wf_counters not_less)
qed

lemma wf_drain_loop: "rb_wf b \<Longrightarrow> n \<le> rb_count b \<Longrightarrow> rb_wf (fst (drain_loop n b))"
proof (induction n arbitrary: b)
  case 0
  then show ?case by simp
next
  case (Suc n)
  have "rb_wf (advance_head b)" "n \<le> rb_count (advance_head b)"
    using Suc.prems wf_advance [of b] by (simp_all add: advance_head_def)
  then show ?case using Suc.IH [of "advance_head b"] by (simp add: Let_def split: prod.split)
       (metis fst_conv)
qed

lemma rb_step_wf [keeps_inv]: "rb_wf b \<Longrightarrow> rb_wf (rb_step b x)"
  by (cases x)
     (auto simp: wf_write rb_read_op_def rb_read_into_def Let_def wf_counters rb_drain_def rb_flush_def
        rb_close_def intro!: wf_advance wf_drain_loop wf_rewound)

interpretation rb_ops: invariant_ops rb_step rb_wf
  by unfold_locales (rule rb_step_wf)

lemma drain_frames: "rb_wf b \<Longrightarrow> n \<le> rb_count b \<Longrightarrow>
    snd (drain_loop n b) = take n (rb_frames b) \<and> rb_frames (fst (drain_loop n b)) = drop n (rb_frames b)"
proof (induction n arbitrary: b)
  case 0
  then show ?case by simp
next
  case (Suc n)
  have wf: "rb_wf (advance_head b)" "n \<le> rb_count (advance_head b)"
    using Suc.prems wf_advance [of b] by (simp_all add: advance_head_def)
  have "rb_frames b = slot_frame b (rb_slots b ! rb_head b) # rb_frames (advance_head b)"
    using read_head [of b] Suc.prems by (simp add: advance_frames)
  then show ?case
    using Suc.IH [OF wf] by (cases "drain_loop n (advance_head b)") (simp add: Let_def)
qed

lemma restore_uniform:
  assumes "uniform s b" and "length fs + rb_count b \<le> length (rb_slots b)"
    and "\<forall>f \<in> set fs. stream_frame s (rb_format b) f"
  shows "\<exists>b'. restore_loop fs b = Some b' \<and> rb_frames b' = rb_frames b @ fs \<and> uniform s b'"
  using assms
proof (induction fs arbitrary: b)
  case Nil
  then show ?case by simp
next
  case (Cons f fs)
  have wf: "rb_wf b" and s: "s \<le> rb_max_frame b" using Cons.prems(1) by (auto simp: uniform_def)
  have f: "length (fr_payload f) = s" "fr_format f = rb_format b"
    using Cons.prems(3) by (auto simp: stream_frame_def)
  have room: "rb_count b < length (rb_slots b)" using Cons.prems(2) by simp
  have fits: "length (fr_payload f) \<le> length (rb_data b)"
    using place_room [OF wf s] f by linarith
  have placed: "lands_clear b f \<and> uniform s (place_frame b f)"
    by (rule laid_out_place [OF Cons.prems(1) room f(1)])
  have "rb_count (place_frame b f) = Suc (rb_count b)"
    "length (rb_slots (place_frame b f)) = length (rb_slots b)"
    "rb_format (place_frame b f) = rb_format b"
    by (simp_all add: place_frame_def Let_def)
  then obtain b' where "restore_loop fs (place_frame b f) = Some b'"
    "rb_frames b' = rb_frames (place_frame b f) @ fs" "uniform s b'"
    using Cons.IH [of "place_frame b f"] placed Cons.prems(2,3) by auto
  then show ?case
    using place_frames [OF wf room _ f(2)] f(1) s placed fits by auto
qed

section \<open>Example streams\<close>

definition audio :: "nat \<Rightarrow> byte \<Rightarrow> frame" where
  "audio n x = \<lparr>fr_seq = of_nat n, fr_timestamp = 0, fr_arrival = 0, fr_format = pcm16_mono_8k,
     fr_payload = replicate n x, fr_flags = 0\<rparr>"

definition small_ring :: "overflow_policy \<Rightarrow> ring" where
  "small_ring pol = \<lparr>rb_format = pcm16_mono_8k, rb_policy = pol, rb_max_frame = 3,
     rb_slots = [zero_slot, zero_slot], rb_head = 0, rb_tail = 0, rb_count = 0,
     rb_data = [0, 0, 0, 0, 0, 0], rb_data_head = 0, rb_data_tail = 0, rb_data_used = 0,
     rb_written = 0, rb_read = 0, rb_dropped = 0, rb_overflows = 0, rb_underflows = 0,
     rb_closed = False\<rparr>"

lemma pcm16_ok: "format_problems pcm16_mono_8k = []"
  by (simp add: pcm16_mono_8k_def format_problems_def format_valid_def layout_valid_def rate_valid_def)

lemma small_ring_new: "policy_valid pol \<Longrightarrow> new_ring pcm16_mono_8k 2 3 pol = Inr (small_ring pol)"
  by (simp add: new_ring_def buffer_problems_def small_ring_def pcm16_ok) (simp add: numeral_eq_Suc)

definition mixed_slot :: "nat \<Rightarrow> nat \<Rightarrow> slot" where
  "mixed_slot n i = \<lparr>sl_seq = of_nat n, sl_timestamp = 0, sl_arrival = 0, sl_flags = 0,
     sl_off = i, sl_length = n\<rparr>"

definition mixed_ring :: "slot list \<Rightarrow> nat \<Rightarrow> nat \<Rightarrow> nat \<Rightarrow> byte list \<Rightarrow> nat \<Rightarrow> int \<Rightarrow> nat \<Rightarrow> nat \<Rightarrow> ring" where
  "mixed_ring slots h t c data dt du w r = \<lparr>rb_format = pcm16_mono_8k, rb_policy = Drop_Newest,
     rb_max_frame = 3, rb_slots = slots, rb_head = h, rb_tail = t, rb_count = c, rb_data = data,
     rb_data_head = 0, rb_data_tail = dt, rb_data_used = du, rb_written = w, rb_read = r,
     rb_dropped = 0, rb_overflows = 0, rb_underflows = 0, rb_closed = False\<rparr>"

lemmas mixed_run = rb_enq_def rb_deq_def rb_write_def rb_read_op_def place_frame_def advance_head_def
  audio_def mixed_ring_def mixed_slot_def slot_frame_def blit_def slice_def Let_def

lemma mixed_step1: "rb_enq (audio 1 1) (small_ring Drop_Newest)
    = (mixed_ring [mixed_slot 1 0, zero_slot] 0 1 1 [1, 0, 0, 0, 0, 0] 1 1 1 0, True)"
  by (simp add: mixed_run small_ring_def)

lemma mixed_step2: "rb_enq (audio 3 2) (mixed_ring [mixed_slot 1 0, zero_slot] 0 1 1 [1, 0, 0, 0, 0, 0] 1 1 1 0)
    = (mixed_ring [mixed_slot 1 0, mixed_slot 3 1] 0 0 2 [1, 2, 2, 2, 0, 0] 4 4 2 0, True)"
  by (simp add: mixed_run) (simp add: numeral_eq_Suc)

lemma mixed_step3: "rb_deq (mixed_ring [mixed_slot 1 0, mixed_slot 3 1] 0 0 2 [1, 2, 2, 2, 0, 0] 4 4 2 0)
    = (mixed_ring [mixed_slot 1 0, mixed_slot 3 1] 1 0 1 [1, 2, 2, 2, 0, 0] 4 3 2 1, Some (audio 1 1))"
  by (simp add: mixed_run)

lemma mixed_step4: "rb_enq (audio 3 7) (mixed_ring [mixed_slot 1 0, mixed_slot 3 1] 1 0 1 [1, 2, 2, 2, 0, 0] 4 3 2 1)
    = (mixed_ring [mixed_slot 3 0, mixed_slot 3 1] 1 1 2 [7, 7, 7, 2, 0, 0] 3 6 3 1, True)"
  by (simp add: mixed_run) (simp add: numeral_eq_Suc)

lemma mixed_step5: "rb_deq (mixed_ring [mixed_slot 3 0, mixed_slot 3 1] 1 1 2 [7, 7, 7, 2, 0, 0] 3 6 3 1)
    = (mixed_ring [mixed_slot 3 0, mixed_slot 3 1] 0 1 1 [7, 7, 7, 2, 0, 0] 3 3 3 2,
       Some ((audio 3 2)\<lparr>fr_payload := [7, 7, 2]\<rparr>))"
  by (simp add: mixed_run)

section \<open>Properties\<close>



text \<open>The ring is not a queue for payloads of different lengths: in a ring for two frames
  of at most three bytes, after a one-byte and a three-byte write, one read and another
  three-byte write, all accepted, the frame read next is not the second frame written: two of
  its bytes are the third frame's.  No operation reported an error.\<close>

theorem ring_overwrites_unread_frame:
  "case drive rb_enq rb_deq
       [Some (audio 1 1), Some (audio 3 2), None, Some (audio 3 7), None] (small_ring Drop_Newest) of
     (accepted, got, b') \<Rightarrow> map fr_payload accepted = [[1], [2, 2, 2], [7, 7, 7]]
       \<and> map fr_payload got = [[1], [7, 7, 2]]"
  unfolding drive.simps mixed_step1 mixed_step2 mixed_step3 mixed_step4 mixed_step5 Let_def prod.case
  by (simp add: audio_def numeral_eq_Suc)

text \<open>Under the drop-oldest policy a full ring never refuses a frame of the stream: it
  discards exactly the oldest buffered frame, counts it, and appends the new one.\<close>

theorem drop_oldest_keeps_freshest:
  assumes "uniform s b" and "stream_frame s (rb_format b) f" and "\<not> rb_closed b"
    and "rb_policy b = Drop_Oldest" and "rb_full b"
  shows "snd (rb_write f b) = None \<and> rb_frames (fst (rb_write f b)) = tl (rb_frames b) @ [f]
    \<and> rb_dropped (fst (rb_write f b)) = rb_dropped b + 1 \<and> uniform s (fst (rb_write f b))"
proof -
  let ?o = "drop_oldest (b\<lparr>rb_overflows := Suc (rb_overflows b)\<rparr>)"
  have s: "s \<le> rb_max_frame b" and wf: "rb_wf b" using assms(1) by (auto simp: uniform_def)
  have cnt: "rb_count b = length (rb_slots b)" "0 < rb_count b"
    using assms(5) wf by (auto simp: rb_full_def rb_wf_def)
  have u: "uniform s ?o" using assms(1) cnt by (intro uniform_drop_oldest) (simp_all add: uniform_counters)
  have wfo: "rb_wf ?o" using u by (simp add: uniform_def)
  have room: "rb_count ?o < length (rb_slots ?o)" using cnt by simp
  have f: "length (fr_payload f) = s" "fr_format f = rb_format ?o" "length (fr_payload f) \<le> rb_max_frame ?o"
    using assms(2) s by (simp_all add: stream_frame_def)
  have "rb_write f b = ((place_frame ?o f)\<lparr>rb_written := Suc (rb_written (place_frame ?o f))\<rparr>, None)"
    using assms(3,4) cnt f by (simp add: rb_write_def Let_def)
  moreover have "rb_dropped (place_frame ?o f) = rb_dropped b + 1"
    by (simp add: place_frame_def drop_oldest_def Let_def)
  ultimately show ?thesis
    using laid_out_place [OF u room f(1)] place_frames [OF wfo room f(3) f(2)]
    by (simp add: frames_counters uniform_counters drop_oldest_frames)
qed

theorem drop_oldest_keeps_freshest_witness:
  "\<exists>b. rb_full b \<and> rb_frames (fst (rb_write (audio 3 9) b)) = tl (rb_frames b) @ [audio 3 9]"
proof -
  let ?b0 = "small_ring Drop_Oldest"
  have u0: "uniform 3 ?b0" by (rule new_ring_uniform [OF small_ring_new]) (simp_all add: policy_valid_def)
  have p: "stream_frame 3 (rb_format ?b0) (audio 3 x)" for x
    by (simp add: stream_frame_def audio_def small_ring_def)
  obtain b1 where b1: "uniform 3 b1" "rb_frames b1 = rb_frames ?b0 @ [audio 3 1]"
    "rb_format b1 = rb_format ?b0" "rb_closed b1 = rb_closed ?b0" "rb_policy b1 = rb_policy ?b0"
    "length (rb_slots b1) = length (rb_slots ?b0)"
    by (rule write_room [OF u0 p, of 1]) (auto simp: small_ring_def)
  have c1: "rb_count b1 = 1"
    using b1(2) length_rb_frames [of b1] by (simp add: small_ring_def)
  obtain b2 where b2: "uniform 3 b2" "rb_frames b2 = rb_frames b1 @ [audio 3 2]"
    "rb_format b2 = rb_format b1" "rb_closed b2 = rb_closed b1" "rb_policy b2 = rb_policy b1"
    "length (rb_slots b2) = length (rb_slots b1)"
    by (rule write_room [OF b1(1), of "audio 3 2"]) (use p b1 c1 in \<open>auto simp: small_ring_def\<close>)
  have c2: "rb_count b2 = 2" using b2(2) length_rb_frames [of b2] c1 by simp
  have "rb_full b2" using b1 b2 c2 by (simp add: rb_full_def small_ring_def)
  then show ?thesis
    using drop_oldest_keeps_freshest [OF b2(1), of "audio 3 9"] p b1 b2
    by (auto simp: small_ring_def)
qed



text \<open>Recovery round trip: restoring the frames of a snapshot of a one-length stream into
  a ring of the same format with room for them yields exactly those frames; and draining hands
  over the oldest frames first and leaves the rest.\<close>

theorem snapshot_restore_roundtrip:
  assumes "uniform s b" and "rb_wf c" and "s \<le> rb_max_frame c" and "rb_format c = rb_format b"
    and "rb_count b \<le> rb_capacity c" and "\<forall>f \<in> set (rb_frames b). stream_frame s (rb_format b) f"
  shows "\<exists>c'. rb_restore (rb_format b) (rb_frames b) c = Some (c', None) \<and> rb_frames c' = rb_frames b
    \<and> snd (rb_drain n c') = take (if n \<le> 0 \<or> n > int (rb_count b) then rb_count b else nat n) (rb_frames b)"
proof -
  have "0 < s" using assms(1) by (simp add: uniform_def)
  then have u: "uniform s (rewound c)"
    by (intro uniform_empty wf_rewound assms(2)) (simp_all add: rewound_def assms(3))
  have "rb_frames (rewound c) = []" "rb_count (rewound c) = 0" "rb_slots (rewound c) = rb_slots c"
    "rb_format (rewound c) = rb_format c"
    by (simp_all add: rb_frames_def live_slots_def rewound_def)
  then obtain c' where c': "restore_loop (rb_frames b) (rewound c) = Some c'"
      "rb_frames c' = rb_frames b" "uniform s c'"
    using restore_uniform [OF u, of "rb_frames b"] assms by (auto simp: rb_capacity_def)
  then have wf: "rb_wf c'" "rb_count c' = rb_count b"
    using length_rb_frames [of c'] by (auto simp: uniform_def)
  then have "snd (rb_drain n c') = take (if n \<le> 0 \<or> n > int (rb_count b) then rb_count b else nat n) (rb_frames b)"
    using drain_frames [OF wf(1)] c'(2) by (auto simp: rb_drain_def)
  then show ?thesis
    using c' assms by (intro exI [of _ c']) (simp add: rb_restore_def rb_capacity_def)
qed

theorem snapshot_restore_roundtrip_witness:
  "\<exists>b c'. rb_frames b = [audio 3 1] \<and>
     rb_restore (rb_format b) (rb_frames b) (small_ring Block) = Some (c', None) \<and> rb_frames c' = rb_frames b"
proof -
  let ?b0 = "small_ring Drop_Newest"
  have u0: "uniform 3 ?b0" by (rule new_ring_uniform [OF small_ring_new]) (simp_all add: policy_valid_def)
  have e: "rb_frames ?b0 = []" by (simp add: rb_frames_def live_slots_def small_ring_def)
  obtain b1 where b1: "uniform 3 b1" "rb_frames b1 = rb_frames ?b0 @ [audio 3 1]"
    "rb_format b1 = rb_format ?b0"
    by (rule write_room [OF u0, of "audio 3 1"])
       (auto simp: small_ring_def stream_frame_def audio_def)
  have c1: "rb_count b1 = 1" using b1(2) e length_rb_frames [of b1] by simp
  have "rb_wf (small_ring Block)" by (rule new_ring_wf [OF small_ring_new]) (simp add: policy_valid_def)
  then show ?thesis
    using snapshot_restore_roundtrip [OF b1(1), of "small_ring Block" 0] b1 c1 e
    by (auto simp: small_ring_def rb_capacity_def stream_frame_def audio_def)
qed

text \<open>The frame pool never hands out a buffer that is too small and never keeps more than
  its maximum, whatever buffers are returned to it.\<close>

theorem pool_buffers_large_enough:
  assumes "\<forall>c \<in> set (fp_bufs p). fp_size p \<le> c" and "length (fp_bufs p) \<le> fp_max p"
  shows "(case pool_get p of (p', cap, len) \<Rightarrow> len = fp_size p \<and> len \<le> cap
            \<and> (\<forall>c \<in> set (fp_bufs p'). fp_size p' \<le> c) \<and> length (fp_bufs p') \<le> fp_max p')
    \<and> (\<forall>c \<in> set (fp_bufs (pool_put cap p)). fp_size (pool_put cap p) \<le> c)
    \<and> length (fp_bufs (pool_put cap p)) \<le> fp_max (pool_put cap p)"
  using assms by (auto simp: pool_get_def pool_put_def Let_def dest: in_set_butlastD)

theorem pool_buffers_large_enough_witness:
  "case pool_get (pool_put 20 (pool_put 5 (new_frame_pool 10 1))) of (p', cap, len) \<Rightarrow> len \<le> cap"
proof -
  let ?p = "pool_put 20 (pool_put 5 (new_frame_pool 10 1))"
  have h: "\<forall>c \<in> set (fp_bufs ?p). fp_size ?p \<le> c" "length (fp_bufs ?p) \<le> fp_max ?p"
    by code_simp+
  show ?thesis using pool_buffers_large_enough [OF h, of 0] by (auto split: prod.splits)
qed

end
