(* ===== verification/Jitter.thy ===== *)
theory Jitter
  imports MediaFrame
begin

text \<open>
  The jitter estimator and the jitter buffer of \<^verbatim>\<open>packages/go/media/jitter.go\<close>: frames are
  held in order of media time and released against a playout position.  Every operation is one
  critical section.  Configuration problems are values.  The set of buffered sequence numbers
  (\<^verbatim>\<open>seen\<close>) is a set of 64-bit words; \<^verbatim>\<open>highestReleased+1\<close> wraps as in the code.
\<close>

section \<open>The estimator\<close>

record jitter_est =
  je_jitter :: duration
  je_last_media :: duration
  je_last_wall :: instant
  je_started :: bool
  je_samples :: nat
  je_peak :: duration

definition new_jitter_est :: jitter_est where
  "new_jitter_est = \<lparr>je_jitter = 0, je_last_media = 0, je_last_wall = 0, je_started = False,
     je_samples = 0, je_peak = 0\<rparr>"

definition jitter_gain :: int where "jitter_gain = 16"

definition observe :: "duration \<Rightarrow> instant \<Rightarrow> jitter_est \<Rightarrow> jitter_est" where
  "observe media arrival j =
     (if \<not> je_started j
      then j\<lparr>je_last_media := media, je_last_wall := arrival, je_started := True, je_samples := 1\<rparr>
      else let t0 = (arrival - je_last_wall j) - (media - je_last_media j);
               transit = (if t0 < 0 then - t0 else t0)
           in j\<lparr>je_jitter := je_jitter j + go_div (transit - je_jitter j) jitter_gain,
                je_peak := (if transit > je_peak j then transit else je_peak j),
                je_last_media := media, je_last_wall := arrival,
                je_samples := je_samples j + 1\<rparr>)"

definition reset_est :: "jitter_est \<Rightarrow> jitter_est" where
  "reset_est j = j\<lparr>je_jitter := 0, je_peak := 0, je_samples := 0, je_started := False\<rparr>"

section \<open>The buffer\<close>

datatype disposition = Accepted | Reordered | Late | Duplicate | Too_Early

definition dropped :: "disposition \<Rightarrow> bool" where
  "dropped d = (d = Late \<or> d = Duplicate \<or> d = Too_Early)"

record jitter_config =
  jc_target_delay :: duration
  jc_max_delay :: duration
  jc_min_delay :: duration
  jc_capacity :: int
  jc_adaptive :: bool

definition default_jitter_config :: jitter_config where
  "default_jitter_config = \<lparr>jc_target_delay = 60 * millisecond, jc_max_delay = 200 * millisecond,
     jc_min_delay = 20 * millisecond, jc_capacity = 32, jc_adaptive = True\<rparr>"

datatype jitter_problem = Target_Not_Positive | Min_Negative | Max_Not_Positive | Min_Exceeds_Max
  | Target_Outside | Capacity_Not_Positive

definition jitter_problems :: "jitter_config \<Rightarrow> jitter_problem list" where
  "jitter_problems c =
     (if jc_target_delay c \<le> 0 then [Target_Not_Positive] else [])
     @ (if jc_min_delay c < 0 then [Min_Negative] else [])
     @ (if jc_max_delay c \<le> 0 then [Max_Not_Positive] else [])
     @ (if jc_min_delay c > jc_max_delay c then [Min_Exceeds_Max] else [])
     @ (if jc_target_delay c < jc_min_delay c \<or> jc_target_delay c > jc_max_delay c
        then [Target_Outside] else [])
     @ (if jc_capacity c \<le> 0 then [Capacity_Not_Positive] else [])"

record held_frame =
  hf_frame :: frame
  hf_release_at :: duration

record jitter_buffer =
  jb_cfg :: jitter_config
  jb_est :: jitter_est
  jb_held :: "held_frame list"
  jb_playout :: duration
  jb_started :: bool
  jb_frontier :: duration
  jb_release_frontier :: duration
  jb_highest_released :: u64
  jb_seen :: "u64 set"
  jb_current :: duration
  jb_accepted :: nat
  jb_reordered :: nat
  jb_late :: nat
  jb_duplicates :: nat
  jb_too_early :: nat
  jb_released :: nat
  jb_skipped :: nat

definition new_jitter_buffer :: "jitter_config \<Rightarrow> jitter_problem list + jitter_buffer" where
  "new_jitter_buffer c =
     (if jitter_problems c \<noteq> [] then Inl (jitter_problems c)
      else Inr \<lparr>jb_cfg = c, jb_est = new_jitter_est, jb_held = [], jb_playout = 0,
        jb_started = False, jb_frontier = 0, jb_release_frontier = 0, jb_highest_released = 0,
        jb_seen = {}, jb_current = jc_target_delay c, jb_accepted = 0, jb_reordered = 0,
        jb_late = 0, jb_duplicates = 0, jb_too_early = 0, jb_released = 0, jb_skipped = 0\<rparr>)"

definition adapt :: "jitter_buffer \<Rightarrow> jitter_buffer" where
  "adapt j =
     (let t0 = je_jitter (jb_est j) * 2;
          t1 = (if t0 < jc_min_delay (jb_cfg j) then jc_min_delay (jb_cfg j) else t0);
          target = (if t1 > jc_max_delay (jb_cfg j) then jc_max_delay (jb_cfg j) else t1);
          step = 5 * millisecond
      in if target > jb_current j + step then j\<lparr>jb_current := jb_current j + step\<rparr>
         else if target < jb_current j - step then j\<lparr>jb_current := jb_current j - step\<rparr>
         else j)"

text \<open>The insertion point, scanned from the end: after every frame released no later.\<close>

fun insert_pos :: "held_frame list \<Rightarrow> duration \<Rightarrow> nat \<Rightarrow> nat" where
  "insert_pos hs r 0 = 0"
| "insert_pos hs r (Suc p) = (if hf_release_at (hs ! p) > r then insert_pos hs r p else Suc p)"

text \<open>What \<^verbatim>\<open>Put\<close> does before it looks at the frame: observe, anchor the first frame, adapt.\<close>

definition prepare :: "frame \<Rightarrow> jitter_buffer \<Rightarrow> jitter_buffer" where
  "prepare f j =
     (let j1 = j\<lparr>jb_est := observe (fr_timestamp f) (fr_arrival f) (jb_est j)\<rparr>;
          j2 = (if \<not> jb_started j1
                then j1\<lparr>jb_playout := fr_timestamp f - jb_current j1, jb_frontier := frame_end f,
                        jb_started := True\<rparr>
                else j1)
      in if jc_adaptive (jb_cfg j2) then adapt j2 else j2)"

definition jb_put :: "frame \<Rightarrow> jitter_buffer \<Rightarrow> jitter_buffer \<times> disposition" where
  "jb_put f j0 =
     (let j = prepare f j0 in
      if fr_seq f \<in> jb_seen j \<or> jb_released j > 0 \<and> fr_seq f \<le> jb_highest_released j
      then (j\<lparr>jb_duplicates := jb_duplicates j + 1\<rparr>, Duplicate)
      else if fr_timestamp f < jb_playout j then (j\<lparr>jb_late := jb_late j + 1\<rparr>, Late)
      else if fr_timestamp f > jb_frontier j + jc_max_delay (jb_cfg j)
      then (j\<lparr>jb_too_early := jb_too_early j + 1\<rparr>, Too_Early)
      else if int (length (jb_held j)) \<ge> jc_capacity (jb_cfg j)
      then (j\<lparr>jb_too_early := jb_too_early j + 1\<rparr>, Too_Early)
      else let h = \<lparr>hf_frame = f, hf_release_at = fr_timestamp f\<rparr>;
               pos = insert_pos (jb_held j) (hf_release_at h) (length (jb_held j));
               j' = j\<lparr>jb_held := take pos (jb_held j) @ [h] @ drop pos (jb_held j),
                      jb_frontier := (if frame_end f > jb_frontier j then frame_end f else jb_frontier j),
                      jb_seen := insert (fr_seq f) (jb_seen j)\<rparr>
           in if pos \<noteq> length (jb_held j') - 1
              then (j'\<lparr>jb_reordered := jb_reordered j' + 1\<rparr>, Reordered)
              else (j'\<lparr>jb_accepted := jb_accepted j' + 1\<rparr>, Accepted))"

definition release_limit :: "jitter_buffer \<Rightarrow> jitter_buffer" where
  "release_limit j =
     (let limit = jb_playout j + jb_current j in
      if limit > jb_release_frontier j then j\<lparr>jb_release_frontier := limit\<rparr> else j)"

definition hole_blocks_head :: "jitter_buffer \<Rightarrow> held_frame \<Rightarrow> bool" where
  "hole_blocks_head j h = (jb_released j > 0 \<and> fr_seq (hf_frame h) > jb_highest_released j + 1)"

definition release_head :: "held_frame \<Rightarrow> jitter_buffer \<Rightarrow> jitter_buffer" where
  "release_head h j =
     j\<lparr>jb_held := tl (jb_held j), jb_seen := jb_seen j - {fr_seq (hf_frame h)},
       jb_playout := frame_end (hf_frame h), jb_highest_released := fr_seq (hf_frame h),
       jb_released := jb_released j + 1\<rparr>"

definition jb_get :: "jitter_buffer \<Rightarrow> jitter_buffer \<times> (media_error + frame)" where
  "jb_get j =
     (case jb_held j of
        [] \<Rightarrow> (j, Inl Err_Buffer_Empty)
      | h # _ \<Rightarrow>
          (let j1 = release_limit j in
           if hf_release_at h > jb_release_frontier j1 then
             (if \<not> hole_blocks_head j1 h then (j1, Inl Err_Buffer_Empty)
              else let j2 = j1\<lparr>jb_playout := hf_release_at h,
                               jb_release_frontier := hf_release_at h + jb_current j1,
                               jb_skipped := jb_skipped j1 + 1\<rparr>
                   in (release_head h j2, Inr (hf_frame h)))
           else (release_head h j1, Inr (hf_frame h))))"

definition jb_ready :: "jitter_buffer \<Rightarrow> jitter_buffer \<times> nat" where
  "jb_ready j =
     (let j1 = release_limit j;
          n = length (takeWhile (\<lambda>h. \<not> hf_release_at h > jb_release_frontier j1) (jb_held j1))
      in (j1, if n = 0 \<and> jb_held j1 \<noteq> [] \<and> hole_blocks_head j1 (hd (jb_held j1)) then 1 else n))"

definition jb_depth :: "jitter_buffer \<Rightarrow> duration" where
  "jb_depth j = sum_list (map (\<lambda>h. frame_duration (hf_frame h)) (jb_held j))"

definition jb_peek :: "jitter_buffer \<Rightarrow> frame list" where
  "jb_peek j = map hf_frame (jb_held j)"

definition jb_flush :: "jitter_buffer \<Rightarrow> jitter_buffer \<times> nat" where
  "jb_flush j = (j\<lparr>jb_held := [], jb_seen := {}\<rparr>, length (jb_held j))"

definition jb_reset :: "jitter_buffer \<Rightarrow> jitter_buffer" where
  "jb_reset j = j\<lparr>jb_held := [], jb_seen := {}, jb_playout := 0, jb_frontier := 0,
     jb_release_frontier := 0, jb_started := False, jb_highest_released := 0, jb_skipped := 0,
     jb_current := jc_target_delay (jb_cfg j), jb_est := reset_est (jb_est j)\<rparr>"

section \<open>The invariant\<close>

definition jb_inv :: "jitter_buffer \<Rightarrow> bool" where
  "jb_inv j \<longleftrightarrow> sorted (map hf_release_at (jb_held j))
     \<and> (\<forall>h \<in> set (jb_held j). hf_release_at h = fr_timestamp (hf_frame h))
     \<and> distinct (map (\<lambda>h. fr_seq (hf_frame h)) (jb_held j))
     \<and> jb_seen j = (\<lambda>h. fr_seq (hf_frame h)) ` set (jb_held j)
     \<and> int (length (jb_held j)) \<le> jc_capacity (jb_cfg j)
     \<and> jitter_problems (jb_cfg j) = []
     \<and> jc_min_delay (jb_cfg j) \<le> jb_current j \<and> jb_current j \<le> jc_max_delay (jb_cfg j)
     \<and> (jb_held j \<noteq> [] \<longrightarrow> jb_started j)"

lemma jitter_config_ok: "jitter_problems c = [] \<longleftrightarrow>
    0 < jc_target_delay c \<and> 0 \<le> jc_min_delay c \<and> jc_min_delay c \<le> jc_target_delay c
    \<and> jc_target_delay c \<le> jc_max_delay c \<and> 0 < jc_capacity c"
  by (auto simp: jitter_problems_def)

lemma new_jitter_buffer_inv: "new_jitter_buffer c = Inr j \<Longrightarrow> jb_inv j"
  by (auto simp: new_jitter_buffer_def jb_inv_def jitter_config_ok split: if_splits)

subsection \<open>The insertion point\<close>

lemma insert_pos_le: "insert_pos hs r n \<le> n"
  by (induction n) auto

lemma insert_pos_after: "insert_pos hs r n \<le> i \<Longrightarrow> i < n \<Longrightarrow> r < hf_release_at (hs ! i)"
  by (induction n) (auto simp: less_Suc_eq split: if_splits)

lemma insert_pos_before: "0 < insert_pos hs r n \<Longrightarrow> hf_release_at (hs ! (insert_pos hs r n - 1)) \<le> r"
  by (induction n) (auto split: if_splits)

lemma sorted_insert_pos:
  fixes hs h
  defines "pos \<equiv> insert_pos hs (hf_release_at h) (length hs)"
  assumes "sorted (map hf_release_at hs)"
  shows "sorted (map hf_release_at (take pos hs @ [h] @ drop pos hs))"
proof -
  have le: "pos \<le> length hs" by (simp add: pos_def insert_pos_le)
  have "hf_release_at x \<le> hf_release_at h" if x: "x \<in> set (take pos hs)" for x
  proof -
    obtain i where i: "i < pos" "x = hs ! i" using x le by (auto simp: in_set_conv_nth)
    then have "hf_release_at (hs ! i) \<le> hf_release_at (hs ! (pos - 1))"
      using assms(2) le sorted_nth_mono [of "map hf_release_at hs" i "pos - 1"] by simp
    then show ?thesis using i insert_pos_before [of hs "hf_release_at h" "length hs"] pos_def by simp
  qed
  moreover have "hf_release_at h \<le> hf_release_at x" if x: "x \<in> set (drop pos hs)" for x
  proof -
    obtain i where i: "pos \<le> i" "i < length hs" "x = hs ! i"
      using x le by (auto simp: in_set_conv_nth) (metis le_add1 less_diff_conv add.commute)
    then show ?thesis using insert_pos_after [of hs "hf_release_at h" "length hs" i] pos_def by simp
  qed
  moreover have "sorted (map hf_release_at (take pos hs))" "sorted (map hf_release_at (drop pos hs))"
    using assms(2) by (simp_all add: take_map [symmetric] drop_map [symmetric] sorted_wrt_take sorted_wrt_drop)
  ultimately show ?thesis
    using le sorted_wrt_append [of "(\<le>)" "map hf_release_at (take pos hs)" "map hf_release_at (drop pos hs)"]
      assms(2) append_take_drop_id [of pos hs]
    by (auto simp: sorted_append) (metis (no_types, lifting) assms(2) append_take_drop_id in_set_conv_decomp
        le_less_trans not_le order_trans sorted_append map_append image_eqI image_set)
qed

subsection \<open>Every operation keeps the invariant\<close>

lemma adapt_keeps [simp]:
  "jb_held (adapt j) = jb_held j" "jb_seen (adapt j) = jb_seen j" "jb_cfg (adapt j) = jb_cfg j"
  "jb_started (adapt j) = jb_started j" "jb_playout (adapt j) = jb_playout j"
  "jb_released (adapt j) = jb_released j" "jb_highest_released (adapt j) = jb_highest_released j"
  "jb_frontier (adapt j) = jb_frontier j" "jb_release_frontier (adapt j) = jb_release_frontier j"
  "jb_accepted (adapt j) = jb_accepted j" "jb_reordered (adapt j) = jb_reordered j"
  "jb_late (adapt j) = jb_late j" "jb_duplicates (adapt j) = jb_duplicates j"
  "jb_too_early (adapt j) = jb_too_early j" "jb_skipped (adapt j) = jb_skipped j"
  by (simp_all add: adapt_def Let_def)

lemma adapt_bounds:
  "\<lbrakk>jitter_problems (jb_cfg j) = []; jc_min_delay (jb_cfg j) \<le> jb_current j;
    jb_current j \<le> jc_max_delay (jb_cfg j)\<rbrakk>
   \<Longrightarrow> jc_min_delay (jb_cfg j) \<le> jb_current (adapt j) \<and> jb_current (adapt j) \<le> jc_max_delay (jb_cfg j)"
  by (auto simp: adapt_def Let_def jitter_config_ok)

lemma prepare_keeps [simp]:
  "jb_held (prepare f j) = jb_held j" "jb_seen (prepare f j) = jb_seen j"
  "jb_cfg (prepare f j) = jb_cfg j" "jb_started (prepare f j)"
  "jb_released (prepare f j) = jb_released j"
  "jb_highest_released (prepare f j) = jb_highest_released j"
  "jb_release_frontier (prepare f j) = jb_release_frontier j"
  "jb_accepted (prepare f j) = jb_accepted j" "jb_reordered (prepare f j) = jb_reordered j"
  "jb_late (prepare f j) = jb_late j" "jb_duplicates (prepare f j) = jb_duplicates j"
  "jb_too_early (prepare f j) = jb_too_early j" "jb_skipped (prepare f j) = jb_skipped j"
  by (simp_all add: prepare_def Let_def)

lemma prepare_started [simp]:
  "jb_started j \<Longrightarrow> jb_playout (prepare f j) = jb_playout j"
  "jb_started j \<Longrightarrow> jb_frontier (prepare f j) = jb_frontier j"
  by (simp_all add: prepare_def Let_def)

lemma prepare_inv: "jb_inv j \<Longrightarrow> jb_inv (prepare f j)"
  using adapt_bounds [of "j\<lparr>jb_est := observe (fr_timestamp f) (fr_arrival f) (jb_est j)\<rparr>"]
    adapt_bounds [of "j\<lparr>jb_est := observe (fr_timestamp f) (fr_arrival f) (jb_est j),
        jb_playout := fr_timestamp f - jb_current j, jb_frontier := frame_end f, jb_started := True\<rparr>"]
  by (auto simp: jb_inv_def prepare_def Let_def)

text \<open>What one \<^verbatim>\<open>Put\<close> leaves: either only a refusal counter moved, or the frame went in.\<close>

definition insert_held :: "frame \<Rightarrow> held_frame list \<Rightarrow> held_frame list" where
  "insert_held f hs = (let p = insert_pos hs (fr_timestamp f) (length hs)
     in take p hs @ [\<lparr>hf_frame = f, hf_release_at = fr_timestamp f\<rparr>] @ drop p hs)"

lemma set_insert_held: "set (insert_held f hs) = insert \<lparr>hf_frame = f, hf_release_at = fr_timestamp f\<rparr> (set hs)"
proof -
  have "set hs = set (take p hs) \<union> set (drop p hs)" for p
    by (metis append_take_drop_id set_append)
  then show ?thesis by (auto simp: insert_held_def Let_def)
qed

lemma length_insert_held [simp]: "length (insert_held f hs) = Suc (length hs)"
  using insert_pos_le [of hs "fr_timestamp f" "length hs"] by (simp add: insert_held_def Let_def)

lemma distinct_insert_held:
  assumes "distinct (map g hs)" and "g \<lparr>hf_frame = f, hf_release_at = fr_timestamp f\<rparr> \<notin> g ` set hs"
  shows "distinct (map g (insert_held f hs))"
proof -
  define p where "p = insert_pos hs (fr_timestamp f) (length hs)"
  have "distinct (map g (take p hs) @ map g (drop p hs))"
    using assms(1) by (simp flip: map_append)
  moreover have "set hs = set (take p hs) \<union> set (drop p hs)"
    by (metis append_take_drop_id set_append)
  ultimately show ?thesis
    using assms(2) by (auto simp: insert_held_def Let_def p_def [symmetric])
qed

lemma sorted_insert_held: "sorted (map hf_release_at hs) \<Longrightarrow> sorted (map hf_release_at (insert_held f hs))"
  using sorted_insert_pos [of hs "\<lparr>hf_frame = f, hf_release_at = fr_timestamp f\<rparr>"]
  by (simp add: insert_held_def Let_def)

lemma jb_put_cases:
  fixes f j0
  defines "j \<equiv> prepare f j0"
  obtains (refused) j' d where "jb_put f j0 = (j', d)" "dropped d"
      "j' = j\<lparr>jb_duplicates := Suc (jb_duplicates j)\<rparr> \<or> j' = j\<lparr>jb_late := Suc (jb_late j)\<rparr>
       \<or> j' = j\<lparr>jb_too_early := Suc (jb_too_early j)\<rparr>"
  | (taken) j' d where "jb_put f j0 = (j', d)" "\<not> dropped d"
      "j' = j\<lparr>jb_held := insert_held f (jb_held j),
           jb_frontier := max (frame_end f) (jb_frontier j),
           jb_seen := insert (fr_seq f) (jb_seen j), jb_accepted := Suc (jb_accepted j)\<rparr> \<or>
       j' = j\<lparr>jb_held := insert_held f (jb_held j),
           jb_frontier := max (frame_end f) (jb_frontier j),
           jb_seen := insert (fr_seq f) (jb_seen j), jb_reordered := Suc (jb_reordered j)\<rparr>"
      "fr_seq f \<notin> jb_seen j0" "jb_released j0 > 0 \<longrightarrow> fr_seq f > jb_highest_released j0"
      "jb_playout j \<le> fr_timestamp f" "int (length (jb_held j0)) < jc_capacity (jb_cfg j0)"
      "fr_timestamp f \<le> jb_frontier j + jc_max_delay (jb_cfg j)"
proof -
  consider (dup) "fr_seq f \<in> jb_seen j \<or> jb_released j > 0 \<and> fr_seq f \<le> jb_highest_released j"
    | (late) "\<not> (fr_seq f \<in> jb_seen j \<or> jb_released j > 0 \<and> fr_seq f \<le> jb_highest_released j)"
      "fr_timestamp f < jb_playout j"
    | (early) "\<not> (fr_seq f \<in> jb_seen j \<or> jb_released j > 0 \<and> fr_seq f \<le> jb_highest_released j)"
      "\<not> fr_timestamp f < jb_playout j"
      "fr_timestamp f > jb_frontier j + jc_max_delay (jb_cfg j) \<or> int (length (jb_held j)) \<ge> jc_capacity (jb_cfg j)"
    | (room) "\<not> (fr_seq f \<in> jb_seen j \<or> jb_released j > 0 \<and> fr_seq f \<le> jb_highest_released j)"
      "\<not> fr_timestamp f < jb_playout j"
      "\<not> fr_timestamp f > jb_frontier j + jc_max_delay (jb_cfg j)" "\<not> int (length (jb_held j)) \<ge> jc_capacity (jb_cfg j)"
    by blast
  then show ?thesis
  proof cases
    case dup
    then have "jb_put f j0 = (j\<lparr>jb_duplicates := Suc (jb_duplicates j)\<rparr>, Duplicate)"
      unfolding jb_put_def Let_def j_def [symmetric] by (simp only: if_True Suc_eq_plus1)
    then show ?thesis by (rule refused) (simp_all add: dropped_def)
  next
    case late
    then have "jb_put f j0 = (j\<lparr>jb_late := Suc (jb_late j)\<rparr>, Late)"
      unfolding jb_put_def Let_def j_def [symmetric] by (simp only: if_True if_False Suc_eq_plus1)
    then show ?thesis by (rule refused) (simp_all add: dropped_def)
  next
    case early
    then have "jb_put f j0 = (j\<lparr>jb_too_early := Suc (jb_too_early j)\<rparr>, Too_Early)"
      unfolding jb_put_def Let_def j_def [symmetric]
      by (cases "fr_timestamp f > jb_frontier j + jc_max_delay (jb_cfg j)")
         (simp_all only: if_True if_False Suc_eq_plus1 simp_thms)
    then show ?thesis by (rule refused) (simp_all add: dropped_def)
  next
    case room
    let ?h = "\<lparr>hf_frame = f, hf_release_at = fr_timestamp f\<rparr>"
    let ?pos = "insert_pos (jb_held j) (fr_timestamp f) (length (jb_held j))"
    have ins: "take ?pos (jb_held j) @ [?h] @ drop ?pos (jb_held j) = insert_held f (jb_held j)"
      by (simp add: insert_held_def Let_def)
    have mx: "(if frame_end f > jb_frontier j then frame_end f else jb_frontier j) = max (frame_end f) (jb_frontier j)"
      by simp
    let ?i = "j\<lparr>jb_held := insert_held f (jb_held j), jb_frontier := max (frame_end f) (jb_frontier j),
           jb_seen := insert (fr_seq f) (jb_seen j)\<rparr>"
    have "jb_put f j0 = (if ?pos \<noteq> length (jb_held ?i) - 1
        then (?i\<lparr>jb_reordered := jb_reordered ?i + 1\<rparr>, Reordered)
        else (?i\<lparr>jb_accepted := jb_accepted ?i + 1\<rparr>, Accepted))"
      unfolding jb_put_def Let_def j_def [symmetric] held_frame.simps ins mx
      using room by (simp only: if_False simp_thms)
    note put = this
    show ?thesis
    proof (cases "?pos = length (jb_held ?i) - 1")
      case True
      then have "jb_put f j0 = (?i\<lparr>jb_accepted := Suc (jb_accepted ?i)\<rparr>, Accepted)"
        unfolding put by (simp del: length_insert_held)
      then show ?thesis using room by (elim taken) (auto simp: dropped_def j_def)
    next
      case False
      then have "jb_put f j0 = (?i\<lparr>jb_reordered := Suc (jb_reordered ?i)\<rparr>, Reordered)"
        unfolding put by (simp del: length_insert_held)
      then show ?thesis using room by (elim taken) (auto simp: dropped_def j_def)
    qed
  qed
qed

lemma jb_put_inv [keeps_inv]:
  assumes "jb_inv j"
  shows "jb_inv (fst (jb_put f j))"
proof (cases rule: jb_put_cases [of f j])
  case refused
  then show ?thesis using prepare_inv [OF assms, of f] by (auto simp: jb_inv_def)
next
  case taken
  then show ?thesis
    using prepare_inv [OF assms, of f]
      sorted_insert_held [of "jb_held j" f]
      distinct_insert_held [of "\<lambda>h. fr_seq (hf_frame h)" "jb_held j" f]
    by (auto simp: jb_inv_def set_insert_held)
qed

lemma release_limit_keeps [simp]:
  "jb_held (release_limit j) = jb_held j" "jb_seen (release_limit j) = jb_seen j"
  "jb_cfg (release_limit j) = jb_cfg j" "jb_started (release_limit j) = jb_started j"
  "jb_playout (release_limit j) = jb_playout j" "jb_current (release_limit j) = jb_current j"
  "jb_released (release_limit j) = jb_released j" "jb_frontier (release_limit j) = jb_frontier j"
  "jb_highest_released (release_limit j) = jb_highest_released j"
  "jb_accepted (release_limit j) = jb_accepted j" "jb_reordered (release_limit j) = jb_reordered j"
  "jb_late (release_limit j) = jb_late j" "jb_duplicates (release_limit j) = jb_duplicates j"
  "jb_too_early (release_limit j) = jb_too_early j" "jb_skipped (release_limit j) = jb_skipped j"
  "jb_release_frontier (release_limit j) = max (jb_release_frontier j) (jb_playout j + jb_current j)"
  by (simp_all add: release_limit_def Let_def)

lemma release_limit_inv: "jb_inv j \<Longrightarrow> jb_inv (release_limit j)"
  by (simp add: jb_inv_def)

text \<open>When the head may leave: due, or blocked by a hole.\<close>

definition releasable :: "jitter_buffer \<Rightarrow> held_frame \<Rightarrow> bool" where
  "releasable j h \<longleftrightarrow> hf_release_at h \<le> max (jb_release_frontier j) (jb_playout j + jb_current j)
     \<or> hole_blocks_head j h"

lemma hole_release_limit [simp]: "hole_blocks_head (release_limit j) h = hole_blocks_head j h"
  by (simp add: hole_blocks_head_def)

lemma jb_get_cases:
  obtains (nothing) "jb_held j = []" "jb_get j = (j, Inl Err_Buffer_Empty)"
  | (waits) h hs where "jb_get j = (release_limit j, Inl Err_Buffer_Empty)" "jb_held j = h # hs"
      "\<not> releasable j h"
  | (gives) h hs p r k where "jb_held j = h # hs" "releasable j h"
      "jb_get j = (release_head h (j\<lparr>jb_playout := p, jb_release_frontier := r, jb_skipped := k\<rparr>),
         Inr (hf_frame h))" "0 \<le> jb_current j \<longrightarrow> max (jb_release_frontier j) (hf_release_at h) \<le> r"
proof (cases "jb_held j")
  case Nil
  then have "jb_get j = (j, Inl Err_Buffer_Empty)" by (simp add: jb_get_def)
  with Nil show ?thesis by (rule nothing)
next
  case (Cons h hs)
  show ?thesis
  proof (cases "releasable j h")
    case False
    then show ?thesis
      by (intro waits [OF _ Cons]) (auto simp: jb_get_def releasable_def Let_def Cons)
  next
    case True
    show ?thesis
    proof (cases "hf_release_at h \<le> max (jb_release_frontier j) (jb_playout j + jb_current j)")
      case due: True
      show ?thesis
        by (rule gives [OF Cons True, where p = "jb_playout j"
              and r = "max (jb_release_frontier j) (jb_playout j + jb_current j)" and k = "jb_skipped j"])
           (use due Cons in \<open>auto simp: jb_get_def Let_def release_limit_def\<close>)
    next
      case False
      then show ?thesis
        using True
        by (intro gives [OF Cons True, where p = "hf_release_at h"
              and r = "hf_release_at h + jb_current j" and k = "jb_skipped j + 1"])
           (auto simp: jb_get_def Let_def release_limit_def releasable_def Cons hole_blocks_head_def)
    qed
  qed
qed

lemma release_head_inv:
  "\<lbrakk>jb_inv j; jb_held j = h # hs\<rbrakk>
   \<Longrightarrow> jb_inv (release_head h (j\<lparr>jb_playout := p, jb_release_frontier := r, jb_skipped := k\<rparr>))"
  by (auto simp: jb_inv_def release_head_def)

lemma jb_get_inv [keeps_inv]: "jb_inv j \<Longrightarrow> jb_inv (fst (jb_get j))"
  by (cases rule: jb_get_cases [of j]) (auto simp: release_limit_inv release_head_inv)

lemma jb_ready_inv [keeps_inv]: "jb_inv j \<Longrightarrow> jb_inv (fst (jb_ready j))"
  by (simp add: jb_ready_def Let_def release_limit_inv)

lemma jb_flush_inv [keeps_inv]: "jb_inv j \<Longrightarrow> jb_inv (fst (jb_flush j))"
  by (auto simp: jb_inv_def jb_flush_def jitter_config_ok)

lemma jb_reset_inv [keeps_inv]: "jb_inv j \<Longrightarrow> jb_inv (jb_reset j)"
  by (auto simp: jb_inv_def jb_reset_def jitter_config_ok)

section \<open>Runs\<close>

datatype jb_op = JPut frame | JGet | JReady | JFlush | JReset

fun jb_step :: "jitter_buffer \<Rightarrow> jb_op \<Rightarrow> jitter_buffer" where
  "jb_step j (JPut f) = fst (jb_put f j)"
| "jb_step j JGet = fst (jb_get j)"
| "jb_step j JReady = fst (jb_ready j)"
| "jb_step j JFlush = fst (jb_flush j)"
| "jb_step j JReset = jb_reset j"

interpretation jb_ops: invariant_ops jb_step jb_inv
proof unfold_locales
  show "jb_inv (jb_step j x)" if "jb_inv j" for j x
    using that by (cases x) (simp_all add: keeps_inv)
qed

text \<open>The frames a run delivers, in order.\<close>

fun jb_delivered :: "jb_op list \<Rightarrow> jitter_buffer \<Rightarrow> frame list" where
  "jb_delivered [] j = []"
| "jb_delivered (x # xs) j =
     (case (x, snd (jb_get j)) of
        (JGet, Inr f) \<Rightarrow> f # jb_delivered xs (jb_step j x)
      | _ \<Rightarrow> jb_delivered xs (jb_step j x))"

definition offered :: "jb_op list \<Rightarrow> frame set" where
  "offered xs = {f. JPut f \<in> set xs}"

lemma offered_Cons [simp]: "offered (JPut f # xs) = insert f (offered xs)"
  "offered (JGet # xs) = offered xs" "offered (JReady # xs) = offered xs"
  "offered (JFlush # xs) = offered xs" "offered (JReset # xs) = offered xs"
  by (auto simp: offered_def)

subsection \<open>Order of delivery\<close>

text \<open>Nothing at or after \<open>b\<close> has been passed: the playout position and every held frame are there.\<close>

definition beyond :: "duration \<Rightarrow> jitter_buffer \<Rightarrow> bool" where
  "beyond b j \<longleftrightarrow> jb_started j \<and> b \<le> jb_playout j \<and> (\<forall>h \<in> set (jb_held j). b \<le> hf_release_at h)"

lemma beyond_step:
  assumes "jb_inv j" and "beyond b j" and "x \<noteq> JReset"
  shows "beyond b (jb_step j x)"
proof (cases x)
  case (JPut f)
  then show ?thesis
    using assms(2) by (cases rule: jb_put_cases [of f j]) (auto simp: beyond_def set_insert_held)
next
  case JGet
  show ?thesis
  proof (cases rule: jb_get_cases [of j])
    case (gives h hs)
    then have "b \<le> hf_release_at h" "hf_release_at h = fr_timestamp (hf_frame h)"
      using assms(1,2) by (auto simp: beyond_def jb_inv_def)
    then show ?thesis
      using gives assms(2) JGet frame_duration_nonneg [of "hf_frame h"]
      by (auto simp: beyond_def release_head_def frame_end_def)
  qed (use assms(2) JGet in \<open>auto simp: beyond_def\<close>)
qed (use assms in \<open>auto simp: beyond_def jb_ready_def jb_flush_def Let_def\<close>)

lemma beyond_delivered:
  assumes "jb_inv j" and "beyond b j" and "JReset \<notin> set xs" and "f \<in> set (jb_delivered xs j)"
  shows "b \<le> fr_timestamp f"
  using assms
proof (induction xs arbitrary: j)
  case Nil
  then show ?case by simp
next
  case (Cons x xs)
  have next': "jb_inv (jb_step j x)" "beyond b (jb_step j x)"
    using Cons.prems beyond_step [of j b x] jb_ops.step_inv by auto
  show ?case
  proof (cases "f \<in> set (jb_delivered xs (jb_step j x))")
    case True
    then show ?thesis using Cons.IH [OF next'] Cons.prems(3) by simp
  next
    case False
    then have "x = JGet" "snd (jb_get j) = Inr f"
      using Cons.prems(4) by (auto split: jb_op.splits sum.splits)
    then show ?thesis
      using Cons.prems(1,2) by (cases rule: jb_get_cases [of j]) (auto simp: beyond_def jb_inv_def)
  qed
qed

lemma after_release:
  assumes "jb_inv j" and "snd (jb_get j) = Inr f"
  shows "beyond (fr_timestamp f) (fst (jb_get j))"
proof (cases rule: jb_get_cases [of j])
  case (gives h hs)
  then have "hf_release_at h = fr_timestamp (hf_frame h)" "\<forall>x \<in> set hs. hf_release_at h \<le> hf_release_at x"
      "jb_started j"
    using assms(1) by (auto simp: jb_inv_def)
  then show ?thesis
    using gives assms(2) frame_duration_nonneg [of f]
    by (auto simp: beyond_def release_head_def frame_end_def)
qed (use assms in auto)

lemma delivered_sorted:
  assumes "jb_inv j" and "JReset \<notin> set xs"
  shows "sorted (map fr_timestamp (jb_delivered xs j))"
  using assms
proof (induction xs arbitrary: j)
  case Nil
  then show ?case by simp
next
  case (Cons x xs)
  have IH: "sorted (map fr_timestamp (jb_delivered xs (jb_step j x)))"
    using Cons.IH [OF jb_ops.step_inv [OF Cons.prems(1), of x]] Cons.prems(2) by simp
  show ?case
  proof (cases "x = JGet \<and> (\<exists>f. snd (jb_get j) = Inr f)")
    case True
    then obtain f where f: "x = JGet" "snd (jb_get j) = Inr f" by blast
    then have "\<forall>g \<in> set (jb_delivered xs (jb_step j x)). fr_timestamp f \<le> fr_timestamp g"
      using beyond_delivered [OF jb_ops.step_inv [OF Cons.prems(1), of x], of "fr_timestamp f"]
        after_release [OF Cons.prems(1)] Cons.prems(2) by simp
    then show ?thesis using IH f by auto
  next
    case False
    then show ?thesis using IH by (auto split: jb_op.splits sum.splits)
  qed
qed

subsection \<open>A source whose numbering follows its clock\<close>

definition in_step :: "frame set \<Rightarrow> bool" where
  "in_step F \<longleftrightarrow> (\<forall>f \<in> F. \<forall>g \<in> F. fr_seq f < fr_seq g \<longleftrightarrow> fr_timestamp f < fr_timestamp g)"

definition fresh_held :: "frame set \<Rightarrow> jitter_buffer \<Rightarrow> bool" where
  "fresh_held F j \<longleftrightarrow> (\<forall>h \<in> set (jb_held j). hf_frame h \<in> F)
     \<and> (jb_released j > 0 \<longrightarrow> (\<forall>h \<in> set (jb_held j). jb_highest_released j < fr_seq (hf_frame h)))"

text \<open>Everything still to come is numbered above \<open>b\<close>.\<close>

definition above :: "u64 \<Rightarrow> jitter_buffer \<Rightarrow> bool" where
  "above b j \<longleftrightarrow> 0 < jb_released j \<and> b \<le> jb_highest_released j"

lemma head_is_least:
  assumes "jb_inv j" and "in_step F" and "fresh_held F j" and "jb_held j = h # hs" and "x \<in> set hs"
  shows "fr_seq (hf_frame h) < fr_seq (hf_frame x)"
proof -
  have F: "hf_frame h \<in> F" "hf_frame x \<in> F" using assms(3-5) by (auto simp: fresh_held_def)
  have ts: "fr_timestamp (hf_frame h) \<le> fr_timestamp (hf_frame x)"
    using assms(1,4,5) by (auto simp: jb_inv_def)
  have ne: "fr_seq (hf_frame h) \<noteq> fr_seq (hf_frame x)"
    using assms(1,4,5) by (auto simp: jb_inv_def)
  have "fr_seq (hf_frame x) < fr_seq (hf_frame h) \<longleftrightarrow> fr_timestamp (hf_frame x) < fr_timestamp (hf_frame h)"
    using assms(2) F by (auto simp: in_step_def)
  then show ?thesis using ts ne by (metis antisym_conv3 leD)
qed

lemma fresh_held_step:
  assumes "jb_inv j" and "in_step F" and "fresh_held F j" and "x \<noteq> JReset" and "\<forall>f. x = JPut f \<longrightarrow> f \<in> F"
  shows "fresh_held F (jb_step j x)"
proof (cases x)
  case (JPut f)
  then show ?thesis
    using assms(3,5) by (cases rule: jb_put_cases [of f j]) (auto simp: fresh_held_def set_insert_held)
next
  case JGet
  show ?thesis
  proof (cases rule: jb_get_cases [of j])
    case (gives h hs)
    then show ?thesis
      using assms(3) JGet head_is_least [OF assms(1-3) gives(1)]
      by (auto simp: fresh_held_def release_head_def)
  qed (use assms(3) JGet in \<open>auto simp: fresh_held_def\<close>)
qed (use assms in \<open>auto simp: fresh_held_def jb_ready_def jb_flush_def Let_def\<close>)

lemma above_step:
  assumes "fresh_held F j" and "above b j" and "x \<noteq> JReset"
  shows "above b (jb_step j x)"
proof (cases x)
  case (JPut f)
  then show ?thesis
    using assms(2) by (cases rule: jb_put_cases [of f j]) (auto simp: above_def)
next
  case JGet
  show ?thesis
    by (cases rule: jb_get_cases [of j])
       (use assms JGet in \<open>auto simp: above_def fresh_held_def release_head_def\<close>)
qed (use assms in \<open>auto simp: above_def jb_ready_def jb_flush_def Let_def\<close>)

lemma get_result:
  assumes "snd (jb_get j) = Inr f"
  obtains h hs where "jb_held j = h # hs" "f = hf_frame h"
    "jb_highest_released (fst (jb_get j)) = fr_seq f" "0 < jb_released (fst (jb_get j))"
  using assms by (cases rule: jb_get_cases [of j]) (auto simp: release_head_def)

lemma above_delivered:
  assumes "jb_inv j" and "in_step F" and "fresh_held F j" and "above b j" and "JReset \<notin> set xs"
    and "offered xs \<subseteq> F" and "f \<in> set (jb_delivered xs j)"
  shows "b < fr_seq f"
  using assms
proof (induction xs arbitrary: j)
  case Nil
  then show ?case by simp
next
  case (Cons x xs)
  have x: "x \<noteq> JReset" "\<forall>f. x = JPut f \<longrightarrow> f \<in> F" using Cons.prems(5,6) by (auto simp: offered_def)
  show ?case
  proof (cases "f \<in> set (jb_delivered xs (jb_step j x))")
    case True
    have "offered xs \<subseteq> F" using Cons.prems(6) by (auto simp: offered_def)
    then show ?thesis
      using Cons.IH [OF jb_ops.step_inv [OF Cons.prems(1)] assms(2)
          fresh_held_step [OF Cons.prems(1-3) x] above_step [OF Cons.prems(3,4) x(1)]] True Cons.prems(5)
      by simp
  next
    case False
    then have "x = JGet" "snd (jb_get j) = Inr f"
      using Cons.prems(7) by (auto split: jb_op.splits sum.splits)
    then show ?thesis
      using Cons.prems(3,4) by (elim get_result) (auto simp: above_def fresh_held_def)
  qed
qed

lemma delivered_strict:
  assumes "jb_inv j" and "in_step F" and "fresh_held F j" and "JReset \<notin> set xs" and "offered xs \<subseteq> F"
  shows "sorted_wrt (<) (map fr_seq (jb_delivered xs j))"
  using assms
proof (induction xs arbitrary: j)
  case Nil
  then show ?case by simp
next
  case (Cons x xs)
  have x: "x \<noteq> JReset" "\<forall>f. x = JPut f \<longrightarrow> f \<in> F" and xs: "offered xs \<subseteq> F"
    using Cons.prems(4,5) by (auto simp: offered_def)
  note next' = jb_ops.step_inv [OF Cons.prems(1), of x] assms(2) fresh_held_step [OF Cons.prems(1-3) x]
  have IH: "sorted_wrt (<) (map fr_seq (jb_delivered xs (jb_step j x)))"
    using Cons.IH [OF next' _ xs] Cons.prems(4) by simp
  show ?case
  proof (cases "x = JGet \<and> (\<exists>f. snd (jb_get j) = Inr f)")
    case True
    then obtain f where f: "x = JGet" "snd (jb_get j) = Inr f" by blast
    then have "above (fr_seq f) (jb_step j x)" by (elim get_result) (auto simp: above_def)
    then have "\<forall>g \<in> set (jb_delivered xs (jb_step j x)). fr_seq f < fr_seq g"
      using above_delivered [OF next' _ _ xs] Cons.prems(4) by simp
    then show ?thesis using IH f by auto
  next
    case False
    then show ?thesis using IH by (auto split: jb_op.splits sum.splits)
  qed
qed

subsection \<open>Accounting\<close>

fun puts :: "jb_op list \<Rightarrow> nat" where
  "puts [] = 0"
| "puts (JPut f # xs) = Suc (puts xs)"
| "puts (_ # xs) = puts xs"

definition jb_offered :: "jitter_buffer \<Rightarrow> nat" where
  "jb_offered j = jb_accepted j + jb_reordered j + jb_late j + jb_duplicates j + jb_too_early j"

lemma jb_offered_step:
  "jb_offered (jb_step j x) = jb_offered j + puts [x]"
proof (cases x)
  case (JPut f)
  then show ?thesis by (cases rule: jb_put_cases [of f j]) (auto simp: jb_offered_def)
next
  case JGet
  then show ?thesis
    by (cases rule: jb_get_cases [of j]) (auto simp: jb_offered_def release_head_def)
qed (auto simp: jb_offered_def jb_ready_def jb_flush_def jb_reset_def Let_def)

lemma jb_offered_run: "jb_offered (run_ops jb_step j xs) = jb_offered j + puts xs"
proof (induction xs arbitrary: j)
  case (Cons x xs)
  then show ?case by (cases x) (simp_all add: jb_offered_step del: jb_step.simps)
qed simp

definition jb_balance :: "jitter_buffer \<Rightarrow> int" where
  "jb_balance j = int (jb_accepted j + jb_reordered j) - int (jb_released j + length (jb_held j))"

lemma jb_balance_step: "x \<noteq> JFlush \<Longrightarrow> x \<noteq> JReset \<Longrightarrow> jb_balance (jb_step j x) = jb_balance j"
proof (cases x)
  case (JPut f)
  then show ?thesis by (cases rule: jb_put_cases [of f j]) (auto simp: jb_balance_def)
next
  case JGet
  then show ?thesis
    by (cases rule: jb_get_cases [of j]) (auto simp: jb_balance_def release_head_def)
qed (auto simp: jb_balance_def jb_ready_def Let_def)

lemma jb_balance_run:
  "JFlush \<notin> set xs \<Longrightarrow> JReset \<notin> set xs \<Longrightarrow> jb_balance (run_ops jb_step j xs) = jb_balance j"
proof (induction xs arbitrary: j)
  case (Cons x xs)
  then show ?case using jb_balance_step [of x j] by (auto simp del: jb_step.simps)
qed simp

subsection \<open>The release limit\<close>

lemma release_frontier_step:
  assumes "jb_inv j" and "x \<noteq> JReset"
  shows "jb_release_frontier j \<le> jb_release_frontier (jb_step j x)"
proof (cases x)
  case (JPut f)
  then show ?thesis by (cases rule: jb_put_cases [of f j]) auto
next
  case JGet
  then show ?thesis
    using assms(1) by (cases rule: jb_get_cases [of j]) (auto simp: release_head_def jb_inv_def jitter_config_ok)
qed (use assms in \<open>auto simp: jb_ready_def jb_flush_def Let_def\<close>)

lemma release_frontier_run:
  "jb_inv j \<Longrightarrow> JReset \<notin> set xs \<Longrightarrow> jb_release_frontier j \<le> jb_release_frontier (run_ops jb_step j xs)"
proof (induction xs arbitrary: j)
  case (Cons x xs)
  then have "jb_release_frontier j \<le> jb_release_frontier (jb_step j x)"
    by (intro release_frontier_step) auto
  also have "\<dots> \<le> jb_release_frontier (run_ops jb_step (jb_step j x) xs)"
    using Cons jb_ops.step_inv by (auto simp del: jb_step.simps)
  finally show ?case by simp
qed simp

subsection \<open>The estimate\<close>

definition je_inv :: "jitter_est \<Rightarrow> bool" where
  "je_inv j \<longleftrightarrow> 0 \<le> je_jitter j \<and> je_jitter j \<le> je_peak j"

lemma div_le_self_nonneg: "0 \<le> (a::int) \<Longrightarrow> 0 < b \<Longrightarrow> a div b \<le> a"
  using zdiv_mono2 [of a 1 b] by simp

lemma smooth_between:
  assumes "0 \<le> (t::int)" and "0 \<le> v"
  shows "0 \<le> v + go_div (t - v) jitter_gain \<and> v + go_div (t - v) jitter_gain \<le> max t v
    \<and> (v \<le> t \<longrightarrow> v \<le> v + go_div (t - v) jitter_gain)"
proof (cases "v \<le> t")
  case True
  then have "go_div (t - v) jitter_gain = (t - v) div 16" by (simp add: go_div_nonneg jitter_gain_def)
  moreover have "0 \<le> (t - v) div 16 \<and> (t - v) div 16 \<le> t - v"
    using True div_le_self_nonneg [of "t - v" 16] by (simp add: pos_imp_zdiv_nonneg_iff)
  ultimately show ?thesis using assms by linarith
next
  case False
  then have "go_div (t - v) jitter_gain = - ((v - t) div 16)" by (simp add: go_div_neg jitter_gain_def)
  moreover have "0 \<le> (v - t) div 16 \<and> (v - t) div 16 \<le> v - t"
    using False div_le_self_nonneg [of "v - t" 16] by (simp add: pos_imp_zdiv_nonneg_iff)
  ultimately show ?thesis using assms False by linarith
qed

lemma observe_inv: "je_inv j \<Longrightarrow> je_inv (observe m a j)"
  using smooth_between [of "\<bar>(a - je_last_wall j) - (m - je_last_media j)\<bar>" "je_jitter j"]
  by (auto simp: je_inv_def observe_def Let_def abs_if split: if_splits)

lemma reset_est_inv: "je_inv (reset_est j)"
  by (simp add: je_inv_def reset_est_def)

section \<open>Properties\<close>


text \<open>For a source whose sequence numbers follow its media clock, no frame is delivered
  twice, retransmissions and stragglers included: the delivered sequence numbers strictly
  increase over any run without a reset.\<close>

theorem jitter_delivers_at_most_once:
  assumes "new_jitter_buffer c = Inr j" and "JReset \<notin> set ops" and "in_step (offered ops)"
  shows "sorted_wrt (<) (map fr_seq (jb_delivered ops j))"
proof -
  have "fresh_held (offered ops) j"
    using assms(1) by (auto simp: new_jitter_buffer_def fresh_held_def split: if_splits)
  then show ?thesis
    using delivered_strict [OF new_jitter_buffer_inv [OF assms(1)] assms(3) _ assms(2)] by simp
qed

text \<open>Every offered frame is counted under exactly one disposition, and every frame that
  was taken has been released or is still held, over any run without a flush or a reset.\<close>

theorem jitter_accounts_for_every_frame:
  assumes "new_jitter_buffer c = Inr j" and "JReset \<notin> set ops" and "JFlush \<notin> set ops"
    and "run_ops jb_step j ops = j'"
  shows "jb_accepted j' + jb_reordered j' + jb_late j' + jb_duplicates j' + jb_too_early j' = puts ops
    \<and> jb_accepted j' + jb_reordered j' = jb_released j' + length (jb_held j')"
proof -
  have "jb_offered j = 0" "jb_balance j = 0"
    using assms(1) by (auto simp: new_jitter_buffer_def jb_offered_def jb_balance_def split: if_splits)
  then show ?thesis
    using jb_offered_run [of j ops] jb_balance_run [OF assms(3,2), of j] assms(4)
    by (simp add: jb_offered_def jb_balance_def)
qed

text \<open>A frame that is due stays due until it is released: however far the adaptive delay
  shrinks afterwards, once a readiness poll has counted a frame due, the first \<^verbatim>\<open>Get\<close> that
  finds it at the head returns it.\<close>

theorem due_frame_stays_due:
  assumes "jb_inv j" and "JReset \<notin> set ops" and "jb_held (run_ops jb_step j (JReady # ops)) = h # hs"
    and "hf_release_at h \<le> jb_release_frontier (fst (jb_ready j))"
  shows "snd (jb_get (run_ops jb_step j (JReady # ops))) = Inr (hf_frame h)"
proof -
  let ?j1 = "fst (jb_ready j)" and ?j2 = "run_ops jb_step j (JReady # ops)"
  have "jb_release_frontier ?j1 \<le> jb_release_frontier ?j2"
    using release_frontier_run [OF jb_ready_inv [OF assms(1)] assms(2)] by simp
  then have "hf_release_at h \<le> jb_release_frontier ?j2" using assms(4) by linarith
  then have "releasable ?j2 h" unfolding releasable_def by linarith
  then show ?thesis using assms(3) by (cases rule: jb_get_cases [of ?j2]) auto
qed

text \<open>Readiness and release agree, and loss never stalls the stream: \<^verbatim>\<open>Ready\<close> reports a
  frame exactly when the \<^verbatim>\<open>Get\<close> after it returns one, and once something has been released a
  head separated from it by a missing sequence number is returned at once.\<close>

theorem ready_agrees_with_get:
  assumes "jb_inv j"
  shows "(0 < snd (jb_ready j)) = (\<exists>f. snd (jb_get (fst (jb_ready j))) = Inr f)
    \<and> (\<forall>h hs. jb_held j = h # hs \<and> hole_blocks_head j h \<longrightarrow> snd (jb_get j) = Inr (hf_frame h))"
proof -
  let ?j = "release_limit j"
  have "(0 < snd (jb_ready j)) = (\<exists>f. snd (jb_get ?j) = Inr f)"
  proof (cases rule: jb_get_cases [of ?j])
    case (waits h hs)
    then show ?thesis by (auto simp: jb_ready_def Let_def releasable_def not_le)
  next
    case (gives h hs)
    then show ?thesis by (auto simp: jb_ready_def Let_def releasable_def)
  qed (simp add: jb_ready_def Let_def)
  moreover have "jb_held j = h # hs \<Longrightarrow> hole_blocks_head j h \<Longrightarrow> snd (jb_get j) = Inr (hf_frame h)" for h hs
    by (cases rule: jb_get_cases [of j]) (auto simp: releasable_def)
  ultimately show ?thesis by (simp add: jb_ready_def Let_def)
qed

text \<open>The buffer never holds more than its capacity, never two frames with one sequence
  number, and the adaptive delay never leaves the configured range, over any run, resets
  included.\<close>

theorem jitter_buffer_bounded:
  assumes "new_jitter_buffer c = Inr j" and "run_ops jb_step j ops = j'"
  shows "int (length (jb_held j')) \<le> jc_capacity c \<and> distinct (map (\<lambda>h. fr_seq (hf_frame h)) (jb_held j'))
    \<and> jc_min_delay c \<le> jb_current j' \<and> jb_current j' \<le> jc_max_delay c
    \<and> sorted (map hf_release_at (jb_held j'))"
proof -
  have "jb_inv j'" using jb_ops.run_inv [OF new_jitter_buffer_inv [OF assms(1)]] assms(2) by blast
  moreover have "jb_cfg (run_ops jb_step j xs) = jb_cfg j" for j xs
  proof (induction xs arbitrary: j)
    case (Cons x xs)
    have "jb_cfg (jb_step j x) = jb_cfg j"
    proof (cases x)
      case (JPut f)
      then show ?thesis by (cases rule: jb_put_cases [of f j]) auto
    next
      case JGet
      then show ?thesis by (cases rule: jb_get_cases [of j]) (auto simp: release_head_def)
    qed (auto simp: jb_ready_def jb_flush_def jb_reset_def Let_def)
    then show ?case using Cons.IH by simp
  qed simp
  moreover have "jb_cfg j = c" using assms(1) by (auto simp: new_jitter_buffer_def split: if_splits)
  ultimately show ?thesis using assms(2) by (auto simp: jb_inv_def)
qed

text \<open>The smoothed jitter estimate is never negative and never above the largest deviation
  seen, whatever timestamps arrive (out of order, repeated, negative).\<close>

theorem estimate_within_peak:
  "0 \<le> je_jitter (fold (\<lambda>(m, a). observe m a) obs new_jitter_est)
   \<and> je_jitter (fold (\<lambda>(m, a). observe m a) obs new_jitter_est)
     \<le> je_peak (fold (\<lambda>(m, a). observe m a) obs new_jitter_est)"
proof -
  have "je_inv j \<Longrightarrow> je_inv (fold (\<lambda>(m, a). observe m a) obs j)" for j
    by (induction obs arbitrary: j) (auto intro: observe_inv)
  moreover have "je_inv new_jitter_est" by (simp add: je_inv_def new_jitter_est_def)
  ultimately show ?thesis by (simp add: je_inv_def)
qed

text \<open>A reset does not forget that frames were released.  After a reset that follows any
  release, the first frame of a source that numbers from zero is refused as a duplicate,
  which is what the reset is documented to prevent.\<close>

theorem reset_refuses_new_source:
  assumes "0 < jb_released j" and "fr_seq f = 0"
  shows "snd (jb_put f (jb_reset j)) = Duplicate"
  using assms by (simp add: jb_put_def Let_def jb_reset_def)

lemma far_frame_dropped:
  assumes "jb_started j" and "jb_frontier j + jc_max_delay (jb_cfg j) < fr_timestamp f"
  shows "dropped (snd (jb_put f j))" and "jb_frontier (fst (jb_put f j)) = jb_frontier j"
    and "jb_started (fst (jb_put f j))" and "jb_cfg (fst (jb_put f j)) = jb_cfg j"
  using assms by (cases rule: jb_put_cases [of f j]; auto)+

text \<open>The too-early bound is measured against the frames taken, not against those offered:
  once a source has jumped more than the maximum delay ahead of the frontier, no later frame
  of it is ever taken, however long it goes on and however the consumer drains.\<close>

theorem gap_is_never_crossed:
  assumes "jb_started j" and "JReset \<notin> set ops"
    and "\<forall>g \<in> insert f (offered ops). jb_frontier j + jc_max_delay (jb_cfg j) < fr_timestamp g"
  shows "dropped (snd (jb_put f (run_ops jb_step j ops)))"
proof -
  have "jb_started (run_ops jb_step j ops) \<and> jb_frontier (run_ops jb_step j ops) = jb_frontier j
      \<and> jb_cfg (run_ops jb_step j ops) = jb_cfg j"
    using assms
  proof (induction ops arbitrary: j)
    case (Cons x xs)
    have "jb_started (jb_step j x) \<and> jb_frontier (jb_step j x) = jb_frontier j \<and> jb_cfg (jb_step j x) = jb_cfg j"
    proof (cases x)
      case (JPut g)
      then show ?thesis using Cons.prems far_frame_dropped [of j g] by simp
    next
      case JGet
      then show ?thesis
        using Cons.prems by (cases rule: jb_get_cases [of j]) (auto simp: release_head_def)
    qed (use Cons.prems in \<open>auto simp: jb_ready_def jb_flush_def Let_def\<close>)
    moreover have "offered xs \<subseteq> offered (x # xs)" by (auto simp: offered_def)
    ultimately show ?case using Cons.IH [of "jb_step j x"] Cons.prems(2,3) by auto
  qed simp
  then show ?thesis using far_frame_dropped(1) [of "run_ops jb_step j ops" f] assms(3) by simp
qed

section \<open>Witnesses\<close>

definition jf :: "nat \<Rightarrow> frame" where
  "jf n = \<lparr>fr_seq = word_of_nat n, fr_timestamp = int n * 20 * millisecond, fr_arrival = 0,
     fr_format = pcm16_mono_8k, fr_payload = replicate 320 0, fr_flags = 0\<rparr>"

definition jb0 :: jitter_buffer where
  "jb0 = \<lparr>jb_cfg = default_jitter_config, jb_est = new_jitter_est, jb_held = [], jb_playout = 0,
     jb_started = False, jb_frontier = 0, jb_release_frontier = 0, jb_highest_released = 0,
     jb_seen = {}, jb_current = 60 * millisecond, jb_accepted = 0, jb_reordered = 0,
     jb_late = 0, jb_duplicates = 0, jb_too_early = 0, jb_released = 0, jb_skipped = 0\<rparr>"

lemma jb0_new: "new_jitter_buffer default_jitter_config = Inr jb0"
  by (simp add: new_jitter_buffer_def jitter_problems_def default_jitter_config_def jb0_def)


theorem jitter_delivers_at_most_once_witness:
  "sorted_wrt (<) (map fr_seq
     (jb_delivered [JPut (jf 0), JPut (jf 2), JPut (jf 1), JPut (jf 2), JGet, JGet, JPut (jf 0), JGet] jb0))"
  by (rule jitter_delivers_at_most_once [OF jb0_new]) (simp_all add: in_step_def offered_def jf_def)

theorem jitter_accounts_for_every_frame_witness:
  "jb_offered (run_ops jb_step jb0 [JPut (jf 0), JGet, JPut (jf 0)]) = 2"
  using jitter_accounts_for_every_frame
      [OF jb0_new, of "[JPut (jf 0), JGet, JPut (jf 0)]", OF _ _ refl]
  by (simp add: jb_offered_def)

definition jb1 :: jitter_buffer where
  "jb1 = jb0\<lparr>jb_held := [\<lparr>hf_frame = jf 0, hf_release_at = 0\<rparr>], jb_seen := {0}, jb_started := True,
     jb_playout := - 60 * millisecond\<rparr>"

lemma jb1_inv: "jb_inv jb1"
  by (simp add: jb_inv_def jb1_def jb0_def jf_def jitter_config_ok default_jitter_config_def)

theorem due_frame_stays_due_witness:
  "snd (jb_get (run_ops jb_step jb1 [JReady, JReady])) = Inr (jf 0)"
  using due_frame_stays_due [OF jb1_inv, of "[JReady]" "\<lparr>hf_frame = jf 0, hf_release_at = 0\<rparr>" "[]"]
  by (simp add: jb_ready_def Let_def jb1_def jb0_def)

theorem ready_agrees_with_get_witness:
  "(0 < snd (jb_ready jb1)) = (\<exists>f. snd (jb_get (fst (jb_ready jb1))) = Inr f)"
  using ready_agrees_with_get [OF jb1_inv] by blast

theorem jitter_buffer_bounded_witness:
  "int (length (jb_held (run_ops jb_step jb0 [JPut (jf 0), JPut (jf 2), JGet, JReset, JPut (jf 1)]))) \<le> 32"
  using jitter_buffer_bounded [OF jb0_new refl, of "[JPut (jf 0), JPut (jf 2), JGet, JReset, JPut (jf 1)]"]
  by (simp add: default_jitter_config_def del: run_ops.simps)

theorem reset_refuses_new_source_witness:
  "snd (jb_put (jf 0) (jb_reset (fst (jb_get jb1)))) = Duplicate"
  by (rule reset_refuses_new_source)
     (simp_all add: jb_get_def jb1_def jb0_def release_limit_def release_head_def Let_def jf_def)

theorem gap_is_never_crossed_witness:
  "dropped (snd (jb_put (jf 101) (run_ops jb_step jb1 [JPut (jf 100), JGet, JPut (jf 102)])))"
  by (rule gap_is_never_crossed)
     (simp_all add: jb1_def jb0_def jf_def default_jitter_config_def offered_def)

end
