(* ===== verification/Breaker.thy ===== *)
theory Breaker
  imports Prelude Complex_Main
begin

text \<open>
  The circuit breaker and the retry policy of \<^verbatim>\<open>packages/go/runtime/breaker.go\<close>, with the
  failure classification of \<^verbatim>\<open>errors.go\<close> they decide by.  Every method is one critical
  section; the clock reads inside one are one instant, the argument \<open>now\<close>.  The report
  function that \<^verbatim>\<open>Allow\<close> returns is a ticket: which report it performs is fixed when it is
  handed out, and \<^verbatim>\<open>sync.Once\<close> lets it act once.  The change callback is the list of the
  transitions it was called with.  The retry policy's floating point figures are exact
  rationals.
\<close>

section \<open>Failure classification\<close>

datatype error_kind = Kind_Unknown | Kind_Transport | Kind_Timeout | Kind_Rate_Limited
  | Kind_Overloaded | Kind_Invalid_Request | Kind_Auth | Kind_Content_Filtered

definition retryable :: "error_kind \<Rightarrow> bool" where
  "retryable k = (k \<in> {Kind_Transport, Kind_Timeout, Kind_Rate_Limited, Kind_Overloaded, Kind_Unknown})"

definition counts_against_breaker :: "error_kind \<Rightarrow> bool" where
  "counts_against_breaker k =
     (k \<notin> {Kind_Rate_Limited, Kind_Invalid_Request, Kind_Auth, Kind_Content_Filtered})"

definition is_unavailable :: "error_kind \<Rightarrow> bool" where
  "is_unavailable k = (k \<in> {Kind_Transport, Kind_Timeout, Kind_Overloaded, Kind_Auth})"

text \<open>A Go error: a provider error, an error that unwraps to another or to nil, or a leaf.\<close>

datatype go_err = Provider_Err error_kind "go_err option" | Wrapped "go_err option" | Plain_Err

fun as_provider_error :: "go_err \<Rightarrow> error_kind option" where
  "as_provider_error (Provider_Err k e) = Some k"
| "as_provider_error (Wrapped None) = None"
| "as_provider_error (Wrapped (Some e)) = as_provider_error e"
| "as_provider_error Plain_Err = None"

definition should_count :: "go_err option \<Rightarrow> bool" where
  "should_count err =
     (case err of
        None \<Rightarrow> True
      | Some e \<Rightarrow> (case as_provider_error e of Some k \<Rightarrow> counts_against_breaker k | None \<Rightarrow> True))"

section \<open>The breaker\<close>

datatype breaker_state = Closed | Open | Half_Open

record breaker_config =
  bc_failure_threshold :: int
  bc_minimum_requests :: int
  bc_window :: duration
  bc_cooldown :: duration
  bc_half_open_probes :: int
  bc_successes_to_close :: int

definition default_breaker_config :: breaker_config where
  "default_breaker_config = \<lparr>bc_failure_threshold = 5, bc_minimum_requests = 10,
     bc_window = 10 * second, bc_cooldown = 5 * second, bc_half_open_probes = 2,
     bc_successes_to_close = 3\<rparr>"

datatype breaker_problem = Threshold_Not_Positive | Minimum_Below_Threshold | Window_Not_Positive
  | Cooldown_Not_Positive | Probes_Not_Positive | Successes_Not_Positive

definition breaker_problems :: "breaker_config \<Rightarrow> breaker_problem list" where
  "breaker_problems c =
     (if bc_failure_threshold c \<le> 0 then [Threshold_Not_Positive] else [])
     @ (if bc_minimum_requests c < bc_failure_threshold c then [Minimum_Below_Threshold] else [])
     @ (if bc_window c \<le> 0 then [Window_Not_Positive] else [])
     @ (if bc_cooldown c \<le> 0 then [Cooldown_Not_Positive] else [])
     @ (if bc_half_open_probes c \<le> 0 then [Probes_Not_Positive] else [])
     @ (if bc_successes_to_close c \<le> 0 then [Successes_Not_Positive] else [])"

record observation =
  ob_at :: instant
  ob_failure :: bool

record breaker =
  br_cfg :: breaker_config
  br_state :: breaker_state
  br_obs :: "observation list"
  br_opened_at :: instant
  br_half_open_calls :: int
  br_half_open_ok :: int
  br_on_change :: bool
  br_changes :: "(breaker_state \<times> breaker_state) list"

definition new_breaker :: "breaker_config \<Rightarrow> breaker_problem list + breaker" where
  "new_breaker c =
     (if breaker_problems c \<noteq> [] then Inl (breaker_problems c)
      else Inr \<lparr>br_cfg = c, br_state = Closed, br_obs = [], br_opened_at = 0,
        br_half_open_calls = 0, br_half_open_ok = 0, br_on_change = False, br_changes = []\<rparr>)"

definition on_state_change :: "breaker \<Rightarrow> breaker" where
  "on_state_change b = b\<lparr>br_on_change := True\<rparr>"

definition br_transition :: "breaker_state \<Rightarrow> breaker \<Rightarrow> breaker" where
  "br_transition to b =
     (if br_state b = to then b
      else let b' = b\<lparr>br_state := to\<rparr>
           in if br_on_change b then b'\<lparr>br_changes := br_changes b @ [(br_state b, to)]\<rparr> else b')"

definition br_evaluate :: "instant \<Rightarrow> breaker \<Rightarrow> breaker" where
  "br_evaluate now b =
     (if br_state b \<noteq> Open then b
      else if now - br_opened_at b \<ge> bc_cooldown (br_cfg b)
           then br_transition Half_Open (b\<lparr>br_half_open_calls := 0, br_half_open_ok := 0\<rparr>)
           else b)"

definition br_trim :: "instant \<Rightarrow> breaker \<Rightarrow> breaker" where
  "br_trim now b =
     b\<lparr>br_obs := dropWhile (\<lambda>ob. \<not> ob_at ob > now - bc_window (br_cfg b)) (br_obs b)\<rparr>"

definition br_count :: "breaker \<Rightarrow> nat \<times> nat" where
  "br_count b = (length (br_obs b), length (filter ob_failure (br_obs b)))"

definition breaker_state_of :: "instant \<Rightarrow> breaker \<Rightarrow> breaker \<times> breaker_state" where
  "breaker_state_of now b = (br_evaluate now b, br_state (br_evaluate now b))"

text \<open>The report function handed out: which report it performs.\<close>

datatype report_fn = Report_Nothing | Report_Closed | Report_Half_Open

definition br_allow :: "instant \<Rightarrow> breaker \<Rightarrow> breaker \<times> bool \<times> report_fn" where
  "br_allow now b0 =
     (let b = br_evaluate now b0 in
      case br_state b of
        Open \<Rightarrow> (b, False, Report_Nothing)
      | Half_Open \<Rightarrow>
          (if br_half_open_calls b \<ge> bc_half_open_probes (br_cfg b) then (b, False, Report_Nothing)
           else (b\<lparr>br_half_open_calls := br_half_open_calls b + 1\<rparr>, True, Report_Half_Open))
      | Closed \<Rightarrow> (b, True, Report_Closed))"

definition report_closed :: "instant \<Rightarrow> go_err option \<Rightarrow> breaker \<Rightarrow> breaker" where
  "report_closed now err b =
     (if \<not> should_count err then b
      else let b1 = br_trim now
                 (b\<lparr>br_obs := br_obs b @ [\<lparr>ob_at = now, ob_failure = (err \<noteq> None)\<rparr>]\<rparr>)
           in if err = None then b1
              else let (total, failures) = br_count b1
                   in if int total \<ge> bc_minimum_requests (br_cfg b1)
                         \<and> int failures \<ge> bc_failure_threshold (br_cfg b1)
                      then (br_transition Open b1)\<lparr>br_opened_at := now\<rparr>
                      else b1)"

definition report_half_open :: "instant \<Rightarrow> go_err option \<Rightarrow> breaker \<Rightarrow> breaker" where
  "report_half_open now err b0 =
     (let b = (if br_half_open_calls b0 > 0
               then b0\<lparr>br_half_open_calls := br_half_open_calls b0 - 1\<rparr> else b0)
      in if err \<noteq> None \<and> should_count err
         then (br_transition Open (b\<lparr>br_half_open_ok := 0\<rparr>))\<lparr>br_opened_at := now\<rparr>
         else if err \<noteq> None then b
         else let b1 = b\<lparr>br_half_open_ok := br_half_open_ok b + 1\<rparr>
              in if br_half_open_ok b1 \<ge> bc_successes_to_close (br_cfg b1)
                 then br_transition Closed (b1\<lparr>br_half_open_ok := 0, br_obs := []\<rparr>)
                 else b1)"

definition br_reset :: "breaker \<Rightarrow> breaker" where
  "br_reset b = br_transition Closed (b\<lparr>br_obs := [], br_half_open_calls := 0, br_half_open_ok := 0\<rparr>)"

section \<open>The breaker in use\<close>

text \<open>
  Callers hold the report functions they were given and call each any number of times; the
  clock does not go back.
\<close>

record ticket =
  tk_report :: report_fn
  tk_used :: bool

record bsys =
  bs_breaker :: breaker
  bs_now :: instant
  bs_tickets :: "ticket list"

datatype bop = BTick nat | BState | BAllow | BReport nat "go_err option" | BReset | BWatch

definition run_report :: "report_fn \<Rightarrow> instant \<Rightarrow> go_err option \<Rightarrow> breaker \<Rightarrow> breaker" where
  "run_report r now err b =
     (case r of Report_Nothing \<Rightarrow> b | Report_Closed \<Rightarrow> report_closed now err b
      | Report_Half_Open \<Rightarrow> report_half_open now err b)"

fun bs_step :: "bsys \<Rightarrow> bop \<Rightarrow> bsys" where
  "bs_step s (BTick d) = s\<lparr>bs_now := bs_now s + int d\<rparr>"
| "bs_step s BState = s\<lparr>bs_breaker := fst (breaker_state_of (bs_now s) (bs_breaker s))\<rparr>"
| "bs_step s BAllow =
     (case br_allow (bs_now s) (bs_breaker s) of
        (b, _, r) \<Rightarrow> s\<lparr>bs_breaker := b, bs_tickets := bs_tickets s @ [\<lparr>tk_report = r, tk_used = False\<rparr>]\<rparr>)"
| "bs_step s (BReport i err) =
     (if i < length (bs_tickets s) \<and> \<not> tk_used (bs_tickets s ! i)
      then s\<lparr>bs_breaker := run_report (tk_report (bs_tickets s ! i)) (bs_now s) err (bs_breaker s),
             bs_tickets := (bs_tickets s)[i := (bs_tickets s ! i)\<lparr>tk_used := True\<rparr>]\<rparr>
      else s)"
| "bs_step s BReset = s\<lparr>bs_breaker := br_reset (bs_breaker s)\<rparr>"
| "bs_step s BWatch = s\<lparr>bs_breaker := on_state_change (bs_breaker s)\<rparr>"

definition bs_start :: "instant \<Rightarrow> breaker \<Rightarrow> bsys" where
  "bs_start t b = \<lparr>bs_breaker = b, bs_now = t, bs_tickets = []\<rparr>"

section \<open>The invariant\<close>

definition br_inv :: "instant \<Rightarrow> breaker \<Rightarrow> bool" where
  "br_inv now b \<longleftrightarrow> breaker_problems (br_cfg b) = []
     \<and> sorted (map ob_at (br_obs b)) \<and> (\<forall>ob \<in> set (br_obs b). ob_at ob \<le> now)
     \<and> 0 \<le> br_half_open_calls b \<and> br_half_open_calls b \<le> bc_half_open_probes (br_cfg b)
     \<and> 0 \<le> br_half_open_ok b \<and> br_half_open_ok b < bc_successes_to_close (br_cfg b)
     \<and> (br_state b = Open \<longrightarrow> br_opened_at b \<le> now)"

definition bs_inv :: "bsys \<Rightarrow> bool" where
  "bs_inv s \<longleftrightarrow> br_inv (bs_now s) (bs_breaker s)"

lemma breaker_config_ok: "breaker_problems c = [] \<longleftrightarrow>
    0 < bc_failure_threshold c \<and> bc_failure_threshold c \<le> bc_minimum_requests c \<and> 0 < bc_window c
    \<and> 0 < bc_cooldown c \<and> 0 < bc_half_open_probes c \<and> 0 < bc_successes_to_close c"
  by (auto simp: breaker_problems_def)

lemma transition_keeps [simp]:
  "br_cfg (br_transition t b) = br_cfg b" "br_obs (br_transition t b) = br_obs b"
  "br_half_open_calls (br_transition t b) = br_half_open_calls b"
  "br_half_open_ok (br_transition t b) = br_half_open_ok b"
  "br_opened_at (br_transition t b) = br_opened_at b" "br_state (br_transition t b) = t"
  by (simp_all add: br_transition_def Let_def)

text \<open>With a clock that does not go back, trimming keeps exactly the observations in the window.\<close>

lemma sorted_dropWhile_filter:
  "sorted (map f xs) \<Longrightarrow> dropWhile (\<lambda>x. \<not> f x > c) xs = filter (\<lambda>x. f x > c) xs"
proof (induction xs)
  case (Cons x xs)
  show ?case
  proof (cases "f x > c")
    case True
    then have "\<forall>y \<in> set xs. f y > c" using Cons.prems by force
    then show ?thesis using True by (simp add: filter_id_conv)
  qed (use Cons in simp)
qed simp

lemma sorted_filter_map: "sorted (map f xs) \<Longrightarrow> sorted (map f (filter P xs))"
  by (rule sorted_filter)

lemma trim_obs:
  "sorted (map ob_at (br_obs b)) \<Longrightarrow>
   br_obs (br_trim now b) = filter (\<lambda>ob. ob_at ob > now - bc_window (br_cfg b)) (br_obs b)"
  by (simp add: br_trim_def sorted_dropWhile_filter)

lemma trim_keeps [simp]:
  "br_cfg (br_trim now b) = br_cfg b" "br_state (br_trim now b) = br_state b"
  "br_half_open_calls (br_trim now b) = br_half_open_calls b"
  "br_half_open_ok (br_trim now b) = br_half_open_ok b"
  "br_opened_at (br_trim now b) = br_opened_at b"
  by (simp_all add: br_trim_def)

lemma evaluate_inv: "br_inv now b \<Longrightarrow> br_inv now (br_evaluate now b)"
  by (auto simp: br_inv_def br_evaluate_def breaker_config_ok)

lemma allow_inv [keeps_inv]: "br_inv now b \<Longrightarrow> br_inv now (fst (br_allow now b))"
  using evaluate_inv [of now b]
  by (auto simp: br_allow_def Let_def br_inv_def split: breaker_state.splits)

text \<open>The observations a closed report leaves to be counted.\<close>

definition windowed :: "instant \<Rightarrow> breaker \<Rightarrow> observation list \<Rightarrow> observation list" where
  "windowed now b obs = filter (\<lambda>ob. ob_at ob > now - bc_window (br_cfg b)) obs"

lemma report_closed_trimmed:
  assumes "br_inv now b"
  shows "br_obs (br_trim now (b\<lparr>br_obs := br_obs b @ [\<lparr>ob_at = now, ob_failure = x\<rparr>]\<rparr>))
       = windowed now b (br_obs b @ [\<lparr>ob_at = now, ob_failure = x\<rparr>])"
proof -
  have "sorted (map ob_at (br_obs b @ [\<lparr>ob_at = now, ob_failure = x\<rparr>]))"
    using assms by (auto simp: br_inv_def sorted_append)
  then show ?thesis using trim_obs [of "b\<lparr>br_obs := br_obs b @ [\<lparr>ob_at = now, ob_failure = x\<rparr>]\<rparr>" now]
    by (simp add: windowed_def)
qed

lemma report_closed_inv [keeps_inv]:
  assumes "br_inv now b"
  shows "br_inv now (report_closed now err b)"
proof -
  have "sorted (map ob_at (br_obs b @ [\<lparr>ob_at = now, ob_failure = x\<rparr>]))" for x
    using assms by (auto simp: br_inv_def sorted_append)
  then have "sorted (map ob_at (windowed now b (br_obs b @ [\<lparr>ob_at = now, ob_failure = x\<rparr>])))" for x
    unfolding windowed_def by (rule sorted_filter_map)
  moreover have "\<forall>ob \<in> set (windowed now b (br_obs b @ [\<lparr>ob_at = now, ob_failure = x\<rparr>])). ob_at ob \<le> now" for x
    using assms by (auto simp: br_inv_def windowed_def)
  ultimately show ?thesis
    using assms by (simp add: report_closed_def Let_def br_inv_def report_closed_trimmed br_count_def)
qed

lemma report_half_open_inv [keeps_inv]: "br_inv now b \<Longrightarrow> br_inv now (report_half_open now err b)"
  by (auto simp: report_half_open_def Let_def br_inv_def breaker_config_ok)

lemma br_reset_inv [keeps_inv]: "br_inv now b \<Longrightarrow> br_inv now (br_reset b)"
  by (auto simp: br_reset_def br_inv_def breaker_config_ok)

lemma br_inv_later: "br_inv now b \<Longrightarrow> br_inv (now + int d) b"
  by (force simp: br_inv_def)

lemma run_report_inv [keeps_inv]: "br_inv now b \<Longrightarrow> br_inv now (run_report r now err b)"
  by (cases r) (simp_all add: run_report_def keeps_inv)

lemma new_breaker_inv: "new_breaker c = Inr b \<Longrightarrow> br_inv now b"
  by (auto simp: new_breaker_def br_inv_def breaker_config_ok split: if_splits)

lemma on_state_change_inv [keeps_inv]: "br_inv now b \<Longrightarrow> br_inv now (on_state_change b)"
  by (simp add: br_inv_def on_state_change_def)

interpretation breaker_ops: invariant_ops bs_step bs_inv
proof unfold_locales
  show "bs_inv (bs_step s x)" if "bs_inv s" for s x
    using that allow_inv [of "bs_now s" "bs_breaker s"]
    by (cases x; cases "br_allow (bs_now s) (bs_breaker s)")
       (simp_all add: bs_inv_def keeps_inv br_inv_later evaluate_inv breaker_state_of_def)
qed

section \<open>Retry\<close>

record retry_policy =
  rp_max_attempts :: int
  rp_initial_backoff :: duration
  rp_max_backoff :: duration
  rp_multiplier :: rat
  rp_jitter_fraction :: rat

definition default_retry_policy :: retry_policy where
  "default_retry_policy = \<lparr>rp_max_attempts = 2, rp_initial_backoff = 50 * millisecond,
     rp_max_backoff = 400 * millisecond, rp_multiplier = 2, rp_jitter_fraction = 1 / 4\<rparr>"

text \<open>The argument \<open>rnd\<close> is the draw from the random source in [0,1), or None without a source.\<close>

definition backoff :: "retry_policy \<Rightarrow> int \<Rightarrow> rat option \<Rightarrow> duration" where
  "backoff p attempt rnd =
     (if attempt \<le> 1 then 0
      else let d0 = of_int (rp_initial_backoff p) * rp_multiplier p ^ nat (attempt - 2);
               d1 = (if d0 > of_int (rp_max_backoff p) then of_int (rp_max_backoff p) else d0);
               d2 = (case rnd of
                       Some u \<Rightarrow>
                         (if rp_jitter_fraction p > 0
                          then (let delta = d1 * rp_jitter_fraction p in d1 - delta + u * 2 * delta)
                          else d1)
                     | None \<Rightarrow> d1);
               d3 = (if d2 < 0 then 0 else d2)
           in \<lfloor>d3\<rfloor>)"

definition should_retry :: "retry_policy \<Rightarrow> int \<Rightarrow> go_err option \<Rightarrow> duration \<Rightarrow> duration \<Rightarrow> bool" where
  "should_retry p attempt err remaining estimate =
     (case err of
        None \<Rightarrow> False
      | Some e \<Rightarrow>
          (if attempt \<ge> rp_max_attempts p then False
           else if (case as_provider_error e of Some k \<Rightarrow> \<not> retryable k | None \<Rightarrow> False) then False
           else remaining > backoff p (attempt + 1) None + estimate))"

section \<open>Properties\<close>

definition br0 :: breaker where
  "br0 = \<lparr>br_cfg = default_breaker_config, br_state = Closed, br_obs = [], br_opened_at = 0,
     br_half_open_calls = 0, br_half_open_ok = 0, br_on_change = False, br_changes = []\<rparr>"


text \<open>What \<^verbatim>\<open>Allow\<close> decides: a closed breaker admits and is not changed; an open one
  refuses until the cooldown has passed and then becomes half-open with a fresh set of slots,
  of which this call takes the first; a half-open one admits while a slot is free.\<close>

theorem allow_decides:
  assumes "br_inv now b"
  shows "(br_state b = Closed \<longrightarrow> br_allow now b = (b, True, Report_Closed))
    \<and> (br_state b = Open \<and> now < br_opened_at b + bc_cooldown (br_cfg b)
         \<longrightarrow> br_allow now b = (b, False, Report_Nothing))
    \<and> (br_state b = Open \<and> br_opened_at b + bc_cooldown (br_cfg b) \<le> now
         \<longrightarrow> (case br_allow now b of (b', ok, r) \<Rightarrow> ok \<and> r = Report_Half_Open \<and> br_state b' = Half_Open
                \<and> br_half_open_calls b' = 1 \<and> br_half_open_ok b' = 0))
    \<and> (br_state b = Half_Open \<longrightarrow> fst (snd (br_allow now b))
         = (br_half_open_calls b < bc_half_open_probes (br_cfg b)))"
  using assms
  by (auto simp: br_allow_def Let_def br_evaluate_def br_inv_def breaker_config_ok)

lemma stays_closed_step:
  assumes "br_state (bs_breaker s) = Closed" and "\<forall>t \<in> set (bs_tickets s). tk_report t = Report_Closed"
    and "\<forall>i e. x = BReport i (Some e) \<longrightarrow> \<not> should_count (Some e)"
  shows "br_state (bs_breaker (bs_step s x)) = Closed
    \<and> (\<forall>t \<in> set (bs_tickets (bs_step s x)). tk_report t = Report_Closed)"
proof (cases x)
  case (BReport i err)
  show ?thesis
  proof (cases "i < length (bs_tickets s) \<and> \<not> tk_used (bs_tickets s ! i)")
    case True
    have r: "tk_report (bs_tickets s ! i) = Report_Closed" using assms(2) True by simp
    have "br_state (report_closed (bs_now s) err (bs_breaker s)) = Closed"
      using assms(1,3) BReport by (cases err) (auto simp: report_closed_def Let_def)
    moreover have "\<forall>t \<in> set ((bs_tickets s)[i := (bs_tickets s ! i)\<lparr>tk_used := True\<rparr>]). tk_report t = Report_Closed"
      using assms(2) r set_update_subset_insert [of "bs_tickets s" i] by fastforce
    ultimately show ?thesis using BReport True r by (simp add: run_report_def)
  qed (use assms BReport in auto)
qed (use assms in \<open>auto simp: breaker_state_of_def br_evaluate_def br_allow_def br_reset_def on_state_change_def\<close>)

text \<open>A provider that throttles us, rejects our requests or our credentials, or filters
  content, however often, never opens a breaker: from a fresh breaker, over any sequence of
  operations in which every reported error is of a kind that does not count, the breaker
  stays closed.\<close>

theorem throttling_never_opens:
  assumes "new_breaker c = Inr b"
    and "\<forall>i e. BReport i (Some e) \<in> set ops \<longrightarrow> \<not> should_count (Some e)"
  shows "br_state (bs_breaker (run_ops bs_step (bs_start t b) ops)) = Closed"
proof -
  have "br_state (bs_breaker s) = Closed \<Longrightarrow> \<forall>t \<in> set (bs_tickets s). tk_report t = Report_Closed \<Longrightarrow>
      br_state (bs_breaker (run_ops bs_step s ops)) = Closed" for s
    using assms(2)
  proof (induction ops arbitrary: s)
    case (Cons x xs)
    then have "br_state (bs_breaker (bs_step s x)) = Closed
        \<and> (\<forall>t \<in> set (bs_tickets (bs_step s x)). tk_report t = Report_Closed)"
      by (intro stays_closed_step) auto
    then show ?case using Cons by (auto simp del: bs_step.simps)
  qed simp
  then show ?thesis
    using assms(1) by (auto simp: new_breaker_def bs_start_def split: if_splits)
qed

text \<open>One probe that succeeds: admitted, then reported.\<close>

definition probe_ok :: "instant \<Rightarrow> breaker \<Rightarrow> breaker" where
  "probe_ok now b = report_half_open now None (fst (br_allow now b))"

lemma probe_half_open:
  assumes "br_state b = Half_Open" and "br_half_open_calls b = 0" and "0 < bc_half_open_probes (br_cfg b)"
    and "br_half_open_ok b + 1 < bc_successes_to_close (br_cfg b)"
  shows "fst (snd (br_allow now b))" and "br_state (probe_ok now b) = Half_Open"
    and "br_half_open_calls (probe_ok now b) = 0" and "br_cfg (probe_ok now b) = br_cfg b"
    and "br_half_open_ok (probe_ok now b) = br_half_open_ok b + 1"
  using assms by (auto simp: probe_ok_def br_allow_def br_evaluate_def report_half_open_def Let_def)

lemma probe_last:
  assumes "br_state b = Half_Open" and "br_half_open_calls b = 0" and "0 < bc_half_open_probes (br_cfg b)"
    and "bc_successes_to_close (br_cfg b) \<le> br_half_open_ok b + 1"
  shows "fst (snd (br_allow now b)) \<and> br_state (probe_ok now b) = Closed \<and> br_obs (probe_ok now b) = []"
  using assms by (auto simp: probe_ok_def br_allow_def br_evaluate_def report_half_open_def Let_def)

lemma probes_close:
  assumes "br_state b = Half_Open" and "br_half_open_calls b = 0" and "0 < bc_half_open_probes (br_cfg b)"
    and "br_half_open_ok b + int (Suc n) = bc_successes_to_close (br_cfg b)"
  shows "br_state ((probe_ok now ^^ Suc n) b) = Closed \<and> br_obs ((probe_ok now ^^ Suc n) b) = []
    \<and> (\<forall>k \<le> n. fst (snd (br_allow now ((probe_ok now ^^ k) b))))"
  using assms
proof (induction n arbitrary: b)
  case 0
  then show ?case using probe_last [of b now] by simp
next
  case (Suc n)
  have p: "br_half_open_ok b + 1 < bc_successes_to_close (br_cfg b)" using Suc.prems(4) by simp
  note step = probe_half_open [OF Suc.prems(1-3) p, of now]
  have IH: "br_state ((probe_ok now ^^ Suc n) (probe_ok now b)) = Closed
      \<and> br_obs ((probe_ok now ^^ Suc n) (probe_ok now b)) = []
      \<and> (\<forall>k \<le> n. fst (snd (br_allow now ((probe_ok now ^^ k) (probe_ok now b)))))"
    using Suc.prems step by (intro Suc.IH) auto
  moreover have "fst (snd (br_allow now ((probe_ok now ^^ k) b)))" if "k \<le> Suc n" for k
    using that IH step(1) by (cases k) (simp_all add: funpow_swap1)
  ultimately show ?case by (simp add: funpow_swap1)
qed

lemma allow_evaluated: "br_allow now (br_evaluate now b) = br_allow now b"
  by (simp add: br_allow_def br_evaluate_def Let_def)

text \<open>Recovery: once the cooldown of an open breaker has passed, one probe after another
  that succeeds, up to the configured number, closes it with an empty window; every one of
  those probes is admitted.\<close>

theorem breaker_recovers:
  assumes "br_inv now b" and "br_state b = Open" and "br_opened_at b + bc_cooldown (br_cfg b) \<le> now"
    and "n = nat (bc_successes_to_close (br_cfg b))"
  shows "br_state ((probe_ok now ^^ n) b) = Closed \<and> br_obs ((probe_ok now ^^ n) b) = []
    \<and> (\<forall>k < n. fst (snd (br_allow now ((probe_ok now ^^ k) b))))"
proof -
  let ?b = "br_evaluate now b"
  have half: "br_state ?b = Half_Open" "br_half_open_calls ?b = 0" "br_half_open_ok ?b = 0"
      "br_cfg ?b = br_cfg b"
    using assms(2,3) by (simp_all add: br_evaluate_def)
  have pos: "0 < bc_half_open_probes (br_cfg b)" "0 < bc_successes_to_close (br_cfg b)"
    using assms(1) by (auto simp: br_inv_def breaker_config_ok)
  then have "n \<noteq> 0" using assms(4) by simp
  then obtain m where m: "n = Suc m" using not0_implies_Suc by blast
  have same: "(probe_ok now ^^ Suc k) ?b = (probe_ok now ^^ Suc k) b" for k
    by (simp add: funpow_swap1 probe_ok_def allow_evaluated)
  have "br_state ((probe_ok now ^^ Suc m) ?b) = Closed \<and> br_obs ((probe_ok now ^^ Suc m) ?b) = []
      \<and> (\<forall>k \<le> m. fst (snd (br_allow now ((probe_ok now ^^ k) ?b))))"
    using half pos m assms(4) by (intro probes_close) auto
  moreover have "fst (snd (br_allow now ((probe_ok now ^^ k) b)))
      = fst (snd (br_allow now ((probe_ok now ^^ k) ?b)))" for k
    using same by (cases k) (simp_all add: allow_evaluated)
  ultimately show ?thesis using m same by (simp add: less_Suc_eq_le del: funpow.simps)
qed

text \<open>A leaked probe slot is never reclaimed: a half-open breaker whose slots are all taken
  refuses every later call, at any later time, until somebody reports or resets.  The cooldown
  is only looked at while the breaker is open, so it does not bring the slots back.\<close>

theorem leaked_probes_wedge:
  assumes "br_state (bs_breaker s) = Half_Open"
    and "bc_half_open_probes (br_cfg (bs_breaker s)) \<le> br_half_open_calls (bs_breaker s)"
    and "\<forall>x \<in> set ops. x \<in> {BState, BAllow, BWatch} \<or> (\<exists>d. x = BTick d)"
  shows "\<not> fst (snd (br_allow t (bs_breaker (run_ops bs_step s ops))))"
proof -
  have "br_state (bs_breaker (run_ops bs_step s ops)) = Half_Open
      \<and> bc_half_open_probes (br_cfg (bs_breaker (run_ops bs_step s ops)))
        \<le> br_half_open_calls (bs_breaker (run_ops bs_step s ops))"
    using assms
  proof (induction ops arbitrary: s)
    case (Cons x xs)
    have "br_state (bs_breaker (bs_step s x)) = Half_Open
        \<and> bc_half_open_probes (br_cfg (bs_breaker (bs_step s x))) \<le> br_half_open_calls (bs_breaker (bs_step s x))"
      using Cons.prems
      by (auto simp: breaker_state_of_def br_evaluate_def br_allow_def on_state_change_def)
    then show ?case using Cons.IH [of "bs_step s x"] Cons.prems(3) by simp
  qed simp
  then show ?thesis by (simp add: br_allow_def br_evaluate_def)
qed

definition br_small :: breaker where
  "br_small = br0\<lparr>br_cfg := \<lparr>bc_failure_threshold = 1, bc_minimum_requests = 1, bc_window = 10,
     bc_cooldown = 5, bc_half_open_probes = 2, bc_successes_to_close = 1\<rparr>\<rparr>"

text \<open>A probe that outlives its half-open episode is credited to the breaker as it is by then:
  with two probes and one success to close, a provider that has just failed a probe, and whose
  breaker is therefore open with its whole cooldown still to run, is put back to closed by the
  late success of the other probe.\<close>

theorem straggler_closes_open_breaker:
  "breaker_problems (br_cfg br_small) = []
   \<and> br_state (bs_breaker (run_ops bs_step (bs_start 0 br_small)
       [BAllow, BReport 0 (Some Plain_Err), BTick 5, BAllow, BAllow, BReport 1 (Some Plain_Err)])) = Open
   \<and> br_state (bs_breaker (run_ops bs_step (bs_start 0 br_small)
       [BAllow, BReport 0 (Some Plain_Err), BTick 5, BAllow, BAllow, BReport 1 (Some Plain_Err),
        BReport 2 None])) = Closed"
  by (simp add: br_small_def br0_def breaker_problems_def bs_start_def br_allow_def br_evaluate_def
      run_report_def report_closed_def report_half_open_def should_count_def br_trim_def br_count_def
      br_transition_def Let_def)

text \<open>The retry policy: a call is retried only after a failure, of a kind worth retrying,
  with an attempt left and with strictly more time than the backoff and one attempt need, so
  a call makes at most \<^verbatim>\<open>MaxAttempts\<close> attempts and never starts one that cannot finish.\<close>

theorem retry_is_budgeted:
  "should_retry p attempt err remaining estimate \<longleftrightarrow>
     (\<exists>e. err = Some e \<and> (as_provider_error e = None \<or> (\<exists>k. as_provider_error e = Some k \<and> retryable k)))
     \<and> attempt < rp_max_attempts p
     \<and> backoff p (attempt + 1) None + estimate < remaining"
  by (auto simp: should_retry_def split: option.splits)

lemma backoff_nominal:
  assumes "0 \<le> rp_initial_backoff p" and "0 \<le> rp_max_backoff p" and "0 \<le> rp_multiplier p"
  defines "d \<equiv> (\<lambda>a. min (of_int (rp_max_backoff p)) (of_int (rp_initial_backoff p) * rp_multiplier p ^ nat (a - 2)) :: rat)"
  shows "0 \<le> d a" and "d a \<le> of_int (rp_max_backoff p)"
    and "1 < a \<Longrightarrow> backoff p a None = \<lfloor>d a\<rfloor>"
    and "1 < a \<Longrightarrow> 0 < rp_jitter_fraction p \<Longrightarrow> backoff p a (Some u)
      = \<lfloor>max 0 (d a - d a * rp_jitter_fraction p + u * 2 * (d a * rp_jitter_fraction p))\<rfloor>"
proof -
  show 0: "0 \<le> d a" using assms by (simp add: d_def)
  show "d a \<le> of_int (rp_max_backoff p)" by (simp add: d_def)
  have cap: "(if of_int (rp_initial_backoff p) * rp_multiplier p ^ nat (a - 2) > of_int (rp_max_backoff p)
      then of_int (rp_max_backoff p) else of_int (rp_initial_backoff p) * rp_multiplier p ^ nat (a - 2)) = d a"
    by (simp add: d_def)
  show "1 < a \<Longrightarrow> backoff p a None = \<lfloor>d a\<rfloor>"
    using 0 unfolding backoff_def Let_def cap by simp
  show "1 < a \<Longrightarrow> 0 < rp_jitter_fraction p \<Longrightarrow> backoff p a (Some u)
      = \<lfloor>max 0 (d a - d a * rp_jitter_fraction p + u * 2 * (d a * rp_jitter_fraction p))\<rfloor>"
    unfolding backoff_def Let_def cap by (simp add: max_def not_le)
qed

text \<open>The backoff is never negative, never more than the cap widened by the jitter, and
  without jitter grows with the attempt.\<close>

theorem backoff_bounded:
  assumes "0 \<le> rp_initial_backoff p" and "0 \<le> rp_max_backoff p" and "1 \<le> rp_multiplier p"
    and "0 < rp_jitter_fraction p" and "0 \<le> u" and "u \<le> 1" and "a \<le> a'"
  shows "0 \<le> backoff p a (Some u)
    \<and> of_int (backoff p a (Some u)) \<le> of_int (rp_max_backoff p) * (1 + rp_jitter_fraction p)
    \<and> backoff p a None \<le> backoff p a' None"
proof (cases "1 < a")
  case False
  have m: "0 \<le> rp_multiplier p" using assms(3) by linarith
  have "0 \<le> backoff p a' None"
    using backoff_nominal(1,3) [OF assms(1,2) m, of a'] by (cases "1 < a'") (auto simp: backoff_def)
  then show ?thesis using False assms by (simp add: backoff_def)
next
  case True
  define d where
    "d a = min (of_int (rp_max_backoff p)) (of_int (rp_initial_backoff p) * rp_multiplier p ^ nat (a - 2))" for a
  let ?f = "rp_jitter_fraction p"
  have m: "0 \<le> rp_multiplier p" using assms(3) by linarith
  note nominal = backoff_nominal [OF assms(1,2) m, folded d_def]
  have nn: "0 \<le> d a * ?f" using nominal(1) [of a] assms(4) by simp
  have up: "u * (d a * ?f) \<le> d a * ?f" using mult_right_mono [OF assms(6) nn] by simp
  have "d a * ?f \<le> of_int (rp_max_backoff p) * ?f"
    using nominal(2) [of a] assms(4) by (intro mult_right_mono) auto
  then have hi: "d a - d a * ?f + u * 2 * (d a * ?f) \<le> of_int (rp_max_backoff p) * (1 + ?f)"
    using up nominal(2) [of a] by (simp add: algebra_simps)
  moreover have "0 \<le> of_int (rp_max_backoff p) * (1 + ?f)" using assms(2,4) by simp
  ultimately have "max 0 (d a - d a * ?f + u * 2 * (d a * ?f)) \<le> of_int (rp_max_backoff p) * (1 + ?f)"
    by simp
  then have top: "of_int (backoff p a (Some u)) \<le> of_int (rp_max_backoff p) * (1 + ?f)"
    using nominal(4) [OF True assms(4), of u] of_int_floor_le order_trans by metis
  have "rp_multiplier p ^ nat (a - 2) \<le> rp_multiplier p ^ nat (a' - 2)"
    using assms(3,7) by (intro power_increasing) auto
  then have "d a \<le> d a'"
    unfolding d_def using assms(1) by (intro min.mono mult_left_mono) auto
  then have "backoff p a None \<le> backoff p a' None"
    using nominal(3) [OF True] nominal(3) [of a'] True assms(7) by (simp add: floor_mono)
  then show ?thesis using top nominal(4) [OF True assms(4), of u] by simp
qed

section \<open>Witnesses\<close>

lemma br0_new: "new_breaker default_breaker_config = Inr br0"
  by (simp add: new_breaker_def breaker_problems_def default_breaker_config_def br0_def)

text \<open>Ten failures inside the window, and one more report.\<close>

definition br_failing :: breaker where
  "br_failing = br0\<lparr>br_obs := replicate 9 \<lparr>ob_at = 1, ob_failure = True\<rparr>\<rparr>"

lemma br_failing_inv: "br_inv 2 br_failing"
  by (simp add: br_inv_def br_failing_def br0_def breaker_config_ok default_breaker_config_def)


theorem allow_decides_witness:
  "br_allow 2 br_failing = (br_failing, True, Report_Closed)"
  using allow_decides [OF br_failing_inv] by (simp add: br_failing_def br0_def)

theorem throttling_never_opens_witness:
  "br_state (bs_breaker (run_ops bs_step (bs_start 0 br0)
     [BAllow, BAllow, BReport 0 (Some (Provider_Err Kind_Rate_Limited None)),
      BReport 1 (Some (Wrapped (Some (Provider_Err Kind_Auth None)))), BTick 7, BAllow, BReport 2 None])) = Closed"
  by (rule throttling_never_opens [OF br0_new]) (auto simp: should_count_def counts_against_breaker_def)

definition br_tripped :: breaker where
  "br_tripped = br0\<lparr>br_state := Open, br_opened_at := 3\<rparr>"

theorem breaker_recovers_witness:
  "br_state ((probe_ok (6 * second) ^^ 3) br_tripped) = Closed"
  using breaker_recovers [of "6 * second" br_tripped 3]
  by (simp add: br_inv_def br_tripped_def br0_def breaker_config_ok default_breaker_config_def)

theorem leaked_probes_wedge_witness:
  "\<not> fst (snd (br_allow (9000 * second) (bs_breaker (run_ops bs_step
     (bs_start 0 (br_tripped\<lparr>br_state := Half_Open, br_half_open_calls := 2\<rparr>))
     [BTick 1000000000000, BAllow, BState]))))"
  by (rule leaked_probes_wedge)
     (auto simp: bs_start_def br_tripped_def br0_def default_breaker_config_def)

theorem backoff_bounded_witness:
  "0 \<le> backoff default_retry_policy 3 (Some (1 / 2))
   \<and> backoff default_retry_policy 3 None \<le> backoff default_retry_policy 4 None"
  using backoff_bounded [of default_retry_policy "1 / 2" 3 4] by (simp add: default_retry_policy_def)

end
