(* ===== verification/Fence.thy ===== *)
theory Fence
  imports Prelude "HOL-Library.Char_ord"
begin

text \<open>
  The single-active-process fence of the telephony gateway,
  \<^verbatim>\<open>services/go/telephony-gateway/internal/fence/fence.go\<close>: a process owns the right to admit
  work while a database session of its own holds an advisory lock and that was confirmed
  recently.  The fence's own state and operations are functions; the processes, the network
  and the lock server are a step relation in which queries are sent, evaluated by the server
  at some later instant and answered later still, or never.

  The database is not under \<^verbatim>\<open>src/\<close>.  What is used of it is PostgreSQL's documented behaviour of
  session advisory locks: a lock is held by at most one session, a try succeeds only when the
  lock is free, each session tries once, and the lock may be released at any time (unlock,
  close, a backend the server gives up).  Every process reads its own clock, at any offset;
  the clocks run at one rate, as the package's documentation assumes.
\<close>

unbundle bit_operations_syntax

section \<open>Configuration\<close>

record fence_config =
  fc_lock_key :: "64 word"
  fc_interval :: duration
  fc_timeout :: duration

datatype fence_problem = Key_Zero | Interval_Not_Positive | Timeout_Not_Positive | Timeout_Too_Long

definition fence_problems :: "fence_config \<Rightarrow> fence_problem list" where
  "fence_problems c =
     (if fc_lock_key c = 0 then [Key_Zero] else [])
     @ (if fc_interval c \<le> 0 then [Interval_Not_Positive] else [])
     @ (if fc_timeout c \<le> 0 then [Timeout_Not_Positive]
        else if fc_interval c > 0 \<and> fc_timeout c \<ge> fc_interval c then [Timeout_Too_Long] else [])"

definition validity :: "fence_config \<Rightarrow> duration" where
  "validity c = fc_interval c + fc_timeout c"

section \<open>The fence\<close>

record fence =
  fe_held :: bool
  fe_acquired :: instant
  fe_confirmed :: instant

definition new_fence :: fence where
  "new_fence = \<lparr>fe_held = False, fe_acquired = 0, fe_confirmed = 0\<rparr>"

definition owned_locked :: "fence_config \<Rightarrow> instant \<Rightarrow> fence \<Rightarrow> bool" where
  "owned_locked c now f =
     (let v = validity c in fe_held f \<and> now - fe_acquired f \<ge> v \<and> now - fe_confirmed f < v)"

definition fence_check :: "fence_config \<Rightarrow> instant \<Rightarrow> fence \<Rightarrow> bool" where
  "fence_check c now f = owned_locked c now f"

definition fence_lose :: "fence \<Rightarrow> fence" where
  "fence_lose f = f\<lparr>fe_held := False\<rparr>"

definition fence_acquire :: "instant \<Rightarrow> instant \<Rightarrow> fence \<Rightarrow> fence" where
  "fence_acquire received sent f = f\<lparr>fe_held := True, fe_acquired := received, fe_confirmed := sent\<rparr>"

text \<open>A confirmation: whether the loop goes on holding.\<close>

definition fence_confirm :: "fence_config \<Rightarrow> instant \<Rightarrow> fence \<Rightarrow> fence \<times> bool" where
  "fence_confirm c sent f =
     (if sent - fe_confirmed f \<ge> validity c then (fence_lose f, False)
      else (f\<lparr>fe_confirmed := sent\<rparr>, True))"

section \<open>Processes and the lock server\<close>

text \<open>
  Where a process is in \<^verbatim>\<open>Run\<close> and \<^verbatim>\<open>holdOnce\<close>: between holds, with an open session, with a
  server known to be a primary, waiting for the answer of a try or of a heartbeat (the query
  sent at the given reading of its clock, the answer if the server has evaluated it), sleeping
  while holding, or releasing.
\<close>

datatype hold_pc =
    Pc_Between
  | Pc_Dialed
  | Pc_Primary
  | Pc_Trying instant "bool option"
  | Pc_Holding
  | Pc_Checking instant "bool option"
  | Pc_Release
  | Pc_Stopped

record fproc =
  pr_fence :: fence
  pr_pc :: hold_pc
  pr_session :: nat

text \<open>A session: the process that dialled it and how many it had dialled.\<close>

datatype session_id = Session (dialler: nat) (number: nat)

record fsys =
  fs_now :: instant
  fs_proc :: "nat \<Rightarrow> fproc"
  fs_lock :: "session_id option"
  fs_tried :: "session_id set"
  fs_granted :: "session_id set"
  fs_since :: "session_id \<Rightarrow> instant"
  fs_last :: "session_id \<Rightarrow> instant"

text \<open>
  \<open>fs_tried\<close> are the sessions whose try the server has evaluated; \<open>fs_granted\<close>, \<open>fs_since\<close>
  and \<open>fs_last\<close> record for the proof which were given the lock, when, and when they lost it.
\<close>

definition session_of :: "fsys \<Rightarrow> nat \<Rightarrow> session_id" where
  "session_of s p = Session p (pr_session (fs_proc s p))"

definition put_proc :: "nat \<Rightarrow> fproc \<Rightarrow> fsys \<Rightarrow> fsys" where
  "put_proc p r s = s\<lparr>fs_proc := (fs_proc s)(p := r)\<rparr>"

definition at_pc :: "hold_pc \<Rightarrow> fproc \<Rightarrow> fproc" where
  "at_pc pc r = r\<lparr>pr_pc := pc\<rparr>"

definition lose_to :: "hold_pc \<Rightarrow> fproc \<Rightarrow> fproc" where
  "lose_to pc r = r\<lparr>pr_fence := fence_lose (pr_fence r), pr_pc := pc\<rparr>"

definition fs_start :: "instant \<Rightarrow> fsys" where
  "fs_start t = \<lparr>fs_now = t, fs_proc = (\<lambda>_. \<lparr>pr_fence = new_fence, pr_pc = Pc_Between, pr_session = 0\<rparr>),
     fs_lock = None, fs_tried = {}, fs_granted = {}, fs_since = (\<lambda>_. 0), fs_last = (\<lambda>_. 0)\<rparr>"

text \<open>The clock of process \<open>p\<close>.\<close>

definition clock_of :: "(nat \<Rightarrow> int) \<Rightarrow> nat \<Rightarrow> fsys \<Rightarrow> instant" where
  "clock_of off p s = fs_now s + off p"

definition grant :: "session_id \<Rightarrow> fsys \<Rightarrow> fsys" where
  "grant x s =
     (if fs_lock s = None
      then s\<lparr>fs_lock := Some x, fs_tried := insert x (fs_tried s), fs_granted := insert x (fs_granted s),
             fs_since := (fs_since s)(x := fs_now s)\<rparr>
      else s\<lparr>fs_tried := insert x (fs_tried s)\<rparr>)"

definition give_up_lock :: "fsys \<Rightarrow> fsys" where
  "give_up_lock s =
     (case fs_lock s of None \<Rightarrow> s
      | Some x \<Rightarrow> s\<lparr>fs_lock := None, fs_last := (fs_last s)(x := fs_now s)\<rparr>)"

inductive fence_step :: "fence_config \<Rightarrow> (nat \<Rightarrow> int) \<Rightarrow> fsys \<Rightarrow> fsys \<Rightarrow> bool" for c off where
  tick: "0 \<le> d \<Longrightarrow> fence_step c off s (s\<lparr>fs_now := fs_now s + d\<rparr>)"
| server_releases: "fence_step c off s (give_up_lock s)"
| late_try: "x \<notin> fs_tried s \<Longrightarrow> number x \<le> pr_session (fs_proc s (dialler x)) \<Longrightarrow> fence_step c off s (grant x s)"
| dial: "r = fs_proc s p \<Longrightarrow> pr_pc r = Pc_Between \<Longrightarrow>
    fence_step c off s (put_proc p (r\<lparr>pr_pc := Pc_Dialed, pr_session := pr_session r + 1\<rparr>) s)"
| is_primary: "r = fs_proc s p \<Longrightarrow> pr_pc r = Pc_Dialed \<Longrightarrow> fence_step c off s (put_proc p (at_pc Pc_Primary r) s)"
| not_primary: "r = fs_proc s p \<Longrightarrow> pr_pc r = Pc_Dialed \<Longrightarrow> fence_step c off s (put_proc p (at_pc Pc_Release r) s)"
| send_try: "r = fs_proc s p \<Longrightarrow> pr_pc r = Pc_Primary \<Longrightarrow>
    fence_step c off s (put_proc p (at_pc (Pc_Trying (clock_of off p s) None) r) s)"
| server_tries: "r = fs_proc s p \<Longrightarrow> pr_pc r = Pc_Trying sent None \<Longrightarrow> session_of s p \<notin> fs_tried s \<Longrightarrow>
    fence_step c off s (put_proc p (at_pc (Pc_Trying sent (Some (fs_lock s = None))) r)
      (grant (session_of s p) s))"
| got_lock: "r = fs_proc s p \<Longrightarrow> pr_pc r = Pc_Trying sent (Some True) \<Longrightarrow>
    fence_step c off s (put_proc p
      (r\<lparr>pr_fence := fence_acquire (clock_of off p s) sent (pr_fence r), pr_pc := Pc_Holding\<rparr>) s)"
| no_lock: "r = fs_proc s p \<Longrightarrow> pr_pc r = Pc_Trying sent a \<Longrightarrow>
    fence_step c off s (put_proc p (at_pc Pc_Release r) s)"
| send_check: "r = fs_proc s p \<Longrightarrow> pr_pc r = Pc_Holding \<Longrightarrow>
    fence_step c off s (put_proc p (at_pc (Pc_Checking (clock_of off p s) None) r) s)"
| server_checks: "r = fs_proc s p \<Longrightarrow> pr_pc r = Pc_Checking sent None \<Longrightarrow>
    fence_step c off s (put_proc p (at_pc (Pc_Checking sent (Some (fs_lock s = Some (session_of s p)))) r) s)"
| confirmed: "r = fs_proc s p \<Longrightarrow> pr_pc r = Pc_Checking sent (Some True) \<Longrightarrow>
    fence_confirm c sent (pr_fence r) = (f, keep) \<Longrightarrow>
    fence_step c off s (put_proc p (r\<lparr>pr_fence := f, pr_pc := (if keep then Pc_Holding else Pc_Release)\<rparr>) s)"
| not_confirmed: "r = fs_proc s p \<Longrightarrow> pr_pc r = Pc_Checking sent a \<Longrightarrow>
    fence_step c off s (put_proc p (lose_to Pc_Release r) s)"
| stopping: "r = fs_proc s p \<Longrightarrow> pr_pc r = Pc_Holding \<Longrightarrow>
    fence_step c off s (put_proc p (at_pc Pc_Release r) s)"
| release: "r = fs_proc s p \<Longrightarrow> pr_pc r = Pc_Release \<Longrightarrow>
    fence_step c off s (put_proc p (lose_to pc r) s)" if "pc = Pc_Between \<or> pc = Pc_Stopped"
| shutdown: "r = fs_proc s p \<Longrightarrow>
    fence_step c off s (put_proc p (r\<lparr>pr_fence := fence_lose (pr_fence r)\<rparr>) s)"

inductive fence_reach :: "fence_config \<Rightarrow> (nat \<Rightarrow> int) \<Rightarrow> fsys \<Rightarrow> bool" for c off where
  initial: "fence_reach c off (fs_start t)"
| step: "fence_reach c off s \<Longrightarrow> fence_step c off s s' \<Longrightarrow> fence_reach c off s'"

text \<open>Ownership as process \<open>p\<close> sees it.\<close>

definition owner :: "fence_config \<Rightarrow> (nat \<Rightarrow> int) \<Rightarrow> fsys \<Rightarrow> nat \<Rightarrow> bool" where
  "owner c off s p = owned_locked c (clock_of off p s) (pr_fence (fs_proc s p))"

section \<open>The invariant\<close>

text \<open>Until when a session has held the lock.\<close>

definition held_until :: "fsys \<Rightarrow> session_id \<Rightarrow> instant" where
  "held_until s x = (if fs_lock s = Some x then fs_now s else fs_last s x)"

definition server_inv :: "fsys \<Rightarrow> bool" where
  "server_inv s \<longleftrightarrow>
     (\<forall>x \<in> fs_granted s. fs_since s x \<le> held_until s x \<and> held_until s x \<le> fs_now s)
     \<and> (\<forall>x \<in> fs_granted s. \<forall>y \<in> fs_granted s. x \<noteq> y \<and> fs_lock s \<noteq> Some x \<and> fs_lock s \<noteq> Some y \<longrightarrow>
          fs_last s x \<le> fs_since s y \<or> fs_last s y \<le> fs_since s x)
     \<and> (\<forall>x. fs_lock s = Some x \<longrightarrow> x \<in> fs_granted s
          \<and> (\<forall>y \<in> fs_granted s. y \<noteq> x \<longrightarrow> fs_last s y \<le> fs_since s x))
     \<and> fs_granted s \<subseteq> fs_tried s
     \<and> (\<forall>x \<in> fs_tried s. number x \<le> pr_session (fs_proc s (dialler x)))"

lemma server_inv_spans:
  "server_inv s \<Longrightarrow> x \<in> fs_granted s \<Longrightarrow> fs_since s x \<le> held_until s x \<and> held_until s x \<le> fs_now s"
  by (simp add: server_inv_def)

lemma server_inv_lock:
  "server_inv s \<Longrightarrow> fs_lock s = Some x \<Longrightarrow> x \<in> fs_granted s
     \<and> (\<forall>y \<in> fs_granted s. y \<noteq> x \<longrightarrow> fs_last s y \<le> fs_since s x)"
  by (simp add: server_inv_def)

text \<open>Two sessions never hold the lock at the same time.\<close>

lemma holds_disjoint:
  assumes "server_inv s" and "x \<in> fs_granted s" and "y \<in> fs_granted s" and "x \<noteq> y"
  shows "held_until s x \<le> fs_since s y \<or> held_until s y \<le> fs_since s x"
proof (cases "fs_lock s = Some x \<or> fs_lock s = Some y")
  case True
  then show ?thesis using assms server_inv_lock [OF assms(1)] by (auto simp: held_until_def)
next
  case False
  then have "held_until s x = fs_last s x" "held_until s y = fs_last s y" by (auto simp: held_until_def)
  moreover have "fs_last s x \<le> fs_since s y \<or> fs_last s y \<le> fs_since s x"
    using assms False by (simp add: server_inv_def)
  ultimately show ?thesis by simp
qed

text \<open>What a process may rely on: with \<open>w\<close> its clock's offset and \<open>x\<close> its session.\<close>

definition vouched :: "fsys \<Rightarrow> session_id \<Rightarrow> instant \<Rightarrow> bool" where
  "vouched s x t \<longleftrightarrow> x \<in> fs_granted s \<and> t \<le> held_until s x"

fun pc_inv :: "fsys \<Rightarrow> int \<Rightarrow> session_id \<Rightarrow> hold_pc \<Rightarrow> bool" where
  "pc_inv s w x (Pc_Trying sent a) =
     (sent - w \<le> fs_now s \<and> (a = Some True \<longrightarrow> vouched s x (sent - w)))"
| "pc_inv s w x (Pc_Checking sent a) =
     (sent - w \<le> fs_now s \<and> (a = Some True \<longrightarrow> vouched s x (sent - w)))"
| "pc_inv s w x _ = True"

definition proc_inv :: "fsys \<Rightarrow> int \<Rightarrow> session_id \<Rightarrow> fproc \<Rightarrow> bool" where
  "proc_inv s w x r \<longleftrightarrow> pc_inv s w x (pr_pc r)
     \<and> (fe_held (pr_fence r) \<longrightarrow> pr_pc r \<notin> {Pc_Between, Pc_Stopped, Pc_Dialed}
          \<and> fs_since s x \<le> fe_acquired (pr_fence r) - w \<and> vouched s x (fe_confirmed (pr_fence r) - w))"

definition fence_inv :: "(nat \<Rightarrow> int) \<Rightarrow> fsys \<Rightarrow> bool" where
  "fence_inv off s \<longleftrightarrow> server_inv s \<and> (\<forall>p. proc_inv s (off p) (session_of s p) (fs_proc s p))"

subsection \<open>Time and the server only add to what is vouched for\<close>

text \<open>
  One state is later than another for a session when nothing that was known of its hold has
  been taken back.
\<close>

definition later :: "fsys \<Rightarrow> fsys \<Rightarrow> bool" where
  "later s s' \<longleftrightarrow> fs_now s \<le> fs_now s' \<and> fs_granted s \<subseteq> fs_granted s'
     \<and> (\<forall>x \<in> fs_granted s. fs_since s' x = fs_since s x \<and> held_until s x \<le> held_until s' x)"

lemma later_proc_inv: "later s s' \<Longrightarrow> proc_inv s w x r \<Longrightarrow> proc_inv s' w x r"
  by (cases "pr_pc r") (force simp: proc_inv_def later_def vouched_def)+

lemma later_put_proc: "later s (put_proc p r s)"
  by (simp add: later_def put_proc_def held_until_def)

lemma put_proc_sel [simp]:
  "fs_now (put_proc p r s) = fs_now s" "fs_lock (put_proc p r s) = fs_lock s"
  "fs_tried (put_proc p r s) = fs_tried s" "fs_granted (put_proc p r s) = fs_granted s"
  "fs_since (put_proc p r s) = fs_since s" "fs_last (put_proc p r s) = fs_last s"
  "fs_proc (put_proc p r s) = (fs_proc s)(p := r)"
  by (simp_all add: put_proc_def)

lemma held_until_put_proc [simp]: "held_until (put_proc p r s) x = held_until s x"
  by (simp add: held_until_def)

text \<open>A step of one process that keeps or renews its session leaves the others alone.\<close>

lemma put_proc_inv:
  assumes "fence_inv off s" and "pr_session (fs_proc s p) \<le> pr_session r"
    and "proc_inv s (off p) (Session p (pr_session r)) r"
  shows "fence_inv off (put_proc p r s)"
proof -
  have "server_inv (put_proc p r s)"
    using assms(1,2) unfolding fence_inv_def server_inv_def
    by (auto split: if_splits)
  moreover have "proc_inv (put_proc p r s) (off q) (session_of (put_proc p r s) q) (fs_proc (put_proc p r s) q)" for q
  proof (cases "q = p")
    case True
    then show ?thesis
      using later_proc_inv [OF later_put_proc assms(3)] by (simp add: session_of_def)
  next
    case False
    then show ?thesis
      using later_proc_inv [OF later_put_proc, of s] assms(1) by (simp add: session_of_def fence_inv_def)
  qed
  ultimately show ?thesis by (simp add: fence_inv_def)
qed

lemma grant_later: "server_inv s \<Longrightarrow> x \<notin> fs_tried s \<Longrightarrow> later s (grant x s)"
  by (auto simp: later_def grant_def held_until_def server_inv_def)

lemma grant_server_inv:
  assumes "server_inv s" and "x \<notin> fs_tried s" and "number x \<le> pr_session (fs_proc s (dialler x))"
  shows "server_inv (grant x s)"
proof (cases "fs_lock s = None")
  case True
  have x: "x \<notin> fs_granted s" using assms(1,2) by (auto simp: server_inv_def)
  have until: "held_until (grant x s) y = (if y = x then fs_now s else held_until s y)" for y
    using True by (simp add: grant_def held_until_def)
  have last: "y \<in> fs_granted s \<Longrightarrow> fs_last s y \<le> fs_now s" for y
    using server_inv_spans [OF assms(1), of y] True by (simp add: held_until_def)
  have "fs_granted (grant x s) = insert x (fs_granted s)" "fs_tried (grant x s) = insert x (fs_tried s)"
    "fs_lock (grant x s) = Some x" "fs_since (grant x s) = (fs_since s)(x := fs_now s)"
    "fs_last (grant x s) = fs_last s" "fs_now (grant x s) = fs_now s" "fs_proc (grant x s) = fs_proc s"
    using True by (simp_all add: grant_def)
  then show ?thesis
    using assms last x True unfolding server_inv_def until by auto
next
  case False
  then have "grant x s = s\<lparr>fs_tried := insert x (fs_tried s)\<rparr>" by (auto simp: grant_def)
  moreover have "held_until (s\<lparr>fs_tried := insert x (fs_tried s)\<rparr>) = held_until s"
    by (simp add: held_until_def fun_eq_iff)
  ultimately show ?thesis using assms unfolding server_inv_def by auto
qed

lemma grant_inv:
  assumes "fence_inv off s" and "x \<notin> fs_tried s" and "number x \<le> pr_session (fs_proc s (dialler x))"
  shows "fence_inv off (grant x s)"
proof -
  have "fs_proc (grant x s) = fs_proc s" by (simp add: grant_def)
  then show ?thesis
    using assms grant_server_inv [of s x] later_proc_inv [OF grant_later [of s x]]
    by (simp add: fence_inv_def session_of_def)
qed

lemma give_up_later: "server_inv s \<Longrightarrow> later s (give_up_lock s)"
  by (auto simp: later_def give_up_lock_def held_until_def server_inv_def split: option.splits)

lemma give_up_server_inv:
  assumes "server_inv s"
  shows "server_inv (give_up_lock s)"
proof (cases "fs_lock s")
  case None
  then show ?thesis using assms by (simp add: give_up_lock_def)
next
  case (Some x)
  have sel: "fs_granted (give_up_lock s) = fs_granted s" "fs_tried (give_up_lock s) = fs_tried s"
    "fs_lock (give_up_lock s) = None" "fs_since (give_up_lock s) = fs_since s"
    "fs_last (give_up_lock s) = (fs_last s)(x := fs_now s)" "fs_now (give_up_lock s) = fs_now s"
    "fs_proc (give_up_lock s) = fs_proc s"
    using Some by (simp_all add: give_up_lock_def)
  have until: "held_until (give_up_lock s) y = held_until s y" for y
    using Some by (simp add: give_up_lock_def held_until_def)
  have "fs_last (give_up_lock s) y \<le> fs_since s z \<or> fs_last (give_up_lock s) z \<le> fs_since s y"
    if "y \<in> fs_granted s" "z \<in> fs_granted s" "y \<noteq> z" for y z
    using holds_disjoint [OF assms that] Some by (auto simp: sel held_until_def split: if_splits)
  then show ?thesis using assms unfolding server_inv_def until sel by simp
qed

lemma tick_later: "0 \<le> d \<Longrightarrow> later s (s\<lparr>fs_now := fs_now s + d\<rparr>)"
  by (auto simp: later_def held_until_def)

lemma tick_server_inv:
  assumes "server_inv s" and "0 \<le> d"
  shows "server_inv (s\<lparr>fs_now := fs_now s + d\<rparr>)"
proof -
  have "fs_since s x \<le> held_until (s\<lparr>fs_now := fs_now s + d\<rparr>) x
      \<and> held_until (s\<lparr>fs_now := fs_now s + d\<rparr>) x \<le> fs_now s + d" if "x \<in> fs_granted s" for x
    using server_inv_spans [OF assms(1) that] assms(2) by (auto simp: held_until_def split: if_splits)
  then show ?thesis using assms(1) unfolding server_inv_def by simp
qed

lemma server_step_inv:
  assumes "fence_inv off s" and "server_inv s'" and "later s s'" and "fs_proc s' = fs_proc s"
  shows "fence_inv off s'"
  using assms later_proc_inv [OF assms(3)] by (simp add: fence_inv_def session_of_def)

lemma fence_step_inv: "fence_step c off s s' \<Longrightarrow> fence_inv off s \<Longrightarrow> fence_inv off s'"
proof (induction rule: fence_step.induct)
  case (tick d s)
  then have "server_inv s" by (simp add: fence_inv_def)
  then show ?case
    by (rule server_step_inv [OF tick(2) tick_server_inv tick_later]) (simp_all add: tick(1))
next
  case (server_releases s)
  then have "server_inv s" by (simp add: fence_inv_def)
  then show ?case
    by (intro server_step_inv [OF server_releases give_up_server_inv give_up_later])
       (simp_all add: give_up_lock_def split: option.splits)
next
  case (late_try x s)
  then show ?case by (intro grant_inv)
next
  case (server_tries r s p sent)
  let ?x = "session_of s p"
  have r: "proc_inv s (off p) ?x r" using server_tries by (simp add: fence_inv_def)
  have g: "fence_inv off (grant ?x s)"
    using server_tries by (intro grant_inv) (auto simp: fence_inv_def server_inv_def session_of_def)
  have same: "fs_proc (grant ?x s) = fs_proc s" "fs_now (grant ?x s) = fs_now s" by (simp_all add: grant_def)
  have lat: "later s (grant ?x s)" using server_tries by (intro grant_later) (auto simp: fence_inv_def)
  have "proc_inv (grant ?x s) (off p) ?x r" using later_proc_inv [OF lat r] .
  moreover have "fs_lock s = None \<Longrightarrow> vouched (grant ?x s) ?x (sent - off p)"
    using r server_tries(2) by (simp add: proc_inv_def vouched_def grant_def held_until_def)
  ultimately have "proc_inv (grant ?x s) (off p) ?x (at_pc (Pc_Trying sent (Some (fs_lock s = None))) r)"
    using server_tries(2) by (auto simp: proc_inv_def at_pc_def)
  then show ?case
    using g same server_tries(1) by (intro put_proc_inv) (simp_all add: session_of_def at_pc_def)
next
  case (server_checks r s p sent)
  have r: "proc_inv s (off p) (session_of s p) r" using server_checks by (simp add: fence_inv_def)
  have "fs_lock s = Some (session_of s p) \<Longrightarrow> vouched s (session_of s p) (sent - off p)"
    using r server_checks server_inv_lock [of s "session_of s p"]
    by (auto simp: proc_inv_def vouched_def held_until_def fence_inv_def)
  then show ?case
    using server_checks r by (intro put_proc_inv) (auto simp: proc_inv_def at_pc_def session_of_def)
next
  case (got_lock r s p sent)
  have r: "proc_inv s (off p) (session_of s p) r" using got_lock by (simp add: fence_inv_def)
  then have v: "vouched s (session_of s p) (sent - off p)" using got_lock by (simp add: proc_inv_def)
  then have "fs_since s (session_of s p) \<le> fs_now s"
    using got_lock server_inv_spans [of s "session_of s p"] by (auto simp: vouched_def fence_inv_def)
  then show ?case
    using got_lock v
    by (intro put_proc_inv) (auto simp: proc_inv_def fence_acquire_def clock_of_def session_of_def)
next
  case (confirmed r s p sent f keep)
  have r: "proc_inv s (off p) (session_of s p) r" using confirmed by (simp add: fence_inv_def)
  then have "vouched s (session_of s p) (sent - off p)" using confirmed by (simp add: proc_inv_def)
  then show ?case
    using confirmed r
    by (intro put_proc_inv)
       (auto simp: proc_inv_def fence_confirm_def fence_lose_def session_of_def split: if_splits)
next
  case (dial r s p)
  have r: "proc_inv s (off p) (session_of s p) r" using dial by (simp add: fence_inv_def)
  then have "\<not> fe_held (pr_fence r)" using dial by (auto simp: proc_inv_def)
  then show ?case using dial by (intro put_proc_inv) (auto simp: proc_inv_def)
next
  case (release pc r s p)
  then show ?case
    by (intro put_proc_inv) (auto simp: proc_inv_def lose_to_def fence_lose_def)
next
  case (shutdown r s p)
  have r: "proc_inv s (off p) (session_of s p) r" using shutdown by (simp add: fence_inv_def)
  then show ?case
    using shutdown by (intro put_proc_inv) (auto simp: proc_inv_def fence_lose_def session_of_def)
next
  case (is_primary r s p)
  then have r: "proc_inv s (off p) (session_of s p) r" by (simp add: fence_inv_def)
  then show ?case
    using is_primary by (intro put_proc_inv) (auto simp: proc_inv_def at_pc_def session_of_def)
next
  case (not_primary r s p)
  then have r: "proc_inv s (off p) (session_of s p) r" by (simp add: fence_inv_def)
  then show ?case
    using not_primary by (intro put_proc_inv) (auto simp: proc_inv_def at_pc_def session_of_def)
next
  case (send_try r s p)
  then have r: "proc_inv s (off p) (session_of s p) r" by (simp add: fence_inv_def)
  then show ?case
    using send_try by (intro put_proc_inv) (auto simp: proc_inv_def at_pc_def session_of_def clock_of_def)
next
  case (no_lock r s p sent a)
  then have r: "proc_inv s (off p) (session_of s p) r" by (simp add: fence_inv_def)
  then show ?case
    using no_lock by (intro put_proc_inv) (auto simp: proc_inv_def at_pc_def session_of_def)
next
  case (send_check r s p)
  then have r: "proc_inv s (off p) (session_of s p) r" by (simp add: fence_inv_def)
  then show ?case
    using send_check by (intro put_proc_inv) (auto simp: proc_inv_def at_pc_def session_of_def clock_of_def)
next
  case (not_confirmed r s p sent a)
  then show ?case
    by (intro put_proc_inv) (auto simp: proc_inv_def lose_to_def fence_lose_def)
next
  case (stopping r s p)
  then have r: "proc_inv s (off p) (session_of s p) r" by (simp add: fence_inv_def)
  then show ?case
    using stopping by (intro put_proc_inv) (auto simp: proc_inv_def at_pc_def session_of_def)
qed

lemma fence_start_inv: "fence_inv off (fs_start t)"
  by (simp add: fence_inv_def fs_start_def server_inv_def proc_inv_def new_fence_def)

lemma fence_reach_inv: "fence_reach c off s \<Longrightarrow> fence_inv off s"
  by (induction rule: fence_reach.induct) (auto intro: fence_step_inv fence_start_inv)

section \<open>The holding loop against a server that answers\<close>

text \<open>
  The heartbeat loop of \<^verbatim>\<open>holdOnce\<close> when every confirmation says yes: from the answer received
  at \<open>recv\<close> with the fence \<open>f\<close>, and with the round trips of the next heartbeats given, the spans
  of the process's clock between two answers with the fence as it is during each.
\<close>

fun hold_spans :: "fence_config \<Rightarrow> fence \<Rightarrow> instant \<Rightarrow> duration list \<Rightarrow> (instant \<times> instant \<times> fence) list" where
  "hold_spans c f recv [] = []"
| "hold_spans c f recv (r # rs) =
     (let sent = recv + fc_interval c; answered = sent + r; (f', keep) = fence_confirm c sent f
      in (recv, answered, f) # (if keep then hold_spans c f' answered rs else []))"

section \<open>Keys, reasons and errors\<close>

text \<open>A bigint key as the server stores it: its high and its low 32 bits.  Go shifts a signed
  value arithmetically.\<close>

definition advisory_key_parts :: "64 word \<Rightarrow> 64 word \<times> 64 word" where
  "advisory_key_parts key = (signed_drop_bit 32 key AND 0xffffffff, key AND 0xffffffff)"

definition safe_reason :: "string \<Rightarrow> bool" where
  "safe_reason r =
     (r \<noteq> [] \<and> length r \<le> 40
      \<and> list_all (\<lambda>ch. (CHR ''a'' \<le> ch \<and> ch \<le> CHR ''z'') \<or> (CHR ''0'' \<le> ch \<and> ch \<le> CHR ''9'') \<or> ch = CHR ''_'') r)"

text \<open>
  A database error: the nodes of its chain, outermost first, of the types the fence looks for,
  each with the details it carries.
\<close>

datatype db_node =
    Deadline_Exceeded
  | Ctx_Canceled
  | Credentials_Failed string
  | Credentials_Unavailable
  | Pg_Error (pg_code: string) (pg_message: string)
  | Certificate_Error string
  | Net_Error string
  | Other_Error string

type_synonym db_error = "db_node list"

datatype public_error = Pub_Deadline | Pub_Canceled | Pub_Credentials string
  | Pub_Credentials_Unavailable | Pub_Postgres string | Pub_Tls | Pub_Network | Pub_Withheld

fun first_some :: "('a \<Rightarrow> 'b option) \<Rightarrow> 'a list \<Rightarrow> 'b option" where
  "first_some g [] = None"
| "first_some g (x # xs) = (case g x of Some y \<Rightarrow> Some y | None \<Rightarrow> first_some g xs)"

fun reason_of :: "db_node \<Rightarrow> string option" where
  "reason_of (Credentials_Failed r) = Some r"
| "reason_of _ = None"

fun code_of :: "db_node \<Rightarrow> string option" where
  "code_of (Pg_Error code _) = Some code"
| "code_of _ = None"

fun is_certificate :: "db_node \<Rightarrow> bool" where
  "is_certificate (Certificate_Error _) = True"
| "is_certificate _ = False"

fun is_net :: "db_node \<Rightarrow> bool" where
  "is_net (Net_Error _) = True"
| "is_net _ = False"

definition redact :: "db_error \<Rightarrow> public_error" where
  "redact e =
     (if Deadline_Exceeded \<in> set e then Pub_Deadline
      else if Ctx_Canceled \<in> set e then Pub_Canceled
      else case first_some reason_of e of
        Some r \<Rightarrow> Pub_Credentials r
      | None \<Rightarrow>
          (if Credentials_Unavailable \<in> set e then Pub_Credentials_Unavailable
           else case first_some code_of e of
             Some code \<Rightarrow> Pub_Postgres code
           | None \<Rightarrow>
               (if list_ex is_certificate e then Pub_Tls
                else if list_ex is_net e then Pub_Network
                else Pub_Withheld)))"

text \<open>A dial with a credentials source: the error its failure becomes.\<close>

definition credential_failure :: "public_error option \<Rightarrow> string option \<Rightarrow> public_error" where
  "credential_failure ctx_err reason =
     (case ctx_err of
        Some e \<Rightarrow> e
      | None \<Rightarrow> (case reason of
            Some r \<Rightarrow> (if safe_reason r then Pub_Credentials r else Pub_Credentials_Unavailable)
          | None \<Rightarrow> Pub_Credentials_Unavailable))"

section \<open>Properties\<close>

text \<open>C1. At most one owner: in every reachable state of any number of gateway processes, with
  clocks at any offsets, queries delayed or lost, locks released by the server at any moment and
  processes stopping and starting again, no two processes both report themselves the owner.\<close>

theorem at_most_one_owner:
  assumes "fence_reach c off s" and "p \<noteq> q" and "owner c off s p"
  shows "\<not> owner c off s q"
proof
  assume "owner c off s q"
  then have inv: "fence_inv off s" using fence_reach_inv assms(1) by blast
  have facts: "session_of s z \<in> fs_granted s
      \<and> fe_confirmed (pr_fence (fs_proc s z)) - off z \<le> held_until s (session_of s z)
      \<and> fs_since s (session_of s z) \<le> fe_acquired (pr_fence (fs_proc s z)) - off z
      \<and> fe_acquired (pr_fence (fs_proc s z)) - off z \<le> fs_now s - validity c
      \<and> fs_now s - validity c < fe_confirmed (pr_fence (fs_proc s z)) - off z"
    if "owner c off s z" for z
  proof -
    have "proc_inv s (off z) (session_of s z) (fs_proc s z)" using inv by (simp add: fence_inv_def)
    then show ?thesis
      using that by (auto simp: owner_def owned_locked_def Let_def proc_inv_def vouched_def clock_of_def)
  qed
  have ne: "session_of s p \<noteq> session_of s q" using assms(2) by (simp add: session_of_def)
  show False
    using holds_disjoint [OF _ _ _ ne] facts [OF assms(3)] facts [OF \<open>owner c off s q\<close>] inv
    by (fastforce simp: fence_inv_def)
qed

text \<open>When ownership is steady: a holder past its grace whose heartbeats are all answered
  yes, each within the timeout, is the owner at every instant if and only if any two
  consecutive round trips together take less than the timeout.\<close>

theorem steady_owner:
  assumes "0 < fc_interval c" and "\<forall>r \<in> set (r0 # rs). 0 \<le> r \<and> r < fc_timeout c"
    and "fe_held f" and "fe_acquired f + validity c \<le> recv" and "fe_confirmed f = recv - r0"
  shows "(\<forall>(t0, t1, g) \<in> set (hold_spans c f recv rs). \<forall>t. t0 \<le> t \<and> t \<le> t1 \<longrightarrow> owned_locked c t g)
    \<longleftrightarrow> successively (\<lambda>a b. a + b < fc_timeout c) (r0 # rs)"
  using assms
proof (induction rs arbitrary: f recv r0)
  case Nil
  then show ?case by simp
next
  case (Cons r rs)
  let ?sent = "recv + fc_interval c"
  let ?f = "f\<lparr>fe_confirmed := ?sent\<rparr>"
  have keep: "fence_confirm c ?sent f = (?f, True)"
    using Cons.prems by (simp add: fence_confirm_def validity_def)
  have IH: "(\<forall>(t0, t1, g) \<in> set (hold_spans c ?f (?sent + r) rs). \<forall>t. t0 \<le> t \<and> t \<le> t1 \<longrightarrow> owned_locked c t g)
      \<longleftrightarrow> successively (\<lambda>a b. a + b < fc_timeout c) (r # rs)"
    using Cons.prems by (intro Cons.IH) auto
  have "(\<forall>t. recv \<le> t \<and> t \<le> ?sent + r \<longrightarrow> owned_locked c t f) \<longleftrightarrow> r0 + r < fc_timeout c"
  proof
    assume "\<forall>t. recv \<le> t \<and> t \<le> ?sent + r \<longrightarrow> owned_locked c t f"
    then have "owned_locked c (?sent + r) f" using Cons.prems(1,2) by simp
    then show "r0 + r < fc_timeout c" using Cons.prems(5) by (simp add: owned_locked_def Let_def validity_def)
  next
    assume "r0 + r < fc_timeout c"
    then show "\<forall>t. recv \<le> t \<and> t \<le> ?sent + r \<longrightarrow> owned_locked c t f"
      using Cons.prems by (auto simp: owned_locked_def Let_def validity_def)
  qed
  then show ?case using IH keep by (simp add: Let_def)
qed

text \<open>The two halves of an advisory-lock key, as the heartbeat looks them up, are each a
  32-bit unsigned value, and together they determine the key: no other key's lock is taken for
  this one's.\<close>

theorem advisory_key_parts_faithful:
  "(advisory_key_parts k = advisory_key_parts k') = (k = k')
   \<and> uint (fst (advisory_key_parts k)) < 2 ^ 32 \<and> uint (snd (advisory_key_parts k)) < 2 ^ 32"
proof -
  have m: "(0xffffffff :: 64 word) = mask 32" by (simp add: mask_eq_exp_minus_1)
  have bound: "uint (w AND 0xffffffff :: 64 word) < 2 ^ 32" for w
    unfolding m using take_bit_int_less_exp [of 32 "uint w"]
    by (simp flip: take_bit_eq_mask add: unsigned_take_bit_eq)
  have bits: "bit k n = (if n < 32 then bit (snd (advisory_key_parts k)) n
      else bit (fst (advisory_key_parts k)) (n - 32))" if "n < 64" for k n
    using that unfolding advisory_key_parts_def m
    by (auto simp: bit_and_iff bit_mask_iff bit_signed_drop_bit_iff bit_simps)
  have "k = k'" if eq: "advisory_key_parts k = advisory_key_parts k'"
  proof (rule bit_word_eqI)
    fix n
    assume "n < LENGTH(64)"
    then have n: "n < 64" by simp
    show "bit k n = bit k' n" unfolding bits [OF n, of k] bits [OF n, of k'] eq by (rule refl)
  qed
  moreover have "uint (fst (advisory_key_parts k)) < 2 ^ 32" "uint (snd (advisory_key_parts k)) < 2 ^ 32"
    unfolding advisory_key_parts_def using bound by simp_all
  ultimately show ?thesis by blast
qed

definition hide_details :: "db_node \<Rightarrow> db_node" where
  "hide_details n =
     (case n of Pg_Error code _ \<Rightarrow> Pg_Error code [] | Certificate_Error _ \<Rightarrow> Certificate_Error []
      | Net_Error _ \<Rightarrow> Net_Error [] | Other_Error _ \<Rightarrow> Other_Error [] | _ \<Rightarrow> n)"

lemma first_some_map: "first_some g (map h e) = first_some (g \<circ> h) e"
  by (induction e) (auto split: option.splits)

text \<open>What reaches the log says nothing of a host, a user, a database or a message: two
  errors whose chains have the same shape and differ only in such details are rendered the same.\<close>

theorem redact_hides_details:
  "redact (map hide_details e) = redact e"
proof -
  have hidden: "(hide_details n = x) = (n = x)"
    if "x \<in> {Deadline_Exceeded, Ctx_Canceled, Credentials_Unavailable}" for x n
    using that by (cases n) (auto simp: hide_details_def)
  have mem: "x \<in> hide_details ` set e \<longleftrightarrow> x \<in> set e"
    if "x \<in> {Deadline_Exceeded, Ctx_Canceled, Credentials_Unavailable}" for x
    using hidden [OF that] by (metis image_iff)
  have comp: "reason_of \<circ> hide_details = reason_of" "code_of \<circ> hide_details = code_of"
    "is_certificate \<circ> hide_details = is_certificate" "is_net \<circ> hide_details = is_net"
  proof -
    have "reason_of (hide_details n) = reason_of n \<and> code_of (hide_details n) = code_of n
        \<and> is_certificate (hide_details n) = is_certificate n \<and> is_net (hide_details n) = is_net n" for n
      by (cases n) (simp_all add: hide_details_def)
    then show "reason_of \<circ> hide_details = reason_of" "code_of \<circ> hide_details = code_of"
      "is_certificate \<circ> hide_details = is_certificate" "is_net \<circ> hide_details = is_net"
      by (simp_all add: fun_eq_iff)
  qed
  have ex: "list_ex P (map hide_details e) = list_ex (P \<circ> hide_details) e" for P
    by (simp add: list_ex_iff)
  show ?thesis
    by (simp only: redact_def first_some_map ex comp set_map mem insertI1 insert_iff simp_thms)
qed

section \<open>Witnesses\<close>

definition fc0 :: fence_config where
  "fc0 = \<lparr>fc_lock_key = 77, fc_interval = 10, fc_timeout = 5\<rparr>"

theorem steady_owner_witness:
  "fence_problems fc0 = [] \<and>
   list_all (\<lambda>(t0, t1, g). owned_locked fc0 t0 g \<and> owned_locked fc0 t1 g)
     (hold_spans fc0 \<lparr>fe_held = True, fe_acquired = 1, fe_confirmed = 18\<rparr> 20 [2, 1, 3])"
proof -
  let ?f = "\<lparr>fe_held = True, fe_acquired = 1, fe_confirmed = 18\<rparr>"
  have "\<forall>(t0, t1, g) \<in> set (hold_spans fc0 ?f 20 [2, 1, 3]). \<forall>t. t0 \<le> t \<and> t \<le> t1 \<longrightarrow> owned_locked fc0 t g"
    using steady_owner [of fc0 2 "[2, 1, 3]" ?f 20] by (simp add: fc0_def validity_def del: hold_spans.simps)
  moreover have "list_all (\<lambda>(t0, t1, g). t0 \<le> t1) (hold_spans fc0 ?f 20 [2, 1, 3])"
    by (simp add: fc0_def fence_confirm_def validity_def fence_lose_def)
  ultimately show ?thesis
    by (fastforce simp: list_all_iff fence_problems_def fc0_def simp del: hold_spans.simps)
qed

text \<open>Process 0 dials, takes the lock, heartbeats once and sits out its grace.\<close>

lemma fence_reach_step: "fence_reach c off s \<Longrightarrow> fence_step c off s s' \<Longrightarrow> s' = t \<Longrightarrow> fence_reach c off t"
  by (auto intro: fence_reach.step)

definition fw :: "hold_pc \<Rightarrow> fence \<Rightarrow> instant \<Rightarrow> bool \<Rightarrow> fsys" where
  "fw pc f now locked =
     (let s = fs_start 0; x = Session 0 1;
          s1 = s\<lparr>fs_now := now, fs_proc := (fs_proc s)(0 := \<lparr>pr_fence = f, pr_pc = pc, pr_session = 1\<rparr>)\<rparr>
      in if locked then s1\<lparr>fs_lock := Some x, fs_tried := {x}, fs_granted := {x}, fs_since := (fs_since s)(x := 0)\<rparr>
         else s1)"

lemmas fw_defs = fw_def fs_start_def put_proc_def at_pc_def Let_def grant_def session_of_def clock_of_def

lemma owner_reachable:
  "fence_reach fc0 (\<lambda>_. 0) (fw Pc_Holding \<lparr>fe_held = True, fe_acquired = 0, fe_confirmed = 10\<rparr> 15 True)"
proof -
  let ?f = "\<lparr>fe_held = True, fe_acquired = 0, fe_confirmed = 0\<rparr>"
  let ?R = "fence_reach fc0 (\<lambda>_. 0)"
  have "?R (fs_start 0)" by (rule fence_reach.initial)
  then have "?R (fw Pc_Dialed new_fence 0 False)"
    by (rule fence_reach_step [OF _ fence_step.dial [OF refl, of _ 0]]) (simp_all add: fw_defs)
  then have "?R (fw Pc_Primary new_fence 0 False)"
    by (rule fence_reach_step [OF _ fence_step.is_primary [OF refl, of _ 0]]) (simp_all add: fw_defs)
  then have "?R (fw (Pc_Trying 0 None) new_fence 0 False)"
    by (rule fence_reach_step [OF _ fence_step.send_try [OF refl, of _ 0]]) (simp_all add: fw_defs)
  then have "?R (fw (Pc_Trying 0 (Some True)) new_fence 0 True)"
    by (rule fence_reach_step [OF _ fence_step.server_tries [OF refl, of _ 0 0]]) (simp_all add: fw_defs)
  then have "?R (fw Pc_Holding ?f 0 True)"
    by (rule fence_reach_step [OF _ fence_step.got_lock [OF refl, of _ 0 0]])
       (simp_all add: fw_defs fence_acquire_def new_fence_def)
  then have "?R (fw Pc_Holding ?f 10 True)"
    by (rule fence_reach_step [OF _ fence_step.tick [of 10]]) (simp_all add: fw_defs)
  then have "?R (fw (Pc_Checking 10 None) ?f 10 True)"
    by (rule fence_reach_step [OF _ fence_step.send_check [OF refl, of _ 0]]) (simp_all add: fw_defs)
  then have "?R (fw (Pc_Checking 10 (Some True)) ?f 10 True)"
    by (rule fence_reach_step [OF _ fence_step.server_checks [OF refl, of _ 0 10]]) (simp_all add: fw_defs)
  then have "?R (fw Pc_Holding \<lparr>fe_held = True, fe_acquired = 0, fe_confirmed = 10\<rparr> 10 True)"
    by (rule fence_reach_step [OF _ fence_step.confirmed [OF refl, of _ 0 10]])
       (auto simp: fw_defs fence_confirm_def fc0_def validity_def split: if_splits)
  then show ?thesis
    by (rule fence_reach_step [OF _ fence_step.tick [of 5]]) (simp_all add: fw_defs)
qed

theorem at_most_one_owner_witness:
  "\<exists>s. owner fc0 (\<lambda>_. 0) s 0 \<and> \<not> owner fc0 (\<lambda>_. 0) s 1"
proof -
  let ?s = "fw Pc_Holding \<lparr>fe_held = True, fe_acquired = 0, fe_confirmed = 10\<rparr> 15 True"
  have "owner fc0 (\<lambda>_. 0) ?s 0"
    by (simp add: owner_def owned_locked_def fw_defs fc0_def validity_def)
  then show ?thesis using at_most_one_owner [OF owner_reachable, of 0 1] by auto
qed

end
