(* ===== verification/IdentityRepo.thy ===== *)
theory IdentityRepo
  imports Prelude "HOL-Library.Char_ord"
begin

text \<open>
  The persistence port of the identity service and its in-memory implementation,
  \<^verbatim>\<open>services/go/identity/internal/app/identity.go\<close> and \<^verbatim>\<open>erasure_memory.go\<close>: one-time-code
  challenges, sessions and their superseded refresh tokens, per-number rate limits and
  account erasures.  Every method is one critical section of the repository's lock and is one
  function here; maps are partial functions, the zero \<^verbatim>\<open>time.Time\<close> is None.  A Go error is the
  list of the sentinels its chain holds, so \<^verbatim>\<open>errors.Is\<close> is membership and wrapping is
  concatenation.
\<close>

section \<open>Errors\<close>

datatype sentinel =
    Invalid_Otp | Expired_Otp | Invalid_Msisdn | Session_Conflict | Subscriber_Erased
  | Rate_Limited "instant option" | Device_Key_Already_Enrolled | Enrollment_Unavailable
  | Invalid_Device_Proof | Token_Issuance_Unavailable | Access_Token_Issuance
  | Device_Proof_Required | Device_Refresh_Unavailable | Session_Not_Device_Bound
  | Refresh_Token_Not_Hashed | Msisdn_Not_Pseudonymised | Otp_Delivery_Failed
  | Invalid_Token | Token_Reused | Play_Integrity_Failed | Guardian_Forbidden
  | Invalid_Integrity_Tier | Account_Deletion_Unavailable | Play_Integrity_Unavailable
  | Dpop_Invalid_Proof
  | Store_Failure string
  | External_Failure string

type_synonym id_error = "sentinel list"

definition err_is :: "id_error \<Rightarrow> sentinel \<Rightarrow> bool" where
  "err_is e x = (x \<in> set e)"

section \<open>Stored values\<close>

definition is_lower_hex64 :: "string \<Rightarrow> bool" where
  "is_lower_hex64 h =
     (length h = 64
      \<and> list_all (\<lambda>ch. (CHR ''0'' \<le> ch \<and> ch \<le> CHR ''9'') \<or> (CHR ''a'' \<le> ch \<and> ch \<le> CHR ''f'')) h)"

definition valid_msisdn_pseudonym :: "string \<Rightarrow> bool" where
  "valid_msisdn_pseudonym p = is_lower_hex64 p"

definition valid_refresh_token_hash :: "string \<Rightarrow> bool" where
  "valid_refresh_token_hash h = is_lower_hex64 h"

datatype integrity_tier = Tier_Zero | Tier_Certified | Tier_Restricted | Tier_Unverified | Tier_Other string

definition tier_valid :: "integrity_tier \<Rightarrow> bool" where
  "tier_valid t = (t = Tier_Zero \<or> t = Tier_Certified \<or> t = Tier_Restricted \<or> t = Tier_Unverified)"

record session =
  se_id :: string
  se_subscriber :: string
  se_refresh_token :: string
  se_refresh_hash :: string
  se_device_id :: string
  se_roles :: "string list"
  se_created :: instant
  se_expires :: instant
  se_revoked :: bool
  se_thumbprint :: string
  se_tier :: integrity_tier
  se_fence :: "instant option"

definition check_storable_session :: "session \<Rightarrow> id_error option" where
  "check_storable_session s =
     (if se_refresh_token s \<noteq> [] \<or> \<not> valid_refresh_token_hash (se_refresh_hash s)
      then Some [Refresh_Token_Not_Hashed]
      else if \<not> tier_valid (se_tier s) then Some [Invalid_Integrity_Tier]
      else None)"

definition stored_session :: "session \<Rightarrow> session" where
  "stored_session s =
     s\<lparr>se_fence := None, se_tier := (if se_tier s = Tier_Zero then Tier_Unverified else se_tier s)\<rparr>"

datatype otp_purpose = Purpose_Sign_In | Purpose_Account_Deletion

record otp =
  ot_request :: string
  ot_purpose :: otp_purpose
  ot_pseudonym :: string
  ot_subscriber :: string
  ot_code_hash :: string
  ot_attempts :: nat
  ot_expires :: instant

record device =
  dv_id :: string
  dv_model :: string
  dv_certified :: bool

record delegation =
  dg_guardian :: string
  dg_subscriber :: string
  dg_permissions :: "string list"

record rate_policy =
  rp_max_requests :: nat
  rp_max_failures :: nat
  rp_window :: duration
  rp_lockout :: duration

definition default_otp_rate_policy :: rate_policy where
  "default_otp_rate_policy = \<lparr>rp_max_requests = 3, rp_max_failures = 5,
     rp_window = 900 * second, rp_lockout = 900 * second\<rparr>"

record otp_failure =
  of_at :: instant
  of_id :: nat

record rate_state =
  rs_requests :: "instant list"
  rs_failures :: "otp_failure list"
  rs_locked_until :: "instant option"
  rs_locked_by :: nat

definition new_rate_state :: rate_state where
  "new_rate_state = \<lparr>rs_requests = [], rs_failures = [], rs_locked_until = None, rs_locked_by = 0\<rparr>"

record erasure =
  er_subscriber :: string
  er_requested_at :: instant
  er_session :: string
  er_refresh_hash :: string
  er_thumbprint :: string
  er_receipt_expires :: instant

record repo =
  rp_otps :: "string \<rightharpoonup> otp"
  rp_sessions :: "string \<rightharpoonup> session"
  rp_superseded :: "string \<Rightarrow> string set"
  rp_devices :: "string \<rightharpoonup> device"
  rp_delegations :: "string \<rightharpoonup> delegation"
  rp_rates :: "string \<rightharpoonup> rate_state"
  rp_next_reservation :: nat
  rp_erasures :: "erasure list"
  rp_receipts :: "string \<rightharpoonup> (string \<times> instant)"

definition new_repo :: repo where
  "new_repo = \<lparr>rp_otps = Map.empty, rp_sessions = Map.empty, rp_superseded = (\<lambda>_. {}),
     rp_devices = Map.empty, rp_delegations = Map.empty, rp_rates = Map.empty,
     rp_next_reservation = 0, rp_erasures = [], rp_receipts = Map.empty\<rparr>"

section \<open>Rate limits\<close>

definition before_opt :: "instant \<Rightarrow> instant option \<Rightarrow> bool" where
  "before_opt t u = (case u of None \<Rightarrow> False | Some x \<Rightarrow> t < x)"

definition within_window :: "instant list \<Rightarrow> instant \<Rightarrow> duration \<Rightarrow> instant list" where
  "within_window ts now window = filter (\<lambda>t. now - t < window) ts"

definition failures_within_window :: "otp_failure list \<Rightarrow> instant \<Rightarrow> duration \<Rightarrow> otp_failure list" where
  "failures_within_window fs now window = filter (\<lambda>f. now - of_at f < window) fs"

text \<open>The oldest time plus the window; the code is only reached with at least one time.\<close>

definition slot_frees_at :: "instant list \<Rightarrow> duration \<Rightarrow> instant" where
  "slot_frees_at ts window = foldl (\<lambda>o' t. if t < o' then t else o') (hd ts) (tl ts) + window"

definition limited_until :: "rate_state \<Rightarrow> instant \<Rightarrow> instant list \<Rightarrow> nat \<Rightarrow> duration \<Rightarrow> instant option" where
  "limited_until st now ts limit window =
     (let r0 = (if before_opt now (rs_locked_until st) then rs_locked_until st else None)
      in if length ts \<ge> limit
         then (let a = slot_frees_at ts window
               in case r0 of None \<Rightarrow> Some a | Some r \<Rightarrow> Some (if a > r then a else r))
         else r0)"

definition rate_state_of :: "repo \<Rightarrow> string \<Rightarrow> rate_state" where
  "rate_state_of m k = (case rp_rates m k of None \<Rightarrow> new_rate_state | Some st \<Rightarrow> st)"

definition put_rate :: "string \<Rightarrow> rate_state \<Rightarrow> repo \<Rightarrow> repo" where
  "put_rate k st m = m\<lparr>rp_rates := (rp_rates m)(k \<mapsto> st)\<rparr>"

definition reserve_otp_request :: "string \<Rightarrow> instant \<Rightarrow> rate_policy \<Rightarrow> repo \<Rightarrow> repo \<times> id_error option" where
  "reserve_otp_request k now p m =
     (if \<not> valid_msisdn_pseudonym k then (m, Some [Msisdn_Not_Pseudonymised])
      else let st = rate_state_of m k;
               st1 = st\<lparr>rs_requests := within_window (rs_requests st) now (rp_window p)\<rparr>
           in if before_opt now (rs_locked_until st1) \<or> length (rs_requests st1) \<ge> rp_max_requests p
              then (put_rate k st1 m,
                    Some [Rate_Limited (limited_until st1 now (rs_requests st1) (rp_max_requests p) (rp_window p))])
              else (put_rate k (st1\<lparr>rs_requests := rs_requests st1 @ [now]\<rparr>) m, None))"

definition reserve_otp_verification :: "string \<Rightarrow> instant \<Rightarrow> rate_policy \<Rightarrow> repo \<Rightarrow> repo \<times> (id_error + nat)" where
  "reserve_otp_verification k now p m =
     (if \<not> valid_msisdn_pseudonym k then (m, Inl [Msisdn_Not_Pseudonymised])
      else let st = rate_state_of m k;
               st1 = st\<lparr>rs_failures := failures_within_window (rs_failures st) now (rp_window p)\<rparr>
           in if before_opt now (rs_locked_until st1) \<or> length (rs_failures st1) \<ge> rp_max_failures p
              then (put_rate k st1 m,
                    Inl [Rate_Limited (limited_until st1 now (map of_at (rs_failures st1))
                           (rp_max_failures p) (rp_window p))])
              else let i = rp_next_reservation m + 1;
                       st2 = st1\<lparr>rs_failures := rs_failures st1 @ [\<lparr>of_at = now, of_id = i\<rparr>]\<rparr>;
                       st3 = (if length (rs_failures st2) \<ge> rp_max_failures p
                              then st2\<lparr>rs_locked_until := Some (now + rp_lockout p), rs_locked_by := i\<rparr>
                              else st2)
                   in (put_rate k st3 (m\<lparr>rp_next_reservation := i\<rparr>), Inr i))"

fun remove_reservation :: "nat \<Rightarrow> otp_failure list \<Rightarrow> otp_failure list option" where
  "remove_reservation i [] = None"
| "remove_reservation i (f # fs) =
     (if of_id f = i then Some fs else map_option (Cons f) (remove_reservation i fs))"

definition release_otp_verification :: "string \<Rightarrow> nat \<Rightarrow> repo \<Rightarrow> repo \<times> id_error option" where
  "release_otp_verification k i m =
     (if \<not> valid_msisdn_pseudonym k then (m, Some [Msisdn_Not_Pseudonymised])
      else case rp_rates m k of
        None \<Rightarrow> (m, None)
      | Some st \<Rightarrow>
          (case remove_reservation i (rs_failures st) of
             None \<Rightarrow> (m, None)
           | Some fs \<Rightarrow>
               (let st1 = st\<lparr>rs_failures := fs\<rparr>
                in (put_rate k (if rs_locked_by st1 = i
                                then st1\<lparr>rs_locked_until := None, rs_locked_by := 0\<rparr> else st1) m, None))))"

definition confirm_otp_failure :: "string \<Rightarrow> nat \<Rightarrow> repo \<Rightarrow> id_error + instant option" where
  "confirm_otp_failure k i m =
     (if \<not> valid_msisdn_pseudonym k then Inl [Msisdn_Not_Pseudonymised]
      else case rp_rates m k of
        None \<Rightarrow> Inr None
      | Some st \<Rightarrow>
          (if i = 0 \<or> rs_locked_by st \<noteq> i \<or> rs_locked_until st = None then Inr None
           else Inr (rs_locked_until st)))"

definition reset_otp_failures :: "string \<Rightarrow> repo \<Rightarrow> repo \<times> id_error option" where
  "reset_otp_failures k m =
     (if \<not> valid_msisdn_pseudonym k then (m, Some [Msisdn_Not_Pseudonymised])
      else case rp_rates m k of
        None \<Rightarrow> (m, None)
      | Some st \<Rightarrow> (put_rate k (st\<lparr>rs_failures := [], rs_locked_until := None, rs_locked_by := 0\<rparr>) m, None))"

section \<open>Challenges\<close>

definition save_otp :: "otp \<Rightarrow> repo \<Rightarrow> repo \<times> id_error option" where
  "save_otp c m =
     (if \<not> valid_msisdn_pseudonym (ot_pseudonym c) then (m, Some [Msisdn_Not_Pseudonymised])
      else (m\<lparr>rp_otps := (rp_otps m)(ot_request c \<mapsto> c)\<rparr>, None))"

definition get_otp :: "string \<Rightarrow> repo \<Rightarrow> id_error + otp" where
  "get_otp r m = (case rp_otps m r of None \<Rightarrow> Inl [Invalid_Otp] | Some c \<Rightarrow> Inr c)"

definition delete_otp :: "string \<Rightarrow> repo \<Rightarrow> repo" where
  "delete_otp r m = m\<lparr>rp_otps := (rp_otps m)(r := None)\<rparr>"

definition consume_otp :: "string \<Rightarrow> repo \<Rightarrow> repo \<times> bool" where
  "consume_otp r m =
     (if rp_otps m r = None then (m, False) else (m\<lparr>rp_otps := (rp_otps m)(r := None)\<rparr>, True))"

definition record_failed_otp_attempt :: "string \<Rightarrow> repo \<Rightarrow> repo \<times> (id_error + nat)" where
  "record_failed_otp_attempt r m =
     (case rp_otps m r of
        None \<Rightarrow> (m, Inl [Invalid_Otp])
      | Some c \<Rightarrow> (m\<lparr>rp_otps := (rp_otps m)(r \<mapsto> c\<lparr>ot_attempts := ot_attempts c + 1\<rparr>)\<rparr>,
                   Inr (ot_attempts c + 1)))"

section \<open>Sessions\<close>

definition replaces_enrolled_key :: "session option \<Rightarrow> session \<Rightarrow> bool" where
  "replaces_enrolled_key stored nxt =
     (case stored of None \<Rightarrow> False
      | Some s \<Rightarrow> se_thumbprint s \<noteq> [] \<and> se_thumbprint nxt \<noteq> se_thumbprint s)"

definition fenced_off :: "session \<Rightarrow> erasure list \<Rightarrow> bool" where
  "fenced_off s es =
     (case se_fence s of None \<Rightarrow> False
      | Some t \<Rightarrow> list_ex (\<lambda>e. er_subscriber e = se_subscriber s \<and> \<not> er_requested_at e < t) es)"

definition put_session :: "session \<Rightarrow> repo \<Rightarrow> repo" where
  "put_session s m = m\<lparr>rp_sessions := (rp_sessions m)(se_id s \<mapsto> s)\<rparr>"

definition save_session :: "session \<Rightarrow> repo \<Rightarrow> repo \<times> id_error option" where
  "save_session s m =
     (case check_storable_session s of
        Some e \<Rightarrow> (m, Some e)
      | None \<Rightarrow>
          (if fenced_off s (rp_erasures m) then (m, Some [Subscriber_Erased])
           else let stored = rp_sessions m (se_id s)
                in if replaces_enrolled_key stored s then (m, Some [Device_Key_Already_Enrolled])
                   else let cp = stored_session s;
                            cp' = (case stored of
                                     Some x \<Rightarrow> if se_revoked x then cp\<lparr>se_revoked := True\<rparr> else cp
                                   | None \<Rightarrow> cp)
                        in (put_session cp' m, None)))"

definition get_session :: "string \<Rightarrow> repo \<Rightarrow> id_error + session" where
  "get_session i m = (case rp_sessions m i of None \<Rightarrow> Inl [Invalid_Token] | Some s \<Rightarrow> Inr s)"

definition replace_session :: "session \<Rightarrow> string \<Rightarrow> repo \<Rightarrow> repo \<times> id_error option" where
  "replace_session s expected m =
     (case check_storable_session s of
        Some e \<Rightarrow> (m, Some e)
      | None \<Rightarrow>
          (case rp_sessions m (se_id s) of
             None \<Rightarrow> (m, Some [Session_Conflict])
           | Some x \<Rightarrow>
               (if se_revoked x \<or> se_refresh_hash x \<noteq> expected then (m, Some [Session_Conflict])
                else if replaces_enrolled_key (Some x) s then (m, Some [Device_Key_Already_Enrolled])
                else let m1 = put_session (stored_session s) m
                     in if se_refresh_hash s \<noteq> expected
                        then (m1\<lparr>rp_superseded := (rp_superseded m1)(se_id s := insert expected (rp_superseded m1 (se_id s)))\<rparr>, None)
                        else (m1, None))))"

definition superseded_refresh_token :: "string \<Rightarrow> string \<Rightarrow> repo \<Rightarrow> bool" where
  "superseded_refresh_token i h m = (h \<in> rp_superseded m i)"

definition revoke_session :: "string \<Rightarrow> repo \<Rightarrow> repo" where
  "revoke_session i m =
     (case rp_sessions m i of None \<Rightarrow> m | Some s \<Rightarrow> m\<lparr>rp_sessions := (rp_sessions m)(i \<mapsto> s\<lparr>se_revoked := True\<rparr>)\<rparr>)"

text \<open>The map is searched over the given list of its keys, in any order.\<close>

definition other_device_key_enrolled :: "string list \<Rightarrow> string \<Rightarrow> string \<Rightarrow> string \<Rightarrow> repo \<Rightarrow> bool" where
  "other_device_key_enrolled ids sub thumb except m =
     list_ex (\<lambda>i. case rp_sessions m i of None \<Rightarrow> False
                  | Some s \<Rightarrow> i \<noteq> except \<and> se_subscriber s = sub \<and> se_thumbprint s \<noteq> [] \<and> se_thumbprint s \<noteq> thumb) ids"

definition save_device :: "device \<Rightarrow> repo \<Rightarrow> repo" where
  "save_device d m = m\<lparr>rp_devices := (rp_devices m)(dv_id d \<mapsto> d)\<rparr>"

definition get_guardian_delegation :: "string \<Rightarrow> string \<Rightarrow> repo \<Rightarrow> id_error + delegation" where
  "get_guardian_delegation g s m =
     (case rp_delegations m (g @ '':'' @ s) of None \<Rightarrow> Inl [Guardian_Forbidden] | Some d \<Rightarrow> Inr d)"

section \<open>Erasure\<close>

definition erase_locked :: "erasure \<Rightarrow> repo \<Rightarrow> repo" where
  "erase_locked e m =
     (let mine = (\<lambda>i. case rp_sessions m i of None \<Rightarrow> False | Some s \<Rightarrow> se_subscriber s = er_subscriber e);
          device_of_mine = (\<lambda>d. \<exists>i s. rp_sessions m i = Some s \<and> se_subscriber s = er_subscriber e
             \<and> se_thumbprint s \<noteq> [] \<and> d = ''dev_'' @ se_thumbprint s)
      in m\<lparr>rp_sessions := (\<lambda>i. if mine i then None else rp_sessions m i),
           rp_superseded := (\<lambda>i. if mine i then {} else rp_superseded m i),
           rp_otps := (\<lambda>r. case rp_otps m r of None \<Rightarrow> None
                         | Some c \<Rightarrow> if ot_subscriber c = er_subscriber e then None else Some c),
           rp_devices := (\<lambda>d. if device_of_mine d then None else rp_devices m d),
           rp_delegations := (\<lambda>k. case rp_delegations m k of None \<Rightarrow> None
                         | Some d \<Rightarrow> if dg_subscriber d = er_subscriber e \<or> dg_guardian d = er_subscriber e
                                    then None else Some d),
           rp_erasures := rp_erasures m @ [e]\<rparr>)"

definition erase_subscriber :: "instant \<Rightarrow> erasure \<Rightarrow> repo \<Rightarrow> repo \<times> id_error option" where
  "erase_subscriber now e m =
     (case rp_sessions m (er_session e) of
        None \<Rightarrow> (m, Some [Session_Conflict])
      | Some s \<Rightarrow>
          (if se_revoked s \<or> se_subscriber s \<noteq> er_subscriber e \<or> \<not> now < se_expires s
              \<or> se_refresh_hash s \<noteq> er_refresh_hash e
           then (m, Some [Session_Conflict])
           else let m1 = erase_locked e m
                in (m1\<lparr>rp_receipts := (rp_receipts m1)(er_session e \<mapsto> (er_thumbprint e, er_receipt_expires e))\<rparr>, None)))"

definition erasure_receipt :: "instant \<Rightarrow> string \<Rightarrow> repo \<Rightarrow> string option" where
  "erasure_receipt now i m =
     (case rp_receipts m i of None \<Rightarrow> None
      | Some (thumb, expires) \<Rightarrow> if now > expires then None else Some thumb)"

section \<open>Runs\<close>

datatype repo_op =
    R_Save_Otp otp | R_Delete_Otp string | R_Consume_Otp string | R_Record_Failed string
  | R_Reserve_Request string instant | R_Reserve_Verification string instant
  | R_Release string nat | R_Reset string
  | R_Save_Session session | R_Replace_Session session string | R_Revoke string
  | R_Save_Device device

fun repo_step :: "rate_policy \<Rightarrow> repo \<Rightarrow> repo_op \<Rightarrow> repo" where
  "repo_step p m (R_Save_Otp c) = fst (save_otp c m)"
| "repo_step p m (R_Delete_Otp r) = delete_otp r m"
| "repo_step p m (R_Consume_Otp r) = fst (consume_otp r m)"
| "repo_step p m (R_Record_Failed r) = fst (record_failed_otp_attempt r m)"
| "repo_step p m (R_Reserve_Request k now) = fst (reserve_otp_request k now p m)"
| "repo_step p m (R_Reserve_Verification k now) = fst (reserve_otp_verification k now p m)"
| "repo_step p m (R_Release k i) = fst (release_otp_verification k i m)"
| "repo_step p m (R_Reset k) = fst (reset_otp_failures k m)"
| "repo_step p m (R_Save_Session s) = fst (save_session s m)"
| "repo_step p m (R_Replace_Session s h) = fst (replace_session s h m)"
| "repo_step p m (R_Revoke i) = revoke_session i m"
| "repo_step p m (R_Save_Device d) = save_device d m"

text \<open>With erasures as well.\<close>

datatype any_op = Op repo_op | Erase instant erasure

fun any_step :: "rate_policy \<Rightarrow> repo \<Rightarrow> any_op \<Rightarrow> repo" where
  "any_step p m (Op x) = repo_step p m x"
| "any_step p m (Erase now e) = fst (erase_subscriber now e m)"

section \<open>The invariant\<close>

definition session_ok :: "string \<Rightarrow> session \<Rightarrow> bool" where
  "session_ok i s \<longleftrightarrow> se_id s = i \<and> se_refresh_token s = [] \<and> valid_refresh_token_hash (se_refresh_hash s)
     \<and> se_tier s \<in> {Tier_Certified, Tier_Restricted, Tier_Unverified} \<and> se_fence s = None"

definition rate_ok :: "rate_policy \<Rightarrow> nat \<Rightarrow> string \<Rightarrow> rate_state \<Rightarrow> bool" where
  "rate_ok p n k st \<longleftrightarrow> valid_msisdn_pseudonym k
     \<and> length (rs_requests st) \<le> rp_max_requests p \<and> length (rs_failures st) \<le> rp_max_failures p
     \<and> (\<forall>f \<in> set (rs_failures st). 0 < of_id f \<and> of_id f \<le> n) \<and> distinct (map of_id (rs_failures st))"

definition repo_inv :: "rate_policy \<Rightarrow> repo \<Rightarrow> bool" where
  "repo_inv p m \<longleftrightarrow>
     (\<forall>i s. rp_sessions m i = Some s \<longrightarrow> session_ok i s)
     \<and> (\<forall>r c. rp_otps m r = Some c \<longrightarrow> ot_request c = r \<and> valid_msisdn_pseudonym (ot_pseudonym c))
     \<and> (\<forall>k st. rp_rates m k = Some st \<longrightarrow> rate_ok p (rp_next_reservation m) k st)"

lemma put_rate_keeps [simp]:
  "rp_sessions (put_rate k st m) = rp_sessions m" "rp_otps (put_rate k st m) = rp_otps m"
  "rp_superseded (put_rate k st m) = rp_superseded m" "rp_erasures (put_rate k st m) = rp_erasures m"
  "rp_next_reservation (put_rate k st m) = rp_next_reservation m"
  "rp_rates (put_rate k st m) = (rp_rates m)(k \<mapsto> st)" "rp_receipts (put_rate k st m) = rp_receipts m"
  "rp_devices (put_rate k st m) = rp_devices m" "rp_delegations (put_rate k st m) = rp_delegations m"
  by (simp_all add: put_rate_def)

lemma put_session_keeps [simp]:
  "rp_sessions (put_session s m) = (rp_sessions m)(se_id s \<mapsto> s)" "rp_otps (put_session s m) = rp_otps m"
  "rp_superseded (put_session s m) = rp_superseded m" "rp_erasures (put_session s m) = rp_erasures m"
  "rp_rates (put_session s m) = rp_rates m" "rp_next_reservation (put_session s m) = rp_next_reservation m"
  by (simp_all add: put_session_def)

lemma stored_session_sel [simp]:
  "se_id (stored_session s) = se_id s" "se_revoked (stored_session s) = se_revoked s"
  "se_thumbprint (stored_session s) = se_thumbprint s" "se_refresh_hash (stored_session s) = se_refresh_hash s"
  "se_subscriber (stored_session s) = se_subscriber s"
  by (simp_all add: stored_session_def)

lemma stored_session_ok: "check_storable_session s = None \<Longrightarrow> session_ok (se_id s) (stored_session s)"
  by (auto simp: check_storable_session_def session_ok_def stored_session_def tier_valid_def split: if_splits)

lemma session_ok_revoked [simp]: "session_ok i (s\<lparr>se_revoked := b\<rparr>) = session_ok i s"
  by (simp add: session_ok_def)

text \<open>A write of one session, of the rates of one number.\<close>

lemma repo_inv_put_session: "repo_inv p m \<Longrightarrow> session_ok (se_id s) s \<Longrightarrow> repo_inv p (put_session s m)"
  by (simp add: repo_inv_def)

lemma repo_inv_put_rate:
  "repo_inv p m \<Longrightarrow> rate_ok p (rp_next_reservation m) k st \<Longrightarrow> repo_inv p (put_rate k st m)"
  by (simp add: repo_inv_def)

lemma rate_ok_new: "valid_msisdn_pseudonym k \<Longrightarrow> rate_ok p n k new_rate_state"
  by (simp add: rate_ok_def new_rate_state_def)

lemma rate_ok_of: "repo_inv p m \<Longrightarrow> valid_msisdn_pseudonym k \<Longrightarrow> rate_ok p (rp_next_reservation m) k (rate_state_of m k)"
  by (auto simp: rate_state_of_def repo_inv_def rate_ok_new split: option.splits)

lemma rate_ok_later: "rate_ok p n k st \<Longrightarrow> n \<le> n' \<Longrightarrow> rate_ok p n' k st"
  by (fastforce simp: rate_ok_def)

lemma filter_map_distinct: "distinct (map f xs) \<Longrightarrow> distinct (map f (filter P xs))"
  by (rule distinct_map_filter)

lemma reserve_request_inv [keeps_inv]:
  assumes "repo_inv p m"
  shows "repo_inv p (fst (reserve_otp_request k now p m))"
proof (cases "valid_msisdn_pseudonym k")
  case True
  let ?st = "rate_state_of m k"
  have ok: "rate_ok p (rp_next_reservation m) k ?st" using rate_ok_of assms True by blast
  have len: "length (within_window (rs_requests ?st) now w) \<le> length (rs_requests ?st)" for w
    by (simp add: within_window_def)
  show ?thesis
    using ok assms len [of "rp_window p"] True
    by (auto simp: reserve_otp_request_def Let_def rate_ok_def intro!: repo_inv_put_rate)
qed (use assms in \<open>simp add: reserve_otp_request_def\<close>)

lemma reserve_verification_inv [keeps_inv]:
  assumes "repo_inv p m"
  shows "repo_inv p (fst (reserve_otp_verification k now p m))"
proof (cases "valid_msisdn_pseudonym k")
  case True
  let ?st = "rate_state_of m k" and ?n = "rp_next_reservation m"
  let ?fs = "failures_within_window (rs_failures ?st) now (rp_window p)"
  have ok: "rate_ok p ?n k ?st" using rate_ok_of assms True by blast
  have m': "repo_inv p (m\<lparr>rp_next_reservation := ?n + 1\<rparr>)"
    using assms rate_ok_later [of p ?n _ _ "?n + 1"] by (auto simp: repo_inv_def)
  have d: "distinct (map of_id ?fs)"
    using ok by (simp add: rate_ok_def failures_within_window_def filter_map_distinct)
  have sub: "set ?fs \<subseteq> set (rs_failures ?st)" "length ?fs \<le> length (rs_failures ?st)"
    by (auto simp: failures_within_window_def)
  have new: "\<forall>f \<in> set ?fs. of_id f \<noteq> Suc ?n"
    using ok sub by (fastforce simp: rate_ok_def)
  show ?thesis
  proof (cases "before_opt now (rs_locked_until ?st) \<or> length ?fs \<ge> rp_max_failures p")
    case refused: True
    have "rate_ok p ?n k (?st\<lparr>rs_failures := ?fs\<rparr>)" using ok d sub by (auto simp: rate_ok_def)
    then show ?thesis
      using refused True assms by (simp add: reserve_otp_verification_def Let_def repo_inv_put_rate)
  next
    case False
    have "rate_ok p (?n + 1) k (?st\<lparr>rs_failures := ?fs @ [\<lparr>of_at = now, of_id = ?n + 1\<rparr>]\<rparr>)"
      using ok d sub new False by (fastforce simp: rate_ok_def)
    then have "rate_ok p (?n + 1) k (?st\<lparr>rs_failures := ?fs @ [\<lparr>of_at = now, of_id = ?n + 1\<rparr>],
        rs_locked_until := u, rs_locked_by := b\<rparr>)" "rate_ok p (?n + 1) k (?st\<lparr>rs_failures := ?fs @ [\<lparr>of_at = now, of_id = ?n + 1\<rparr>]\<rparr>)" for u b
      by (simp_all add: rate_ok_def)
    then show ?thesis
      using False True m'
      by (auto simp: reserve_otp_verification_def Let_def intro!: repo_inv_put_rate)
  qed
qed (use assms in \<open>simp add: reserve_otp_verification_def\<close>)

lemma remove_reservation_sub:
  "remove_reservation i fs = Some fs' \<Longrightarrow>
   set fs' \<subseteq> set fs \<and> length fs' \<le> length fs \<and> (distinct (map of_id fs) \<longrightarrow> distinct (map of_id fs'))"
proof (induction fs arbitrary: fs')
  case (Cons f fs)
  show ?case
  proof (cases "of_id f = i")
    case True
    then show ?thesis using Cons.prems by auto
  next
    case False
    then obtain z where z: "remove_reservation i fs = Some z" "fs' = f # z" using Cons.prems by auto
    have "of_id f \<notin> of_id ` set fs \<Longrightarrow> of_id f \<notin> of_id ` set z" using Cons.IH [OF z(1)] by blast
    then show ?thesis using Cons.IH [OF z(1)] z(2) by auto
  qed
qed simp

lemma release_inv [keeps_inv]: "repo_inv p m \<Longrightarrow> repo_inv p (fst (release_otp_verification k i m))"
proof (cases "rp_rates m k")
  case (Some st)
  assume inv: "repo_inv p m"
  show ?thesis
  proof (cases "remove_reservation i (rs_failures st)")
    case None
    then show ?thesis using Some inv by (simp add: release_otp_verification_def)
  next
    case fs: (Some fs)
    have "rate_ok p (rp_next_reservation m) k st" using inv Some by (simp add: repo_inv_def)
    then have "rate_ok p (rp_next_reservation m) k (st\<lparr>rs_failures := fs\<rparr>)"
      using remove_reservation_sub [OF fs] by (auto simp: rate_ok_def)
    then have "rate_ok p (rp_next_reservation m) k (st\<lparr>rs_failures := fs, rs_locked_until := u, rs_locked_by := b\<rparr>)"
        "rate_ok p (rp_next_reservation m) k (st\<lparr>rs_failures := fs\<rparr>)" for u b
      by (simp_all add: rate_ok_def)
    then show ?thesis
      using Some fs inv by (simp add: release_otp_verification_def Let_def repo_inv_put_rate)
  qed
qed (simp add: release_otp_verification_def)

lemma reset_inv [keeps_inv]: "repo_inv p m \<Longrightarrow> repo_inv p (fst (reset_otp_failures k m))"
  by (auto simp: reset_otp_failures_def repo_inv_def rate_ok_def split: option.splits)

lemma otp_ops_inv [keeps_inv]:
  "repo_inv p m \<Longrightarrow> repo_inv p (fst (save_otp c m))" "repo_inv p m \<Longrightarrow> repo_inv p (delete_otp r m)"
  "repo_inv p m \<Longrightarrow> repo_inv p (fst (consume_otp r m))"
  "repo_inv p m \<Longrightarrow> repo_inv p (fst (record_failed_otp_attempt r m))"
  by (auto simp: repo_inv_def save_otp_def delete_otp_def consume_otp_def record_failed_otp_attempt_def
      split: option.splits)

lemma save_session_inv [keeps_inv]: "repo_inv p m \<Longrightarrow> repo_inv p (fst (save_session s m))"
  using stored_session_ok [of s]
  by (auto simp: save_session_def Let_def intro!: repo_inv_put_session split: option.splits)

lemma superseded_inv [simp]: "repo_inv p (m\<lparr>rp_superseded := x\<rparr>) = repo_inv p m"
  by (simp add: repo_inv_def)

lemma replace_session_inv [keeps_inv]: "repo_inv p m \<Longrightarrow> repo_inv p (fst (replace_session s h m))"
  using stored_session_ok [of s]
  by (auto simp: replace_session_def Let_def intro!: repo_inv_put_session split: option.splits)

lemma revoke_inv [keeps_inv]: "repo_inv p m \<Longrightarrow> repo_inv p (revoke_session i m)"
  by (auto simp: repo_inv_def revoke_session_def split: option.splits)

lemma save_device_inv [keeps_inv]: "repo_inv p m \<Longrightarrow> repo_inv p (save_device d m)"
  by (simp add: repo_inv_def save_device_def)

lemma erase_inv [keeps_inv]: "repo_inv p m \<Longrightarrow> repo_inv p (fst (erase_subscriber now e m))"
  by (auto simp: repo_inv_def erase_subscriber_def erase_locked_def Let_def split: option.splits if_splits)

lemma repo_step_inv [keeps_inv]: "repo_inv p m \<Longrightarrow> repo_inv p (repo_step p m x)"
  by (cases x) (simp_all add: keeps_inv)

lemma new_repo_inv: "repo_inv p new_repo"
  by (simp add: repo_inv_def new_repo_def)

interpretation repository: invariant_ops "any_step p" "repo_inv p" for p
proof unfold_locales
  show "repo_inv p (any_step p m x)" if "repo_inv p m" for m x
    using that by (cases x) (simp_all add: keeps_inv)
qed

section \<open>What is never undone\<close>

lemma save_session_stored:
  assumes "snd (save_session t m) = None" and "rp_sessions m (se_id t) = Some s"
  obtains s' where "rp_sessions (fst (save_session t m)) (se_id t) = Some s'"
    "se_revoked s \<Longrightarrow> se_revoked s'" "se_thumbprint s \<noteq> [] \<Longrightarrow> se_thumbprint s' = se_thumbprint s"
  using assms
  by (cases "se_revoked s")
     (auto simp: save_session_def Let_def replaces_enrolled_key_def split: option.splits if_splits)

lemma replace_session_stored:
  assumes "snd (replace_session t h m) = None" and "rp_sessions m (se_id t) = Some s"
  obtains s' where "rp_sessions (fst (replace_session t h m)) (se_id t) = Some s'"
    "\<not> se_revoked s" "se_thumbprint s \<noteq> [] \<Longrightarrow> se_thumbprint s' = se_thumbprint s"
  using assms
  by (auto simp: replace_session_def Let_def replaces_enrolled_key_def split: option.splits if_splits)

lemma sessions_kept:
  "rp_sessions (fst (save_otp c m)) = rp_sessions m" "rp_sessions (delete_otp r m) = rp_sessions m"
  "rp_sessions (fst (consume_otp r m)) = rp_sessions m"
  "rp_sessions (fst (record_failed_otp_attempt r m)) = rp_sessions m"
  "rp_sessions (fst (reserve_otp_request k now p m)) = rp_sessions m"
  "rp_sessions (fst (reserve_otp_verification k now p m)) = rp_sessions m"
  "rp_sessions (fst (release_otp_verification k j m)) = rp_sessions m"
  "rp_sessions (fst (reset_otp_failures k m)) = rp_sessions m"
  "rp_sessions (save_device d m) = rp_sessions m"
  by (auto simp: save_otp_def delete_otp_def consume_otp_def
    record_failed_otp_attempt_def reserve_otp_request_def reserve_otp_verification_def
    release_otp_verification_def reset_otp_failures_def save_device_def Let_def split: option.splits)

lemma session_step_cases:
  assumes "rp_sessions m i = Some s"
  obtains s' where "rp_sessions (repo_step p m x) i = Some s'" "se_revoked s \<Longrightarrow> se_revoked s'"
    "se_thumbprint s \<noteq> [] \<Longrightarrow> se_thumbprint s' = se_thumbprint s"
proof (cases x)
  case (R_Save_Session t)
  show ?thesis
  proof (cases "rp_sessions (fst (save_session t m)) i = Some s")
    case False
    then have "se_id t = i" "snd (save_session t m) = None"
      using assms by (auto simp: save_session_def Let_def split: option.splits if_splits)
    then show ?thesis
      using that R_Save_Session assms by (auto elim!: save_session_stored)
  qed (use that R_Save_Session in simp)
next
  case (R_Replace_Session t h)
  show ?thesis
  proof (cases "rp_sessions (fst (replace_session t h m)) i = Some s")
    case False
    then have "se_id t = i" "snd (replace_session t h m) = None"
      using assms by (auto simp: replace_session_def Let_def split: option.splits if_splits)
    then show ?thesis
      using that R_Replace_Session assms by (auto elim!: replace_session_stored)
  qed (use that R_Replace_Session in simp)
next
  case (R_Revoke j)
  show ?thesis
  proof (cases "j = i")
    case True
    then show ?thesis using that [of "s\<lparr>se_revoked := True\<rparr>"] assms R_Revoke by (simp add: revoke_session_def)
  next
    case False
    then show ?thesis using that [of s] assms R_Revoke by (simp add: revoke_session_def split: option.splits)
  qed
qed (use that [of s] assms in \<open>simp_all add: sessions_kept\<close>)

interpretation revoked: stable_ops "repo_step p" "repo_inv p"
  "\<lambda>m. \<exists>s. rp_sessions m i = Some s \<and> se_revoked s" for p i
proof unfold_locales
  show "\<exists>s. rp_sessions (repo_step p m x) i = Some s \<and> se_revoked s"
    if "\<exists>s. rp_sessions m i = Some s \<and> se_revoked s" for m x
    using that by (auto elim: session_step_cases [of m i _ p x])
qed (rule repo_step_inv)

interpretation enrolled: stable_ops "repo_step p" "repo_inv p"
  "\<lambda>m. \<exists>s. rp_sessions m i = Some s \<and> se_thumbprint s = k \<and> k \<noteq> []" for p i k
proof unfold_locales
  show "\<exists>s. rp_sessions (repo_step p m x) i = Some s \<and> se_thumbprint s = k \<and> k \<noteq> []"
    if "\<exists>s. rp_sessions m i = Some s \<and> se_thumbprint s = k \<and> k \<noteq> []" for m x
    using that by (auto elim: session_step_cases [of m i _ p x])
qed (rule repo_step_inv)

lemma erasures_repo_step: "rp_erasures (repo_step p m x) = rp_erasures m"
  by (cases x) (auto simp: save_otp_def delete_otp_def consume_otp_def
    record_failed_otp_attempt_def reserve_otp_request_def reserve_otp_verification_def
    release_otp_verification_def reset_otp_failures_def save_device_def save_session_def
    replace_session_def revoke_session_def Let_def split: option.splits)

interpretation erased: stable_ops "any_step p" "repo_inv p" "\<lambda>m. e \<in> set (rp_erasures m)" for p e
proof unfold_locales
  show "e \<in> set (rp_erasures (any_step p m x))" if "e \<in> set (rp_erasures m)" for m x
    using that by (cases x) (auto simp: erasures_repo_step erase_subscriber_def erase_locked_def Let_def
        split: option.splits)
qed (rule repository.step_inv)

section \<open>Rolling windows\<close>

lemma foldl_min: "foldl (\<lambda>o' t. if t < o' then t else o') (a :: int) ts = Min (insert a (set ts))"
proof (induction ts arbitrary: a)
  case (Cons t ts)
  have "insert (if t < a then t else a) (set ts) \<subseteq> insert a (insert t (set ts))" by auto
  moreover have "Min (insert a (insert t (set ts))) = Min (insert (min a t) (set ts))"
    by (cases "ts = []") (simp_all add: min.assoc [symmetric])
  ultimately show ?case using Cons by (simp add: min_def not_less)
qed simp

lemma slot_frees_at_min: "ts \<noteq> [] \<Longrightarrow> slot_frees_at ts w = Min (set ts) + w"
  by (cases ts) (simp_all add: slot_frees_at_def foldl_min)

text \<open>A full window stays full until its oldest event is a window old, and has room from then on.\<close>

lemma window_frees:
  assumes "length ts = n" and "0 < n" and "\<forall>x \<in> set ts. now - x < w" and "now \<le> t"
  shows "(n \<le> length (within_window ts t w)) = (t < slot_frees_at ts w)"
proof -
  have ne: "ts \<noteq> []" using assms(1,2) by auto
  have "(n \<le> length (within_window ts t w)) = (\<forall>x \<in> set ts. t - x < w)"
    using assms(1) length_filter_less [of _ ts "\<lambda>x. t - x < w"]
    by (metis within_window_def filter_True leD order_refl)
  also have "\<dots> = (t - w < Min (set ts))" using ne by (auto simp: Min_gr_iff)
  also have "\<dots> = (t < slot_frees_at ts w)"
    unfolding slot_frees_at_min [OF ne] by linarith
  finally show ?thesis .
qed

text \<open>The times of the reservations granted to a number, and those at which one was asked for.\<close>

fun asks :: "string \<Rightarrow> any_op list \<Rightarrow> instant list" where
  "asks k [] = []"
| "asks k (Op (R_Reserve_Verification k' now) # xs) = (if k' = k then now # asks k xs else asks k xs)"
| "asks k (x # xs) = asks k xs"

lemma asks_other: "\<forall>now. x \<noteq> Op (R_Reserve_Verification k now) \<Longrightarrow> asks k (x # xs) = asks k xs"
proof (cases x)
  case (Op y)
  assume "\<forall>now. x \<noteq> Op (R_Reserve_Verification k now)"
  then show ?thesis using Op by (cases y) auto
qed simp

fun granted :: "rate_policy \<Rightarrow> string \<Rightarrow> any_op list \<Rightarrow> repo \<Rightarrow> instant list" where
  "granted p k [] m = []"
| "granted p k (x # xs) m =
     (case x of
        Op (R_Reserve_Verification k' now) \<Rightarrow>
          (if k' = k \<and> \<not> isl (snd (reserve_otp_verification k now p m)) then [now] else [])
      | _ \<Rightarrow> []) @ granted p k xs (any_step p m x)"

definition failure_log :: "string \<Rightarrow> repo \<Rightarrow> instant list" where
  "failure_log k m = map of_at (rs_failures (rate_state_of m k))"

text \<open>No operation that takes a counted failure back.\<close>

definition keeps_count :: "string \<Rightarrow> any_op \<Rightarrow> bool" where
  "keeps_count k x \<longleftrightarrow> (case x of Op (R_Reset k') \<Rightarrow> k' \<noteq> k | Op (R_Release k' i) \<Rightarrow> k' \<noteq> k | _ \<Rightarrow> True)"

definition in_span :: "instant \<Rightarrow> duration \<Rightarrow> instant list \<Rightarrow> nat" where
  "in_span t w h = length (filter (\<lambda>x. t - w < x \<and> x \<le> t) h)"

lemma failure_log_other:
  assumes "keeps_count k x" and "\<forall>now. x \<noteq> Op (R_Reserve_Verification k now)"
  shows "failure_log k (any_step p m x) = failure_log k m"
proof -
  have "rs_failures (rate_state_of (any_step p m x) k) = rs_failures (rate_state_of m k)"
  proof (cases x)
    case (Op y)
    show ?thesis
      using assms unfolding Op
      by (cases y) (auto simp: keeps_count_def rate_state_of_def new_rate_state_def save_otp_def
        delete_otp_def consume_otp_def record_failed_otp_attempt_def reserve_otp_request_def
        reserve_otp_verification_def release_otp_verification_def reset_otp_failures_def
        save_device_def save_session_def replace_session_def revoke_session_def Let_def
        split: option.splits)
  next
    case (Erase now e)
    then show ?thesis
      by (auto simp: erase_subscriber_def erase_locked_def rate_state_of_def Let_def split: option.splits)
  qed
  then show ?thesis by (simp add: failure_log_def)
qed

lemma rate_state_of_put [simp]:
  "rate_state_of (put_rate k st m) k = st"
  "rate_state_of (m\<lparr>rp_next_reservation := i\<rparr>) k = rate_state_of m k"
  by (simp_all add: rate_state_of_def)

lemma failure_log_reserve:
  assumes "valid_msisdn_pseudonym k"
  shows "failure_log k (fst (reserve_otp_verification k now p m)) =
      filter (\<lambda>t. now - t < rp_window p) (failure_log k m)
      @ (if isl (snd (reserve_otp_verification k now p m)) then [] else [now])"
    and "\<not> isl (snd (reserve_otp_verification k now p m)) \<Longrightarrow>
      length (filter (\<lambda>t. now - t < rp_window p) (failure_log k m)) < rp_max_failures p"
  using assms
  by (auto simp: failure_log_def reserve_otp_verification_def Let_def
      failures_within_window_def filter_map o_def split: if_splits)

definition tracks :: "rate_policy \<Rightarrow> string \<Rightarrow> repo \<Rightarrow> instant list \<Rightarrow> instant \<Rightarrow> bool" where
  "tracks p k m h t0 \<longleftrightarrow>
     (\<forall>now \<ge> t0. filter (\<lambda>t. now - t < rp_window p) h = filter (\<lambda>t. now - t < rp_window p) (failure_log k m))
     \<and> (\<forall>t \<in> set h. t \<le> t0) \<and> (\<forall>T. in_span T (rp_window p) h \<le> rp_max_failures p)"

lemma tracks_reserve:
  assumes "tracks p k m h t0" and "valid_msisdn_pseudonym k" and "t0 \<le> now"
  shows "tracks p k (fst (reserve_otp_verification k now p m))
     (h @ (if isl (snd (reserve_otp_verification k now p m)) then [] else [now])) now"
proof -
  let ?r = "reserve_otp_verification k now p m" and ?w = "rp_window p"
  note log = failure_log_reserve [OF assms(2), of now p m]
  have same: "filter (\<lambda>t. u - t < ?w) h = filter (\<lambda>t. u - t < ?w) (failure_log k m)" if "t0 \<le> u" for u
    using assms(1) that by (simp add: tracks_def)
  have nest: "filter (\<lambda>t. now - t < ?w \<and> u - t < ?w) xs = filter (\<lambda>t. u - t < ?w) xs"
    if "now \<le> u" for u xs
    using that by (auto intro!: filter_cong)
  have "filter (\<lambda>t. u - t < ?w) (h @ (if isl (snd ?r) then [] else [now]))
      = filter (\<lambda>t. u - t < ?w) (failure_log k (fst ?r))" if "now \<le> u" for u
    using same [of u] that assms(3) by (simp add: log(1) nest)
  moreover have "in_span T ?w (h @ (if isl (snd ?r) then [] else [now])) \<le> rp_max_failures p" for T
  proof (cases "isl (snd ?r) \<or> T < now")
    case True
    then have "in_span T ?w (h @ (if isl (snd ?r) then [] else [now])) = in_span T ?w h"
      by (auto simp: in_span_def)
    then show ?thesis using assms(1) by (simp add: tracks_def)
  next
    case False
    have "length (filter (\<lambda>x. T - ?w < x \<and> x \<le> T) h) \<le> length (filter (\<lambda>x. now - x < ?w) h)"
    proof -
      have "filter (\<lambda>x. T - ?w < x \<and> x \<le> T) (filter (\<lambda>x. now - x < ?w) h) = filter (\<lambda>x. T - ?w < x \<and> x \<le> T) h"
        using False by (auto intro!: filter_cong)
      then show ?thesis by (metis length_filter_le)
    qed
    also have "\<dots> < rp_max_failures p" using log(2) False same [OF assms(3)] by simp
    finally show ?thesis using False by (simp add: in_span_def)
  qed
  moreover have "\<forall>t \<in> set (h @ (if isl (snd ?r) then [] else [now])). t \<le> now"
    using assms(1,3) by (auto simp: tracks_def)
  ultimately show ?thesis by (simp add: tracks_def)
qed

lemma guesses_tracked:
  assumes "valid_msisdn_pseudonym k" and "\<forall>x \<in> set ops. keeps_count k x"
    and "sorted (t0 # asks k ops)" and "tracks p k m h t0"
  shows "in_span T (rp_window p) (h @ granted p k ops m) \<le> rp_max_failures p"
  using assms(2-)
proof (induction ops arbitrary: m h t0)
  case Nil
  then show ?case by (simp add: tracks_def)
next
  case (Cons x xs)
  show ?case
  proof (cases "\<exists>now. x = Op (R_Reserve_Verification k now)")
    case True
    then obtain now where x: "x = Op (R_Reserve_Verification k now)" by blast
    have "tracks p k (any_step p m x) (h @ (if isl (snd (reserve_otp_verification k now p m)) then [] else [now])) now"
      using tracks_reserve [OF Cons.prems(3) assms(1), of now] Cons.prems(2) x by simp
    then have "in_span T (rp_window p) ((h @ (if isl (snd (reserve_otp_verification k now p m)) then [] else [now]))
        @ granted p k xs (any_step p m x)) \<le> rp_max_failures p"
      using Cons.prems(1,2) x by (intro Cons.IH) auto
    then show ?thesis using x by (simp split: if_splits)
  next
    case False
    then have "failure_log k (any_step p m x) = failure_log k m"
      using Cons.prems(1) by (intro failure_log_other) auto
    then have "tracks p k (any_step p m x) h t0" using Cons.prems(3) by (simp add: tracks_def)
    moreover have "asks k (x # xs) = asks k xs" "granted p k (x # xs) m = granted p k xs (any_step p m x)"
      using False by (auto simp: asks_other split: any_op.splits repo_op.splits)
    ultimately show ?thesis using Cons.IH [of t0 "any_step p m x" h] Cons.prems(1,2) by simp
  qed
qed

section \<open>Properties\<close>


text \<open>The moment a refusal names is exact.  If a code check is refused with a moment, then
  with the number's state as it is, every later check before that moment is refused and one at
  or after it is granted.\<close>

theorem retry_at_is_exact:
  assumes "repo_inv p m" and "valid_msisdn_pseudonym k" and "0 < rp_max_failures p"
    and "reserve_otp_verification k now p m = (m', Inl [Rate_Limited (Some u)])" and "now \<le> t"
  shows "isl (snd (reserve_otp_verification k t p m')) = (t < u)"
proof -
  let ?st = "rate_state_of m k"
  define fs where "fs = failures_within_window (rs_failures ?st) now (rp_window p)"
  have len: "length fs \<le> rp_max_failures p"
    using rate_ok_of [OF assms(1,2)] by (auto simp: fs_def failures_within_window_def rate_ok_def intro: le_trans [OF length_filter_le])
  have ref: "before_opt now (rs_locked_until ?st) \<or> rp_max_failures p \<le> length fs"
    and m': "m' = put_rate k (?st\<lparr>rs_failures := fs\<rparr>) m"
    and u: "limited_until (?st\<lparr>rs_failures := fs\<rparr>) now (map of_at fs) (rp_max_failures p) (rp_window p) = Some u"
    using assms(2,4) by (auto simp: reserve_otp_verification_def Let_def fs_def split: if_splits)
  have full: "(rp_max_failures p \<le> length (failures_within_window fs t (rp_window p)))
      = (rp_max_failures p \<le> length fs \<and> t < slot_frees_at (map of_at fs) (rp_window p))"
  proof (cases "rp_max_failures p \<le> length fs")
    case True
    have eq: "length (failures_within_window fs t w) = length (within_window (map of_at fs) t w)" for w
      by (simp add: failures_within_window_def within_window_def filter_map o_def)
    have "\<forall>x \<in> set (map of_at fs). now - x < rp_window p" by (auto simp: fs_def failures_within_window_def)
    then show ?thesis
      using window_frees [of "map of_at fs" "rp_max_failures p" now "rp_window p" t] True len assms(3,5)
      by (simp add: eq)
  next
    case False
    have "length (failures_within_window fs t (rp_window p)) \<le> length fs"
      by (simp add: failures_within_window_def)
    then show ?thesis using False by linarith
  qed
  have "isl (snd (reserve_otp_verification k t p m')) =
      (before_opt t (rs_locked_until ?st) \<or> rp_max_failures p \<le> length (failures_within_window fs t (rp_window p)))"
    using assms(2) by (simp add: reserve_otp_verification_def Let_def m')
  also have "\<dots> = (t < u)"
    unfolding full using u ref assms(5)
    by (auto simp: limited_until_def Let_def before_opt_def split: if_splits option.splits)
  finally show ?thesis .
qed

text \<open>Revocation and device binding are one-way.  Whatever calls follow, an erasure apart, a
  stored session stays stored, a revoked one stays revoked, and an enrolled one keeps the key it
  was enrolled with.\<close>

theorem revocation_and_binding_are_one_way:
  assumes "repo_inv p m" and "rp_sessions m i = Some s"
  shows "(se_revoked s \<longrightarrow> (\<exists>s'. rp_sessions (run_ops (repo_step p) m ops) i = Some s' \<and> se_revoked s'))
    \<and> (se_thumbprint s \<noteq> [] \<longrightarrow> (\<exists>s'. rp_sessions (run_ops (repo_step p) m ops) i = Some s'
          \<and> se_thumbprint s' = se_thumbprint s))"
  using revoked.stable_run [OF assms(1), of i ops] enrolled.stable_run [OF assms(1), of i "se_thumbprint s" ops]
    assms(2) by blast

text \<open>C8. Nothing secret is stored.  Over any calls from an empty repository, erasures included,
  every stored session has the hash of its refresh token in canonical form and no raw token,
  every challenge and every rate limit is keyed by a number's pseudonym, which a raw number
  never is, and no number has more counted requests or failures than the policy allows.\<close>

theorem repository_holds_no_secret:
  assumes "run_ops (any_step p) new_repo ops = m"
  shows "(\<forall>i s. rp_sessions m i = Some s \<longrightarrow> se_refresh_token s = [] \<and> is_lower_hex64 (se_refresh_hash s))
    \<and> (\<forall>r c. rp_otps m r = Some c \<longrightarrow> is_lower_hex64 (ot_pseudonym c))
    \<and> (\<forall>k st. rp_rates m k = Some st \<longrightarrow> is_lower_hex64 k \<and> hd k \<noteq> CHR ''+''
          \<and> length (rs_requests st) \<le> rp_max_requests p \<and> length (rs_failures st) \<le> rp_max_failures p)"
proof -
  have "repo_inv p m" using repository.run_inv [OF new_repo_inv] assms by blast
  moreover have "hd k \<noteq> CHR ''+''" if "is_lower_hex64 k" for k
    using that by (cases k) (auto simp: is_lower_hex64_def less_eq_char_def)
  ultimately show ?thesis
    by (auto simp: repo_inv_def session_ok_def rate_ok_def valid_refresh_token_hash_def
        valid_msisdn_pseudonym_def)
qed


definition stores_hash :: "string \<Rightarrow> string \<Rightarrow> any_op \<Rightarrow> bool" where
  "stores_hash i h x \<longleftrightarrow> (case x of
      Op (R_Save_Session s) \<Rightarrow> se_id s = i \<and> se_refresh_hash s = h
    | Op (R_Replace_Session s h') \<Rightarrow> se_id s = i \<and> se_refresh_hash s = h
    | _ \<Rightarrow> False)"

definition lacks_hash :: "string \<Rightarrow> string \<Rightarrow> repo \<Rightarrow> bool" where
  "lacks_hash i h m \<longleftrightarrow> (\<forall>s. rp_sessions m i = Some s \<longrightarrow> se_refresh_hash s \<noteq> h)"

lemma lacks_hash_step: "lacks_hash i h m \<Longrightarrow> \<not> stores_hash i h x \<Longrightarrow> lacks_hash i h (any_step p m x)"
proof (cases x)
  case (Op y)
  assume *: "lacks_hash i h m" "\<not> stores_hash i h x"
  show ?thesis
  proof (cases y)
    case (R_Save_Session s)
    then show ?thesis
      using * Op by (auto simp: lacks_hash_def stores_hash_def save_session_def Let_def split: option.splits if_splits)
  next
    case (R_Replace_Session s h')
    then show ?thesis
      using * Op by (auto simp: lacks_hash_def stores_hash_def replace_session_def Let_def split: option.splits if_splits)
  next
    case (R_Revoke j)
    then show ?thesis
      using * Op by (auto simp: lacks_hash_def revoke_session_def split: option.splits if_splits)
  qed (use * Op in \<open>simp_all add: lacks_hash_def sessions_kept\<close>)
next
  case (Erase now e)
  assume "lacks_hash i h m"
  then show ?thesis
    using Erase by (auto simp: lacks_hash_def erase_subscriber_def erase_locked_def Let_def split: option.splits)
qed

text \<open>A refresh token rotates at most once.  Once a swap has replaced it, no later swap that
  presents it succeeds, however calls interleave, provided no later call stores that token's
  hash again for that session (tokens are 256 random bits).\<close>

theorem refresh_token_rotates_once:
  assumes "replace_session s h m = (m', None)" and "se_refresh_hash s \<noteq> h"
    and "\<forall>x \<in> set ops. \<not> stores_hash (se_id s) h x" and "se_id s2 = se_id s"
  shows "snd (replace_session s2 h (run_ops (any_step p) m' ops)) \<noteq> None
    \<and> superseded_refresh_token (se_id s) h m'"
proof -
  have start: "lacks_hash (se_id s) h m' \<and> superseded_refresh_token (se_id s) h m'"
    using assms(1,2) by (auto simp: replace_session_def lacks_hash_def superseded_refresh_token_def Let_def
        split: option.splits if_splits)
  have "lacks_hash (se_id s) h n \<Longrightarrow> lacks_hash (se_id s) h (run_ops (any_step p) n ops)" for n
    using assms(3)
  proof (induction ops arbitrary: n)
    case (Cons x xs)
    then show ?case using lacks_hash_step [of "se_id s" h n x p] by simp
  qed simp
  then have "lacks_hash (se_id s) h (run_ops (any_step p) m' ops)" using start by blast
  then show ?thesis
    using start assms(4) by (auto simp: replace_session_def lacks_hash_def split: option.splits)
qed

section \<open>Witnesses\<close>

definition hex_a :: string where "hex_a = replicate 64 CHR ''a''"
definition hex_b :: string where "hex_b = replicate 64 CHR ''b''"

lemma hex_ok [simp]: "is_lower_hex64 hex_a" "is_lower_hex64 hex_b"
  by (simp_all add: is_lower_hex64_def hex_a_def hex_b_def list_all_iff less_eq_char_def)

lemma hex_differ [simp]: "hex_a \<noteq> hex_b" "hex_b \<noteq> hex_a"
  by (simp_all add: hex_a_def hex_b_def replicate_eq_replicate)

lemma hex_valid [simp]: "valid_msisdn_pseudonym hex_a" "valid_refresh_token_hash hex_a" "valid_refresh_token_hash hex_b"
  by (simp_all add: valid_msisdn_pseudonym_def valid_refresh_token_hash_def)

definition se0 :: session where
  "se0 = \<lparr>se_id = ''sess_1'', se_subscriber = ''usr_1'', se_refresh_token = [], se_refresh_hash = hex_a,
     se_device_id = [], se_roles = [''subscriber''], se_created = 0, se_expires = 100, se_revoked = False,
     se_thumbprint = ''k'', se_tier = Tier_Unverified, se_fence = None\<rparr>"

definition m0 :: repo where "m0 = put_session se0 new_repo"

lemma m0_inv: "repo_inv p m0"
  by (auto simp: m0_def intro!: repo_inv_put_session new_repo_inv) (simp add: session_ok_def se0_def)


definition m_locked :: repo where
  "m_locked = put_rate hex_a (new_rate_state\<lparr>rs_locked_until := Some 50\<rparr>) new_repo"

theorem retry_at_is_exact_witness:
  "isl (snd (reserve_otp_verification hex_a 40 default_otp_rate_policy m_locked)) = (40 < (50 :: int))"
proof -
  have inv: "repo_inv default_otp_rate_policy m_locked"
    by (auto simp: m_locked_def intro!: repo_inv_put_rate new_repo_inv)
       (simp add: rate_ok_def new_rate_state_def)
  have "reserve_otp_verification hex_a 10 default_otp_rate_policy m_locked = (m_locked, Inl [Rate_Limited (Some 50)])"
  proof -
    have "rate_state_of m_locked hex_a = new_rate_state\<lparr>rs_locked_until := Some 50\<rparr>"
      by (simp add: m_locked_def)
    moreover have "put_rate hex_a (new_rate_state\<lparr>rs_locked_until := Some 50\<rparr>) m_locked = m_locked"
      by (simp add: m_locked_def put_rate_def)
    ultimately show ?thesis
      by (simp add: reserve_otp_verification_def Let_def before_opt_def new_rate_state_def
          failures_within_window_def limited_until_def default_otp_rate_policy_def)
  qed
  then show ?thesis
    using retry_at_is_exact [OF inv, of hex_a 10 m_locked 50 40] by (simp add: default_otp_rate_policy_def)
qed

theorem revocation_and_binding_are_one_way_witness:
  "\<exists>s'. rp_sessions (run_ops (repo_step default_otp_rate_policy) m0
     [R_Revoke ''sess_1'', R_Save_Session (se0\<lparr>se_thumbprint := ''other''\<rparr>)]) ''sess_1'' = Some s'
     \<and> se_thumbprint s' = ''k''"
  using revocation_and_binding_are_one_way [OF m0_inv, of "''sess_1''" se0 default_otp_rate_policy
      "[R_Revoke ''sess_1'', R_Save_Session (se0\<lparr>se_thumbprint := ''other''\<rparr>)]"]
  by (simp add: m0_def se0_def del: run_ops.simps)

theorem repository_holds_no_secret_witness:
  "case rp_sessions (run_ops (any_step default_otp_rate_policy) new_repo
     [Op (R_Save_Session (se0\<lparr>se_refresh_token := ''raw''\<rparr>)), Op (R_Save_Session se0)]) ''sess_1'' of
     Some s \<Rightarrow> se_refresh_token s = [] | None \<Rightarrow> False"
proof -
  let ?m = "run_ops (any_step default_otp_rate_policy) new_repo
     [Op (R_Save_Session (se0\<lparr>se_refresh_token := ''raw''\<rparr>)), Op (R_Save_Session se0)]"
  have "rp_sessions ?m ''sess_1'' \<noteq> None"
    by (simp add: save_session_def check_storable_session_def se0_def tier_valid_def
        fenced_off_def replaces_enrolled_key_def new_repo_def put_session_def stored_session_def)
  then show ?thesis
    using repository_holds_no_secret [OF refl, of default_otp_rate_policy
      "[Op (R_Save_Session (se0\<lparr>se_refresh_token := ''raw''\<rparr>)), Op (R_Save_Session se0)]"]
    by (auto simp del: run_ops.simps split: option.splits)
qed

definition er0 :: erasure where
  "er0 = \<lparr>er_subscriber = ''usr_1'', er_requested_at = 60, er_session = ''sess_1'', er_refresh_hash = hex_a,
     er_thumbprint = ''k'', er_receipt_expires = 100\<rparr>"


theorem refresh_token_rotates_once_witness:
  "snd (replace_session se0 hex_a (run_ops (any_step default_otp_rate_policy)
     (fst (replace_session (se0\<lparr>se_refresh_hash := hex_b\<rparr>) hex_a m0)) [Op (R_Revoke ''x'')])) \<noteq> None"
proof -
  have "replace_session (se0\<lparr>se_refresh_hash := hex_b\<rparr>) hex_a m0
      = (fst (replace_session (se0\<lparr>se_refresh_hash := hex_b\<rparr>) hex_a m0), None)"
    by (simp add: replace_session_def m0_def se0_def check_storable_session_def tier_valid_def
        replaces_enrolled_key_def Let_def)
  from refresh_token_rotates_once [OF this, of "[Op (R_Revoke ''x'')]" se0 default_otp_rate_policy]
  show ?thesis by (simp add: se0_def stores_hash_def del: run_ops.simps)
qed

end
