(* ===== verification/IdentityService.thy ===== *)
theory IdentityService
  imports IdentityRepo
begin

text \<open>
  The application core of the identity service, \<^verbatim>\<open>services/go/identity/internal/app/identity.go\<close>,
  with account deletion (\<^verbatim>\<open>erasure.go\<close>) and the tier decision of \<^verbatim>\<open>integrity.go\<close>.

  A service method calls a repository, a clock, a random source, a proof verifier, a token
  signer, a code sender and an auditor, any of which may fail, and other requests run between
  any two calls.  So a method is a program: a tree whose nodes are the calls it makes, each with
  a continuation for every reply.  One tree is then read in two ways below, as what the method
  does when the collaborators reply anything at all, and as a thread that shares the in-memory
  repository with others.  The HMAC derivations, the DPoP verifier, the token signer and the
  Play Integrity verifier are not modelled: the first are functions of the service record, the
  others replies.
\<close>

section \<open>Calls and programs\<close>

datatype security_event =
    Ev_Verification_Failed instant string
  | Ev_Lockout instant string instant
  | Ev_Token_Reused instant string
  | Ev_Device_Enrolled instant string
  | Ev_Device_Reenrolled instant string
  | Ev_Integrity_Restricted instant string string
  | Ev_Integrity_Rejected instant string string
  | Ev_Account_Deleted instant string

datatype verifier = V_Enrolment | V_Refresh | V_Deletion

datatype unit_call =
    C_Save_Otp otp | C_Delete_Otp string | C_Reserve_Request string instant
  | C_Release string nat | C_Reset string | C_Save_Session session
  | C_Replace_Session session string | C_Revoke string | C_Erase erasure
  | C_Audit security_event | C_Send_Otp string string

datatype bool_call = C_Consume_Otp string | C_Superseded string string | C_Other_Key string string string
  | C_Play_Integrity string string string

datatype nat_call = C_Reserve_Verification string instant | C_Record_Failed string

datatype str_call = C_Verify verifier string string | C_Sign string "string list" string

datatype 'a prog =
    Ret 'a
  | Unit_Call unit_call "id_error option \<Rightarrow> 'a prog"
  | Bool_Call bool_call "id_error + bool \<Rightarrow> 'a prog"
  | Nat_Call nat_call "id_error + nat \<Rightarrow> 'a prog"
  | Confirm_Call string nat "id_error + instant option \<Rightarrow> 'a prog"
  | Otp_Call string "id_error + otp \<Rightarrow> 'a prog"
  | Session_Call string "id_error + session \<Rightarrow> 'a prog"
  | Receipt_Call string "id_error + string option \<Rightarrow> 'a prog"
  | Str_Call str_call "id_error + string \<Rightarrow> 'a prog"
  | Token_Call "string \<Rightarrow> 'a prog"
  | Code_Call "string \<Rightarrow> 'a prog"
  | Now_Call "instant \<Rightarrow> 'a prog"

text \<open>One program, then another on its result.\<close>

primrec and_then :: "'a prog \<Rightarrow> ('a \<Rightarrow> 'b prog) \<Rightarrow> 'b prog" where
  "and_then (Ret a) g = g a"
| "and_then (Unit_Call c k) g = Unit_Call c (\<lambda>r. and_then (k r) g)"
| "and_then (Bool_Call c k) g = Bool_Call c (\<lambda>r. and_then (k r) g)"
| "and_then (Nat_Call c k) g = Nat_Call c (\<lambda>r. and_then (k r) g)"
| "and_then (Confirm_Call a b k) g = Confirm_Call a b (\<lambda>r. and_then (k r) g)"
| "and_then (Otp_Call c k) g = Otp_Call c (\<lambda>r. and_then (k r) g)"
| "and_then (Session_Call c k) g = Session_Call c (\<lambda>r. and_then (k r) g)"
| "and_then (Receipt_Call c k) g = Receipt_Call c (\<lambda>r. and_then (k r) g)"
| "and_then (Str_Call c k) g = Str_Call c (\<lambda>r. and_then (k r) g)"
| "and_then (Token_Call k) g = Token_Call (\<lambda>r. and_then (k r) g)"
| "and_then (Code_Call k) g = Code_Call (\<lambda>r. and_then (k r) g)"
| "and_then (Now_Call k) g = Now_Call (\<lambda>r. and_then (k r) g)"

section \<open>The service\<close>

record service =
  sv_policy :: rate_policy
  sv_hash_string :: "string \<Rightarrow> string"
  sv_refresh_token_hash :: "string \<Rightarrow> string"
  sv_pseudonym_hash :: "string \<Rightarrow> string"
  sv_subscriber_id :: "string \<Rightarrow> string"
  sv_device_proof :: bool
  sv_access_tokens :: bool
  sv_refresh_proof :: bool
  sv_deletion_proof :: bool
  sv_otp_sender :: bool

definition otp_lifetime :: duration where "otp_lifetime = 300 * second"
definition max_otp_attempts :: nat where "max_otp_attempts = 3"
definition session_lifetime :: duration where "session_lifetime = 86400 * second"

definition is_canonical_msisdn :: "string \<Rightarrow> bool" where
  "is_canonical_msisdn s =
     (\<not> (length s < 8 \<or> length s > 16 \<or> s ! 0 \<noteq> CHR ''+'' \<or> s ! 1 < CHR ''1'' \<or> s ! 1 > CHR ''9'')
      \<and> list_all (\<lambda>ch. \<not> (ch < CHR ''0'' \<or> ch > CHR ''9'')) (drop 2 s))"

definition msisdn_pseudonym :: "service \<Rightarrow> string \<Rightarrow> id_error + string" where
  "msisdn_pseudonym sv msisdn =
     (if \<not> is_canonical_msisdn msisdn then Inl [Invalid_Msisdn] else Inr (sv_pseudonym_hash sv msisdn))"

definition confirm_failure :: "string \<Rightarrow> string \<Rightarrow> nat \<Rightarrow> instant \<Rightarrow> id_error option prog" where
  "confirm_failure pseudonym request_id reservation t =
     Confirm_Call pseudonym reservation (\<lambda>r.
       Unit_Call (C_Audit (Ev_Verification_Failed t request_id)) (\<lambda>_.
         case r of
           Inl e \<Rightarrow> Ret (Some e)
         | Inr None \<Rightarrow> Ret None
         | Inr (Some u) \<Rightarrow> Unit_Call (C_Audit (Ev_Lockout t request_id u)) (\<lambda>_. Ret None)))"

definition withdraw_undelivered_otp :: "string \<Rightarrow> 'a prog \<Rightarrow> 'a prog" where
  "withdraw_undelivered_otp request_id next = Unit_Call (C_Delete_Otp request_id) (\<lambda>_. next)"

definition request_otp :: "service \<Rightarrow> string \<Rightarrow> (id_error + string) prog" where
  "request_otp sv msisdn =
     (if \<not> is_canonical_msisdn msisdn then Ret (Inl [Invalid_Msisdn])
      else case msisdn_pseudonym sv msisdn of
        Inl e \<Rightarrow> Ret (Inl e)
      | Inr pseudonym \<Rightarrow>
          Now_Call (\<lambda>now. Unit_Call (C_Reserve_Request pseudonym now) (\<lambda>r.
            case r of
              Some e \<Rightarrow> Ret (Inl e)
            | None \<Rightarrow>
                Token_Call (\<lambda>tok. Code_Call (\<lambda>code. Now_Call (\<lambda>t.
                  let request_id = ''req_'' @ tok;
                      challenge = \<lparr>ot_request = request_id, ot_purpose = Purpose_Sign_In,
                        ot_pseudonym = pseudonym, ot_subscriber = sv_subscriber_id sv msisdn,
                        ot_code_hash = sv_hash_string sv code, ot_attempts = 0,
                        ot_expires = t + otp_lifetime\<rparr>
                  in Unit_Call (C_Save_Otp challenge) (\<lambda>r.
                    case r of
                      Some e \<Rightarrow> Ret (Inl e)
                    | None \<Rightarrow>
                        if sv_otp_sender sv
                        then Unit_Call (C_Send_Otp msisdn code) (\<lambda>r.
                          case r of
                            Some _ \<Rightarrow> withdraw_undelivered_otp request_id (Ret (Inl [Otp_Delivery_Failed]))
                          | None \<Rightarrow> Ret (Inr request_id))
                        else Ret (Inr request_id))))))))"

definition wrong_code :: "otp \<Rightarrow> string \<Rightarrow> nat \<Rightarrow> instant \<Rightarrow> id_error prog" where
  "wrong_code challenge request_id reservation reserved_at =
     Nat_Call (C_Record_Failed request_id) (\<lambda>r.
       case r of
         Inl e \<Rightarrow>
           if err_is e Invalid_Otp
           then Unit_Call (C_Release (ot_pseudonym challenge) reservation) (\<lambda>re.
                  case re of Some x \<Rightarrow> Ret x | None \<Rightarrow> Ret [Invalid_Otp])
           else and_then (confirm_failure (ot_pseudonym challenge) request_id reservation reserved_at)
                  (\<lambda>_. Ret e)
       | Inr attempts \<Rightarrow>
           and_then (confirm_failure (ot_pseudonym challenge) request_id reservation reserved_at) (\<lambda>ce.
             case ce of
               Some x \<Rightarrow> Ret x
             | None \<Rightarrow>
                 if attempts \<ge> max_otp_attempts
                 then Unit_Call (C_Delete_Otp request_id) (\<lambda>_. Ret [Invalid_Otp])
                 else Ret [Invalid_Otp]))"

definition check_code :: "service \<Rightarrow> otp \<Rightarrow> string \<Rightarrow> string \<Rightarrow> (id_error + nat) prog" where
  "check_code sv challenge request_id code =
     (if ot_attempts challenge \<ge> max_otp_attempts
      then Unit_Call (C_Delete_Otp request_id) (\<lambda>_. Ret (Inl [Invalid_Otp]))
      else Now_Call (\<lambda>t.
        if t > ot_expires challenge
        then Unit_Call (C_Delete_Otp request_id) (\<lambda>_. Ret (Inl [Expired_Otp]))
        else Now_Call (\<lambda>reserved_at.
          Nat_Call (C_Reserve_Verification (ot_pseudonym challenge) reserved_at) (\<lambda>r.
            case r of
              Inl e \<Rightarrow> Ret (Inl e)
            | Inr reservation \<Rightarrow>
                if sv_hash_string sv code \<noteq> ot_code_hash challenge
                then and_then (wrong_code challenge request_id reservation reserved_at) (\<lambda>e. Ret (Inl e))
                else Ret (Inr reservation)))))"

text \<open>The tail of a validation, once the code is spent and the number reset.\<close>

definition create_session :: "service \<Rightarrow> otp \<Rightarrow> string \<Rightarrow> instant \<Rightarrow> integrity_tier
    \<Rightarrow> (id_error + session) prog" where
  "create_session sv challenge thumbprint began tier =
     Token_Call (\<lambda>sid. Token_Call (\<lambda>refresh. Now_Call (\<lambda>created. Now_Call (\<lambda>t.
       let s = \<lparr>se_id = ''sess_'' @ sid, se_subscriber = ot_subscriber challenge, se_refresh_token = [],
             se_refresh_hash = sv_refresh_token_hash sv refresh, se_device_id = [],
             se_roles = [''subscriber''], se_created = created, se_expires = t + session_lifetime,
             se_revoked = False, se_thumbprint = thumbprint, se_tier = tier, se_fence = Some began\<rparr>
       in Unit_Call (C_Save_Session s) (\<lambda>r.
            case r of
              Some e \<Rightarrow> Ret (Inl (if err_is e Subscriber_Erased then Invalid_Otp # e else e))
            | None \<Rightarrow> Ret (Inr (s\<lparr>se_refresh_token := refresh\<rparr>)))))))"

text \<open>From a correct code on: spend it, reset the number, decide the tier, create the session.\<close>

definition redeem :: "service \<Rightarrow> otp \<Rightarrow> string \<Rightarrow> nat \<Rightarrow> string \<Rightarrow> instant
    \<Rightarrow> (id_error + integrity_tier) prog option \<Rightarrow> (id_error + session) prog" where
  "redeem sv challenge request_id reservation thumbprint began assess =
     Bool_Call (C_Consume_Otp request_id) (\<lambda>r.
       case r of
         Inl e \<Rightarrow> Unit_Call (C_Release (ot_pseudonym challenge) reservation) (\<lambda>re.
           case re of Some x \<Rightarrow> Ret (Inl (e @ x)) | None \<Rightarrow> Ret (Inl e))
       | Inr False \<Rightarrow> Unit_Call (C_Release (ot_pseudonym challenge) reservation) (\<lambda>re.
           case re of Some x \<Rightarrow> Ret (Inl x) | None \<Rightarrow> Ret (Inl [Invalid_Otp]))
       | Inr True \<Rightarrow> Unit_Call (C_Reset (ot_pseudonym challenge)) (\<lambda>re.
           case re of
             Some e \<Rightarrow> Ret (Inl e)
           | None \<Rightarrow>
               and_then (case assess of None \<Rightarrow> Ret (Inr Tier_Unverified) | Some a \<Rightarrow> a) (\<lambda>tr.
                 case tr of
                   Inl e \<Rightarrow> Ret (Inl e)
                 | Inr tier \<Rightarrow> create_session sv challenge thumbprint began tier)))"

definition validate_otp :: "service \<Rightarrow> string \<Rightarrow> string \<Rightarrow> string \<Rightarrow> (id_error + integrity_tier) prog option
    \<Rightarrow> (id_error + session) prog" where
  "validate_otp sv request_id code thumbprint assess =
     Now_Call (\<lambda>began. Otp_Call request_id (\<lambda>r.
       case r of
         Inl e \<Rightarrow> Ret (Inl e)
       | Inr challenge \<Rightarrow>
           if ot_purpose challenge \<noteq> Purpose_Sign_In then Ret (Inl [Invalid_Otp])
           else and_then (check_code sv challenge request_id code) (\<lambda>r.
             case r of
               Inl e \<Rightarrow> Ret (Inl e)
             | Inr reservation \<Rightarrow> redeem sv challenge request_id reservation thumbprint began assess)))"

text \<open>\<^verbatim>\<open>ValidateOtp\<close>: the session and an empty access token.\<close>

definition validate_otp_plain :: "service \<Rightarrow> string \<Rightarrow> string \<Rightarrow> (id_error + session \<times> string) prog" where
  "validate_otp_plain sv request_id code =
     and_then (validate_otp sv request_id code [] None) (\<lambda>r.
       case r of Inl e \<Rightarrow> Ret (Inl e) | Inr s \<Rightarrow> Ret (Inr (s, [])))"

definition assess_integrity :: "string \<Rightarrow> string \<Rightarrow> string \<Rightarrow> string \<Rightarrow> string \<Rightarrow> (id_error + integrity_tier) prog" where
  "assess_integrity token proof jkt request_id session_id =
     (if token = [] then Ret (Inr Tier_Unverified)
      else Bool_Call (C_Play_Integrity token proof jkt) (\<lambda>r.
        case r of
          Inl e \<Rightarrow>
            if err_is e Play_Integrity_Unavailable then Ret (Inr Tier_Unverified)
            else if err_is e Play_Integrity_Failed
            then Now_Call (\<lambda>t. Unit_Call (C_Audit (Ev_Integrity_Rejected t request_id session_id)) (\<lambda>_. Ret (Inl e)))
            else Ret (Inl e)
        | Inr True \<Rightarrow> Ret (Inr Tier_Certified)
        | Inr False \<Rightarrow>
            Now_Call (\<lambda>t. Unit_Call (C_Audit (Ev_Integrity_Restricted t request_id session_id)) (\<lambda>_.
              Ret (Inr Tier_Restricted)))))"

definition issue_bound_access_token :: "service \<Rightarrow> string \<Rightarrow> (id_error + string) prog" where
  "issue_bound_access_token sv session_id =
     (if \<not> sv_access_tokens sv then Ret (Inl [Token_Issuance_Unavailable])
      else Session_Call session_id (\<lambda>r.
        case r of
          Inl e \<Rightarrow> Ret (Inl e)
        | Inr s \<Rightarrow> Now_Call (\<lambda>t.
            if se_revoked s \<or> t > se_expires s \<or> se_thumbprint s = []
            then Ret (Inl [Access_Token_Issuance])
            else Str_Call (C_Sign (se_subscriber s) (se_roles s) (se_thumbprint s)) Ret)))"

definition audit_reenrolment :: "session \<Rightarrow> instant \<Rightarrow> 'a prog \<Rightarrow> 'a prog" where
  "audit_reenrolment s t next =
     Bool_Call (C_Other_Key (se_subscriber s) (se_thumbprint s) (se_id s)) (\<lambda>r.
       case r of
         Inr True \<Rightarrow> Unit_Call (C_Audit (Ev_Device_Reenrolled t (se_id s))) (\<lambda>_. next)
       | _ \<Rightarrow> next)"

definition validate_otp_with_device_proof_and_integrity ::
    "service \<Rightarrow> string \<Rightarrow> string \<Rightarrow> string \<Rightarrow> string \<Rightarrow> string \<Rightarrow> (id_error + session \<times> string) prog" where
  "validate_otp_with_device_proof_and_integrity sv request_id code http_method proof integrity_token =
     (if \<not> sv_device_proof sv then Ret (Inl [Enrollment_Unavailable])
      else if \<not> sv_access_tokens sv then Ret (Inl [Token_Issuance_Unavailable])
      else Str_Call (C_Verify V_Enrolment proof http_method) (\<lambda>r.
        case r of
          Inl e \<Rightarrow> Ret (Inl (if err_is e Dpop_Invalid_Proof then Invalid_Device_Proof # e else e))
        | Inr jkt \<Rightarrow>
            and_then (validate_otp sv request_id code jkt
                (Some (assess_integrity integrity_token proof jkt request_id []))) (\<lambda>r.
              case r of
                Inl e \<Rightarrow> Ret (Inl e)
              | Inr s \<Rightarrow>
                  and_then (issue_bound_access_token sv (se_id s)) (\<lambda>r.
                    case r of
                      Inl e \<Rightarrow> Unit_Call (C_Revoke (se_id s)) (\<lambda>re.
                        case re of
                          Some x \<Rightarrow> Ret (Inl (Access_Token_Issuance # e @ x))
                        | None \<Rightarrow> Ret (Inl (Access_Token_Issuance # e)))
                    | Inr token \<Rightarrow>
                        Now_Call (\<lambda>t. Unit_Call (C_Audit (Ev_Device_Enrolled t (se_id s))) (\<lambda>_.
                          audit_reenrolment s t (Ret (Inr (s, token)))))))))"

definition validate_otp_with_device_proof ::
    "service \<Rightarrow> string \<Rightarrow> string \<Rightarrow> string \<Rightarrow> string \<Rightarrow> (id_error + session \<times> string) prog" where
  "validate_otp_with_device_proof sv request_id code http_method proof =
     validate_otp_with_device_proof_and_integrity sv request_id code http_method proof []"

definition refresh_mismatch :: "string \<Rightarrow> string \<Rightarrow> id_error prog" where
  "refresh_mismatch session_id presented =
     Bool_Call (C_Superseded session_id presented) (\<lambda>r.
       case r of
         Inr False \<Rightarrow> Ret [Invalid_Token]
       | _ \<Rightarrow>
           Unit_Call (C_Revoke session_id) (\<lambda>re. Now_Call (\<lambda>t.
             Unit_Call (C_Audit (Ev_Token_Reused t session_id)) (\<lambda>_.
               case re of Some x \<Rightarrow> Ret (Token_Reused # x) | None \<Rightarrow> Ret [Token_Reused]))))"

text \<open>The checks both refreshes share, up to the refresh token itself.\<close>

definition refresh_token :: "service \<Rightarrow> string \<Rightarrow> string \<Rightarrow> (id_error + string \<times> string) prog" where
  "refresh_token sv session_id old =
     Session_Call session_id (\<lambda>r.
       case r of
         Inl e \<Rightarrow> Ret (Inl [Invalid_Token])
       | Inr s \<Rightarrow>
           if se_revoked s then Ret (Inl [Invalid_Token])
           else Now_Call (\<lambda>t.
             if t > se_expires s then Ret (Inl [Invalid_Token])
             else if se_refresh_hash s \<noteq> sv_refresh_token_hash sv old
             then and_then (refresh_mismatch session_id (sv_refresh_token_hash sv old)) (\<lambda>e. Ret (Inl e))
             else if se_thumbprint s \<noteq> [] then Ret (Inl [Device_Proof_Required])
             else Token_Call (\<lambda>new.
               Unit_Call (C_Replace_Session (s\<lparr>se_refresh_hash := sv_refresh_token_hash sv new\<rparr>)
                   (sv_refresh_token_hash sv old)) (\<lambda>r.
                 case r of
                   Some e \<Rightarrow> Ret (Inl (if err_is e Session_Conflict then [Invalid_Token] else e))
                 | None \<Rightarrow> Ret (Inr ([], new))))))"

definition accept_refresh_proof :: "session \<Rightarrow> string \<Rightarrow> string \<Rightarrow> string \<Rightarrow> (id_error + session) prog" where
  "accept_refresh_proof s jkt integrity_token proof =
     (if jkt \<noteq> se_thumbprint s then Ret (Inl [Invalid_Device_Proof])
      else if integrity_token = [] then Ret (Inr s)
      else and_then (assess_integrity integrity_token proof jkt [] (se_id s)) (\<lambda>r.
        case r of Inl e \<Rightarrow> Ret (Inl e) | Inr tier \<Rightarrow> Ret (Inr (s\<lparr>se_tier := tier\<rparr>))))"

definition refresh_token_with_device_proof_and_integrity ::
    "service \<Rightarrow> string \<Rightarrow> string \<Rightarrow> string \<Rightarrow> string \<Rightarrow> string \<Rightarrow> (id_error + string \<times> string) prog" where
  "refresh_token_with_device_proof_and_integrity sv session_id old http_method proof integrity_token =
     (if \<not> sv_refresh_proof sv then Ret (Inl [Device_Refresh_Unavailable])
      else if \<not> sv_access_tokens sv then Ret (Inl [Token_Issuance_Unavailable])
      else Session_Call session_id (\<lambda>r.
        case r of
          Inl e \<Rightarrow> Ret (Inl [Invalid_Token])
        | Inr s \<Rightarrow>
            if se_revoked s then Ret (Inl [Invalid_Token])
            else Now_Call (\<lambda>t.
              if t > se_expires s then Ret (Inl [Invalid_Token])
              else if se_refresh_hash s \<noteq> sv_refresh_token_hash sv old
              then and_then (refresh_mismatch session_id (sv_refresh_token_hash sv old)) (\<lambda>e. Ret (Inl e))
              else if se_thumbprint s = [] then Ret (Inl [Session_Not_Device_Bound])
              else Str_Call (C_Verify V_Refresh proof http_method) (\<lambda>r.
                case r of
                  Inl e \<Rightarrow> Ret (Inl (if err_is e Dpop_Invalid_Proof then Invalid_Device_Proof # e else e))
                | Inr jkt \<Rightarrow>
                    and_then (accept_refresh_proof s jkt integrity_token proof) (\<lambda>r.
                      case r of
                        Inl e \<Rightarrow> Ret (Inl e)
                      | Inr s' \<Rightarrow>
                          and_then (issue_bound_access_token sv session_id) (\<lambda>r.
                            case r of
                              Inl e \<Rightarrow> Ret (Inl (Access_Token_Issuance # e))
                            | Inr access \<Rightarrow>
                                Token_Call (\<lambda>new.
                                  Unit_Call (C_Replace_Session (s'\<lparr>se_refresh_hash := sv_refresh_token_hash sv new\<rparr>)
                                      (sv_refresh_token_hash sv old)) (\<lambda>r.
                                    case r of
                                      Some e \<Rightarrow> Ret (Inl (if err_is e Session_Conflict then [Invalid_Token] else e))
                                    | None \<Rightarrow> Ret (Inr (access, new))))))))))"

definition refresh_token_with_device_proof ::
    "service \<Rightarrow> string \<Rightarrow> string \<Rightarrow> string \<Rightarrow> string \<Rightarrow> (id_error + string \<times> string) prog" where
  "refresh_token_with_device_proof sv session_id old http_method proof =
     refresh_token_with_device_proof_and_integrity sv session_id old http_method proof []"

definition receipt_answer :: "string \<Rightarrow> string \<Rightarrow> id_error option prog" where
  "receipt_answer session_id jkt =
     Receipt_Call session_id (\<lambda>r.
       case r of
         Inl e \<Rightarrow> Ret (Some e)
       | Inr None \<Rightarrow> Ret (Some [Invalid_Token])
       | Inr (Some thumb) \<Rightarrow> if thumb \<noteq> jkt then Ret (Some [Invalid_Token]) else Ret None)"

definition repeated_deletion :: "string \<Rightarrow> string \<Rightarrow> string \<Rightarrow> id_error option prog" where
  "repeated_deletion session_id http_method proof =
     Receipt_Call session_id (\<lambda>r.
       case r of
         Inl e \<Rightarrow> Ret (Some e)
       | Inr None \<Rightarrow> Ret (Some [Invalid_Token])
       | Inr (Some thumb) \<Rightarrow>
           Str_Call (C_Verify V_Deletion proof http_method) (\<lambda>r.
             case r of
               Inl e \<Rightarrow> Ret (Some (if err_is e Dpop_Invalid_Proof then Invalid_Device_Proof # e else e))
             | Inr jkt \<Rightarrow> if jkt \<noteq> thumb then Ret (Some [Invalid_Token]) else Ret None))"

definition delete_account_with_device_proof ::
    "service \<Rightarrow> string \<Rightarrow> string \<Rightarrow> string \<Rightarrow> string \<Rightarrow> id_error option prog" where
  "delete_account_with_device_proof sv session_id token http_method proof =
     (if \<not> sv_deletion_proof sv then Ret (Some [Account_Deletion_Unavailable])
      else Session_Call session_id (\<lambda>r.
        case r of
          Inl e \<Rightarrow>
            if err_is e Invalid_Token then repeated_deletion session_id http_method proof else Ret (Some e)
        | Inr s \<Rightarrow>
            if se_revoked s then Ret (Some [Invalid_Token])
            else Now_Call (\<lambda>t.
              if t > se_expires s then Ret (Some [Invalid_Token])
              else if se_refresh_hash s \<noteq> sv_refresh_token_hash sv token
              then and_then (refresh_mismatch session_id (sv_refresh_token_hash sv token)) (\<lambda>e. Ret (Some e))
              else if se_thumbprint s = [] then Ret (Some [Session_Not_Device_Bound])
              else Str_Call (C_Verify V_Deletion proof http_method) (\<lambda>r.
                case r of
                  Inl e \<Rightarrow> Ret (Some (if err_is e Dpop_Invalid_Proof then Invalid_Device_Proof # e else e))
                | Inr jkt \<Rightarrow>
                    if jkt \<noteq> se_thumbprint s then Ret (Some [Invalid_Device_Proof])
                    else Now_Call (\<lambda>now.
                      Unit_Call (C_Erase \<lparr>er_subscriber = se_subscriber s, er_requested_at = now,
                          er_session = se_id s, er_refresh_hash = se_refresh_hash s,
                          er_thumbprint = se_thumbprint s, er_receipt_expires = se_expires s\<rparr>) (\<lambda>r.
                        case r of
                          Some e \<Rightarrow>
                            if err_is e Session_Conflict then receipt_answer session_id jkt else Ret (Some e)
                        | None \<Rightarrow>
                            Unit_Call (C_Audit (Ev_Account_Deleted now (se_id s))) (\<lambda>_. Ret None)))))))"

section \<open>The HTTP adapter\<close>

definition is_credential_rejection :: "id_error \<Rightarrow> bool" where
  "is_credential_rejection e = (err_is e Invalid_Otp \<or> err_is e Expired_Otp \<or> err_is e Invalid_Token)"

definition retry_after_seconds :: "instant \<Rightarrow> instant \<Rightarrow> int" where
  "retry_after_seconds retry_at now =
     (let secs = go_div ((retry_at - now) + second - 1) second in if secs < 1 then 1 else secs)"

text \<open>A problem answer: status, whether its detail is the error's own text, its code, and the
  \<^verbatim>\<open>Retry-After\<close> header.\<close>

datatype detail = Fixed_Detail string | Own_Text id_error

datatype http_answer =
    Problem (status: nat) (problem_detail: detail) (problem_code: string) (retry_after: "int option")
  | Success_Request string
  | Success_Session session string

definition internal_error :: http_answer where
  "internal_error = Problem 500 (Fixed_Detail ''The request could not be processed. Please try again.'') ''ERR_INTERNAL'' None"

text \<open>\<^verbatim>\<open>errors.As\<close> for the rate-limit error: the first in the chain.\<close>

fun rate_limit_of :: "id_error \<Rightarrow> instant option option" where
  "rate_limit_of [] = None"
| "rate_limit_of (Rate_Limited u # e) = Some u"
| "rate_limit_of (_ # e) = rate_limit_of e"

definition write_rate_limited :: "instant \<Rightarrow> instant option \<Rightarrow> http_answer" where
  "write_rate_limited now u =
     Problem 429 (Fixed_Detail ''Rate limit exceeded'') ''ERR_RATE_LIMIT_EXCEEDED''
       (map_option (\<lambda>t. retry_after_seconds t now) u)"

definition answer_request_otp :: "instant \<Rightarrow> id_error + string \<Rightarrow> http_answer" where
  "answer_request_otp now r =
     (case r of
        Inr request_id \<Rightarrow> Success_Request request_id
      | Inl e \<Rightarrow>
          (case rate_limit_of e of
             Some u \<Rightarrow> write_rate_limited now u
           | None \<Rightarrow>
               (if err_is e Invalid_Msisdn
                then Problem 400 (Fixed_Detail ''Invalid MSISDN input'') ''ERR_INVALID_INPUT'' None
                else internal_error)))"

definition answer_validate_otp :: "instant \<Rightarrow> id_error + session \<times> string \<Rightarrow> http_answer" where
  "answer_validate_otp now r =
     (case r of
        Inr (s, token) \<Rightarrow> Success_Session s token
      | Inl e \<Rightarrow>
          (case rate_limit_of e of
             Some u \<Rightarrow> write_rate_limited now u
           | None \<Rightarrow>
               (if err_is e Expired_Otp
                then Problem 401 (Fixed_Detail ''The OTP challenge has expired. Request a new code.'') ''ERR_OTP_EXPIRED'' None
                else if is_credential_rejection e then Problem 401 (Own_Text e) ''ERR_UNAUTHORIZED'' None
                else internal_error)))"

section \<open>Runs of a program\<close>

text \<open>What a program does with its collaborators: the calls in order, each with its reply.\<close>

datatype event =
    E_Unit unit_call "id_error option"
  | E_Bool bool_call "id_error + bool"
  | E_Nat nat_call "id_error + nat"
  | E_Confirm string nat "id_error + instant option"
  | E_Otp string "id_error + otp"
  | E_Session string "id_error + session"
  | E_Receipt string "id_error + string option"
  | E_Str str_call "id_error + string"
  | E_Token string
  | E_Code string
  | E_Now instant

inductive runs :: "'a prog \<Rightarrow> event list \<Rightarrow> 'a \<Rightarrow> bool" where
  "runs (Ret a) [] a"
| "runs (k r) tr a \<Longrightarrow> runs (Unit_Call c k) (E_Unit c r # tr) a"
| "runs (k r) tr a \<Longrightarrow> runs (Bool_Call c k) (E_Bool c r # tr) a" for k :: "id_error + bool \<Rightarrow> 'a prog"
| "runs (k r) tr a \<Longrightarrow> runs (Nat_Call c k) (E_Nat c r # tr) a" for k :: "id_error + nat \<Rightarrow> 'a prog"
| "runs (k r) tr a \<Longrightarrow> runs (Confirm_Call x n k) (E_Confirm x n r # tr) a"
| "runs (k r) tr a \<Longrightarrow> runs (Otp_Call x k) (E_Otp x r # tr) a"
| "runs (k r) tr a \<Longrightarrow> runs (Session_Call x k) (E_Session x r # tr) a"
| "runs (k r) tr a \<Longrightarrow> runs (Receipt_Call x k) (E_Receipt x r # tr) a"
| "runs (k r) tr a \<Longrightarrow> runs (Str_Call c k) (E_Str c r # tr) a" for k :: "id_error + string \<Rightarrow> 'a prog"
| "runs (k y) tr a \<Longrightarrow> runs (Token_Call k) (E_Token y # tr) a"
| "runs (k y) tr a \<Longrightarrow> runs (Code_Call k) (E_Code y # tr) a"
| "runs (k t) tr a \<Longrightarrow> runs (Now_Call k) (E_Now t # tr) a"

inductive_simps runs_Ret [simp]: "runs (Ret a) tr b"
inductive_simps runs_Unit [simp]: "runs (Unit_Call c k) tr b"
inductive_simps runs_Bool [simp]: "runs (Bool_Call c k) tr b"
inductive_simps runs_Nat [simp]: "runs (Nat_Call c k) tr b"
inductive_simps runs_Confirm [simp]: "runs (Confirm_Call x n k) tr b"
inductive_simps runs_Otp [simp]: "runs (Otp_Call x k) tr b"
inductive_simps runs_Session [simp]: "runs (Session_Call x k) tr b"
inductive_simps runs_Receipt [simp]: "runs (Receipt_Call x k) tr b"
inductive_simps runs_Str [simp]: "runs (Str_Call c k) tr b"
inductive_simps runs_Token [simp]: "runs (Token_Call k) tr b"
inductive_simps runs_Code [simp]: "runs (Code_Call k) tr b"
inductive_simps runs_Now [simp]: "runs (Now_Call k) tr b"

lemma runs_and_then_intro: "runs q t1 a \<Longrightarrow> runs (g a) t2 b \<Longrightarrow> runs (and_then q g) (t1 @ t2) b"
  by (induction rule: runs.induct) auto

lemma runs_and_then_elim:
  "runs (and_then q g) tr b \<Longrightarrow> \<exists>t1 t2 a. tr = t1 @ t2 \<and> runs q t1 a \<and> runs (g a) t2 b"
proof (induction q arbitrary: tr)
  case (Ret a)
  then show ?case by (intro exI [of _ "[]"] exI [of _ tr] exI [of _ a]) simp
next
  case (Unit_Call c k)
  then obtain r tr' where r: "tr = E_Unit c r # tr'" "runs (and_then (k r) g) tr' b" by auto
  then show ?case using Unit_Call.IH [OF _ r(2)] by (metis append_Cons rangeI runs.intros(2))
next
  case (Bool_Call c k)
  then obtain r tr' where r: "tr = E_Bool c r # tr'" "runs (and_then (k r) g) tr' b" by auto
  then show ?case using Bool_Call.IH [OF _ r(2)] by (metis append_Cons rangeI runs.intros(3))
next
  case (Nat_Call c k)
  then obtain r tr' where r: "tr = E_Nat c r # tr'" "runs (and_then (k r) g) tr' b" by auto
  then show ?case using Nat_Call.IH [OF _ r(2)] by (metis append_Cons rangeI runs.intros(4))
next
  case (Confirm_Call x n k)
  then obtain r tr' where r: "tr = E_Confirm x n r # tr'" "runs (and_then (k r) g) tr' b" by auto
  then show ?case using Confirm_Call.IH [OF _ r(2)] by (metis append_Cons rangeI runs.intros(5))
next
  case (Otp_Call x k)
  then obtain r tr' where r: "tr = E_Otp x r # tr'" "runs (and_then (k r) g) tr' b" by auto
  then show ?case using Otp_Call.IH [OF _ r(2)] by (metis append_Cons rangeI runs.intros(6))
next
  case (Session_Call x k)
  then obtain r tr' where r: "tr = E_Session x r # tr'" "runs (and_then (k r) g) tr' b" by auto
  then show ?case using Session_Call.IH [OF _ r(2)] by (metis append_Cons rangeI runs.intros(7))
next
  case (Receipt_Call x k)
  then obtain r tr' where r: "tr = E_Receipt x r # tr'" "runs (and_then (k r) g) tr' b" by auto
  then show ?case using Receipt_Call.IH [OF _ r(2)] by (metis append_Cons rangeI runs.intros(8))
next
  case (Str_Call c k)
  then obtain r tr' where r: "tr = E_Str c r # tr'" "runs (and_then (k r) g) tr' b" by auto
  then show ?case using Str_Call.IH [OF _ r(2)] by (metis append_Cons rangeI runs.intros(9))
next
  case (Token_Call k)
  then obtain y tr' where r: "tr = E_Token y # tr'" "runs (and_then (k y) g) tr' b" by auto
  then show ?case using Token_Call.IH [OF _ r(2)] by (metis append_Cons rangeI runs.intros(10))
next
  case (Code_Call k)
  then obtain y tr' where r: "tr = E_Code y # tr'" "runs (and_then (k y) g) tr' b" by auto
  then show ?case using Code_Call.IH [OF _ r(2)] by (metis append_Cons rangeI runs.intros(11))
next
  case (Now_Call k)
  then obtain t tr' where r: "tr = E_Now t # tr'" "runs (and_then (k t) g) tr' b" by auto
  then show ?case using Now_Call.IH [OF _ r(2)] by (metis append_Cons rangeI runs.intros(12))
qed

lemma runs_and_then:
  "runs (and_then q g) tr b \<longleftrightarrow> (\<exists>t1 t2 a. tr = t1 @ t2 \<and> runs q t1 a \<and> runs (g a) t2 b)"
  using runs_and_then_elim runs_and_then_intro by metis

text \<open>A program that branches on a reply.\<close>

lemma runs_case_sum: "runs (case r of Inl e \<Rightarrow> f e | Inr x \<Rightarrow> g x) tr a \<longleftrightarrow>
    (\<exists>e. r = Inl e \<and> runs (f e) tr a) \<or> (\<exists>x. r = Inr x \<and> runs (g x) tr a)"
  by (cases r) auto

lemma runs_case_option: "runs (case r of None \<Rightarrow> f | Some x \<Rightarrow> g x) tr a \<longleftrightarrow>
    (r = None \<and> runs f tr a) \<or> (\<exists>x. r = Some x \<and> runs (g x) tr a)"
  by (cases r) auto

lemma runs_case_bool: "runs (case r of True \<Rightarrow> f | False \<Rightarrow> g) tr a \<longleftrightarrow>
    (r \<and> runs f tr a) \<or> (\<not> r \<and> runs g tr a)"
  by (cases r) auto

lemma runs_if: "runs (if b then f else g) tr a \<longleftrightarrow> (b \<and> runs f tr a) \<or> (\<not> b \<and> runs g tr a)"
  by simp

lemmas runs_simps = runs_case_sum runs_case_option runs_case_bool runs_if runs_and_then Let_def

section \<open>What each part of a validation does\<close>

text \<open>The calls that spend or create something.\<close>

fun spends :: "event \<Rightarrow> bool" where
  "spends (E_Bool (C_Consume_Otp r) x) = True"
| "spends (E_Unit (C_Save_Session s) x) = True"
| "spends (E_Unit (C_Replace_Session s h) x) = True"
| "spends (E_Unit (C_Save_Otp c) x) = True"
| "spends (E_Unit (C_Reset k) x) = True"
| "spends _ = False"

lemma confirm_failure_quiet: "runs (confirm_failure k r i t) tr a \<Longrightarrow> ev \<in> set tr \<Longrightarrow> \<not> spends ev"
  by (auto simp: confirm_failure_def runs_simps)

lemma wrong_code_quiet: "runs (wrong_code ch r i t) tr a \<Longrightarrow> ev \<in> set tr \<Longrightarrow> \<not> spends ev"
  unfolding wrong_code_def by (auto simp: runs_simps dest: confirm_failure_quiet)

lemma check_code_quiet: "runs (check_code sv ch r code) tr a \<Longrightarrow> ev \<in> set tr \<Longrightarrow> \<not> spends ev"
  unfolding check_code_def by (auto simp: runs_simps dest: wrong_code_quiet)

lemma check_code_passed:
  assumes "runs (check_code sv ch r code) tr (Inr i)"
  shows "ot_attempts ch < max_otp_attempts \<and> sv_hash_string sv code = ot_code_hash ch
    \<and> (\<exists>t. E_Now t \<in> set tr \<and> t \<le> ot_expires ch)
    \<and> (\<exists>t. E_Nat (C_Reserve_Verification (ot_pseudonym ch) t) (Inr i) \<in> set tr)"
  using assms by (auto simp: check_code_def runs_simps not_less)

lemma assess_quiet: "runs (assess_integrity tok pr jkt r i) tr a \<Longrightarrow> ev \<in> set tr \<Longrightarrow> \<not> spends ev"
  by (auto simp: assess_integrity_def runs_simps)

lemma create_session_saves:
  assumes "runs (create_session sv ch thumb began tier) tr (Inr s)"
  obtains s0 where "E_Unit (C_Save_Session s0) None \<in> set tr" "s = s0\<lparr>se_refresh_token := se_refresh_token s\<rparr>"
    "se_refresh_token s0 = []" "se_refresh_hash s0 = sv_refresh_token_hash sv (se_refresh_token s)"
    "se_subscriber s0 = ot_subscriber ch" "se_thumbprint s0 = thumb" "se_fence s0 = Some began"
    "se_roles s0 = [''subscriber'']" "\<not> se_revoked s0"
  using assms by (auto simp: create_session_def runs_simps)

text \<open>A validation that succeeds went all the way.\<close>

lemma redeem_success:
  assumes "runs (redeem sv ch r i thumb began assess) tr (Inr s)"
  obtains t1 t2 tier where "tr = E_Bool (C_Consume_Otp r) (Inr True) # E_Unit (C_Reset (ot_pseudonym ch)) None # t1 @ t2"
    "runs (create_session sv ch thumb began tier) t2 (Inr s)"
proof -
  have "\<exists>t1 t2 tier. tr = E_Bool (C_Consume_Otp r) (Inr True) # E_Unit (C_Reset (ot_pseudonym ch)) None # t1 @ t2
      \<and> runs (create_session sv ch thumb began tier) t2 (Inr s)"
    using assms unfolding redeem_def by (auto simp: runs_simps)
  then show ?thesis using that by blast
qed

lemma validate_otp_success:
  assumes "runs (validate_otp sv r code thumb assess) tr (Inr s)"
  obtains began ch i t1 t2 where "tr = E_Now began # E_Otp r (Inr ch) # t1 @ t2"
    "ot_purpose ch = Purpose_Sign_In" "runs (check_code sv ch r code) t1 (Inr i)"
    "runs (redeem sv ch r i thumb began assess) t2 (Inr s)"
proof -
  have "\<exists>began ch i t1 t2. tr = E_Now began # E_Otp r (Inr ch) # t1 @ t2
      \<and> ot_purpose ch = Purpose_Sign_In \<and> runs (check_code sv ch r code) t1 (Inr i)
      \<and> runs (redeem sv ch r i thumb began assess) t2 (Inr s)"
    using assms unfolding validate_otp_def by (auto simp: runs_simps) blast
  then show ?thesis using that by blast
qed

lemma validate_otp_consumes:
  "runs (validate_otp sv r code thumb assess) tr (Inr s) \<Longrightarrow> E_Bool (C_Consume_Otp r) (Inr True) \<in> set tr"
  by (auto elim!: validate_otp_success redeem_success)

section \<open>The shared repository\<close>

text \<open>
  The state an event leaves in the in-memory repository, and whether its reply is the one the
  repository gives.  Clocks, tokens, verifiers, senders and auditors reply anything.  The clock
  that \<^verbatim>\<open>EraseSubscriber\<close> reads is the moment the erasure was requested.
\<close>

fun effect :: "rate_policy \<Rightarrow> repo \<Rightarrow> event \<Rightarrow> repo" where
  "effect p m (E_Unit c r) =
     (case c of
        C_Save_Otp x \<Rightarrow> fst (save_otp x m)
      | C_Delete_Otp x \<Rightarrow> delete_otp x m
      | C_Reserve_Request k t \<Rightarrow> fst (reserve_otp_request k t p m)
      | C_Release k i \<Rightarrow> fst (release_otp_verification k i m)
      | C_Reset k \<Rightarrow> fst (reset_otp_failures k m)
      | C_Save_Session s \<Rightarrow> fst (save_session s m)
      | C_Replace_Session s h \<Rightarrow> fst (replace_session s h m)
      | C_Revoke i \<Rightarrow> revoke_session i m
      | C_Erase e \<Rightarrow> fst (erase_subscriber (er_requested_at e) e m)
      | C_Audit ev \<Rightarrow> m
      | C_Send_Otp n c \<Rightarrow> m)"
| "effect p m (E_Bool c r) = (case c of C_Consume_Otp x \<Rightarrow> fst (consume_otp x m) | _ \<Rightarrow> m)"
| "effect p m (E_Nat c r) =
     (case c of C_Reserve_Verification k t \<Rightarrow> fst (reserve_otp_verification k t p m)
      | C_Record_Failed x \<Rightarrow> fst (record_failed_otp_attempt x m))"
| "effect p m _ = m"

fun replies :: "rate_policy \<Rightarrow> repo \<Rightarrow> event \<Rightarrow> bool" where
  "replies p m (E_Unit c r) =
     (case c of
        C_Save_Otp x \<Rightarrow> r = snd (save_otp x m)
      | C_Delete_Otp x \<Rightarrow> r = None
      | C_Reserve_Request k t \<Rightarrow> r = snd (reserve_otp_request k t p m)
      | C_Release k i \<Rightarrow> r = snd (release_otp_verification k i m)
      | C_Reset k \<Rightarrow> r = snd (reset_otp_failures k m)
      | C_Save_Session s \<Rightarrow> r = snd (save_session s m)
      | C_Replace_Session s h \<Rightarrow> r = snd (replace_session s h m)
      | C_Revoke i \<Rightarrow> r = None
      | C_Erase e \<Rightarrow> r = snd (erase_subscriber (er_requested_at e) e m)
      | C_Audit ev \<Rightarrow> True
      | C_Send_Otp n c \<Rightarrow> True)"
| "replies p m (E_Bool c r) =
     (case c of
        C_Consume_Otp x \<Rightarrow> r = Inr (snd (consume_otp x m))
      | C_Superseded i h \<Rightarrow> r = Inr (superseded_refresh_token i h m)
      | C_Other_Key sub th i \<Rightarrow> \<exists>ids. r = Inr (other_device_key_enrolled ids sub th i m)
      | C_Play_Integrity a b c \<Rightarrow> True)"
| "replies p m (E_Nat c r) =
     (case c of C_Reserve_Verification k t \<Rightarrow> r = snd (reserve_otp_verification k t p m)
      | C_Record_Failed x \<Rightarrow> r = snd (record_failed_otp_attempt x m))"
| "replies p m (E_Confirm k i r) = (r = confirm_otp_failure k i m)"
| "replies p m (E_Otp x r) = (r = get_otp x m)"
| "replies p m (E_Session i r) = (r = get_session i m)"
| "replies p m (E_Receipt i r) = (\<exists>t. r = Inr (erasure_receipt t i m))"
| "replies p m _ = True"

text \<open>A reply that is a failure of the store itself.\<close>

definition store_failed :: "id_error \<Rightarrow> bool" where
  "store_failed e = (\<exists>x. e = [Store_Failure x])"

fun fails :: "event \<Rightarrow> bool" where
  "fails (E_Unit c r) = (\<exists>e. r = Some e \<and> store_failed e)"
| "fails (E_Bool c r) = (\<exists>e. r = Inl e \<and> store_failed e)"
| "fails (E_Nat c r) = (\<exists>e. r = Inl e \<and> store_failed e)"
| "fails (E_Confirm k i r) = (\<exists>e. r = Inl e \<and> store_failed e)"
| "fails (E_Otp x r) = (\<exists>e. r = Inl e \<and> store_failed e)"
| "fails (E_Session x r) = (\<exists>e. r = Inl e \<and> store_failed e)"
| "fails (E_Receipt x r) = (\<exists>e. r = Inl e \<and> store_failed e)"
| "fails _ = False"

text \<open>
  A log of events the repository can produce: each call is answered, or fails, and a call that
  fails may or may not have taken effect.
\<close>

inductive logged :: "rate_policy \<Rightarrow> repo \<Rightarrow> event list \<Rightarrow> repo \<Rightarrow> bool" for p where
  nothing: "logged p m [] m"
| answered: "replies p m ev \<Longrightarrow> logged p (effect p m ev) evs m' \<Longrightarrow> logged p m (ev # evs) m'"
| failed: "fails ev \<Longrightarrow> logged p m evs m' \<Longrightarrow> logged p m (ev # evs) m'"
| failed_late: "fails ev \<Longrightarrow> logged p (effect p m ev) evs m' \<Longrightarrow> logged p m (ev # evs) m'"

inductive_cases logged_ConsE: "logged p m (ev # evs) m'"

text \<open>A log of several requests: each event with the request it belongs to.\<close>

definition request_trace :: "nat \<Rightarrow> (nat \<times> event) list \<Rightarrow> event list" where
  "request_trace i L = map snd (filter (\<lambda>x. fst x = i) L)"

subsection \<open>What a log keeps\<close>

lemma logged_keeps:
  assumes "logged p m evs m'" and "P m"
    and "\<And>n ev. P n \<Longrightarrow> ev \<in> set evs \<Longrightarrow> P (effect p n ev)"
  shows "P m'"
  using assms by (induction rule: logged.induct) auto

text \<open>A property that every effect keeps and that rules out a reply rules it out of the log.\<close>

lemma logged_never:
  assumes "logged p m evs m'" and "P m" and "\<And>n ev. P n \<Longrightarrow> ev \<in> set evs \<Longrightarrow> P (effect p n ev)"
    and "\<And>n. P n \<Longrightarrow> \<not> replies p n bad" and "\<not> fails bad"
  shows "bad \<notin> set evs"
  using assms
proof (induction rule: logged.induct)
  case (answered m ev evs m')
  have "bad \<noteq> ev" using answered.hyps(1) answered.prems(1,3) by auto
  moreover have "bad \<notin> set evs" using answered.prems by (intro answered.IH) auto
  ultimately show ?case by simp
next
  case (failed ev m evs m')
  have "bad \<noteq> ev" using failed.hyps(1) failed.prems(4) by auto
  moreover have "bad \<notin> set evs" using failed.prems by (intro failed.IH) auto
  ultimately show ?case by simp
next
  case (failed_late ev m evs m')
  have "bad \<noteq> ev" using failed_late.hyps(1) failed_late.prems(4) by auto
  moreover have "bad \<notin> set evs" using failed_late.prems by (intro failed_late.IH) auto
  ultimately show ?case by simp
qed simp

lemma logged_append:
  "logged p m (xs @ ys) m'' \<Longrightarrow> \<exists>m'. logged p m xs m' \<and> logged p m' ys m''"
proof (induction xs arbitrary: m)
  case Nil
  then show ?case by (auto intro: logged.nothing)
next
  case (Cons x xs)
  have "logged p m (x # xs @ ys) m''" using Cons.prems by simp
  then show ?case
    by (cases rule: logged_ConsE) (use Cons.IH in \<open>blast intro: logged.intros\<close>)+
qed

definition saves_otp :: "string \<Rightarrow> event \<Rightarrow> bool" where
  "saves_otp r ev \<longleftrightarrow> (\<exists>c x. ev = E_Unit (C_Save_Otp c) x \<and> ot_request c = r)"

lemma gone_stays_gone:
  "rp_otps m r = None \<Longrightarrow> \<not> saves_otp r ev \<Longrightarrow> rp_otps (effect p m ev) r = None"
proof (cases ev)
  case (E_Unit c x)
  assume "rp_otps m r = None" "\<not> saves_otp r ev"
  then show ?thesis
    unfolding E_Unit
    by (cases c) (auto simp: saves_otp_def save_otp_def delete_otp_def reserve_otp_request_def
      release_otp_verification_def reset_otp_failures_def save_session_def replace_session_def
      revoke_session_def erase_subscriber_def erase_locked_def Let_def put_session_def
      split: option.splits)
next
  case (E_Bool c x)
  assume "rp_otps m r = None"
  then show ?thesis unfolding E_Bool by (cases c) (auto simp: consume_otp_def)
next
  case (E_Nat c x)
  assume "rp_otps m r = None"
  then show ?thesis
    unfolding E_Nat
    by (cases c) (auto simp: reserve_otp_verification_def record_failed_otp_attempt_def Let_def split: option.splits)
qed simp_all

text \<open>A challenge is consumed at most once.\<close>

lemma consumed_at_most_once:
  assumes "logged p m (pre @ E_Bool (C_Consume_Otp r) (Inr True) # post) m'"
    and "\<forall>ev \<in> set post. \<not> saves_otp r ev"
  shows "E_Bool (C_Consume_Otp r) (Inr True) \<notin> set post"
proof -
  obtain n where "logged p n (E_Bool (C_Consume_Otp r) (Inr True) # post) m'"
    using logged_append [OF assms(1)] by blast
  then have "logged p (effect p n (E_Bool (C_Consume_Otp r) (Inr True))) post m'"
    by (elim logged_ConsE) auto
  moreover have "rp_otps (effect p n (E_Bool (C_Consume_Otp r) (Inr True))) r = None"
    by (simp add: consume_otp_def)
  ultimately show ?thesis
    by (rule logged_never [where P = "\<lambda>n. rp_otps n r = None"])
       (use assms(2) in \<open>auto simp: gone_stays_gone consume_otp_def\<close>)
qed

lemma request_trace_mem: "ev \<in> set (request_trace i L) \<longleftrightarrow> (i, ev) \<in> set L"
  by (auto simp: request_trace_def image_iff)

subsection \<open>Events as repository operations\<close>

fun op_of :: "event \<Rightarrow> any_op option" where
  "op_of (E_Unit c r) =
     (case c of
        C_Save_Otp x \<Rightarrow> Some (Op (R_Save_Otp x))
      | C_Delete_Otp x \<Rightarrow> Some (Op (R_Delete_Otp x))
      | C_Reserve_Request k t \<Rightarrow> Some (Op (R_Reserve_Request k t))
      | C_Release k i \<Rightarrow> Some (Op (R_Release k i))
      | C_Reset k \<Rightarrow> Some (Op (R_Reset k))
      | C_Save_Session s \<Rightarrow> Some (Op (R_Save_Session s))
      | C_Replace_Session s h \<Rightarrow> Some (Op (R_Replace_Session s h))
      | C_Revoke i \<Rightarrow> Some (Op (R_Revoke i))
      | C_Erase e \<Rightarrow> Some (Erase (er_requested_at e) e)
      | _ \<Rightarrow> None)"
| "op_of (E_Bool c r) = (case c of C_Consume_Otp x \<Rightarrow> Some (Op (R_Consume_Otp x)) | _ \<Rightarrow> None)"
| "op_of (E_Nat c r) =
     (case c of C_Reserve_Verification k t \<Rightarrow> Some (Op (R_Reserve_Verification k t))
      | C_Record_Failed x \<Rightarrow> Some (Op (R_Record_Failed x)))"
| "op_of _ = None"

lemma effect_step: "effect p m ev = (case op_of ev of None \<Rightarrow> m | Some x \<Rightarrow> any_step p m x)"
proof (cases ev)
  case (E_Unit c r)
  then show ?thesis by (cases c) simp_all
next
  case (E_Bool c r)
  then show ?thesis by (cases c) simp_all
next
  case (E_Nat c r)
  then show ?thesis by (cases c) simp_all
qed simp_all

lemma effect_inv: "repo_inv p m \<Longrightarrow> repo_inv p (effect p m ev)"
  by (auto simp: effect_step repository.step_inv split: option.split)

text \<open>A session that is read has the identifier it was read by.\<close>

lemma read_session_id:
  assumes "logged p m evs m'" and "repo_inv p m" and "E_Session i (Inr s) \<in> set evs"
  shows "se_id s = i"
proof (rule ccontr)
  assume ne: "se_id s \<noteq> i"
  have "\<not> replies p n (E_Session i (Inr s))" if "repo_inv p n" for n
    using that ne by (auto simp: repo_inv_def session_ok_def get_session_def split: option.splits)
  then have "E_Session i (Inr s) \<notin> set evs"
    by (intro logged_never [where P = "repo_inv p", OF assms(1,2)]) (simp_all add: effect_inv)
  then show False using assms(3) by blast
qed

definition stores_token :: "string \<Rightarrow> string \<Rightarrow> event \<Rightarrow> bool" where
  "stores_token i h ev \<longleftrightarrow> (\<exists>x. op_of ev = Some x \<and> stores_hash i h x)"

lemma lacks_hash_effect: "lacks_hash i h m \<Longrightarrow> \<not> stores_token i h ev \<Longrightarrow> lacks_hash i h (effect p m ev)"
  using lacks_hash_step by (auto simp: effect_step stores_token_def split: option.split)

text \<open>A refresh token is swapped away at most once.\<close>

lemma swapped_at_most_once:
  assumes "logged p m (pre @ E_Unit (C_Replace_Session s h) None # post) m'"
    and "se_refresh_hash s \<noteq> h" and "\<forall>ev \<in> set post. \<not> stores_token (se_id s) h ev" and "se_id s2 = se_id s"
  shows "E_Unit (C_Replace_Session s2 h) None \<notin> set post"
proof -
  obtain n where n: "logged p n (E_Unit (C_Replace_Session s h) None # post) m'"
    using logged_append [OF assms(1)] by blast
  then have ok: "snd (replace_session s h n) = None"
    and rest: "logged p (fst (replace_session s h n)) post m'"
    by (auto elim!: logged_ConsE)
  have "lacks_hash (se_id s) h (fst (replace_session s h n))"
    using ok assms(2) by (auto simp: replace_session_def lacks_hash_def Let_def split: option.splits if_splits)
  moreover have "lacks_hash (se_id s) h (effect p n ev)" if "lacks_hash (se_id s) h n" "ev \<in> set post" for n ev
    using lacks_hash_effect that assms(3) by blast
  moreover have "\<not> replies p n (E_Unit (C_Replace_Session s2 h) None)" if "lacks_hash (se_id s) h n" for n
    using that assms(4) by (auto simp: lacks_hash_def replace_session_def split: option.splits if_splits)
  ultimately show ?thesis
    by (rule logged_never [where P = "lacks_hash (se_id s) h", OF rest]) simp_all
qed

section \<open>Refreshes\<close>

lemma refresh_token_success:
  assumes "runs (refresh_token sv i old) tr (Inr (access, new))"
  obtains s where "E_Session i (Inr s) \<in> set tr" "\<not> se_revoked s"
    "se_refresh_hash s = sv_refresh_token_hash sv old" "se_thumbprint s = []" "access = []"
    "\<exists>t. E_Now t \<in> set tr \<and> t \<le> se_expires s"
    "E_Unit (C_Replace_Session (s\<lparr>se_refresh_hash := sv_refresh_token_hash sv new\<rparr>)
       (sv_refresh_token_hash sv old)) None \<in> set tr"
  using assms unfolding refresh_token_def by (auto simp: runs_simps not_less)

lemma accept_refresh_proof_key:
  "runs (accept_refresh_proof s jkt tok pr) tr (Inr s') \<Longrightarrow>
   jkt = se_thumbprint s \<and> se_id s' = se_id s \<and> se_thumbprint s' = se_thumbprint s
   \<and> se_subscriber s' = se_subscriber s"
  by (auto simp: accept_refresh_proof_def runs_simps)

lemma issue_signs_stored:
  "runs (issue_bound_access_token sv i) tr (Inr token) \<Longrightarrow>
   \<exists>x. E_Session i (Inr x) \<in> set tr \<and> \<not> se_revoked x \<and> se_thumbprint x \<noteq> []
     \<and> E_Str (C_Sign (se_subscriber x) (se_roles x) (se_thumbprint x)) (Inr token) \<in> set tr"
  by (auto simp: issue_bound_access_token_def runs_simps)

text \<open>The part of a proof-bound refresh after the refresh token was found current.\<close>

lemma refresh_with_proof_success:
  assumes "runs (refresh_token_with_device_proof_and_integrity sv i old hm pr tok) tr (Inr (access, new))"
  obtains s s' t1 t2 where "E_Session i (Inr s) \<in> set tr" "\<not> se_revoked s"
    "se_refresh_hash s = sv_refresh_token_hash sv old" "se_thumbprint s \<noteq> []"
    "E_Str (C_Verify V_Refresh pr hm) (Inr (se_thumbprint s)) \<in> set tr"
    "runs (accept_refresh_proof s (se_thumbprint s) tok pr) t1 (Inr s')"
    "runs (issue_bound_access_token sv i) t2 (Inr access)" "set t2 \<subseteq> set tr"
    "E_Unit (C_Replace_Session (s'\<lparr>se_refresh_hash := sv_refresh_token_hash sv new\<rparr>)
       (sv_refresh_token_hash sv old)) None \<in> set tr"
proof -
  obtain s t jkt t1 s' t2 where *: "tr = E_Session i (Inr s) # E_Now t # E_Str (C_Verify V_Refresh pr hm) (Inr jkt)
        # t1 @ t2 @ [E_Token new, E_Unit (C_Replace_Session (s'\<lparr>se_refresh_hash := sv_refresh_token_hash sv new\<rparr>)
            (sv_refresh_token_hash sv old)) None]"
      "\<not> se_revoked s" "se_refresh_hash s = sv_refresh_token_hash sv old" "se_thumbprint s \<noteq> []"
      "runs (accept_refresh_proof s jkt tok pr) t1 (Inr s')" "runs (issue_bound_access_token sv i) t2 (Inr access)"
    using assms unfolding refresh_token_with_device_proof_and_integrity_def by (auto simp: runs_simps)
  then have "jkt = se_thumbprint s" using accept_refresh_proof_key by blast
  with * show ?thesis by (intro that [of s t1 s' t2]) auto
qed

end
