(* ===== verification/IdentityProps.thy ===== *)
theory IdentityProps
  imports IdentityService
begin

text \<open>
  The properties of the identity service: what a sign-in, an enrolment, a refresh, a deletion
  and their HTTP answers guarantee, over any replies of the collaborators or over any log of
  interleaved requests on the shared repository.
\<close>

section \<open>Properties\<close>

text \<open>C2. A one-time code signs in at most once.  However two validations of one challenge
  interleave with each other and with any other requests on the repository, and whatever store
  calls fail, with or without effect, if one of them returns a session then the other returns
  an error, as long as no challenge is stored again under that identifier.\<close>

theorem otp_signs_in_once:
  assumes "logged p m (map snd L) m'" and "\<forall>(j, ev) \<in> set L. \<not> saves_otp r ev" and "i \<noteq> j"
    and "runs (validate_otp sv r code thumb assess) (request_trace i L) (Inr s)"
    and "runs (validate_otp sv' r code' thumb' assess') (request_trace j L) b"
  shows "isl b"
proof (rule ccontr)
  assume "\<not> isl b"
  then obtain s' where b: "b = Inr s'" by (cases b) auto
  let ?ev = "E_Bool (C_Consume_Otp r) (Inr True)"
  have i: "(i, ?ev) \<in> set L" and j: "(j, ?ev) \<in> set L"
    using validate_otp_consumes assms(4) assms(5) [unfolded b] by (auto simp flip: request_trace_mem)
  obtain pre y post where L: "L = pre @ y # post" "snd y = ?ev" "\<exists>x \<in> set post. snd x = ?ev"
  proof -
    obtain pre post where pp: "L = pre @ (i, ?ev) # post" using split_list [OF i] by blast
    show ?thesis
    proof (cases "(j, ?ev) \<in> set post")
      case True
      then show ?thesis using that [of pre "(i, ?ev)" post] pp by force
    next
      case False
      then have "(j, ?ev) \<in> set pre" using j pp assms(3) by auto
      then obtain pre' mid where "pre = pre' @ (j, ?ev) # mid" using split_list by metis
      then show ?thesis using that [of pre' "(j, ?ev)" "mid @ (i, ?ev) # post"] pp by force
    qed
  qed
  have "logged p m (map snd pre @ ?ev # map snd post) m'" using assms(1) L(1,2) by simp
  moreover have "\<forall>ev \<in> set (map snd post). \<not> saves_otp r ev" using assms(2) L(1) by auto
  ultimately have "?ev \<notin> set (map snd post)" by (rule consumed_at_most_once)
  then show False using L(3) by force
qed

text \<open>C5. Sign-in fails closed, whatever the repository replies.  A session is returned only if
  the challenge read was a sign-in challenge, with attempts left and unexpired, the code hashes
  to its hash, and the consumption, the reset of the number and the store of the session were
  each confirmed; the session is the challenge's subscriber's, bound to the proven key, fenced
  at the moment the request began, and only the hash of the returned refresh token was stored.\<close>

theorem sign_in_fails_closed:
  assumes "runs (validate_otp sv r code thumb assess) tr (Inr s)"
  shows "\<exists>ch s0. E_Otp r (Inr ch) \<in> set tr \<and> ot_purpose ch = Purpose_Sign_In
    \<and> ot_attempts ch < 3 \<and> sv_hash_string sv code = ot_code_hash ch
    \<and> (\<exists>t. E_Now t \<in> set tr \<and> t \<le> ot_expires ch)
    \<and> E_Bool (C_Consume_Otp r) (Inr True) \<in> set tr
    \<and> E_Unit (C_Reset (ot_pseudonym ch)) None \<in> set tr
    \<and> E_Unit (C_Save_Session s0) None \<in> set tr \<and> hd tr = E_Now (the (se_fence s0))
    \<and> s = s0\<lparr>se_refresh_token := se_refresh_token s\<rparr> \<and> se_refresh_token s0 = []
    \<and> se_refresh_hash s0 = sv_refresh_token_hash sv (se_refresh_token s)
    \<and> se_subscriber s0 = ot_subscriber ch \<and> se_thumbprint s0 = thumb \<and> \<not> se_revoked s0"
proof -
  obtain began ch i t1 t2 where 1: "tr = E_Now began # E_Otp r (Inr ch) # t1 @ t2"
      "ot_purpose ch = Purpose_Sign_In" "runs (check_code sv ch r code) t1 (Inr i)"
      "runs (redeem sv ch r i thumb began assess) t2 (Inr s)"
    by (rule validate_otp_success [OF assms])
  obtain u1 u2 tier where 2: "t2 = E_Bool (C_Consume_Otp r) (Inr True) # E_Unit (C_Reset (ot_pseudonym ch)) None # u1 @ u2"
      "runs (create_session sv ch thumb began tier) u2 (Inr s)"
    by (rule redeem_success [OF 1(4)])
  obtain s0 where 3: "E_Unit (C_Save_Session s0) None \<in> set u2" "s = s0\<lparr>se_refresh_token := se_refresh_token s\<rparr>"
      "se_refresh_token s0 = []" "se_refresh_hash s0 = sv_refresh_token_hash sv (se_refresh_token s)"
      "se_subscriber s0 = ot_subscriber ch" "se_thumbprint s0 = thumb" "se_fence s0 = Some began"
      "\<not> se_revoked s0"
    by (rule create_session_saves [OF 2(2)])
  show ?thesis
    by (intro exI [of _ ch] exI [of _ s0])
       (use 1 2 3 check_code_passed [OF 1(3)] in \<open>auto simp: max_otp_attempts_def\<close>)
qed

text \<open>A wrong code spends and creates nothing.  If the code does not hash to the hash of any
  challenge that was read, the request returns an error and makes no call that consumes a
  challenge, stores a session, replaces one, or resets a number's failures.\<close>

theorem wrong_code_changes_nothing:
  assumes "runs (validate_otp sv r code thumb assess) tr b"
    and "\<forall>ch. E_Otp r (Inr ch) \<in> set tr \<longrightarrow> sv_hash_string sv code \<noteq> ot_code_hash ch"
  shows "isl b \<and> (\<forall>ev \<in> set tr. \<not> spends ev)"
proof -
  have "\<nexists>i t1. runs (check_code sv ch r code) t1 (Inr i)" if "E_Otp r (Inr ch) \<in> set tr" for ch
    using check_code_passed assms(2) that by blast
  then show ?thesis
    using assms(1) unfolding validate_otp_def
    by (auto simp: runs_simps dest: check_code_quiet)
qed

definition refreshes :: "service \<Rightarrow> string \<Rightarrow> string \<Rightarrow> (id_error + string \<times> string) prog set" where
  "refreshes sv i old = insert (refresh_token sv i old)
     {refresh_token_with_device_proof_and_integrity sv i old hm pr tok | hm pr tok. True}"

lemma refresh_swaps:
  assumes "q \<in> refreshes sv i old" and "runs q tr (Inr x)"
  obtains s s' where "E_Session i (Inr s) \<in> set tr" "se_id s' = se_id s"
    "E_Unit (C_Replace_Session s' (sv_refresh_token_hash sv old)) None \<in> set tr"
proof -
  obtain access new where x: "x = (access, new)" by (cases x)
  consider "q = refresh_token sv i old"
    | hm pr tok where "q = refresh_token_with_device_proof_and_integrity sv i old hm pr tok"
    using assms(1) by (auto simp: refreshes_def)
  then show ?thesis
  proof cases
    case 1
    from assms(2) show ?thesis unfolding x 1
    proof (cases rule: refresh_token_success)
      case (1 s)
      then show ?thesis using that [of s "s\<lparr>se_refresh_hash := sv_refresh_token_hash sv new\<rparr>"] by simp
    qed
  next
    case 2
    from assms(2) show ?thesis unfolding x 2
    proof (cases rule: refresh_with_proof_success)
      case (1 s s' t1 t2)
      then show ?thesis using that [of s "s'\<lparr>se_refresh_hash := sv_refresh_token_hash sv new\<rparr>"]
          accept_refresh_proof_key [OF 1(6)] by simp
    qed
  qed
qed

text \<open>C3. A refresh token refreshes at most once.  Of two refreshes that present one token of one
  session, with or without a proof, interleaved with each other and with anything else on the
  repository and under any store failures, if one returns a new token the other returns an
  error, as long as that token is not minted a second time.\<close>

theorem refresh_token_is_single_use:
  assumes "logged p m (map snd L) m'" and "repo_inv p m"
    and "\<forall>(j, ev) \<in> set L. \<not> stores_token sid (sv_refresh_token_hash sv old) ev" and "i \<noteq> j"
    and "q \<in> refreshes sv sid old" and "runs q (request_trace i L) (Inr x)"
    and "q' \<in> refreshes sv sid old" and "runs q' (request_trace j L) b"
  shows "isl b"
proof (rule ccontr)
  assume "\<not> isl b"
  then obtain y where b: "b = Inr y" by (cases b) auto
  let ?h = "sv_refresh_token_hash sv old"
  have found: "\<exists>s. (k, E_Unit (C_Replace_Session s ?h) None) \<in> set L \<and> se_id s = sid"
    if ok: "q \<in> refreshes sv sid old" "runs q (request_trace k L) (Inr z)" for k q z
  proof -
    obtain s s' where s: "E_Session sid (Inr s) \<in> set (request_trace k L)" "se_id s' = se_id s"
        "E_Unit (C_Replace_Session s' ?h) None \<in> set (request_trace k L)"
      by (rule refresh_swaps [OF ok])
    have "E_Session sid (Inr s) \<in> set (map snd L)" using s(1) by (force simp: request_trace_mem)
    then have "se_id s = sid" using read_session_id [OF assms(1,2)] by blast
    then show ?thesis using s by (auto simp: request_trace_mem)
  qed
  obtain s1 where s1: "(i, E_Unit (C_Replace_Session s1 ?h) None) \<in> set L" "se_id s1 = sid"
    using found [OF assms(5,6)] by blast
  obtain s2 where s2: "(j, E_Unit (C_Replace_Session s2 ?h) None) \<in> set L" "se_id s2 = sid"
    using found [OF assms(7)] assms(8) b by blast
  have no: False
    if "L = pre @ (k, E_Unit (C_Replace_Session u ?h) None) # post"
      "(l, E_Unit (C_Replace_Session v ?h) None) \<in> set post" "se_id u = sid" "se_id v = sid" for pre post u v k l
  proof -
    have "\<not> stores_token sid ?h (E_Unit (C_Replace_Session u ?h) None)" using assms(3) that(1) by auto
    then have "se_refresh_hash u \<noteq> ?h" using that(3) by (simp add: stores_token_def stores_hash_def)
    moreover have "logged p m (map snd pre @ E_Unit (C_Replace_Session u ?h) None # map snd post) m'"
      using assms(1) that(1) by simp
    moreover have "\<forall>ev \<in> set (map snd post). \<not> stores_token (se_id u) ?h ev"
      using assms(3) that(1,3) by auto
    ultimately have "E_Unit (C_Replace_Session v ?h) None \<notin> set (map snd post)"
      using swapped_at_most_once that(3,4) by metis
    then show False using that(2) by force
  qed
  obtain pre post where L: "L = pre @ (i, E_Unit (C_Replace_Session s1 ?h) None) # post"
    using split_list [OF s1(1)] by blast
  show False
  proof (cases "(j, E_Unit (C_Replace_Session s2 ?h) None) \<in> set post")
    case True
    then show ?thesis using no L s1(2) s2(2) by blast
  next
    case False
    then have "(j, E_Unit (C_Replace_Session s2 ?h) None) \<in> set pre" using s2(1) L assms(4) by auto
    then obtain pre' mid where "pre = pre' @ (j, E_Unit (C_Replace_Session s2 ?h) None) # mid"
      using split_list by metis
    then show ?thesis using no [of pre' j s2 "mid @ (i, E_Unit (C_Replace_Session s1 ?h) None) # post" i s1] L s1(2) s2(2)
      by simp
  qed
qed

text \<open>C6. A device-bound session is refreshed only with its key.  A refresh on the token alone
  succeeds only for a session with no enrolled key, and returns no access token.  A refresh with
  a proof succeeds only if the verifier answered with exactly the enrolled key, and the access
  token it returns was signed for the key of the session as stored.\<close>

theorem device_bound_refresh_needs_the_key:
  assumes "q \<in> refreshes sv i old" and "runs q tr (Inr (access, new))"
  shows "\<exists>s. E_Session i (Inr s) \<in> set tr \<and> \<not> se_revoked s
    \<and> se_refresh_hash s = sv_refresh_token_hash sv old
    \<and> (if se_thumbprint s = [] then access = []
       else (\<exists>hm pr. E_Str (C_Verify V_Refresh pr hm) (Inr (se_thumbprint s)) \<in> set tr)
         \<and> (\<exists>x. E_Session i (Inr x) \<in> set tr \<and> \<not> se_revoked x \<and> se_thumbprint x \<noteq> []
              \<and> E_Str (C_Sign (se_subscriber x) (se_roles x) (se_thumbprint x)) (Inr access) \<in> set tr))"
proof -
  consider "q = refresh_token sv i old"
    | hm pr tok where "q = refresh_token_with_device_proof_and_integrity sv i old hm pr tok"
    using assms(1) by (auto simp: refreshes_def)
  then show ?thesis
  proof cases
    case 1
    from assms(2) show ?thesis unfolding 1 by (cases rule: refresh_token_success) auto
  next
    case 2
    from assms(2) show ?thesis unfolding 2
    proof (cases rule: refresh_with_proof_success)
      case (1 s s' t1 t2)
      then show ?thesis using issue_signs_stored [OF 1(7)] by (intro exI [of _ s]) auto
    qed
  qed
qed

text \<open>Only a token the session really held revokes it.  A refresh token that is not the
  current one is answered by a revocation attempt and an audit record, and an error that says
  reuse and carries any store error, unless the store says the session never held it: then the
  request makes no write at all and is a plain invalid token.\<close>

theorem only_held_tokens_revoke:
  assumes "runs (refresh_mismatch i h) tr e"
  shows "if E_Bool (C_Superseded i h) (Inr False) \<in> set tr
    then e = [Invalid_Token] \<and> (\<forall>c x. E_Unit c x \<notin> set tr)
    else (\<exists>x t y. E_Unit (C_Revoke i) x \<in> set tr \<and> E_Unit (C_Audit (Ev_Token_Reused t i)) y \<in> set tr
      \<and> e = Token_Reused # (case x of None \<Rightarrow> [] | Some z \<Rightarrow> z))"
  using assms unfolding refresh_mismatch_def by (auto simp: runs_simps)

text \<open>Enrolment binds the proven key or leaves nothing.  An enrolment that succeeds returns a
  session bound to exactly the key the verifier answered and a token that was signed; one whose
  proof is not verified reads no challenge and changes nothing; one whose token cannot be signed
  asks for the revocation of the session it created.\<close>

theorem enrolment_binds_the_proven_key:
  assumes "runs (validate_otp_with_device_proof_and_integrity sv r code hm pr tok) tr b"
  shows "(\<forall>s token. b = Inr (s, token) \<longrightarrow>
        E_Str (C_Verify V_Enrolment pr hm) (Inr (se_thumbprint s)) \<in> set tr
        \<and> (\<exists>x. E_Session (se_id s) (Inr x) \<in> set tr \<and> E_Str (C_Sign (se_subscriber x) (se_roles x) (se_thumbprint x)) (Inr token) \<in> set tr))
    \<and> ((\<forall>jkt. E_Str (C_Verify V_Enrolment pr hm) (Inr jkt) \<notin> set tr) \<longrightarrow>
        isl b \<and> (\<forall>ev \<in> set tr. \<exists>e. ev = E_Str (C_Verify V_Enrolment pr hm) (Inl e)))"
proof -
  consider (unconfigured) e where "tr = []" "b = Inl e"
    | (unproven) e e' where "tr = [E_Str (C_Verify V_Enrolment pr hm) (Inl e)]" "b = Inl e'"
    | (refused) jkt tr' e where "tr = E_Str (C_Verify V_Enrolment pr hm) (Inr jkt) # tr'" "b = Inl e"
    | (finished) jkt t1 t2 t3 s token where "tr = E_Str (C_Verify V_Enrolment pr hm) (Inr jkt) # t1 @ t2 @ t3"
        "runs (validate_otp sv r code jkt (Some (assess_integrity tok pr jkt r []))) t1 (Inr s)"
        "runs (issue_bound_access_token sv (se_id s)) t2 (Inr token)" "b = Inr (s, token)"
  proof -
    have "(tr = [] \<and> (\<exists>e. b = Inl e))
      \<or> (\<exists>e e'. tr = [E_Str (C_Verify V_Enrolment pr hm) (Inl e)] \<and> b = Inl e')
      \<or> (\<exists>jkt tr'. tr = E_Str (C_Verify V_Enrolment pr hm) (Inr jkt) # tr' \<and> (\<exists>e. b = Inl e))
      \<or> (\<exists>jkt t1 t2 t3 s token. tr = E_Str (C_Verify V_Enrolment pr hm) (Inr jkt) # t1 @ t2 @ t3
        \<and> runs (validate_otp sv r code jkt (Some (assess_integrity tok pr jkt r []))) t1 (Inr s)
        \<and> runs (issue_bound_access_token sv (se_id s)) t2 (Inr token) \<and> b = Inr (s, token))"
      using assms unfolding validate_otp_with_device_proof_and_integrity_def audit_reenrolment_def
      by (auto simp: runs_simps) blast+
    then show ?thesis using that by blast
  qed
  then show ?thesis
  proof cases
    case finished
    obtain s0 where "s = s0\<lparr>se_refresh_token := se_refresh_token s\<rparr>" "se_thumbprint s0 = jkt"
      using finished(2) by (elim validate_otp_success redeem_success create_session_saves)
    then have "se_thumbprint s = jkt" by (metis session.ext_inject session.surjective session.update_convs(3))
    then show ?thesis using finished issue_signs_stored [OF finished(3)] by auto
  qed auto
qed

definition dead_session :: "string \<Rightarrow> repo \<Rightarrow> bool" where
  "dead_session i m \<longleftrightarrow> (\<forall>s. rp_sessions m i = Some s \<longrightarrow> se_revoked s)"

definition saves_session :: "string \<Rightarrow> event \<Rightarrow> bool" where
  "saves_session i ev \<longleftrightarrow> (\<exists>s x. ev = E_Unit (C_Save_Session s) x \<and> se_id s = i)"

lemma dead_session_effect: "dead_session i m \<Longrightarrow> \<not> saves_session i ev \<Longrightarrow> dead_session i (effect p m ev)"
proof (cases ev)
  case (E_Unit c x)
  assume "dead_session i m" "\<not> saves_session i ev"
  then show ?thesis
    unfolding E_Unit
    by (cases c) (auto simp: dead_session_def saves_session_def sessions_kept save_session_def
      replace_session_def revoke_session_def erase_subscriber_def erase_locked_def Let_def
      split: option.splits if_splits)
next
  case (E_Bool c x)
  assume "dead_session i m"
  then show ?thesis unfolding E_Bool by (cases c) (auto simp: dead_session_def sessions_kept)
next
  case (E_Nat c x)
  assume "dead_session i m"
  then show ?thesis unfolding E_Nat by (cases c) (auto simp: dead_session_def sessions_kept)
qed simp_all

text \<open>A revoked session never refreshes.  From a repository where a session is revoked or
  missing, no refresh of it succeeds, with whatever token and proof, interleaved with any other
  requests, as long as no session is saved under that identifier.\<close>

theorem revoked_session_never_refreshes:
  assumes "logged p m (map snd L) m'" and "repo_inv p m" and "dead_session sid m"
    and "\<forall>(j, ev) \<in> set L. \<not> saves_session sid ev"
    and "q \<in> refreshes sv sid old" and "runs q (request_trace i L) b"
  shows "isl b"
proof (rule ccontr)
  assume "\<not> isl b"
  then obtain x where b: "b = Inr x" by (cases b) auto
  obtain s s' where s: "E_Session sid (Inr s) \<in> set (request_trace i L)" "se_id s' = se_id s"
      "E_Unit (C_Replace_Session s' (sv_refresh_token_hash sv old)) None \<in> set (request_trace i L)"
    by (rule refresh_swaps [OF assms(5) assms(6) [unfolded b]])
  have "E_Session sid (Inr s) \<in> set (map snd L)" using s(1) by (force simp: request_trace_mem)
  then have id: "se_id s' = sid" using read_session_id [OF assms(1,2)] s(2) by simp
  have "\<not> replies p n (E_Unit (C_Replace_Session s' h) None)" if "dead_session sid n" for n h
    using that id by (auto simp: dead_session_def replace_session_def split: option.splits if_splits)
  moreover have "dead_session sid (effect p n ev)" if "dead_session sid n" "ev \<in> set (map snd L)" for n ev
    using dead_session_effect that assms(4) by fastforce
  ultimately have "E_Unit (C_Replace_Session s' (sv_refresh_token_hash sv old)) None \<notin> set (map snd L)"
    by (intro logged_never [where P = "dead_session sid", OF assms(1,3)]) simp_all
  then show False using s(3) by (force simp: request_trace_mem)
qed

text \<open>Nothing is erased without the enrolled key.  A deletion asks for an erasure only of the
  subscriber of the session it read, only after the verifier answered with that session's
  enrolled key, and only for a session whose current refresh token was presented; and it
  succeeds without an erasure of its own only on a receipt for the proven key.\<close>

theorem deletion_needs_the_enrolled_key:
  assumes "runs (delete_account_with_device_proof sv i token hm pr) tr b"
  shows "(\<forall>e x. E_Unit (C_Erase e) x \<in> set tr \<longrightarrow>
       (\<exists>s. E_Session i (Inr s) \<in> set tr \<and> \<not> se_revoked s \<and> se_refresh_hash s = sv_refresh_token_hash sv token
          \<and> se_thumbprint s \<noteq> [] \<and> E_Str (C_Verify V_Deletion pr hm) (Inr (se_thumbprint s)) \<in> set tr
          \<and> er_subscriber e = se_subscriber s \<and> er_refresh_hash e = se_refresh_hash s))
    \<and> (b = None \<longrightarrow> (\<exists>e. E_Unit (C_Erase e) None \<in> set tr)
       \<or> (\<exists>k. E_Str (C_Verify V_Deletion pr hm) (Inr k) \<in> set tr \<and> E_Receipt i (Inr (Some k)) \<in> set tr))"
  using assms
  unfolding delete_account_with_device_proof_def repeated_deletion_def receipt_answer_def refresh_mismatch_def
  by (auto simp: runs_simps)

definition infrastructure :: "sentinel \<Rightarrow> bool" where
  "infrastructure x \<longleftrightarrow> (case x of Invalid_Otp \<Rightarrow> False | Expired_Otp \<Rightarrow> False | Invalid_Token \<Rightarrow> False
     | Rate_Limited u \<Rightarrow> False | _ \<Rightarrow> True)"

lemma rate_limit_of_None: "(rate_limit_of e = None) = (\<forall>u. Rate_Limited u \<notin> set e)"
  by (induction e rule: rate_limit_of.induct) auto

text \<open>Answers disclose nothing of the store.  Whatever errors of the store or of another
  collaborator an answer to a validation is made from, without one of the service's own
  rejections among them, it is the same internal error; and only a rejected credential, an
  expired challenge or a rate limit is answered otherwise.\<close>

theorem answers_hide_infrastructure:
  "(answer_validate_otp now (Inl e) = internal_error) = list_all infrastructure e"
proof -
  have "list_all infrastructure e = (Invalid_Otp \<notin> set e \<and> Expired_Otp \<notin> set e \<and> Invalid_Token \<notin> set e
      \<and> rate_limit_of e = None)"
    unfolding rate_limit_of_None list_all_iff infrastructure_def
    by (auto split: sentinel.splits)
  then show ?thesis
    by (auto simp: answer_validate_otp_def internal_error_def write_rate_limited_def
        is_credential_rejection_def err_is_def split: option.splits)
qed

text \<open>The wait a rate limit tells a client is never too short and never a second too long:
  at least one second, and the least number of seconds after which the limit has passed.\<close>

theorem retry_after_never_early:
  assumes "answer_validate_otp now (Inl e) = Problem 429 d c (Some n)"
  shows "\<exists>u. Rate_Limited (Some u) \<in> set e \<and> 1 \<le> n \<and> u \<le> now + n * second
    \<and> (1 < n \<longrightarrow> now + (n - 1) * second < u)"
proof -
  obtain u where u: "rate_limit_of e = Some (Some u)" "n = retry_after_seconds u now"
    using assms by (auto simp: answer_validate_otp_def write_rate_limited_def internal_error_def
        split: option.splits if_splits)
  have "Rate_Limited (Some u) \<in> set e"
    using u(1) by (induction e rule: rate_limit_of.induct) auto
  moreover have "1 \<le> n \<and> u \<le> now + n * second \<and> (1 < n \<longrightarrow> now + (n - 1) * second < u)"
  proof (cases "0 \<le> u - now + second - 1")
    case True
    then have "go_div (u - now + second - 1) second = (u - now + second - 1) div second"
      by (simp add: go_div_nonneg)
    then show ?thesis unfolding u(2) retry_after_seconds_def Let_def by auto
  next
    case False
    then have "go_div (u - now + second - 1) second \<le> 0"
      by (simp add: go_div_neg pos_imp_zdiv_nonneg_iff)
    then show ?thesis using False unfolding u(2) retry_after_seconds_def Let_def by auto
  qed
  ultimately show ?thesis by blast
qed

definition digit :: "char \<Rightarrow> bool" where
  "digit ch \<longleftrightarrow> CHR ''0'' \<le> ch \<and> ch \<le> CHR ''9''"

text \<open>Exactly the canonical spelling of a number is accepted: a plus sign and 7 to 15 digits
  of which the first is not zero; anything else is refused before any call is made.\<close>

theorem only_canonical_numbers:
  "is_canonical_msisdn s = (\<exists>d ds. s = CHR ''+'' # d # ds \<and> digit d \<and> d \<noteq> CHR ''0''
      \<and> list_all digit ds \<and> 6 \<le> length ds \<and> length ds \<le> 14)
    \<and> (is_canonical_msisdn s \<or> runs (request_otp sv s) [] (Inl [Invalid_Msisdn]))"
proof -
  have first: "(\<not> d < CHR ''1'') = (CHR ''0'' \<le> d \<and> d \<noteq> CHR ''0'')" for d :: char
  proof -
    have "(\<not> d < CHR ''1'') = (of_char d \<ge> (49 :: nat))" "(CHR ''0'' \<le> d) = (of_char d \<ge> (48 :: nat))"
      by (simp_all add: less_char_def less_eq_char_def not_less)
    moreover have "of_char (CHR ''0'') = (48 :: nat)" by simp
    then have "(d \<noteq> CHR ''0'') = (of_char d \<noteq> (48 :: nat))"
      using inj_of_char [where 'a = nat] by (metis injD)
    ultimately show ?thesis by auto
  qed
  have eq: "is_canonical_msisdn s = (\<exists>d ds. s = CHR ''+'' # d # ds \<and> digit d \<and> d \<noteq> CHR ''0''
      \<and> list_all digit ds \<and> 6 \<le> length ds \<and> length ds \<le> 14)"
  proof (cases "\<exists>p d ds. s = p # d # ds")
    case True
    then obtain q d ds where "s = q # d # ds" by blast
    then show ?thesis
      using first [of d]
      by (auto simp: is_canonical_msisdn_def digit_def list_all_iff not_less)
  next
    case False
    then have "length s < 2" by (cases s; cases "tl s") auto
    then show ?thesis using False by (auto simp: is_canonical_msisdn_def)
  qed
  then show ?thesis by (auto simp: request_otp_def)
qed

section \<open>Witnesses\<close>

text \<open>A log in which every call is answered as the repository answers it.\<close>

fun honest :: "rate_policy \<Rightarrow> repo \<Rightarrow> event list \<Rightarrow> bool" where
  "honest p m [] = True"
| "honest p m (ev # evs) = (replies p m ev \<and> honest p (effect p m ev) evs)"

lemma honest_logged: "honest p m evs \<Longrightarrow> \<exists>m'. logged p m evs m'"
  by (induction evs arbitrary: m) (auto intro: logged.nothing dest: logged.answered)

definition sv0 :: service where
  "sv0 = \<lparr>sv_policy = default_otp_rate_policy, sv_hash_string = (\<lambda>x. x),
     sv_refresh_token_hash = (\<lambda>x. if x = ''t1'' then hex_b else hex_a),
     sv_pseudonym_hash = (\<lambda>_. hex_a), sv_subscriber_id = (\<lambda>_. ''usr_1''),
     sv_device_proof = True, sv_access_tokens = True, sv_refresh_proof = True,
     sv_deletion_proof = True, sv_otp_sender = True\<rparr>"

definition ch0 :: otp where
  "ch0 = \<lparr>ot_request = ''r'', ot_purpose = Purpose_Sign_In, ot_pseudonym = hex_a,
     ot_subscriber = ''usr_1'', ot_code_hash = ''123456'', ot_attempts = 0, ot_expires = 100\<rparr>"

definition mw :: repo where "mw = new_repo\<lparr>rp_otps := [''r'' \<mapsto> ch0]\<rparr>"

definition ws :: session where
  "ws = \<lparr>se_id = ''sess_s'', se_subscriber = ''usr_1'', se_refresh_token = [], se_refresh_hash = hex_b,
     se_device_id = [], se_roles = [''subscriber''], se_created = 4, se_expires = 5 + session_lifetime,
     se_revoked = False, se_thumbprint = [], se_tier = Tier_Unverified, se_fence = Some 1\<rparr>"

text \<open>Two requests race for one challenge: both read it, both reserve, one consumes it.\<close>

definition wl :: "(nat \<times> event) list" where
  "wl = [(0, E_Now 1), (0, E_Otp ''r'' (Inr ch0)), (1, E_Now 1), (1, E_Otp ''r'' (Inr ch0)),
     (0, E_Now 2), (0, E_Now 3), (0, E_Nat (C_Reserve_Verification hex_a 3) (Inr 1)),
     (1, E_Now 2), (1, E_Now 3), (1, E_Nat (C_Reserve_Verification hex_a 3) (Inr 2)),
     (0, E_Bool (C_Consume_Otp ''r'') (Inr True)), (0, E_Unit (C_Reset hex_a) None),
     (0, E_Token ''s''), (0, E_Token ''t1''), (0, E_Now 4), (0, E_Now 5),
     (0, E_Unit (C_Save_Session ws) None),
     (1, E_Bool (C_Consume_Otp ''r'') (Inr False)), (1, E_Unit (C_Release hex_a 2) None)]"

lemma wl_logged: "\<exists>m'. logged default_otp_rate_policy mw (map snd wl) m'"
  by (rule honest_logged)
     (simp add: wl_def mw_def new_repo_def get_otp_def reserve_otp_verification_def rate_state_of_def
       new_rate_state_def failures_within_window_def before_opt_def default_otp_rate_policy_def Let_def
       put_rate_def consume_otp_def reset_otp_failures_def save_session_def check_storable_session_def
       tier_valid_def ws_def fenced_off_def replaces_enrolled_key_def stored_session_def put_session_def
       release_otp_verification_def)

lemma wl_winner: "runs (validate_otp sv0 ''r'' ''123456'' [] None) (request_trace 0 wl)
    (Inr (ws\<lparr>se_refresh_token := ''t1''\<rparr>))"
  by (simp add: request_trace_def wl_def validate_otp_def check_code_def redeem_def create_session_def
      ch0_def sv0_def max_otp_attempts_def ws_def Let_def)

lemma wl_loser: "runs (validate_otp sv0 ''r'' ''123456'' [] None) (request_trace 1 wl) (Inl [Invalid_Otp])"
  by (simp add: request_trace_def wl_def validate_otp_def check_code_def redeem_def
      ch0_def sv0_def max_otp_attempts_def Let_def)

theorem otp_signs_in_once_witness:
  "\<exists>b. runs (validate_otp sv0 ''r'' ''123456'' [] None) (request_trace 1 wl) b \<and> isl b"
proof -
  obtain m' where m': "logged default_otp_rate_policy mw (map snd wl) m'" using wl_logged by blast
  have "isl (Inl [Invalid_Otp] :: id_error + session)"
    by (rule otp_signs_in_once [OF m' _ _ wl_winner wl_loser]) (auto simp: wl_def saves_otp_def)
  then show ?thesis using wl_loser by blast
qed

theorem sign_in_fails_closed_witness:
  "E_Bool (C_Consume_Otp ''r'') (Inr True) \<in> set (request_trace 0 wl)"
  using sign_in_fails_closed [OF wl_winner] by blast

definition wrong_trace :: "event list" where
  "wrong_trace = [E_Now 1, E_Otp ''r'' (Inr ch0), E_Now 2, E_Now 3,
     E_Nat (C_Reserve_Verification hex_a 3) (Inr 1), E_Nat (C_Record_Failed ''r'') (Inr 1),
     E_Confirm hex_a 1 (Inr None), E_Unit (C_Audit (Ev_Verification_Failed 3 ''r'')) None]"

lemma wrong_run: "runs (validate_otp sv0 ''r'' ''999999'' [] None) wrong_trace (Inl [Invalid_Otp])"
  by (simp add: wrong_trace_def validate_otp_def check_code_def wrong_code_def confirm_failure_def
      sv0_def ch0_def max_otp_attempts_def)

theorem wrong_code_changes_nothing_witness:
  "filter spends wrong_trace = []"
  using wrong_code_changes_nothing [OF wrong_run]
  by (simp add: wrong_trace_def sv0_def ch0_def)

text \<open>Two plain refreshes of one token; the second read the session before the first swapped it.\<close>

definition wr :: session where "wr = se0\<lparr>se_thumbprint := []\<rparr>"

definition wr' :: session where "wr' = wr\<lparr>se_refresh_hash := hex_b\<rparr>"

definition rl :: "(nat \<times> event) list" where
  "rl = [(0, E_Session ''sess_1'' (Inr wr)), (1, E_Session ''sess_1'' (Inr wr)), (0, E_Now 1), (1, E_Now 1),
     (0, E_Token ''t1''), (1, E_Token ''t1''),
     (0, E_Unit (C_Replace_Session wr' hex_a) None),
     (1, E_Unit (C_Replace_Session wr' hex_a) (Some [Session_Conflict]))]"

definition mr :: repo where "mr = put_session wr new_repo"

lemma mr_inv: "repo_inv p mr"
  by (auto simp: mr_def intro!: repo_inv_put_session new_repo_inv) (simp add: session_ok_def wr_def se0_def)

lemma rl_logged: "\<exists>m'. logged p mr (map snd rl) m'"
  by (rule honest_logged)
     (simp add: rl_def mr_def get_session_def replace_session_def check_storable_session_def wr'_def
       wr_def se0_def tier_valid_def replaces_enrolled_key_def Let_def)

lemma rl_winner: "runs (refresh_token sv0 ''sess_1'' ''old'') (request_trace 0 rl) (Inr ([], ''t1''))"
  by (simp add: request_trace_def rl_def refresh_token_def sv0_def wr_def wr'_def se0_def)

lemma rl_loser: "runs (refresh_token sv0 ''sess_1'' ''old'') (request_trace 1 rl) (Inl [Invalid_Token])"
  by (simp add: request_trace_def rl_def refresh_token_def sv0_def wr_def wr'_def se0_def err_is_def)

theorem refresh_token_is_single_use_witness:
  "\<exists>b. runs (refresh_token sv0 ''sess_1'' ''old'') (request_trace 1 rl) b \<and> isl b"
proof -
  obtain m' where m': "logged default_otp_rate_policy mr (map snd rl) m'" using rl_logged by blast
  have h: "sv_refresh_token_hash sv0 ''old'' = hex_a" by (simp add: sv0_def)
  have "isl (Inl [Invalid_Token] :: id_error + string \<times> string)"
    by (rule refresh_token_is_single_use [OF m' mr_inv, of "''sess_1''" sv0 "''old''" 0 1,
          OF _ _ _ rl_winner _ rl_loser])
       (auto simp: h rl_def stores_token_def stores_hash_def refreshes_def wr'_def)
  then show ?thesis using rl_loser by blast
qed

theorem device_bound_refresh_needs_the_key_witness:
  "\<exists>s. E_Session ''sess_1'' (Inr s) \<in> set (request_trace 0 rl) \<and> \<not> se_revoked s"
proof -
  have "refresh_token sv0 ''sess_1'' ''old'' \<in> refreshes sv0 ''sess_1'' ''old''" by (simp add: refreshes_def)
  from device_bound_refresh_needs_the_key [OF this rl_winner] show ?thesis by blast
qed

definition reuse_trace :: "event list" where
  "reuse_trace = [E_Bool (C_Superseded ''i'' hex_a) (Inr True), E_Unit (C_Revoke ''i'') None, E_Now 5,
     E_Unit (C_Audit (Ev_Token_Reused 5 ''i'')) None]"

theorem only_held_tokens_revoke_witness:
  "runs (refresh_mismatch ''i'' hex_a) reuse_trace [Token_Reused]
   \<and> (\<exists>x. E_Unit (C_Revoke ''i'') x \<in> set reuse_trace)"
proof -
  have r: "runs (refresh_mismatch ''i'' hex_a) reuse_trace [Token_Reused]"
    by (simp add: refresh_mismatch_def reuse_trace_def)
  show ?thesis using only_held_tokens_revoke [OF r] r by (auto simp: reuse_trace_def)
qed

definition unproven_trace :: "event list" where
  "unproven_trace = [E_Str (C_Verify V_Enrolment ''proof'' ''POST'') (Inl [Dpop_Invalid_Proof])]"

theorem enrolment_binds_the_proven_key_witness:
  "\<exists>b. runs (validate_otp_with_device_proof_and_integrity sv0 ''r'' ''123456'' ''POST'' ''proof'' []) unproven_trace b
     \<and> isl b"
proof -
  have r: "runs (validate_otp_with_device_proof_and_integrity sv0 ''r'' ''123456'' ''POST'' ''proof'' []) unproven_trace
      (Inl [Invalid_Device_Proof, Dpop_Invalid_Proof])"
    by (simp add: validate_otp_with_device_proof_and_integrity_def sv0_def err_is_def unproven_trace_def)
  have "isl (Inl [Invalid_Device_Proof, Dpop_Invalid_Proof] :: id_error + session \<times> string)"
    using enrolment_binds_the_proven_key [OF r] by (simp add: unproven_trace_def)
  then show ?thesis using r by blast
qed

definition revoked_log :: "(nat \<times> event) list" where
  "revoked_log = [(0, E_Session ''sess_1'' (Inr (se0\<lparr>se_revoked := True\<rparr>)))]"

theorem revoked_session_never_refreshes_witness:
  "\<exists>b. runs (refresh_token sv0 ''sess_1'' ''old'') (request_trace 0 revoked_log) b \<and> isl b"
proof -
  define m where "m = put_session (se0\<lparr>se_revoked := True\<rparr>) new_repo"
  have inv: "repo_inv default_otp_rate_policy m"
    by (auto simp: m_def intro!: repo_inv_put_session new_repo_inv) (simp add: session_ok_def se0_def)
  have "\<exists>m'. logged default_otp_rate_policy m (map snd revoked_log) m'"
    by (rule honest_logged) (simp add: revoked_log_def m_def get_session_def se0_def)
  then obtain m' where m': "logged default_otp_rate_policy m (map snd revoked_log) m'" by blast
  have r: "runs (refresh_token sv0 ''sess_1'' ''old'') (request_trace 0 revoked_log) (Inl [Invalid_Token])"
    by (simp add: revoked_log_def request_trace_def refresh_token_def)
  have "isl (Inl [Invalid_Token] :: id_error + string \<times> string)"
    by (rule revoked_session_never_refreshes [OF m' inv, of "''sess_1''" _ sv0 "''old''", OF _ _ _ r])
       (auto simp: m_def dead_session_def saves_session_def refreshes_def revoked_log_def new_repo_def se0_def
         split: if_splits)
  then show ?thesis using r by blast
qed

theorem deletion_needs_the_enrolled_key_witness:
  "\<exists>k. E_Receipt ''sess_1'' (Inr (Some k)) \<in> set [E_Session ''sess_1'' (Inl [Invalid_Token]),
     E_Receipt ''sess_1'' (Inr (Some ''k'')), E_Str (C_Verify V_Deletion ''p'' ''POST'') (Inr ''k'')]"
  using deletion_needs_the_enrolled_key [of sv0 "''sess_1''" "''t''" "''POST''" "''p''"
      "[E_Session ''sess_1'' (Inl [Invalid_Token]), E_Receipt ''sess_1'' (Inr (Some ''k'')),
        E_Str (C_Verify V_Deletion ''p'' ''POST'') (Inr ''k'')]" None]
  by (simp add: delete_account_with_device_proof_def repeated_deletion_def sv0_def err_is_def)

theorem retry_after_never_early_witness:
  "\<exists>n. answer_validate_otp 10 (Inl [Rate_Limited (Some (3 * second))]) =
      Problem 429 (Fixed_Detail ''Rate limit exceeded'') ''ERR_RATE_LIMIT_EXCEEDED'' (Some n)
    \<and> 3 * second \<le> 10 + n * second"
proof -
  have a: "answer_validate_otp 10 (Inl [Rate_Limited (Some (3 * second))]) =
      Problem 429 (Fixed_Detail ''Rate limit exceeded'') ''ERR_RATE_LIMIT_EXCEEDED'' (Some (retry_after_seconds (3 * second) 10))"
    by (simp add: answer_validate_otp_def write_rate_limited_def)
  show ?thesis using retry_after_never_early [OF a] a by auto
qed

end
