(* ===== verification/ToolValue.thy ===== *)
theory ToolValue
  imports Prelude "HOL-Library.Word" "HOL-Library.List_Lexorder" "HOL-Library.Char_ord"
    "HOL-Library.Multiset"
begin

text \<open>
  The values tools are called with (\<^verbatim>\<open>packages/go/toolruntime/value.go\<close>), their canonical
  encoding, and the idempotency key derived from it (\<^verbatim>\<open>ids.go\<close>, \<^verbatim>\<open>DeriveKey\<close> of
  \<^verbatim>\<open>idempotency.go\<close>).  Strings and blobs are bytes.  Floats are a parameter: their type \<open>'f\<close> and
  the text \<open>ff\<close> that \<^verbatim>\<open>strconv.FormatFloat\<close> gives them.  A Go map is the list of its pairs in any
  order.
\<close>

section \<open>Values\<close>

datatype 'f val =
    V_Null
  | V_String string
  | V_Int "64 word"
  | V_Float 'f
  | V_Bool bool
  | V_Bytes string
  | V_List "'f val list"
  | V_Map "(string \<times> 'f val) list"

type_synonym 'f arguments = "(string \<times> 'f val) list"

primrec size_bytes :: "'f val \<Rightarrow> nat" where
  "size_bytes V_Null = 0"
| "size_bytes (V_String s) = length s"
| "size_bytes (V_Int w) = 8"
| "size_bytes (V_Float x) = 8"
| "size_bytes (V_Bool b) = 8"
| "size_bytes (V_Bytes s) = length s"
| "size_bytes (V_List vs) = 2 + sum_list (map (\<lambda>n. n + 1) (map size_bytes vs))"
| "size_bytes (V_Map ps) = 2 + sum_list (map (\<lambda>(k, n). length k + n + 2) (map (map_prod id size_bytes) ps))"

definition arguments_size :: "'f arguments \<Rightarrow> nat" where
  "arguments_size a = sum_list (map (\<lambda>(k, v). length k + size_bytes v) a)"

section \<open>The canonical encoding\<close>

text \<open>\<^verbatim>\<open>strconv.Itoa\<close> of a length and \<^verbatim>\<open>strconv.FormatInt\<close> in base ten.\<close>

definition digit_char :: "nat \<Rightarrow> char" where
  "digit_char n = char_of (48 + n)"

fun itoa :: "nat \<Rightarrow> string" where
  "itoa n = (if n < 10 then [digit_char n] else itoa (n div 10) @ [digit_char (n mod 10)])"

declare itoa.simps [simp del]

definition format_int :: "int \<Rightarrow> string" where
  "format_int z = (if z < 0 then CHR ''-'' # itoa (nat (- z)) else itoa (nat z))"

definition sized :: "string \<Rightarrow> string" where
  "sized s = itoa (length s) @ '':'' @ s"

text \<open>The pairs of a map or of the arguments, their values encoded already, sorted by key.\<close>

definition pairs_text :: "(string \<times> string) list \<Rightarrow> string" where
  "pairs_text ps = concat (map (\<lambda>(k, t). sized k @ ''='' @ t @ '';'') (sort_key fst ps))"

primrec canonical :: "('f \<Rightarrow> string) \<Rightarrow> 'f val \<Rightarrow> string" where
  "canonical ff V_Null = ''0''"
| "canonical ff (V_String s) = ''1'' @ sized s"
| "canonical ff (V_Int w) = ''2'' @ format_int (sint w)"
| "canonical ff (V_Float x) = ''3'' @ ff x"
| "canonical ff (V_Bool b) = ''4'' @ (if b then ''t'' else ''f'')"
| "canonical ff (V_Bytes s) = ''5'' @ sized s"
| "canonical ff (V_List vs) = ''6'' @ itoa (length vs) @ ''[''
     @ concat (map (\<lambda>t. t @ '','') (map (canonical ff) vs)) @ '']''"
| "canonical ff (V_Map ps) = ''7'' @ itoa (length ps) @ ''{''
     @ pairs_text (map (map_prod id (canonical ff)) ps) @ ''}''"

definition canonical_bytes :: "('f \<Rightarrow> string) \<Rightarrow> 'f arguments \<Rightarrow> string" where
  "canonical_bytes ff a = pairs_text (map (map_prod id (canonical ff)) a)"

text \<open>\<^verbatim>\<open>Value.Equal\<close> compares encodings.\<close>

definition value_equal :: "('f \<Rightarrow> string) \<Rightarrow> 'f val \<Rightarrow> 'f val \<Rightarrow> bool" where
  "value_equal ff v w = (canonical ff v = canonical ff w)"

section \<open>The idempotency key\<close>

type_synonym descriptor = "string \<times> string"

definition descriptor_text :: "descriptor \<Rightarrow> string" where
  "descriptor_text d = fst d @ ''@'' @ snd d"

definition key_text :: "('f \<Rightarrow> string) \<Rightarrow> descriptor \<Rightarrow> 'f arguments \<Rightarrow> string \<Rightarrow> string \<Rightarrow> string" where
  "key_text ff d a actor scope =
     descriptor_text d @ ''|'' @ actor @ ''|'' @ scope @ ''|'' @ canonical_bytes ff a"

text \<open>The key is the fingerprint of that text; the fingerprint (SHA-256, cut) is a parameter.\<close>

definition derive_key :: "(string \<Rightarrow> string) \<Rightarrow> ('f \<Rightarrow> string) \<Rightarrow> descriptor \<Rightarrow> 'f arguments \<Rightarrow> string \<Rightarrow> string
    \<Rightarrow> string" where
  "derive_key fp ff d a actor scope = fp (key_text ff d a actor scope)"

section \<open>Decimal texts\<close>

definition is_digit :: "char \<Rightarrow> bool" where
  "is_digit ch \<longleftrightarrow> 48 \<le> (of_char ch :: nat) \<and> (of_char ch :: nat) < 58"

lemma of_digit_char: "n < 10 \<Longrightarrow> of_char (digit_char n) = 48 + n"
  by (simp add: digit_char_def)

lemma is_digit_char: "n < 10 \<Longrightarrow> is_digit (digit_char n)"
  by (simp add: is_digit_def of_digit_char)

lemma digit_char_inj: "m < 10 \<Longrightarrow> n < 10 \<Longrightarrow> digit_char m = digit_char n \<longleftrightarrow> m = n"
  using of_digit_char [of m] of_digit_char [of n] by (metis add_left_cancel)

lemma itoa_digits: "list_all is_digit (itoa n)"
  by (induction n rule: itoa.induct) (subst itoa.simps, simp add: is_digit_char)

lemma itoa_nonempty: "itoa n \<noteq> []"
  by (subst itoa.simps) simp

lemma itoa_inj: "itoa m = itoa n \<longleftrightarrow> m = n"
proof
  show "itoa m = itoa n \<Longrightarrow> m = n"
  proof (induction m arbitrary: n rule: itoa.induct)
    case (1 m)
    show ?case
    proof (cases "m < 10")
      case True
      then have "length (itoa n) = 1" using 1(2) by (metis One_nat_def itoa.simps length_Cons list.size(3))
      then have "n < 10"
        by (subst (asm) itoa.simps) (auto simp: itoa_nonempty split: if_splits)
      then show ?thesis using 1(2) True by (simp add: itoa.simps [of m] itoa.simps [of n] digit_char_inj)
    next
      case False
      then have m: "itoa m = itoa (m div 10) @ [digit_char (m mod 10)]" by (subst itoa.simps) simp
      have "\<not> n < 10"
      proof
        assume "n < 10"
        then have "itoa n = [digit_char n]" by (subst itoa.simps) simp
        then show False using 1(2) m by (simp add: itoa_nonempty)
      qed
      then have "itoa n = itoa (n div 10) @ [digit_char (n mod 10)]" by (subst itoa.simps) simp
      then have "itoa (m div 10) = itoa (n div 10)" "digit_char (m mod 10) = digit_char (n mod 10)"
        using 1(2) m by simp_all
      then have "m div 10 = n div 10" "m mod 10 = n mod 10"
        using 1(1) [OF False] by (simp_all add: digit_char_inj)
      then show ?thesis by (metis div_mult_mod_eq)
    qed
  qed
qed simp

text \<open>Two texts of characters of one kind, each followed by one of another kind.\<close>

lemma split_at_stop:
  assumes "xs @ c # r = ys @ d # r'" and "list_all P xs" and "list_all P ys" and "\<not> P c" and "\<not> P d"
  shows "xs = ys \<and> c = d \<and> r = r'"
proof -
  have "takeWhile P (xs @ c # r) = xs" "takeWhile P (ys @ d # r') = ys"
    using assms(2-5) by (simp_all add: takeWhile_append2 list_all_iff)
  then show ?thesis using assms(1) by simp
qed

lemma itoa_stop:
  assumes "itoa m @ c # r = itoa n @ d # r'" and "\<not> is_digit c" and "\<not> is_digit d"
  shows "m = n \<and> c = d \<and> r = r'"
  using split_at_stop [OF assms(1) itoa_digits itoa_digits assms(2,3)] by (simp add: itoa_inj)

lemma not_digit [simp]:
  "\<not> is_digit (CHR '':'')" "\<not> is_digit (CHR ''['')" "\<not> is_digit (CHR ''{'')" "\<not> is_digit (CHR ''-'')"
  "\<not> is_digit (CHR '','')" "\<not> is_digit (CHR '';'')" "\<not> is_digit (CHR ''}'')" "\<not> is_digit (CHR '']'')"
  by (simp_all add: is_digit_def)

lemma sized_stop: "sized s @ r = sized t @ r' \<Longrightarrow> s = t \<and> r = r'"
  unfolding sized_def using itoa_stop [of "length s" "CHR '':''" "s @ r" "length t" "CHR '':''" "t @ r'"]
  by auto

lemma sized_digit: "\<exists>c x. sized s = c # x \<and> is_digit c"
  using itoa_digits [of "length s"] itoa_nonempty [of "length s"]
  by (cases "itoa (length s)") (auto simp: sized_def)

section \<open>Values up to the order of their maps\<close>

text \<open>A value with the pairs of every map in it sorted.\<close>

primrec norm_value :: "'f val \<Rightarrow> 'f val" where
  "norm_value V_Null = V_Null"
| "norm_value (V_String s) = V_String s"
| "norm_value (V_Int w) = V_Int w"
| "norm_value (V_Float x) = V_Float x"
| "norm_value (V_Bool b) = V_Bool b"
| "norm_value (V_Bytes s) = V_Bytes s"
| "norm_value (V_List vs) = V_List (map norm_value vs)"
| "norm_value (V_Map ps) = V_Map (sort_key fst (map (map_prod id norm_value) ps))"

definition norm_arguments :: "'f arguments \<Rightarrow> 'f arguments" where
  "norm_arguments a = sort_key fst (map (map_prod id norm_value) a)"

lemma insort_map_prod:
  "insort_key fst (map_prod id f x) (map (map_prod id f) xs) = map (map_prod id f) (insort_key fst x xs)"
  by (induction xs) simp_all

lemma sort_map_prod: "sort_key fst (map (map_prod id f) ps) = map (map_prod id f) (sort_key fst ps)"
  by (induction ps) (simp_all add: insort_map_prod [unfolded id_def] id_def)

section \<open>The encoding is exact\<close>

text \<open>What is relied on of float texts: they tell values apart and hold no separator.\<close>

definition float_format :: "('f \<Rightarrow> string) \<Rightarrow> bool" where
  "float_format ff \<longleftrightarrow> inj ff \<and> (\<forall>x. CHR '','' \<notin> set (ff x) \<and> CHR '';'' \<notin> set (ff x))"

definition is_sep :: "char \<Rightarrow> bool" where
  "is_sep c \<longleftrightarrow> c = CHR '','' \<or> c = CHR '';''"

text \<open>A value's encoding before a separator determines the value up to map order.\<close>

definition reads_back :: "('f \<Rightarrow> string) \<Rightarrow> 'f val \<Rightarrow> bool" where
  "reads_back ff v \<longleftrightarrow> (\<forall>w c d r r'. is_sep c \<longrightarrow> is_sep d \<longrightarrow>
     canonical ff v @ c # r = canonical ff w @ d # r' \<longrightarrow> norm_value v = norm_value w \<and> c = d \<and> r = r')"

lemma reads_backD:
  "reads_back ff v \<Longrightarrow> is_sep c \<Longrightarrow> is_sep d \<Longrightarrow> canonical ff v @ c # r = canonical ff w @ d # r'
     \<Longrightarrow> norm_value v = norm_value w \<and> c = d \<and> r = r'"
  unfolding reads_back_def by blast

lemma reads_backI:
  "(\<And>w c d r r'. is_sep c \<Longrightarrow> is_sep d \<Longrightarrow> canonical ff v @ c # r = canonical ff w @ d # r'
     \<Longrightarrow> norm_value v = norm_value w \<and> c = d \<and> r = r') \<Longrightarrow> reads_back ff v"
  unfolding reads_back_def by blast

lemma is_sep_simps [simp]: "is_sep (CHR '','')" "is_sep (CHR '';'')" "is_sep c \<Longrightarrow> \<not> is_digit c"
  by (auto simp: is_sep_def)

lemma format_int_stop:
  assumes "format_int y @ c # r = format_int z @ d # r'" and "\<not> is_digit c" and "\<not> is_digit d"
  shows "y = z \<and> c = d \<and> r = r'"
proof -
  have h: "itoa n @ x \<noteq> CHR ''-'' # y" for n x y
    using itoa_digits [of n] itoa_nonempty [of n] by (cases "itoa n") auto
  have i: "\<And>m n. itoa m @ c # r = itoa n @ d # r' \<Longrightarrow> m = n \<and> c = d \<and> r = r'"
    using itoa_stop assms(2,3) by blast
  show ?thesis
  proof (cases "y < 0"; cases "z < 0")
    assume "y < 0" "z < 0"
    then show ?thesis using assms(1) i [of "nat (- y)" "nat (- z)"] by (auto simp: format_int_def)
  next
    assume "y < 0" "\<not> z < 0"
    then show ?thesis using assms(1) h [of "nat z" "d # r'"] by (simp add: format_int_def) metis
  next
    assume "\<not> y < 0" "z < 0"
    then show ?thesis using assms(1) h [of "nat y" "c # r"] by (simp add: format_int_def)
  next
    assume "\<not> y < 0" "\<not> z < 0"
    then show ?thesis using assms(1) i [of "nat y" "nat z"] by (auto simp: format_int_def)
  qed
qed

lemma list_reads_back:
  assumes "\<forall>v \<in> set vs. reads_back ff v" and "length vs = length ws"
    and "concat (map (\<lambda>v. canonical ff v @ '','') vs) @ r = concat (map (\<lambda>v. canonical ff v @ '','') ws) @ r'"
  shows "map norm_value vs = map norm_value ws \<and> r = r'"
  using assms(2,1,3)
proof (induction vs ws rule: list_induct2)
  case (Cons v vs w ws)
  have "canonical ff v @ CHR '','' # concat (map (\<lambda>v. canonical ff v @ '','') vs) @ r
      = canonical ff w @ CHR '','' # concat (map (\<lambda>v. canonical ff v @ '','') ws) @ r'"
    using Cons.prems(2) by simp
  from reads_backD [OF _ _ _ this] Cons.prems(1)
  have "norm_value v = norm_value w"
    "concat (map (\<lambda>v. canonical ff v @ '','') vs) @ r = concat (map (\<lambda>v. canonical ff v @ '','') ws) @ r'"
    by simp_all
  then show ?case using Cons.IH Cons.prems(1) by simp
qed simp

definition pair_texts :: "('f \<Rightarrow> string) \<Rightarrow> 'f arguments \<Rightarrow> string" where
  "pair_texts ff ps = concat (map (\<lambda>(k, v). sized k @ ''='' @ canonical ff v @ '';'') ps)"

lemma pairs_text_sorted: "pairs_text (map (map_prod id (canonical ff)) ps) = pair_texts ff (sort_key fst ps)"
  by (simp add: pairs_text_def pair_texts_def sort_map_prod case_prod_unfold comp_def)

lemma pairs_read_back:
  assumes "\<forall>(k, v) \<in> set ps. reads_back ff v"
    and "pair_texts ff ps @ r = pair_texts ff qs @ r'"
    and "\<forall>c x. r = c # x \<longrightarrow> \<not> is_digit c" and "\<forall>c x. r' = c # x \<longrightarrow> \<not> is_digit c"
  shows "map (map_prod id norm_value) ps = map (map_prod id norm_value) qs \<and> r = r'"
  using assms(1,2)
proof (induction ps arbitrary: qs)
  case Nil
  show ?case
  proof (cases qs)
    case (Cons q qs')
    obtain c x where "sized (fst q) = c # x" "is_digit c" using sized_digit by blast
    then show ?thesis using Nil.prems(2) assms(3) by (simp add: pair_texts_def Cons case_prod_unfold)
  qed (use Nil in \<open>simp add: pair_texts_def\<close>)
next
  case (Cons p ps)
  obtain k v where p: "p = (k, v)" by (cases p)
  show ?case
  proof (cases qs)
    case Nil
    obtain c x where "sized k = c # x" "is_digit c" using sized_digit by blast
    then show ?thesis using Cons.prems(2) assms(4) Nil by (auto simp: pair_texts_def p)
  next
    case (Cons q qs')
    obtain l w where q: "q = (l, w)" by (cases q)
    have e: "sized k @ CHR ''='' # canonical ff v @ CHR '';'' # pair_texts ff ps @ r
        = sized l @ CHR ''='' # canonical ff w @ CHR '';'' # pair_texts ff qs' @ r'"
      using Cons.prems(2) by (simp add: pair_texts_def p q Cons)
    have k: "k = l" and v: "canonical ff v @ CHR '';'' # pair_texts ff ps @ r
        = canonical ff w @ CHR '';'' # pair_texts ff qs' @ r'"
      using sized_stop [OF e] by simp_all
    have "reads_back ff v" using Cons.prems(1) p by simp
    then have "norm_value v = norm_value w" "pair_texts ff ps @ r = pair_texts ff qs' @ r'"
      using reads_backD [OF _ _ _ v] by simp_all
    moreover have "map (map_prod id norm_value) ps = map (map_prod id norm_value) qs' \<and> r = r'"
      by (rule Cons.IH) (use Cons.prems(1) calculation(2) in auto)
    ultimately show ?thesis by (simp add: Cons p q k id_def)
  qed
qed

lemma canonical_nonempty: "\<exists>t x. canonical ff v = t # x"
  by (cases v) simp_all

lemma sized_sep:
  assumes "sized s @ c # r = sized t @ d # r'"
  shows "s = t \<and> c = d \<and> r = r'"
  using sized_stop [OF assms] by simp

lemma canonical_reads_back:
  assumes "float_format ff"
  shows "reads_back ff v"
proof (induction v)
  case (V_Float x)
  have s: "list_all (\<lambda>c. \<not> is_sep c) (ff y)" for y
    using assms by (fastforce simp: float_format_def is_sep_def list_all_iff)
  show ?case
  proof (rule reads_backI)
    fix w c d r r'
    assume sep: "is_sep c" "is_sep d" and e: "canonical ff (V_Float x) @ c # r = canonical ff w @ d # r'"
    then obtain y where w: "w = V_Float y" by (cases w) auto
    then show "norm_value (V_Float x) = norm_value w \<and> c = d \<and> r = r'"
      using split_at_stop [OF _ s s, of x c r y d r'] sep e assms by (auto simp: float_format_def dest: injD)
  qed
next
  case (V_Int x)
  show ?case
  proof (rule reads_backI)
    fix w c d r r'
    assume sep: "is_sep c" "is_sep d" and e: "canonical ff (V_Int x) @ c # r = canonical ff w @ d # r'"
    then obtain y where w: "w = V_Int y" by (cases w) auto
    then show "norm_value (V_Int x) = norm_value w \<and> c = d \<and> r = r'"
      using format_int_stop [of "sint x" c r "sint y" d r'] sep e by (auto simp: signed_word_eqI)
  qed
next
  case (V_List vs)
  show ?case
  proof (rule reads_backI)
    fix w c d r r'
    assume "is_sep c" "is_sep d" and e: "canonical ff (V_List vs) @ c # r = canonical ff w @ d # r'"
    then obtain ws where w: "w = V_List ws" by (cases w) auto
    from e have "itoa (length vs) @ CHR ''['' # concat (map (\<lambda>v. canonical ff v @ '','') vs) @ CHR '']'' # c # r
        = itoa (length ws) @ CHR ''['' # concat (map (\<lambda>v. canonical ff v @ '','') ws) @ CHR '']'' # d # r'"
      by (simp add: w comp_def)
    from itoa_stop [OF this] have "length vs = length ws"
      "concat (map (\<lambda>v. canonical ff v @ '','') vs) @ CHR '']'' # c # r
       = concat (map (\<lambda>v. canonical ff v @ '','') ws) @ CHR '']'' # d # r'" by simp_all
    from list_reads_back [OF _ this] V_List
    show "norm_value (V_List vs) = norm_value w \<and> c = d \<and> r = r'" by (auto simp: w)
  qed
next
  case (V_Map ps)
  show ?case
  proof (rule reads_backI)
    fix w c d r r'
    assume "is_sep c" "is_sep d" and e: "canonical ff (V_Map ps) @ c # r = canonical ff w @ d # r'"
    then obtain qs where w: "w = V_Map qs" by (cases w) auto
    from e have "itoa (length ps) @ CHR ''{'' # pair_texts ff (sort_key fst ps) @ CHR ''}'' # c # r
        = itoa (length qs) @ CHR ''{'' # pair_texts ff (sort_key fst qs) @ CHR ''}'' # d # r'"
      by (simp add: w pairs_text_sorted)
    from itoa_stop [OF this] have f: "pair_texts ff (sort_key fst ps) @ CHR ''}'' # c # r
        = pair_texts ff (sort_key fst qs) @ CHR ''}'' # d # r'" by simp
    have "\<forall>(k, v) \<in> set (sort_key fst ps). reads_back ff v" using V_Map by fastforce
    from pairs_read_back [OF this f]
    have "map (map_prod id norm_value) (sort_key fst ps) = map (map_prod id norm_value) (sort_key fst qs)
        \<and> c = d \<and> r = r'" by auto
    then show "norm_value (V_Map ps) = norm_value w \<and> c = d \<and> r = r'"
      by (simp add: w sort_map_prod)
  qed
next
  case V_Null
  show ?case
  proof (rule reads_backI)
    fix w c d r r'
    assume "canonical ff V_Null @ c # r = canonical ff w @ d # r'"
    then show "norm_value V_Null = norm_value w \<and> c = d \<and> r = r'" by (cases w) auto
  qed
next
  case (V_String s)
  show ?case
  proof (rule reads_backI)
    fix w c d r r'
    assume "canonical ff (V_String s) @ c # r = canonical ff w @ d # r'"
    then show "norm_value (V_String s) = norm_value w \<and> c = d \<and> r = r'"
      by (cases w) (auto dest: sized_sep)
  qed
next
  case (V_Bytes s)
  show ?case
  proof (rule reads_backI)
    fix w c d r r'
    assume "canonical ff (V_Bytes s) @ c # r = canonical ff w @ d # r'"
    then show "norm_value (V_Bytes s) = norm_value w \<and> c = d \<and> r = r'"
      by (cases w) (auto dest: sized_sep)
  qed
next
  case (V_Bool b)
  show ?case
  proof (rule reads_backI)
    fix w c d r r'
    assume "canonical ff (V_Bool b) @ c # r = canonical ff w @ d # r'"
    then show "norm_value (V_Bool b) = norm_value w \<and> c = d \<and> r = r'"
      by (cases w) (auto split: if_splits)
  qed
qed

lemma mset_short: "mset xs = mset ys \<Longrightarrow> length ys \<le> 1 \<Longrightarrow> xs = ys"
  by (cases ys) auto

lemma sort_key_mset:
  assumes "mset ps = mset qs" and "distinct (map fst ps)"
  shows "sort_key fst ps = sort_key fst qs"
proof (rule properties_for_sort_key)
  show "mset (sort_key fst qs) = mset ps" using assms(1) by simp
next
  fix k assume "k \<in> set (sort_key fst qs)"
  have "mset (filter (\<lambda>x. fst k = fst x) (sort_key fst qs)) = mset (filter (\<lambda>x. fst k = fst x) ps)"
    using assms(1) by simp
  moreover have "length (filter (\<lambda>x. fst k = fst x) ps) \<le> 1"
    using assms(2) by (induction ps) (force simp: filter_empty_conv)+
  ultimately show "filter (\<lambda>x. fst k = fst x) (sort_key fst qs) = filter (\<lambda>x. fst k = fst x) ps"
    by (rule mset_short)
qed simp

lemma sort_key_idem: "sort_key fst (sort_key fst ps) = sort_key fst ps"
  by (rule sort_key_id_if_sorted) simp

lemma canonical_norm: "canonical ff (norm_value v) = canonical ff v"
proof (induction v)
  case (V_List vs)
  then have "map (canonical ff) (map norm_value vs) = map (canonical ff) vs" by simp
  then show ?case by (metis canonical.simps(7) length_map norm_value.simps(7))
next
  case (V_Map ps)
  then have e: "\<forall>p \<in> set ps. map_prod id (canonical ff) (map_prod id norm_value p) = map_prod id (canonical ff) p"
    by (force simp: map_prod_def)
  have m: "map (map_prod id (canonical ff)) (map (map_prod id norm_value) ps) = map (map_prod id (canonical ff)) ps"
    using e by simp
  have "pairs_text (map (map_prod id (canonical ff)) (sort_key fst (map (map_prod id norm_value) ps)))
      = pairs_text (map (map_prod id (canonical ff)) ps)"
    by (simp only: pairs_text_def sort_map_prod [symmetric] sort_key_idem m)
  then show ?case by simp
qed simp_all

section \<open>Properties\<close>

text \<open>C25. The canonical encoding is exact: two values have one encoding if and only if they are
  the same value up to the order in which their maps, at any depth, list their pairs; so the
  order of a map never matters, and neither nesting nor the bytes of a string can make two
  different values look alike.\<close>

theorem canonical_is_exact:
  assumes "float_format ff"
  shows "(value_equal ff v w \<longleftrightarrow> norm_value v = norm_value w)
    \<and> (mset ps = mset qs \<and> distinct (map fst ps) \<longrightarrow> value_equal ff (V_Map ps) (V_Map qs))"
proof -
  have e: "value_equal ff v w \<longleftrightarrow> norm_value v = norm_value w" for v w
  proof
    assume "value_equal ff v w"
    then have "canonical ff v @ CHR '','' # [] = canonical ff w @ CHR '','' # []" by (simp add: value_equal_def)
    from reads_backD [OF canonical_reads_back [OF assms] _ _ this] show "norm_value v = norm_value w" by simp
  next
    assume "norm_value v = norm_value w"
    then show "value_equal ff v w" using canonical_norm unfolding value_equal_def by metis
  qed
  moreover have "norm_value (V_Map ps) = norm_value (V_Map qs)" if "mset ps = mset qs" "distinct (map fst ps)"
    using sort_key_mset [OF that] by (simp add: sort_map_prod)
  ultimately show ?thesis by blast
qed

lemma norm_arguments_text:
  assumes "float_format ff"
  shows "canonical_bytes ff a = canonical_bytes ff b \<longleftrightarrow> norm_arguments a = norm_arguments b"
proof
  assume "canonical_bytes ff a = canonical_bytes ff b"
  then have "pair_texts ff (sort_key fst a) @ [] = pair_texts ff (sort_key fst b) @ []"
    by (simp add: canonical_bytes_def pairs_text_sorted)
  from pairs_read_back [OF _ this] canonical_reads_back [OF assms]
  show "norm_arguments a = norm_arguments b" by (auto simp: norm_arguments_def sort_map_prod)
next
  assume "norm_arguments a = norm_arguments b"
  then have "canonical ff (V_Map a) = canonical ff (V_Map b)"
    using canonical_norm [of ff "V_Map a"] canonical_norm [of ff "V_Map b"]
    by (simp add: norm_arguments_def)
  moreover have "length a = length b"
    using \<open>norm_arguments a = norm_arguments b\<close> unfolding norm_arguments_def
    by (metis length_map length_sort)
  ultimately show "canonical_bytes ff a = canonical_bytes ff b" by (simp add: canonical_bytes_def)
qed

lemma before_bar:
  assumes "xs @ c # r = ys @ c # r'" and "c \<notin> set xs" and "c \<notin> set ys"
  shows "xs = ys \<and> r = r'"
proof -
  have "list_all (\<lambda>x. x \<noteq> c) xs" "list_all (\<lambda>x. x \<noteq> c) ys"
    using assms(2,3) by (auto simp: list_all_iff)
  from split_at_stop [OF assms(1) this] show ?thesis by simp
qed

lemma after_at:
  assumes "xs @ c # r = ys @ c # r'" and "c \<notin> set r" and "c \<notin> set r'"
  shows "xs = ys \<and> r = r'"
proof -
  have "rev r @ c # rev xs = rev r' @ c # rev ys" using arg_cong [OF assms(1), of rev] by simp
  from before_bar [OF this] show ?thesis using assms(2,3) by simp
qed

text \<open>An idempotency key stands for one request: as long as no identifier holds a bar and no
  version an at-sign, the text a key is the fingerprint of is the same for two requests if and
  only if tool, version, actor, scope and arguments, up to map order, are the same.\<close>

theorem key_stands_for_one_request:
  assumes "float_format ff"
    and "\<forall>x \<in> {fst d, snd d, fst d', snd d', actor, actor', scope, scope'}. CHR ''|'' \<notin> set x"
    and "CHR ''@'' \<notin> set (snd d)" and "CHR ''@'' \<notin> set (snd d')"
  shows "key_text ff d a actor scope = key_text ff d' a' actor' scope'
    \<longleftrightarrow> d = d' \<and> actor = actor' \<and> scope = scope' \<and> norm_arguments a = norm_arguments a'"
proof
  assume "key_text ff d a actor scope = key_text ff d' a' actor' scope'"
  then have e: "descriptor_text d @ CHR ''|'' # actor @ CHR ''|'' # scope @ CHR ''|'' # canonical_bytes ff a
      = descriptor_text d' @ CHR ''|'' # actor' @ CHR ''|'' # scope' @ CHR ''|'' # canonical_bytes ff a'"
    by (simp add: key_text_def)
  have nb: "CHR ''|'' \<notin> set (descriptor_text d)" "CHR ''|'' \<notin> set (descriptor_text d')"
    using assms(2) by (auto simp: descriptor_text_def)
  have 1: "descriptor_text d = descriptor_text d'" using before_bar [OF e nb] by simp
  have 2: "actor @ CHR ''|'' # scope @ CHR ''|'' # canonical_bytes ff a
      = actor' @ CHR ''|'' # scope' @ CHR ''|'' # canonical_bytes ff a'" using before_bar [OF e nb] by simp
  have 3: "actor = actor'" "scope @ CHR ''|'' # canonical_bytes ff a = scope' @ CHR ''|'' # canonical_bytes ff a'"
    using before_bar [OF 2] assms(2) by simp_all
  have 4: "scope = scope'" "canonical_bytes ff a = canonical_bytes ff a'"
    using before_bar [OF 3(2)] assms(2) by simp_all
  have "fst d @ CHR ''@'' # snd d = fst d' @ CHR ''@'' # snd d'" using 1 by (simp add: descriptor_text_def)
  from after_at [OF this assms(3,4)] show
    "d = d' \<and> actor = actor' \<and> scope = scope' \<and> norm_arguments a = norm_arguments a'"
    using 3 4 norm_arguments_text [OF assms(1)] by (simp add: prod_eq_iff)
next
  assume "d = d' \<and> actor = actor' \<and> scope = scope' \<and> norm_arguments a = norm_arguments a'"
  then show "key_text ff d a actor scope = key_text ff d' a' actor' scope'"
    using norm_arguments_text [OF assms(1)] by (simp add: key_text_def)
qed

text \<open>The bars of the key are not escaped: whatever the tool, its arguments and the
  fingerprint, two different actors in two different scopes have one key when a bar in the one
  makes up for the bar in the other.\<close>

theorem keys_of_two_actors_collide:
  "derive_key fp ff d a (actor @ ''|'' @ x) scope = derive_key fp ff d a actor (x @ ''|'' @ scope)"
  by (simp add: derive_key_def key_text_def)

section \<open>Witnesses\<close>

text \<open>A float type of two values, for the witnesses.\<close>

definition demo_float :: "bool \<Rightarrow> string" where
  "demo_float b = (if b then ''1.5'' else ''-0'')"

lemma demo_float_format: "float_format demo_float"
  by (auto simp: float_format_def demo_float_def inj_def)

theorem canonical_is_exact_witness:
  "value_equal demo_float (V_Map [(''b'', V_Float True), (''a'', V_Null)])
     (V_Map [(''a'', V_Null), (''b'', V_Float True)])
   \<and> \<not> value_equal demo_float (V_List [V_String ''1,''])  (V_List [V_String ''1'', V_Null])"
  using canonical_is_exact [OF demo_float_format, of "V_List [V_String ''1,'']" "V_List [V_String ''1'', V_Null]"
      "[(''b'', V_Float True), (''a'', V_Null)]" "[(''a'', V_Null), (''b'', V_Float True)]"]
  by simp

theorem key_stands_for_one_request_witness:
  "key_text demo_float (''book'', ''1.0.0'') [(''n'', V_Int 1)] ''sub_1'' ''turn_1''
   \<noteq> key_text demo_float (''book'', ''1.0.0'') [(''n'', V_String ''1'')] ''sub_1'' ''turn_1''"
  using key_stands_for_one_request [OF demo_float_format, of "(''book'', ''1.0.0'')" "(''book'', ''1.0.0'')"
      "''sub_1''" "''sub_1''" "''turn_1''" "''turn_1''" "[(''n'', V_Int 1)]" "[(''n'', V_String ''1'')]"]
  by (simp add: norm_arguments_def)

end
