(* ===== verification/ToolScheduler.thy ===== *)
theory ToolScheduler
  imports Prelude
begin

text \<open>
  The admission of tool executions (\<^verbatim>\<open>packages/go/toolruntime/queue.go\<close>): a limit on executions in
  flight, a bounded queue per class, and the choice of the next waiter.  Callers are known by a
  number; each acquires at most once.  A waiter whose channel was closed holds a slot before it has
  noticed, and if its context ends at that moment Go's \<^verbatim>\<open>select\<close> may take either branch.
\<close>

section \<open>Classes and configuration\<close>

datatype sched_class = Class_Interactive | Class_Background | Class_Bulk

definition sched_classes :: "sched_class list" where
  "sched_classes = [Class_Interactive, Class_Background, Class_Bulk]"

record sched_config =
  sk_max_concurrent :: int
  sk_max_queued :: "sched_class \<Rightarrow> int"
  sk_starvation_ratio :: int

definition default_sched_config :: sched_config where
  "default_sched_config =
     \<lparr>sk_max_concurrent = 64,
      sk_max_queued = (\<lambda>c. case c of Class_Interactive \<Rightarrow> 32 | Class_Background \<Rightarrow> 128 | Class_Bulk \<Rightarrow> 512),
      sk_starvation_ratio = 8\<rparr>"

datatype sched_problem = Max_Concurrent_Not_Positive | Queue_Bound_Negative | Starvation_Ratio_Negative

definition sched_problems :: "sched_config \<Rightarrow> sched_problem list" where
  "sched_problems k =
     (if sk_max_concurrent k \<le> 0 then [Max_Concurrent_Not_Positive] else [])
     @ (if list_ex (\<lambda>c. sk_max_queued k c < 0) sched_classes then [Queue_Bound_Negative] else [])
     @ (if sk_starvation_ratio k < 0 then [Starvation_Ratio_Negative] else [])"

section \<open>The scheduler\<close>

text \<open>
  Where a caller is: it has not asked, is queued, was handed a slot it has not noticed, holds a
  slot, gave it back, was shed or left the queue, or left after it had been handed a slot.
\<close>

datatype caller = Caller_New | Caller_Queued | Caller_Granted | Caller_Holding | Caller_Released
  | Caller_Gone | Caller_Lost

record scheduler =
  sd_config :: sched_config
  sd_in_flight :: int
  sd_queues :: "sched_class \<Rightarrow> nat list"
  sd_consecutive :: int
  sd_shed :: nat
  sd_grants :: nat
  sd_caller :: "nat \<Rightarrow> caller"

text \<open>\<open>sd_grants\<close> counts the slots passed to waiters.\<close>

definition new_scheduler :: "sched_config \<Rightarrow> sched_problem list + scheduler" where
  "new_scheduler k =
     (if sched_problems k \<noteq> [] then Inl (sched_problems k)
      else Inr \<lparr>sd_config = k, sd_in_flight = 0, sd_queues = (\<lambda>_. []), sd_consecutive = 0, sd_shed = 0,
                sd_grants = 0, sd_caller = (\<lambda>_. Caller_New)\<rparr>)"

definition set_caller :: "nat \<Rightarrow> caller \<Rightarrow> scheduler \<Rightarrow> scheduler" where
  "set_caller x a s = s\<lparr>sd_caller := (sd_caller s)(x := a)\<rparr>"

definition set_queue :: "sched_class \<Rightarrow> nat list \<Rightarrow> scheduler \<Rightarrow> scheduler" where
  "set_queue c q s = s\<lparr>sd_queues := (sd_queues s)(c := q)\<rparr>"

definition acquire :: "nat \<Rightarrow> sched_class \<Rightarrow> scheduler \<Rightarrow> scheduler" where
  "acquire x c s =
     (if sd_in_flight s < sk_max_concurrent (sd_config s)
      then set_caller x Caller_Holding (s\<lparr>sd_in_flight := sd_in_flight s + 1\<rparr>)
      else if int (length (sd_queues s c)) \<ge> sk_max_queued (sd_config s) c
      then set_caller x Caller_Gone (s\<lparr>sd_shed := sd_shed s + 1\<rparr>)
      else set_caller x Caller_Queued (set_queue c (sd_queues s c @ [x]) s))"

definition try_acquire :: "nat \<Rightarrow> scheduler \<Rightarrow> scheduler \<times> bool" where
  "try_acquire x s =
     (if sd_in_flight s \<ge> sk_max_concurrent (sd_config s) then (set_caller x Caller_Gone s, False)
      else (set_caller x Caller_Holding (s\<lparr>sd_in_flight := sd_in_flight s + 1\<rparr>), True))"

text \<open>The highest and the lowest class with a waiter.\<close>

definition waiting_classes :: "scheduler \<Rightarrow> sched_class list" where
  "waiting_classes s = filter (\<lambda>c. sd_queues s c \<noteq> []) sched_classes"

text \<open>
  The class to serve, given the highest and the lowest that wait, and the new count of consecutive
  grants; then the next waiter.
\<close>

definition pick_class :: "scheduler \<Rightarrow> sched_class \<Rightarrow> sched_class \<Rightarrow> sched_class \<times> int" where
  "pick_class s highest lowest =
     (let ratio = sk_starvation_ratio (sd_config s)
      in if ratio > 0 \<and> lowest \<noteq> highest \<and> sd_consecutive s \<ge> ratio then (lowest, 0)
         else if lowest \<noteq> highest then (highest, sd_consecutive s + 1)
         else (highest, 0))"

definition next_waiter :: "scheduler \<Rightarrow> scheduler \<times> nat option" where
  "next_waiter s =
     (case waiting_classes s of
        [] \<Rightarrow> (s\<lparr>sd_consecutive := 0\<rparr>, None)
      | highest # cs \<Rightarrow>
          (case pick_class s highest (last (highest # cs)) of (pick, consecutive) \<Rightarrow>
             (set_queue pick (tl (sd_queues s pick)) (s\<lparr>sd_consecutive := consecutive\<rparr>),
              Some (hd (sd_queues s pick)))))"

definition release_slot :: "scheduler \<Rightarrow> scheduler" where
  "release_slot s =
     (case next_waiter s of
        (s', None) \<Rightarrow>
          s'\<lparr>sd_in_flight := (if sd_in_flight s' - 1 < 0 then 0 else sd_in_flight s' - 1)\<rparr>
      | (s', Some w) \<Rightarrow> set_caller w Caller_Granted (s'\<lparr>sd_grants := sd_grants s' + 1\<rparr>))"

text \<open>The release function of a caller runs once.\<close>

definition release_by :: "nat \<Rightarrow> scheduler \<Rightarrow> scheduler" where
  "release_by x s =
     (if sd_caller s x = Caller_Holding then release_slot (set_caller x Caller_Released s) else s)"

definition remove_waiter :: "nat \<Rightarrow> scheduler \<Rightarrow> scheduler" where
  "remove_waiter x s = s\<lparr>sd_queues := (\<lambda>c. remove1 x (sd_queues s c))\<rparr>"

text \<open>
  A blocked caller goes on: it notices its slot, or its context ends.  In the second case it takes
  itself off the queue, where it is not if it had been handed a slot.
\<close>

definition resume :: "nat \<Rightarrow> scheduler \<Rightarrow> scheduler" where
  "resume x s = (if sd_caller s x = Caller_Granted then set_caller x Caller_Holding s else s)"

definition cancel_wait :: "nat \<Rightarrow> scheduler \<Rightarrow> scheduler" where
  "cancel_wait x s =
     (case sd_caller s x of
        Caller_Queued \<Rightarrow> set_caller x Caller_Gone (remove_waiter x s)
      | Caller_Granted \<Rightarrow> set_caller x Caller_Lost (remove_waiter x s)
      | _ \<Rightarrow> s)"

datatype sched_op = Sc_Acquire nat sched_class | Sc_Try nat | Sc_Release nat | Sc_Resume nat | Sc_Cancel nat

fun sched_step :: "scheduler \<Rightarrow> sched_op \<Rightarrow> scheduler" where
  "sched_step s (Sc_Acquire x c) = (if sd_caller s x = Caller_New then acquire x c s else s)"
| "sched_step s (Sc_Try x) = (if sd_caller s x = Caller_New then fst (try_acquire x s) else s)"
| "sched_step s (Sc_Release x) = release_by x s"
| "sched_step s (Sc_Resume x) = resume x s"
| "sched_step s (Sc_Cancel x) = cancel_wait x s"

section \<open>The invariant\<close>

text \<open>The callers that occupy a slot: that hold one, were handed one, or were and have left.\<close>

definition occupies :: "caller \<Rightarrow> bool" where
  "occupies a \<longleftrightarrow> a = Caller_Granted \<or> a = Caller_Holding \<or> a = Caller_Lost"

definition occupants :: "scheduler \<Rightarrow> nat set" where
  "occupants s = {x. occupies (sd_caller s x)}"

definition sched_inv :: "scheduler \<Rightarrow> bool" where
  "sched_inv s \<longleftrightarrow> 0 < sk_max_concurrent (sd_config s) \<and> (\<forall>c. 0 \<le> sk_max_queued (sd_config s) c)
     \<and> 0 \<le> sk_starvation_ratio (sd_config s)
     \<and> finite (occupants s) \<and> sd_in_flight s = int (card (occupants s))
     \<and> sd_in_flight s \<le> sk_max_concurrent (sd_config s)
     \<and> (\<forall>c. int (length (sd_queues s c)) \<le> sk_max_queued (sd_config s) c)
     \<and> ((\<exists>c. sd_queues s c \<noteq> []) \<longrightarrow> sd_in_flight s = sk_max_concurrent (sd_config s))
     \<and> (\<forall>c. distinct (sd_queues s c)) \<and> (\<forall>c x. x \<in> set (sd_queues s c) \<longrightarrow> sd_caller s x = Caller_Queued)
     \<and> (\<forall>c d x. x \<in> set (sd_queues s c) \<longrightarrow> x \<in> set (sd_queues s d) \<longrightarrow> c = d)
     \<and> 0 \<le> sd_consecutive s
     \<and> (0 < sk_starvation_ratio (sd_config s) \<longrightarrow> sd_consecutive s \<le> sk_starvation_ratio (sd_config s))"

lemma set_caller_sel [simp]:
  "sd_config (set_caller x a s) = sd_config s" "sd_in_flight (set_caller x a s) = sd_in_flight s"
  "sd_queues (set_caller x a s) = sd_queues s" "sd_consecutive (set_caller x a s) = sd_consecutive s"
  "sd_grants (set_caller x a s) = sd_grants s" "sd_caller (set_caller x a s) = (sd_caller s)(x := a)"
  by (simp_all add: set_caller_def)

lemma set_queue_sel [simp]:
  "sd_config (set_queue c q s) = sd_config s" "sd_in_flight (set_queue c q s) = sd_in_flight s"
  "sd_queues (set_queue c q s) = (sd_queues s)(c := q)" "sd_consecutive (set_queue c q s) = sd_consecutive s"
  "sd_grants (set_queue c q s) = sd_grants s" "sd_caller (set_queue c q s) = sd_caller s"
  by (simp_all add: set_queue_def)

lemma remove_waiter_sel [simp]:
  "sd_config (remove_waiter x s) = sd_config s" "sd_in_flight (remove_waiter x s) = sd_in_flight s"
  "sd_queues (remove_waiter x s) = (\<lambda>c. remove1 x (sd_queues s c))"
  "sd_consecutive (remove_waiter x s) = sd_consecutive s"
  "sd_grants (remove_waiter x s) = sd_grants s" "sd_caller (remove_waiter x s) = sd_caller s"
  by (simp_all add: remove_waiter_def)

lemma occupants_update:
  "sd_caller s' = (sd_caller s)(x := a) \<Longrightarrow>
     occupants s' = (if occupies a then insert x (occupants s) else occupants s - {x})"
  by (auto simp: occupants_def)

lemma in_classes: "c \<in> set sched_classes"
  by (cases c) (simp_all add: sched_classes_def)

lemma waiting_mem: "c \<in> set (waiting_classes s) \<longleftrightarrow> sd_queues s c \<noteq> []"
  by (simp add: waiting_classes_def in_classes)

lemma waiting_distinct: "distinct (waiting_classes s)"
  by (simp add: waiting_classes_def sched_classes_def)

text \<open>What the choice of a waiter does.\<close>

lemma next_waiter_cases:
  obtains
    (none) "\<forall>c. sd_queues s c = []" "next_waiter s = (s\<lparr>sd_consecutive := 0\<rparr>, None)"
  | (some) h l c n where "sd_queues s h \<noteq> []" "sd_queues s l \<noteq> []" "sd_queues s c \<noteq> []"
      "hd (waiting_classes s) = h" "last (waiting_classes s) = l" "pick_class s h l = (c, n)"
      "next_waiter s = (set_queue c (tl (sd_queues s c)) (s\<lparr>sd_consecutive := n\<rparr>), Some (hd (sd_queues s c)))"
proof (cases "waiting_classes s")
  case Nil
  then have "\<forall>c. sd_queues s c = []" using waiting_mem [of _ s] by auto
  then show thesis using none Nil by (simp add: next_waiter_def)
next
  case (Cons h cs)
  obtain c n where p: "pick_class s h (last (h # cs)) = (c, n)" by fastforce
  have h: "sd_queues s h \<noteq> []" and l: "sd_queues s (last (h # cs)) \<noteq> []"
    using waiting_mem [of h s] waiting_mem [of "last (h # cs)" s] Cons last_in_set [of "h # cs"] by auto
  have "c = h \<or> c = last (h # cs)" using p by (auto simp: pick_class_def Let_def split: if_splits)
  then have c: "sd_queues s c \<noteq> []" using h l by auto
  show thesis by (rule some [OF h l c _ _ p]) (use Cons p in \<open>simp_all add: next_waiter_def\<close>)
qed

lemma pick_class_count:
  assumes "pick_class s h l = (c, n)" "0 \<le> sd_consecutive s" "0 \<le> sk_starvation_ratio (sd_config s)"
    "0 < sk_starvation_ratio (sd_config s) \<longrightarrow> sd_consecutive s \<le> sk_starvation_ratio (sd_config s)"
  shows "0 \<le> n" "0 < sk_starvation_ratio (sd_config s) \<longrightarrow> n \<le> sk_starvation_ratio (sd_config s)"
  using assms by (auto simp: pick_class_def Let_def split: if_splits)

text \<open>The invariant without the count of the occupants, which a release keeps apart.\<close>

definition queues_inv :: "scheduler \<Rightarrow> bool" where
  "queues_inv s \<longleftrightarrow> 0 < sk_max_concurrent (sd_config s) \<and> (\<forall>c. 0 \<le> sk_max_queued (sd_config s) c)
     \<and> 0 \<le> sk_starvation_ratio (sd_config s)
     \<and> (\<forall>c. int (length (sd_queues s c)) \<le> sk_max_queued (sd_config s) c)
     \<and> (\<forall>c. distinct (sd_queues s c)) \<and> (\<forall>c x. x \<in> set (sd_queues s c) \<longrightarrow> sd_caller s x = Caller_Queued)
     \<and> (\<forall>c d x. x \<in> set (sd_queues s c) \<longrightarrow> x \<in> set (sd_queues s d) \<longrightarrow> c = d)
     \<and> 0 \<le> sd_consecutive s
     \<and> (0 < sk_starvation_ratio (sd_config s) \<longrightarrow> sd_consecutive s \<le> sk_starvation_ratio (sd_config s))"

lemma sched_inv_split:
  "sched_inv s \<longleftrightarrow> queues_inv s \<and> finite (occupants s) \<and> sd_in_flight s = int (card (occupants s))
     \<and> sd_in_flight s \<le> sk_max_concurrent (sd_config s)
     \<and> ((\<exists>c. sd_queues s c \<noteq> []) \<longrightarrow> sd_in_flight s = sk_max_concurrent (sd_config s))"
  by (auto simp: sched_inv_def queues_inv_def)

lemma not_queued:
  "queues_inv s \<Longrightarrow> sd_caller s x \<noteq> Caller_Queued \<Longrightarrow> x \<notin> set (sd_queues s c)"
  by (auto simp: queues_inv_def)

lemma queues_inv_set_caller:
  "queues_inv s \<Longrightarrow> sd_caller s x \<noteq> Caller_Queued \<Longrightarrow> queues_inv (set_caller x a s)"
  by (auto simp: queues_inv_def)

lemma queues_inv_in_flight: "queues_inv (s\<lparr>sd_in_flight := n\<rparr>) = queues_inv s"
  "queues_inv (s\<lparr>sd_shed := m\<rparr>) = queues_inv s" "queues_inv (s\<lparr>sd_grants := g\<rparr>) = queues_inv s"
  by (simp_all add: queues_inv_def)

lemma occupants_misc [simp]: "occupants (s\<lparr>sd_in_flight := n\<rparr>) = occupants s"
  "occupants (s\<lparr>sd_shed := m\<rparr>) = occupants s" "occupants (s\<lparr>sd_grants := g\<rparr>) = occupants s"
  "occupants (s\<lparr>sd_consecutive := k\<rparr>) = occupants s" "occupants (set_queue c q s) = occupants s"
  "occupants (remove_waiter x s) = occupants s"
  by (simp_all add: occupants_def)

lemma occupants_set_caller:
  "occupants (set_caller x a s) = (if occupies a then insert x (occupants s) else occupants s - {x})"
  by (rule occupants_update) simp

lemma occupies_simps [simp]:
  "occupies Caller_Granted" "occupies Caller_Holding" "occupies Caller_Lost" "\<not> occupies Caller_New"
  "\<not> occupies Caller_Queued" "\<not> occupies Caller_Released" "\<not> occupies Caller_Gone"
  by (simp_all add: occupies_def)

lemma occupants_mem [simp]: "x \<in> occupants s \<longleftrightarrow> occupies (sd_caller s x)"
  by (simp add: occupants_def)

lemma acquire_inv:
  assumes I: "sched_inv s" and x: "sd_caller s x = Caller_New"
  shows "sched_inv (acquire x c s)"
proof -
  have out: "x \<notin> occupants s" using x by simp
  have Q: "queues_inv s" using I by (simp add: sched_inv_split)
  consider "sd_in_flight s < sk_max_concurrent (sd_config s)"
    | "\<not> sd_in_flight s < sk_max_concurrent (sd_config s)" "sk_max_queued (sd_config s) c \<le> int (length (sd_queues s c))"
    | "\<not> sd_in_flight s < sk_max_concurrent (sd_config s)" "\<not> sk_max_queued (sd_config s) c \<le> int (length (sd_queues s c))"
    by blast
  then show ?thesis
  proof cases
    case 1
    then show ?thesis
      using I out x by (auto simp: acquire_def sched_inv_split occupants_set_caller queues_inv_in_flight
        intro!: queues_inv_set_caller)
  next
    case 2
    then show ?thesis
      using I out x by (auto simp: acquire_def sched_inv_split occupants_set_caller queues_inv_in_flight
        intro!: queues_inv_set_caller)
  next
    case 3
    have fresh: "x \<notin> set (sd_queues s d)" for d using not_queued [OF Q] x by simp
    have "queues_inv (set_caller x Caller_Queued (set_queue c (sd_queues s c @ [x]) s))"
      using Q fresh 3 unfolding queues_inv_def by (auto split: if_splits)
    then show ?thesis
      using 3 I out x by (auto simp: acquire_def sched_inv_split occupants_set_caller)
  qed
qed

lemma try_acquire_inv:
  assumes I: "sched_inv s" and x: "sd_caller s x = Caller_New"
  shows "sched_inv (fst (try_acquire x s))"
  using I x by (auto simp: try_acquire_def sched_inv_split occupants_set_caller queues_inv_in_flight
    intro!: queues_inv_set_caller)

lemma queues_inv_tl:
  assumes "queues_inv s" "0 \<le> k" "0 < sk_starvation_ratio (sd_config s) \<longrightarrow> k \<le> sk_starvation_ratio (sd_config s)"
  shows "queues_inv (set_queue c (tl (sd_queues s c)) (s\<lparr>sd_consecutive := k\<rparr>))"
proof -
  have sub: "x \<in> set (tl (sd_queues s c)) \<Longrightarrow> x \<in> set (sd_queues s c)" for x by (rule list.set_sel(2)) auto
  have "int (length (tl (sd_queues s c))) \<le> int (length (sd_queues s c))" by simp
  then have "int (length (tl (sd_queues s c))) \<le> sk_max_queued (sd_config s) c"
    using assms(1) unfolding queues_inv_def by (metis order_trans)
  then show ?thesis
    using assms sub unfolding queues_inv_def by (simp add: distinct_tl) blast
qed

lemma queues_inv_unqueued:
  "queues_inv s \<Longrightarrow> (\<And>c. x \<notin> set (sd_queues s c)) \<Longrightarrow> queues_inv (set_caller x a s)"
  by (auto simp: queues_inv_def)

lemma set_caller_grants: "set_caller x a (s\<lparr>sd_grants := g\<rparr>) = (set_caller x a s)\<lparr>sd_grants := g\<rparr>"
  by (simp add: set_caller_def)

text \<open>A slot is passed on: the state before has one execution more than it has occupants.\<close>

lemma release_slot_inv:
  assumes Q: "queues_inv s" and F: "finite (occupants s)" and n: "sd_in_flight s = int (card (occupants s)) + 1"
    and le: "sd_in_flight s \<le> sk_max_concurrent (sd_config s)"
    and full: "(\<exists>c. sd_queues s c \<noteq> []) \<longrightarrow> sd_in_flight s = sk_max_concurrent (sd_config s)"
  shows "sched_inv (release_slot s)"
proof -
  show ?thesis
  proof (cases s rule: next_waiter_cases)
    case none
    then show ?thesis using assms by (auto simp: release_slot_def sched_inv_split queues_inv_def)
  next
    case (some h l c k)
    let ?w = "hd (sd_queues s c)"
    have "?w \<in> set (sd_queues s c)" "distinct (sd_queues s c)"
      using Q some(3) by (simp_all add: queues_inv_def)
    then have w: "sd_caller s ?w = Caller_Queued" "?w \<notin> set (tl (sd_queues s c))"
      "\<And>d. d \<noteq> c \<Longrightarrow> ?w \<notin> set (sd_queues s d)"
      using Q some(3) unfolding queues_inv_def by (blast, cases "sd_queues s c", simp_all, metis)
    have k: "0 \<le> k" "0 < sk_starvation_ratio (sd_config s) \<longrightarrow> k \<le> sk_starvation_ratio (sd_config s)"
      using pick_class_count [OF some(6)] Q by (simp_all add: queues_inv_def)
    have "queues_inv (set_queue c (tl (sd_queues s c)) (s\<lparr>sd_consecutive := k\<rparr>))"
      using queues_inv_tl [OF Q k] by simp
    then have "queues_inv (set_caller ?w Caller_Granted
        (set_queue c (tl (sd_queues s c)) (s\<lparr>sd_consecutive := k\<rparr>)))"
      using w by (intro queues_inv_unqueued) auto
    moreover have "?w \<notin> occupants s" using w(1) by simp
    ultimately show ?thesis
      using F n le full some(3,7)
      by (auto simp: release_slot_def sched_inv_split occupants_set_caller queues_inv_in_flight set_caller_grants)
  qed
qed

lemma release_by_inv:
  assumes I: "sched_inv s"
  shows "sched_inv (release_by x s)"
proof (cases "sd_caller s x = Caller_Holding")
  case True
  have f: "finite (occupants s)" and x: "x \<in> occupants s" using I True by (simp_all add: sched_inv_split)
  then have "0 < card (occupants s)" using card_gt_0_iff by blast
  then have n: "int (card (occupants s - {x})) + 1 = int (card (occupants s))"
    using f x by (simp add: card_Diff_singleton)
  show ?thesis
    unfolding release_by_def if_P [OF True]
    by (rule release_slot_inv)
       (use I True f n in \<open>auto simp: sched_inv_split occupants_set_caller intro: queues_inv_set_caller\<close>)
qed (use I in \<open>simp add: release_by_def\<close>)

lemma queues_inv_remove:
  assumes "queues_inv s"
  shows "queues_inv (remove_waiter x s)"
proof -
  have "int (length (remove1 x (sd_queues s c))) \<le> sk_max_queued (sd_config s) c" for c
  proof -
    have "int (length (remove1 x (sd_queues s c))) \<le> int (length (sd_queues s c))" by (simp add: length_remove1)
    then show ?thesis using assms unfolding queues_inv_def by (metis order_trans)
  qed
  then show ?thesis
    using assms unfolding queues_inv_def remove_waiter_sel by (meson distinct_remove1 notin_set_remove1)
qed

lemma remove_waiter_out: "queues_inv s \<Longrightarrow> x \<notin> set (sd_queues (remove_waiter x s) c)"
  by (simp add: queues_inv_def)

lemma cancel_wait_inv:
  assumes I: "sched_inv s"
  shows "sched_inv (cancel_wait x s)"
proof -
  have Q: "queues_inv s" using I by (simp add: sched_inv_split)
  have Q': "queues_inv (set_caller x a (remove_waiter x s))" for a
    by (rule queues_inv_unqueued [OF queues_inv_remove [OF Q] remove_waiter_out [OF Q]])
  have "(\<exists>c. remove1 x (sd_queues s c) \<noteq> []) \<Longrightarrow> \<exists>c. sd_queues s c \<noteq> []" by (metis remove1.simps(1))
  moreover have "insert x (occupants s) = occupants s" if "sd_caller s x = Caller_Granted"
    using that by (auto simp: occupants_def)
  ultimately show ?thesis
    using I Q'
    by (auto simp: cancel_wait_def sched_inv_split occupants_set_caller split: caller.splits)
qed

lemma resume_inv:
  assumes I: "sched_inv s"
  shows "sched_inv (resume x s)"
proof -
  have "insert x (occupants s) = occupants s" if "sd_caller s x = Caller_Granted"
    using that by (auto simp: occupants_def)
  then show ?thesis
    using I by (auto simp: resume_def sched_inv_split occupants_set_caller intro: queues_inv_set_caller)
qed

lemma sched_step_inv: "sched_inv s \<Longrightarrow> sched_inv (sched_step s a)"
  by (cases a) (simp_all add: acquire_inv try_acquire_inv release_by_inv cancel_wait_inv resume_inv)

interpretation admission: invariant_ops sched_step sched_inv
  by unfold_locales (rule sched_step_inv)

lemma new_scheduler_inv: "new_scheduler k = Inr s \<Longrightarrow> sched_inv s"
  by (auto simp: new_scheduler_def sched_problems_def sched_inv_def occupants_def sched_classes_def
      split: if_splits) (metis sched_class.exhaust linorder_not_less)+

section \<open>The configuration never changes\<close>

lemma release_slot_config: "sd_config (release_slot s) = sd_config s"
  by (cases s rule: next_waiter_cases) (simp_all add: release_slot_def)

lemma sched_step_config: "sd_config (sched_step s a) = sd_config s"
  by (cases a) (simp_all add: acquire_def try_acquire_def release_by_def resume_def cancel_wait_def
      release_slot_config split: caller.splits)

lemma run_config: "sd_config (run_ops sched_step s ops) = sd_config s"
  by (induction ops arbitrary: s) (simp_all add: sched_step_config)

section \<open>Waiting for a grant\<close>

text \<open>
  A bulk waiter \<open>w\<close> that was at position \<open>i\<close> when \<open>g\<close> grants had been made: while it waits, the
  grants since then are at most \<open>ratio + 1\<close> for every place it has moved up, and the consecutive
  ones.
\<close>

definition bulk_wait :: "nat \<Rightarrow> nat \<Rightarrow> nat \<Rightarrow> nat \<Rightarrow> scheduler \<Rightarrow> bool" where
  "bulk_wait w i g r s \<longleftrightarrow> sched_inv s \<and> sk_starvation_ratio (sd_config s) = int r \<and> 0 < r
     \<and> sd_caller s w \<noteq> Caller_New
     \<and> (sd_caller s w = Caller_Queued \<longrightarrow>
          (\<exists>p \<le> i. p < length (sd_queues s Class_Bulk) \<and> sd_queues s Class_Bulk ! p = w
             \<and> sd_grants s \<le> g + (i - p) * (r + 1) + nat (sd_consecutive s)))"

lemma bulk_is_last: "sd_queues s Class_Bulk \<noteq> [] \<Longrightarrow> last (waiting_classes s) = Class_Bulk"
  by (simp add: waiting_classes_def sched_classes_def)

lemma release_slot_caller:
  "sd_caller (release_slot s) x = sd_caller s x
   \<or> sd_caller (release_slot s) x = Caller_Granted \<and> (\<exists>c. x \<in> set (sd_queues s c))"
  by (cases s rule: next_waiter_cases) (auto simp: release_slot_def intro: hd_in_set)

lemma nth_remove1_before:
  "p < length xs \<Longrightarrow> xs ! p \<noteq> x \<Longrightarrow>
     \<exists>q \<le> p. q < length (remove1 x xs) \<and> remove1 x xs ! q = xs ! p"
proof (induction xs arbitrary: p)
  case Nil
  then show ?case by simp
next
  case (Cons a xs)
  show ?case
  proof (cases "a = x")
    case True
    then show ?thesis using Cons.prems by (intro exI [of _ "p - 1"]) (cases p; simp)
  next
    case False
    show ?thesis
    proof (cases p)
      case 0
      then show ?thesis using False by (intro exI [of _ 0]) simp
    next
      case (Suc p')
      then obtain q where "q \<le> p'" "q < length (remove1 x xs)" "remove1 x xs ! q = xs ! p'"
        using Cons by (metis Suc_less_SucD length_Cons nth_Cons_Suc)
      then show ?thesis using Suc False by (intro exI [of _ "Suc q"]) simp
    qed
  qed
qed

text \<open>One grant uses one of the grants that are left.\<close>

lemma bulk_wait_release_slot:
  assumes Q: "queues_inv s" and r: "sk_starvation_ratio (sd_config s) = int r" "0 < r"
    and p: "p \<le> i" "p < length (sd_queues s Class_Bulk)" "sd_queues s Class_Bulk ! p = w"
    and g: "sd_grants s \<le> g + (i - p) * (r + 1) + nat (sd_consecutive s)"
    and w: "sd_caller (release_slot s) w = Caller_Queued"
  shows "\<exists>p \<le> i. p < length (sd_queues (release_slot s) Class_Bulk) \<and> sd_queues (release_slot s) Class_Bulk ! p = w
     \<and> sd_grants (release_slot s) \<le> g + (i - p) * (r + 1) + nat (sd_consecutive (release_slot s))"
proof (cases s rule: next_waiter_cases)
  case none
  then show ?thesis using p by simp
next
  case (some h l c n)
  have "sd_queues s Class_Bulk \<noteq> []" using p(2) by auto
  then have l: "l = Class_Bulk" using bulk_is_last [of s] some(5) by simp
  have bounds: "0 \<le> sd_consecutive s" "sd_consecutive s \<le> int r" using Q r by (simp_all add: queues_inv_def)
  show ?thesis
  proof (cases "c = Class_Bulk")
    case True
    have "hd (sd_queues s Class_Bulk) \<noteq> w" using w some(7) True by (auto simp: release_slot_def)
    then have "p \<noteq> 0" using p(2,3) by (metis hd_conv_nth list.size(3) not_less_zero)
    then obtain p' where p': "p = Suc p'" by (cases p) auto
    have n: "n = 0" using some(6) True l by (auto simp: pick_class_def Let_def split: if_splits)
    have "(i - p') * (r + 1) = (i - p) * (r + 1) + (r + 1)"
    proof -
      have "i - p' = Suc (i - p)" using p(1) p' by simp
      then show ?thesis by (simp only: mult_Suc add.commute)
    qed
    then have "sd_grants s + 1 \<le> g + (i - p') * (r + 1)" using g bounds by linarith
    then show ?thesis
      using some p p' True n by (intro exI [of _ p']) (auto simp: release_slot_def nth_tl)
  next
    case False
    then have "n = sd_consecutive s + 1" using some(6) l by (auto simp: pick_class_def Let_def split: if_splits)
    then show ?thesis
      using some p g bounds False by (intro exI [of _ p]) (auto simp: release_slot_def)
  qed
qed

lemma bulk_wait_frame:
  assumes "bulk_wait w i g r s" "sched_inv s'" "sd_config s' = sd_config s" "sd_caller s' w = sd_caller s w"
    "sd_queues s' Class_Bulk = sd_queues s Class_Bulk @ ys" "sd_grants s' = sd_grants s"
    "sd_consecutive s' = sd_consecutive s"
  shows "bulk_wait w i g r s'"
  using assms unfolding bulk_wait_def by (metis (no_types, lifting) nth_append length_append trans_less_add1)

lemma bulk_wait_over:
  "bulk_wait w i g r s \<Longrightarrow> sched_inv s' \<Longrightarrow> sd_config s' = sd_config s \<Longrightarrow>
     sd_caller s' w \<noteq> Caller_New \<Longrightarrow> sd_caller s' w \<noteq> Caller_Queued \<Longrightarrow> bulk_wait w i g r s'"
  by (simp add: bulk_wait_def)

lemma acquire_frame:
  "sd_config (acquire x c s) = sd_config s" "sd_grants (acquire x c s) = sd_grants s"
  "sd_consecutive (acquire x c s) = sd_consecutive s"
  "w \<noteq> x \<Longrightarrow> sd_caller (acquire x c s) w = sd_caller s w"
  "\<exists>ys. sd_queues (acquire x c s) d = sd_queues s d @ ys"
  by (auto simp: acquire_def)

lemma try_acquire_frame:
  "sd_config (fst (try_acquire x s)) = sd_config s" "sd_grants (fst (try_acquire x s)) = sd_grants s"
  "sd_consecutive (fst (try_acquire x s)) = sd_consecutive s" "sd_queues (fst (try_acquire x s)) = sd_queues s"
  "w \<noteq> x \<Longrightarrow> sd_caller (fst (try_acquire x s)) w = sd_caller s w"
  by (auto simp: try_acquire_def)

lemma bulk_wait_cancel:
  assumes B: "bulk_wait w i g r s"
  shows "bulk_wait w i g r (cancel_wait x s)"
proof -
  have I: "sched_inv (cancel_wait x s)" "sd_config (cancel_wait x s) = sd_config s"
    using B cancel_wait_inv by (auto simp: bulk_wait_def cancel_wait_def split: caller.splits)
  show ?thesis
  proof (cases "sd_caller (cancel_wait x s) w = Caller_Queued")
    case False
    moreover have "sd_caller (cancel_wait x s) w \<noteq> Caller_New"
      using B by (auto simp: bulk_wait_def cancel_wait_def split: caller.splits)
    ultimately show ?thesis using bulk_wait_over [OF B I] by simp
  next
    case True
    then have w: "sd_caller s w = Caller_Queued" "x \<noteq> w"
      by (auto simp: cancel_wait_def split: caller.splits if_splits)
    then obtain p where p: "p \<le> i" "p < length (sd_queues s Class_Bulk)" "sd_queues s Class_Bulk ! p = w"
      "sd_grants s \<le> g + (i - p) * (r + 1) + nat (sd_consecutive s)"
      using B by (auto simp: bulk_wait_def)
    obtain q where q: "q \<le> p" "q < length (remove1 x (sd_queues s Class_Bulk))"
      "remove1 x (sd_queues s Class_Bulk) ! q = w"
      using nth_remove1_before [OF p(2), of x] p(3) w(2) by metis
    have "(i - p) * (r + 1) \<le> (i - q) * (r + 1)" using q(1) by (intro mult_right_mono) auto
    then have moved: "q \<le> i \<and> q < length (remove1 x (sd_queues s Class_Bulk))
        \<and> remove1 x (sd_queues s Class_Bulk) ! q = w
        \<and> sd_grants s \<le> g + (i - q) * (r + 1) + nat (sd_consecutive s)"
      using p(1,4) q by linarith
    have kept: "sd_queues (cancel_wait x s) Class_Bulk = sd_queues s Class_Bulk
        \<or> sd_queues (cancel_wait x s) Class_Bulk = remove1 x (sd_queues s Class_Bulk)"
      "sd_grants (cancel_wait x s) = sd_grants s" "sd_consecutive (cancel_wait x s) = sd_consecutive s"
      by (auto simp: cancel_wait_def split: caller.splits)
    then show ?thesis using B I True p moved unfolding bulk_wait_def by (metis caller.distinct(1))
  qed
qed

lemma bulk_wait_release:
  assumes B: "bulk_wait w i g r s"
  shows "bulk_wait w i g r (release_by x s)"
proof (cases "sd_caller s x = Caller_Holding")
  case True
  let ?s = "set_caller x Caller_Released s"
  have I: "sched_inv (release_slot ?s)"
    using B release_by_inv [of s x] True by (simp add: bulk_wait_def release_by_def)
  have Qs: "queues_inv ?s"
    using B True by (intro queues_inv_set_caller) (simp_all add: bulk_wait_def sched_inv_split)
  have cfg: "sd_config (release_slot ?s) = sd_config s" by (simp add: release_slot_config)
  have "bulk_wait w i g r (release_slot ?s)"
  proof (cases "sd_caller (release_slot ?s) w = Caller_Queued")
    case False
    moreover have "sd_caller (release_slot ?s) w \<noteq> Caller_New"
      using release_slot_caller [of ?s w] B by (auto simp: bulk_wait_def split: if_splits)
    ultimately show ?thesis using bulk_wait_over [OF B I cfg] by simp
  next
    case c: True
    then have "sd_caller s w = Caller_Queued"
      using release_slot_caller [of ?s w] by (auto split: if_splits)
    then obtain p where "p \<le> i" "p < length (sd_queues s Class_Bulk)" "sd_queues s Class_Bulk ! p = w"
      "sd_grants s \<le> g + (i - p) * (r + 1) + nat (sd_consecutive s)"
      using B by (auto simp: bulk_wait_def)
    then show ?thesis
      using bulk_wait_release_slot [OF Qs _ _ _ _ _ _ c, of r p i g] B I cfg c by (simp add: bulk_wait_def)
  qed
  then show ?thesis using True by (simp add: release_by_def)
qed (use B in \<open>simp add: release_by_def\<close>)

lemma bulk_wait_step:
  assumes B: "bulk_wait w i g r s"
  shows "bulk_wait w i g r (sched_step s a)"
proof (cases a)
  case (Sc_Acquire x c)
  have I: "sched_inv s" and new: "sd_caller s w \<noteq> Caller_New" using B by (simp_all add: bulk_wait_def)
  obtain ys where ys: "sd_queues (acquire x c s) Class_Bulk = sd_queues s Class_Bulk @ ys"
    using acquire_frame(5) by blast
  show ?thesis
  proof (cases "sd_caller s x = Caller_New")
    case True
    with new have "w \<noteq> x" by auto
    then have "bulk_wait w i g r (acquire x c s)"
      by (intro bulk_wait_frame [OF B _ _ _ ys]) (simp_all add: acquire_frame acquire_inv I True)
    then show ?thesis using Sc_Acquire True by simp
  qed (use B Sc_Acquire in simp)
next
  case (Sc_Try x)
  have I: "sched_inv s" and new: "sd_caller s w \<noteq> Caller_New" using B by (simp_all add: bulk_wait_def)
  show ?thesis
  proof (cases "sd_caller s x = Caller_New")
    case True
    with new have "w \<noteq> x" by auto
    then have "bulk_wait w i g r (fst (try_acquire x s))"
      by (intro bulk_wait_frame [OF B, of _ "[]"]) (simp_all add: try_acquire_frame try_acquire_inv I True)
    then show ?thesis using Sc_Try True by simp
  qed (use B Sc_Try in simp)
next
  case (Sc_Resume x)
  have I: "sched_inv (resume x s)" using B resume_inv by (simp add: bulk_wait_def)
  show ?thesis
  proof (cases "w = x \<and> sd_caller s x = Caller_Granted")
    case True
    then show ?thesis using Sc_Resume bulk_wait_over [OF B I] by (simp add: resume_def)
  next
    case False
    have "bulk_wait w i g r (resume x s)"
      by (intro bulk_wait_frame [OF B I, of "[]"]) (use False in \<open>auto simp: resume_def\<close>)
    then show ?thesis using Sc_Resume by simp
  qed
qed (simp_all add: bulk_wait_cancel bulk_wait_release B)

interpretation bulk_waits: invariant_ops sched_step "bulk_wait w i g r" for w i g r
  by unfold_locales (rule bulk_wait_step)

text \<open>A waiter that nobody cancels waits or has been handed a slot.\<close>

lemma uncancelled_run:
  "sched_inv s \<Longrightarrow> sd_caller s w \<in> {Caller_Queued, Caller_Granted, Caller_Holding, Caller_Released} \<Longrightarrow>
     Sc_Cancel w \<notin> set ops \<Longrightarrow>
     sd_caller (run_ops sched_step s ops) w \<in> {Caller_Queued, Caller_Granted, Caller_Holding, Caller_Released}"
proof (induction ops arbitrary: s)
  case Nil
  then show ?case by simp
next
  case (Cons a ops)
  have "sd_caller (sched_step s a) w \<in> {Caller_Queued, Caller_Granted, Caller_Holding, Caller_Released}"
  proof (cases a)
    case (Sc_Release x)
    then show ?thesis
      using Cons.prems(2) release_slot_caller [of "set_caller x Caller_Released s" w]
      by (auto simp: release_by_def split: if_splits)
  qed (use Cons.prems in \<open>auto simp: acquire_def try_acquire_def resume_def cancel_wait_def split: caller.splits\<close>)
  then show ?case using Cons sched_step_inv [OF Cons.prems(1)] by simp
qed

section \<open>Properties\<close>

text \<open>C26. Whatever callers acquire, try, are cancelled and release, the executions in flight are
  the callers that occupy a slot and never more than the limit; each queue keeps its bound, and
  nobody waits while a slot is free.\<close>

theorem scheduler_stays_within_limits:
  assumes "new_scheduler k = Inr s0" and "s = run_ops sched_step s0 ops"
  shows "sd_in_flight s = int (card {x. occupies (sd_caller s x)})
    \<and> finite {x. sd_caller s x = Caller_Holding}
    \<and> int (card {x. sd_caller s x = Caller_Holding}) \<le> sk_max_concurrent k
    \<and> int (length (sd_queues s c)) \<le> sk_max_queued k c
    \<and> (sd_queues s c = [] \<or> sd_in_flight s = sk_max_concurrent k)"
proof -
  have I: "sched_inv s" using admission.run_inv [OF new_scheduler_inv [OF assms(1)]] assms(2) by simp
  have cfg: "sd_config s = k"
    using assms run_config by (auto simp: new_scheduler_def split: if_splits)
  have sub: "{x. sd_caller s x = Caller_Holding} \<subseteq> occupants s" by (auto simp: occupants_def)
  then have "finite {x. sd_caller s x = Caller_Holding}"
    "card {x. sd_caller s x = Caller_Holding} \<le> card (occupants s)"
    using I by (auto simp: sched_inv_def intro: finite_subset card_mono)
  then show ?thesis using I cfg by (auto simp: sched_inv_def occupants_def)
qed

definition small_config :: sched_config where
  "small_config = \<lparr>sk_max_concurrent = 1, sk_max_queued = (\<lambda>_. 2), sk_starvation_ratio = 1\<rparr>"

definition small_scheduler :: scheduler where
  "small_scheduler = \<lparr>sd_config = small_config, sd_in_flight = 0, sd_queues = (\<lambda>_. []), sd_consecutive = 0,
     sd_shed = 0, sd_grants = 0, sd_caller = (\<lambda>_. Caller_New)\<rparr>"

lemma small_scheduler_new: "new_scheduler small_config = Inr small_scheduler"
  by (simp add: new_scheduler_def sched_problems_def sched_classes_def small_config_def small_scheduler_def)

lemmas sched_eval = small_scheduler_def small_config_def acquire_def try_acquire_def release_by_def
  release_slot_def next_waiter_def waiting_classes_def sched_classes_def pick_class_def Let_def
  set_caller_def set_queue_def resume_def cancel_wait_def remove_waiter_def

theorem scheduler_stays_within_limits_witness:
  "let s = run_ops sched_step small_scheduler
       [Sc_Acquire 0 Class_Interactive, Sc_Acquire 1 Class_Bulk, Sc_Acquire 2 Class_Interactive, Sc_Release 0]
   in sd_in_flight s = 1 \<and> int (card {x. occupies (sd_caller s x)}) = 1"
  unfolding Let_def
  using scheduler_stays_within_limits [OF small_scheduler_new refl, of
      "[Sc_Acquire 0 Class_Interactive, Sc_Acquire 1 Class_Bulk, Sc_Acquire 2 Class_Interactive, Sc_Release 0]"
      Class_Bulk]
  by (simp add: sched_eval)

text \<open>C27. A bulk waiter is not starved: with \<open>i\<close> bulk waiters ahead of it and a starvation ratio \<open>r\<close> it
  has been handed its slot by the time \<open>(i + 1) * (r + 1)\<close> slots have been passed on, whatever
  else arrives, unless it was cancelled.\<close>

theorem bulk_is_not_starved:
  assumes "new_scheduler k = Inr s0" and "s = run_ops sched_step s0 before"
    and "sk_starvation_ratio k = int r" and "0 < r"
    and "i < length (sd_queues s Class_Bulk)" and "w = sd_queues s Class_Bulk ! i"
    and "Sc_Cancel w \<notin> set after"
    and "sd_grants (run_ops sched_step s after) \<ge> sd_grants s + (i + 1) * (r + 1)"
  shows "sd_caller (run_ops sched_step s after) w \<in> {Caller_Granted, Caller_Holding, Caller_Released}"
proof -
  let ?s = "run_ops sched_step s after"
  have I: "sched_inv s" using admission.run_inv [OF new_scheduler_inv [OF assms(1)]] assms(2) by simp
  have k: "sd_config s = k" using assms(1,2) run_config by (auto simp: new_scheduler_def split: if_splits)
  have "w \<in> set (sd_queues s Class_Bulk)" using assms(5,6) by simp
  then have w: "sd_caller s w = Caller_Queued" using I unfolding sched_inv_def by blast
  have "bulk_wait w i (sd_grants s) r s"
    using I k w assms(3-6) by (auto simp: bulk_wait_def)
  then have B: "bulk_wait w i (sd_grants s) r ?s" by (rule bulk_waits.run_inv)
  have "sd_caller ?s w \<noteq> Caller_Queued"
  proof
    assume "sd_caller ?s w = Caller_Queued"
    then obtain p where p: "p \<le> i" "sd_grants ?s \<le> sd_grants s + (i - p) * (r + 1) + nat (sd_consecutive ?s)"
      using B by (auto simp: bulk_wait_def)
    have c: "nat (sd_consecutive ?s) \<le> r" using B by (auto simp: bulk_wait_def sched_inv_def)
    have "(i - p) * (r + 1) \<le> i * (r + 1)" by (intro mult_right_mono) auto
    moreover have "(i + 1) * (r + 1) = i * (r + 1) + (r + 1)" by simp
    ultimately show False using p(2) c assms(8) by linarith
  qed
  then show ?thesis using uncancelled_run [OF I _ assms(7)] w by auto
qed

theorem bulk_is_not_starved_witness:
  "let before = [Sc_Acquire 0 Class_Interactive, Sc_Acquire 1 Class_Bulk, Sc_Acquire 2 Class_Interactive,
         Sc_Acquire 3 Class_Interactive];
       after = [Sc_Release 0, Sc_Resume 2, Sc_Release 2]
   in sd_caller (run_ops sched_step (run_ops sched_step small_scheduler before) after) 1
        \<in> {Caller_Granted, Caller_Holding, Caller_Released}"
  unfolding Let_def
  by (rule bulk_is_not_starved [OF small_scheduler_new refl, of 1 0])
     (simp_all add: sched_eval)

text \<open>While an interactive and a bulk caller wait no background waiter is served, not even by the
  forced yield, which takes the lowest class and not the oldest waiter.\<close>

theorem background_waits_for_both:
  assumes "sd_queues s Class_Interactive \<noteq> []" and "sd_queues s Class_Bulk \<noteq> []"
  shows "sd_queues (release_slot s) Class_Background = sd_queues s Class_Background"
  using assms
  by (simp add: release_slot_def next_waiter_def waiting_classes_def sched_classes_def pick_class_def Let_def
      split: list.splits if_splits)

theorem background_waits_for_both_witness:
  "let s = run_ops sched_step small_scheduler
       [Sc_Acquire 0 Class_Interactive, Sc_Acquire 1 Class_Background, Sc_Acquire 2 Class_Interactive,
        Sc_Acquire 3 Class_Bulk, Sc_Acquire 4 Class_Interactive, Sc_Release 0, Sc_Resume 2]
   in sd_queues (release_slot s) Class_Background = [1] \<and> sd_caller (release_slot s) 3 = Caller_Granted"
  unfolding Let_def
  using background_waits_for_both [of "run_ops sched_step small_scheduler
       [Sc_Acquire 0 Class_Interactive, Sc_Acquire 1 Class_Background, Sc_Acquire 2 Class_Interactive,
        Sc_Acquire 3 Class_Bulk, Sc_Acquire 4 Class_Interactive, Sc_Release 0, Sc_Resume 2]"]
  by (simp add: sched_eval)

text \<open>A waiter whose context ends at the moment it is handed a slot leaves the slot taken: with one
  slot no execution is admitted afterwards, whatever the callers do.\<close>

lemma lost_stays:
  assumes "sd_caller s x = Caller_Lost" and "sched_inv s"
  shows "sd_caller (run_ops sched_step s ops) x = Caller_Lost"
  using assms
proof (induction ops arbitrary: s)
  case Nil
  then show ?case by simp
next
  case (Cons a ops)
  have "x \<notin> set (sd_queues s c)" for c using Cons.prems by (auto simp: sched_inv_def)
  then have "sd_caller (sched_step s a) x = Caller_Lost"
    using Cons.prems(1) release_slot_caller [of "set_caller y Caller_Released s" x for y]
    by (cases a) (auto simp: acquire_def try_acquire_def resume_def cancel_wait_def release_by_def
        split: caller.splits)
  then show ?case using Cons sched_step_inv by simp
qed

lemma lost_takes_the_only_slot:
  assumes I: "sched_inv s" and k: "sk_max_concurrent (sd_config s) = 1" and x: "sd_caller s x = Caller_Lost"
  shows "sd_in_flight (run_ops sched_step s ops) = 1 \<and> {y. sd_caller (run_ops sched_step s ops) y = Caller_Holding} = {}"
proof -
  define s' where "s' = run_ops sched_step s ops"
  have L: "sd_caller s' x = Caller_Lost" unfolding s'_def by (rule lost_stays [OF x I])
  have "sched_inv s'" unfolding s'_def by (rule admission.run_inv [OF I])
  then have f: "finite (occupants s')" "sd_in_flight s' = int (card (occupants s'))" "card (occupants s') \<le> 1"
    using k by (auto simp: sched_inv_def s'_def run_config)
  have "{x} \<subseteq> occupants s'" using L by simp
  then have only: "occupants s' = {x}" using f(1,3) card_seteq [of "occupants s'" "{x}"] by simp
  have "sd_caller s' y \<noteq> Caller_Holding" for y
  proof
    assume h: "sd_caller s' y = Caller_Holding"
    then have "y \<in> occupants s'" by simp
    then have "y = x" unfolding only by simp
    then show False using h L by simp
  qed
  then show ?thesis using f(2) only by (simp add: s'_def)
qed

theorem granted_and_cancelled_leaks_the_slot:
  "let s = run_ops sched_step small_scheduler
       ([Sc_Acquire 0 Class_Interactive, Sc_Acquire 1 Class_Interactive, Sc_Release 0, Sc_Cancel 1] @ ops)
   in sd_in_flight s = 1 \<and> {x. sd_caller s x = Caller_Holding} = {}"
  unfolding Let_def run_ops_append
proof (rule lost_takes_the_only_slot)
  show "sched_inv (run_ops sched_step small_scheduler
       [Sc_Acquire 0 Class_Interactive, Sc_Acquire 1 Class_Interactive, Sc_Release 0, Sc_Cancel 1])"
    by (rule admission.run_inv [OF new_scheduler_inv [OF small_scheduler_new]])
  show "sk_max_concurrent (sd_config (run_ops sched_step small_scheduler
       [Sc_Acquire 0 Class_Interactive, Sc_Acquire 1 Class_Interactive, Sc_Release 0, Sc_Cancel 1])) = 1"
    unfolding run_config by (simp add: small_scheduler_def small_config_def)
  show "sd_caller (run_ops sched_step small_scheduler
       [Sc_Acquire 0 Class_Interactive, Sc_Acquire 1 Class_Interactive, Sc_Release 0, Sc_Cancel 1]) 1 = Caller_Lost"
    by (simp add: sched_eval)
qed

end
