(* ===== verification/ToolLedger.thy ===== *)
theory ToolLedger
  imports Prelude "HOL-Library.AList"
begin

text \<open>
  The idempotency ledger (\<^verbatim>\<open>packages/go/toolruntime/idempotency.go\<close>) and the journal with its
  rollback (\<^verbatim>\<open>compensation.go\<close>).  The map of entries is an association list; an entry is known by
  the execution that claimed it, and its \<^verbatim>\<open>done\<close> channel is closed when that execution is in
  \<open>lg_done\<close>.  Keys are the derived fingerprints, results of any type \<open>'r\<close>.
\<close>

section \<open>The ledger\<close>

datatype ledger_state = Ledger_In_Flight | Ledger_Completed | Ledger_Failed

record 'r ledger_entry =
  le_key :: string
  le_tool :: string
  le_execution :: nat
  le_state :: ledger_state
  le_result :: "'r option"
  le_reason :: string
  le_claimed_at :: instant
  le_settled_at :: instant
  le_expires_at :: instant
  le_replays :: nat

definition le_settled :: "'r ledger_entry \<Rightarrow> bool" where
  "le_settled e = (le_state e \<noteq> Ledger_In_Flight)"

type_synonym 'r entries = "(string \<times> 'r ledger_entry) list"

record 'r ledger =
  lg_ttl :: duration
  lg_max :: nat
  lg_entries :: "'r entries"
  lg_order :: "string list"
  lg_done :: "nat set"

definition new_ledger :: "duration \<Rightarrow> int \<Rightarrow> 'r ledger" where
  "new_ledger ttl mx =
     \<lparr>lg_ttl = (if ttl \<le> 0 then 600 * second else ttl),
      lg_max = (if mx \<le> 0 then 10000 else nat mx),
      lg_entries = [], lg_order = [], lg_done = {}\<rparr>"

text \<open>Eviction from the front of the queue, at most \<open>n\<close> entries: what a claim does first.\<close>

definition expired :: "instant \<Rightarrow> 'r ledger_entry \<Rightarrow> bool" where
  "expired now e = (le_settled e \<and> \<not> now < le_expires_at e)"

fun evict_head_loop :: "nat \<Rightarrow> instant \<Rightarrow> string list \<Rightarrow> 'r entries \<Rightarrow> string list \<times> 'r entries" where
  "evict_head_loop 0 now ord es = (ord, es)"
| "evict_head_loop (Suc n) now [] es = ([], es)"
| "evict_head_loop (Suc n) now (k # ord) es =
     (case map_of es k of
        None \<Rightarrow> evict_head_loop (Suc n) now ord es
      | Some e \<Rightarrow>
          if \<not> le_settled e \<or> now < le_expires_at e then (k # ord, es)
          else evict_head_loop n now ord (AList.delete k es))"

definition with_queue :: "string list \<times> 'r entries \<Rightarrow> 'r ledger \<Rightarrow> 'r ledger" where
  "with_queue q l = l\<lparr>lg_order := fst q, lg_entries := snd q\<rparr>"

definition max_per_claim :: nat where "max_per_claim = 8"

definition evict_head :: "instant \<Rightarrow> 'r ledger \<Rightarrow> 'r ledger" where
  "evict_head now l = with_queue (evict_head_loop max_per_claim now (lg_order l) (lg_entries l)) l"

text \<open>Eviction of the \<open>n\<close> oldest settled entries: what a claim does last, over capacity.\<close>

fun overflow_loop :: "nat \<Rightarrow> string list \<Rightarrow> 'r entries \<Rightarrow> string list \<times> 'r entries" where
  "overflow_loop 0 ord es = (ord, es)"
| "overflow_loop (Suc n) [] es = ([], es)"
| "overflow_loop (Suc n) (k # ord) es =
     (case map_of es k of
        None \<Rightarrow> overflow_loop (Suc n) ord es
      | Some e \<Rightarrow>
          if \<not> le_settled e then (let (ord', es') = overflow_loop (Suc n) ord es in (k # ord', es'))
          else overflow_loop n ord (AList.delete k es))"

definition evict_overflow :: "'r ledger \<Rightarrow> 'r ledger" where
  "evict_overflow l =
     with_queue (overflow_loop (length (lg_entries l) - lg_max l) (lg_order l) (lg_entries l)) l"

datatype 'r claim_answer = Claimed | Replayed "'r ledger_entry" | Held "'r ledger_entry"

definition ledger_claim :: "instant \<Rightarrow> string \<Rightarrow> string \<Rightarrow> nat \<Rightarrow> 'r ledger \<Rightarrow> 'r ledger \<times> 'r claim_answer" where
  "ledger_claim now key tool x l0 =
     (let l = evict_head now l0 in
      case map_of (lg_entries l) key of
        Some e \<Rightarrow>
          (if le_settled e
           then let e' = e\<lparr>le_replays := le_replays e + 1\<rparr>
                in (l\<lparr>lg_entries := AList.update key e' (lg_entries l)\<rparr>, Replayed e')
           else (l, Held e))
      | None \<Rightarrow>
          (let e = \<lparr>le_key = key, le_tool = tool, le_execution = x, le_state = Ledger_In_Flight,
                    le_result = None, le_reason = [], le_claimed_at = now, le_settled_at = 0,
                    le_expires_at = now + lg_ttl l, le_replays = 0\<rparr>
           in (evict_overflow (l\<lparr>lg_entries := AList.update key e (lg_entries l),
                                 lg_order := lg_order l @ [key]\<rparr>), Claimed)))"

definition ledger_settle :: "instant \<Rightarrow> string \<Rightarrow> 'r option \<Rightarrow> string \<Rightarrow> bool \<Rightarrow> 'r ledger \<Rightarrow> 'r ledger" where
  "ledger_settle now key res reason ok l =
     (case map_of (lg_entries l) key of
        None \<Rightarrow> l
      | Some e \<Rightarrow>
          (if le_settled e then l
           else let e1 = e\<lparr>le_state := Ledger_Failed\<rparr>;
                    e2 = (if ok then e1\<lparr>le_state := Ledger_Completed, le_result := res\<rparr> else e1);
                    e3 = e2\<lparr>le_reason := reason, le_settled_at := now\<rparr>
                in l\<lparr>lg_entries := AList.update key e3 (lg_entries l),
                     lg_done := insert (le_execution e) (lg_done l)\<rparr>))"

definition ledger_release :: "string \<Rightarrow> 'r ledger \<Rightarrow> 'r ledger" where
  "ledger_release key l =
     (case map_of (lg_entries l) key of
        None \<Rightarrow> l
      | Some e \<Rightarrow>
          (if le_settled e then l
           else l\<lparr>lg_entries := AList.delete key (lg_entries l), lg_order := remove1 key (lg_order l),
                  lg_done := insert (le_execution e) (lg_done l)\<rparr>))"

text \<open>
  \<^verbatim>\<open>Await\<close> on the entry an execution claimed under a key: it blocks (\<open>None\<close>) until the entry's
  channel is closed, then answers with whatever entry the key has by then, or with none.
\<close>

definition ledger_await :: "string \<Rightarrow> nat \<Rightarrow> 'r ledger \<Rightarrow> 'r ledger_entry option option" where
  "ledger_await key x l = (if x \<in> lg_done l then Some (map_of (lg_entries l) key) else None)"

fun expired_loop :: "instant \<Rightarrow> string list \<Rightarrow> 'r entries \<Rightarrow> string list \<times> 'r entries" where
  "expired_loop now [] es = ([], es)"
| "expired_loop now (k # ord) es =
     (case map_of es k of
        None \<Rightarrow> expired_loop now ord es
      | Some e \<Rightarrow>
          if expired now e then expired_loop now ord (AList.delete k es)
          else (let (ord', es') = expired_loop now ord es in (k # ord', es')))"

definition ledger_sweep :: "instant \<Rightarrow> 'r ledger \<Rightarrow> 'r ledger \<times> nat" where
  "ledger_sweep now l =
     (let l' = (if lg_entries l = [] then l
                else with_queue (expired_loop now (lg_order l) (lg_entries l)) l)
      in (l', length (lg_entries l) - length (lg_entries l')))"

section \<open>The journal and its rollback\<close>

datatype effect_class = Effect_Read | Effect_Idempotent_Write | Effect_Write | Effect_Irreversible

definition mutating :: "effect_class \<Rightarrow> bool" where "mutating e = (e \<noteq> Effect_Read)"
definition auto_retryable :: "effect_class \<Rightarrow> bool" where "auto_retryable e = (e \<noteq> Effect_Irreversible)"

text \<open>
  Completed work: the step, its effect and the tool that can undo it, if it has one.  A tool is
  called with the world as it is and answers with the new world and an error or none.
\<close>

record 'w work =
  wk_step :: nat
  wk_effect :: effect_class
  wk_tool :: "('w \<Rightarrow> 'w \<times> string option) option"

definition journal_record :: "'w work \<Rightarrow> 'w work list \<Rightarrow> 'w work list" where
  "journal_record w j = (if \<not> mutating (wk_effect w) then j else j @ [w])"

record undo_outcome =
  uo_step :: nat
  uo_compensated :: bool
  uo_skipped :: bool
  uo_err :: "string option"

definition undo :: "'w work \<Rightarrow> 'w \<Rightarrow> 'w \<times> undo_outcome" where
  "undo w s =
     (case wk_tool w of
        None \<Rightarrow> (s, \<lparr>uo_step = wk_step w, uo_compensated = False, uo_skipped = True, uo_err = None\<rparr>)
      | Some t \<Rightarrow>
          (let (s', err) = t s
           in (s', \<lparr>uo_step = wk_step w, uo_compensated = (err = None), uo_skipped = False, uo_err = err\<rparr>)))"

record rollback_report =
  rr_outcomes :: "undo_outcome list"
  rr_compensated :: nat
  rr_skipped :: nat
  rr_failed :: nat
  rr_complete :: bool

definition report_outcome :: "undo_outcome \<Rightarrow> rollback_report \<Rightarrow> rollback_report" where
  "report_outcome out r =
     (let r1 = r\<lparr>rr_outcomes := rr_outcomes r @ [out]\<rparr> in
      if uo_skipped out then r1\<lparr>rr_skipped := rr_skipped r1 + 1\<rparr>
      else if uo_err out \<noteq> None then r1\<lparr>rr_failed := rr_failed r1 + 1\<rparr>
      else r1\<lparr>rr_compensated := rr_compensated r1 + 1\<rparr>)"

text \<open>The loop from the last work down, the work given in the order it is undone.\<close>

fun rollback_loop :: "'w work list \<Rightarrow> 'w \<Rightarrow> rollback_report \<Rightarrow> 'w \<times> rollback_report" where
  "rollback_loop [] s r = (s, r)"
| "rollback_loop (w # ws) s r =
     (let (s', out) = undo w s in rollback_loop ws s' (report_outcome out r))"

definition rollback :: "'w work list \<Rightarrow> 'w \<Rightarrow> 'w \<times> rollback_report" where
  "rollback j s =
     (let (s', r) = rollback_loop (rev j) s
            \<lparr>rr_outcomes = [], rr_compensated = 0, rr_skipped = 0, rr_failed = 0, rr_complete = False\<rparr>
      in (s', r\<lparr>rr_complete := (rr_failed r = 0 \<and> rr_skipped r = 0)\<rparr>))"

section \<open>What the eviction loops drop\<close>

text \<open>Entries that only lost some of which \<open>P\<close> holds.\<close>

definition evicts :: "('r ledger_entry \<Rightarrow> bool) \<Rightarrow> 'r entries \<Rightarrow> 'r entries \<Rightarrow> bool" where
  "evicts P es es' \<longleftrightarrow> (\<forall>k. map_of es' k = map_of es k
     \<or> map_of es' k = None \<and> (\<exists>e. map_of es k = Some e \<and> P e))"

lemma evicts_refl [simp]: "evicts P es es"
  by (simp add: evicts_def)

lemma evicts_delete: "map_of es k = Some e \<Longrightarrow> P e \<Longrightarrow> evicts P (AList.delete k es) es' \<Longrightarrow> evicts P es es'"
  by (auto simp: evicts_def AList.delete_conv' split: if_splits)

lemma evicts_dom: "evicts P es es' \<Longrightarrow> dom (map_of es') \<subseteq> dom (map_of es)"
  unfolding evicts_def by (metis domIff subsetI)

text \<open>A queue and the entries it orders.\<close>

definition queue_ok :: "string list \<Rightarrow> 'r entries \<Rightarrow> bool" where
  "queue_ok ord es \<longleftrightarrow> distinct ord \<and> distinct (map fst es) \<and> set ord \<subseteq> dom (map_of es)"

lemma queue_ok_tl: "queue_ok (k # ord) es \<Longrightarrow> queue_ok ord es"
  by (simp add: queue_ok_def)

lemma queue_ok_delete: "queue_ok (k # ord) es \<Longrightarrow> queue_ok ord (AList.delete k es)"
  by (auto simp: queue_ok_def AList.delete_conv' AList.distinct_delete)

text \<open>What each loop returns: the queue cut to what is left, and every key outside it kept.\<close>

definition loop_ok :: "('r ledger_entry \<Rightarrow> bool) \<Rightarrow> string list \<Rightarrow> 'r entries \<Rightarrow> string list \<times> 'r entries \<Rightarrow> bool" where
  "loop_ok P ord es q \<longleftrightarrow> evicts P es (snd q) \<and> queue_ok (fst q) (snd q)
     \<and> set (fst q) = set ord \<inter> dom (map_of (snd q)) \<and> dom (map_of es) - set ord \<subseteq> dom (map_of (snd q))"

lemma loop_ok_stop: "queue_ok ord es \<Longrightarrow> loop_ok P ord es (ord, es)"
  by (auto simp: loop_ok_def queue_ok_def)

lemma loop_ok_drop:
  assumes "queue_ok (k # ord) es" and "map_of es k = Some e" and "P e"
    and "loop_ok P ord (AList.delete k es) q"
  shows "loop_ok P (k # ord) es q"
proof -
  have "k \<notin> dom (map_of (snd q))"
    using evicts_dom [of P "AList.delete k es" "snd q"] assms(4) by (auto simp: loop_ok_def AList.delete_conv')
  then show ?thesis
    using assms evicts_delete [of es k e P] by (auto simp: loop_ok_def AList.delete_conv')
qed

lemma loop_ok_keep:
  assumes "queue_ok (k # ord) es" and "loop_ok P ord es (ord', es')"
  shows "loop_ok P (k # ord) es (k # ord', es')"
  using assms by (auto simp: loop_ok_def queue_ok_def)

lemma evict_head_loop_ok: "queue_ok ord es \<Longrightarrow> loop_ok (expired now) ord es (evict_head_loop n now ord es)"
proof (induction n now ord es rule: evict_head_loop.induct)
  case (3 n now k ord es)
  then obtain e where e: "map_of es k = Some e" by (auto simp: queue_ok_def)
  show ?case
  proof (cases "\<not> le_settled e \<or> now < le_expires_at e")
    case True
    then show ?thesis using e loop_ok_stop [OF 3(3)] by simp
  next
    case False
    then have "expired now e" by (simp add: expired_def)
    then show ?thesis
      using loop_ok_drop [OF 3(3) e, of "expired now"] 3(2) [OF e False] queue_ok_delete [OF 3(3)] e False
      by simp
  qed
qed (simp_all add: loop_ok_stop)

lemma overflow_loop_ok: "queue_ok ord es \<Longrightarrow> loop_ok le_settled ord es (overflow_loop n ord es)"
proof (induction n ord es rule: overflow_loop.induct)
  case (3 n k ord es)
  then obtain e where e: "map_of es k = Some e" by (auto simp: queue_ok_def)
  show ?case
  proof (cases "le_settled e")
    case True
    then show ?thesis using loop_ok_drop [OF 3(4) e] 3(3) [OF e] queue_ok_delete [OF 3(4)] e by simp
  next
    case False
    then show ?thesis
      using loop_ok_keep [OF 3(4), of _ "fst (overflow_loop (Suc n) ord es)" "snd (overflow_loop (Suc n) ord es)"]
        3(2) [OF e] queue_ok_tl [OF 3(4)] e
      by (simp add: case_prod_unfold Let_def)
  qed
qed (simp_all add: loop_ok_stop)

lemma expired_loop_ok: "queue_ok ord es \<Longrightarrow> loop_ok (expired now) ord es (expired_loop now ord es)"
proof (induction now ord es rule: expired_loop.induct)
  case (2 now k ord es)
  then obtain e where e: "map_of es k = Some e" by (auto simp: queue_ok_def)
  show ?case
  proof (cases "expired now e")
    case True
    then show ?thesis using loop_ok_drop [OF 2(4) e] 2(2) [OF e] queue_ok_delete [OF 2(4)] e by simp
  next
    case False
    then show ?thesis
      using loop_ok_keep [OF 2(4), of _ "fst (expired_loop now ord es)" "snd (expired_loop now ord es)"]
        2(3) [OF e] queue_ok_tl [OF 2(4)] e
      by (simp add: case_prod_unfold Let_def)
  qed
qed (simp_all add: loop_ok_stop)

section \<open>The ledger's invariant\<close>

text \<open>
  The queue orders exactly the keys that have an entry; each entry is under its own key, no
  execution has two, and a channel is closed exactly when its entry is settled.
\<close>

definition lg_inv :: "'r ledger \<Rightarrow> bool" where
  "lg_inv l \<longleftrightarrow> queue_ok (lg_order l) (lg_entries l) \<and> set (lg_order l) = dom (map_of (lg_entries l))
     \<and> (\<forall>k e. map_of (lg_entries l) k = Some e \<longrightarrow>
          le_key e = k \<and> (le_settled e \<longleftrightarrow> le_execution e \<in> lg_done l))
     \<and> (\<forall>k e k' e'. map_of (lg_entries l) k = Some e \<longrightarrow> map_of (lg_entries l) k' = Some e' \<longrightarrow>
          le_execution e = le_execution e' \<longrightarrow> k = k')"

abbreviation entry_of :: "'r ledger \<Rightarrow> string \<Rightarrow> 'r ledger_entry option" where
  "entry_of l k \<equiv> map_of (lg_entries l) k"

lemma new_ledger_inv: "lg_inv (new_ledger ttl mx)"
  by (simp add: lg_inv_def new_ledger_def queue_ok_def)

lemma lg_inv_entry: "lg_inv l \<Longrightarrow> entry_of l k = Some e \<Longrightarrow> le_key e = k \<and> (le_settled e \<longleftrightarrow> le_execution e \<in> lg_done l)"
  by (simp add: lg_inv_def)

lemma lg_inv_execution:
  "lg_inv l \<Longrightarrow> entry_of l k = Some e \<Longrightarrow> entry_of l k' = Some e' \<Longrightarrow> le_execution e = le_execution e' \<Longrightarrow> k = k'"
  unfolding lg_inv_def by blast

lemma with_queue_sel [simp]:
  "lg_entries (with_queue q l) = snd q" "lg_order (with_queue q l) = fst q"
  "lg_done (with_queue q l) = lg_done l" "lg_max (with_queue q l) = lg_max l" "lg_ttl (with_queue q l) = lg_ttl l"
  by (simp_all add: with_queue_def)

lemma lg_inv_with_queue:
  assumes "lg_inv l" and "loop_ok P (lg_order l) (lg_entries l) q"
  shows "lg_inv (with_queue q l)"
proof -
  have keep: "entry_of l k = Some e" if "map_of (snd q) k = Some e" for k e
    using assms(2) that by (metis (no_types, lifting) evicts_def loop_ok_def option.distinct(1))
  have "set (fst q) = dom (map_of (snd q))"
    using assms evicts_dom [of P "lg_entries l" "snd q"] by (auto simp: loop_ok_def lg_inv_def)
  then show ?thesis
    using assms keep unfolding lg_inv_def with_queue_sel by (metis (no_types, lifting) loop_ok_def)
qed

lemma lg_inv_queue: "lg_inv l \<Longrightarrow> queue_ok (lg_order l) (lg_entries l)"
  by (simp add: lg_inv_def)

lemma evict_head_inv: "lg_inv l \<Longrightarrow> lg_inv (evict_head now l)"
  unfolding evict_head_def by (rule lg_inv_with_queue [OF _ evict_head_loop_ok [OF lg_inv_queue]])

lemma evict_overflow_inv: "lg_inv l \<Longrightarrow> lg_inv (evict_overflow l)"
  unfolding evict_overflow_def by (rule lg_inv_with_queue [OF _ overflow_loop_ok [OF lg_inv_queue]])

lemma evict_head_evicts: "lg_inv l \<Longrightarrow> evicts (expired now) (lg_entries l) (lg_entries (evict_head now l))"
  using evict_head_loop_ok [OF lg_inv_queue] by (auto simp: evict_head_def loop_ok_def)

lemma evict_overflow_evicts: "lg_inv l \<Longrightarrow> evicts le_settled (lg_entries l) (lg_entries (evict_overflow l))"
  using overflow_loop_ok [OF lg_inv_queue] by (auto simp: evict_overflow_def loop_ok_def)

lemma evict_sel [simp]:
  "lg_done (evict_head now l) = lg_done l" "lg_max (evict_head now l) = lg_max l"
  "lg_done (evict_overflow l) = lg_done l" "lg_max (evict_overflow l) = lg_max l"
  by (simp_all add: evict_head_def evict_overflow_def)

lemma update_entry_inv:
  assumes "lg_inv l" and "entry_of l key = Some e" and "le_key e' = key" and "le_execution e' = le_execution e"
    and "D = lg_done l \<or> D = insert (le_execution e) (lg_done l)" and "le_settled e' \<longleftrightarrow> le_execution e \<in> D"
  shows "lg_inv (l\<lparr>lg_entries := AList.update key e' (lg_entries l), lg_done := D\<rparr>)"
  using assms unfolding lg_inv_def queue_ok_def
  by (auto simp: AList.update_conv' distinct_update split: if_splits)

lemma new_entry_inv:
  assumes "lg_inv l" and "entry_of l key = None" and "le_key e = key" and "\<not> le_settled e"
    and "le_execution e \<notin> lg_done l" and "\<forall>k e'. entry_of l k = Some e' \<longrightarrow> le_execution e' \<noteq> le_execution e"
  shows "lg_inv (l\<lparr>lg_entries := AList.update key e (lg_entries l), lg_order := lg_order l @ [key]\<rparr>)"
proof -
  have "key \<notin> set (lg_order l)" using assms(1,2) by (auto simp: lg_inv_def)
  moreover have "le_execution e \<noteq> le_execution e' \<and> le_execution e' \<noteq> le_execution e"
    if "entry_of l k = Some e'" for k e'
    using assms(6) that by metis
  ultimately show ?thesis
    using assms(1-5) unfolding lg_inv_def queue_ok_def
    by (auto simp: AList.update_conv' distinct_update split: if_splits)
qed

lemma release_entry_inv:
  assumes "lg_inv l" and "entry_of l key = Some e"
  shows "lg_inv (l\<lparr>lg_entries := AList.delete key (lg_entries l), lg_order := remove1 key (lg_order l),
           lg_done := insert (le_execution e) (lg_done l)\<rparr>)"
proof -
  have "k = key" if "entry_of l k = Some e'" "le_execution e' = le_execution e" for k e'
    using lg_inv_execution [OF assms(1) that(1) assms(2) that(2)] .
  then show ?thesis
    using assms unfolding lg_inv_def queue_ok_def
    by (auto simp: AList.delete_conv' AList.distinct_delete split: if_splits)
qed

lemma ledger_settle_inv: "lg_inv l \<Longrightarrow> lg_inv (ledger_settle now key res reason ok l)"
proof (cases "entry_of l key")
  case (Some e)
  assume l: "lg_inv l"
  show ?thesis
  proof (cases "le_settled e")
    case False
    then show ?thesis
      using update_entry_inv [OF l Some, of "e\<lparr>le_state := (if ok then Ledger_Completed else Ledger_Failed),
          le_result := (if ok then res else le_result e), le_reason := reason, le_settled_at := now\<rparr>"
          "insert (le_execution e) (lg_done l)"] lg_inv_entry [OF l Some] Some
      by (auto simp: ledger_settle_def Let_def le_settled_def)
  qed (use l Some in \<open>simp add: ledger_settle_def\<close>)
qed (simp add: ledger_settle_def)

lemma ledger_release_inv: "lg_inv l \<Longrightarrow> lg_inv (ledger_release key l)"
  using release_entry_inv by (auto simp: ledger_release_def split: option.splits)

lemma ledger_sweep_inv: "lg_inv l \<Longrightarrow> lg_inv (fst (ledger_sweep now l))"
  by (auto simp: ledger_sweep_def Let_def intro: lg_inv_with_queue [OF _ expired_loop_ok [OF lg_inv_queue]])

section \<open>What each operation does to the entries\<close>

text \<open>A key's entry is kept, or it was settled and is gone.\<close>

definition kept_or_dropped :: "'r ledger \<Rightarrow> 'r ledger \<Rightarrow> string \<Rightarrow> bool" where
  "kept_or_dropped l l' k \<longleftrightarrow> entry_of l' k = entry_of l k
     \<or> entry_of l' k = None \<and> (\<exists>e. entry_of l k = Some e \<and> le_settled e)"

lemma evicts_kept: "evicts P (lg_entries l) (lg_entries l') \<Longrightarrow> (\<And>e. P e \<Longrightarrow> le_settled e) \<Longrightarrow> kept_or_dropped l l' k"
  unfolding evicts_def kept_or_dropped_def by metis

lemma kept_or_dropped_trans:
  "kept_or_dropped l l1 k \<Longrightarrow> kept_or_dropped l1 l2 k \<Longrightarrow> kept_or_dropped l l2 k"
  unfolding kept_or_dropped_def by metis

lemma evict_head_kept: "lg_inv l \<Longrightarrow> kept_or_dropped l (evict_head now l) k"
  by (rule evicts_kept [OF evict_head_evicts]) (simp_all add: expired_def)

lemma evict_overflow_kept: "lg_inv l \<Longrightarrow> kept_or_dropped l (evict_overflow l) k"
  by (rule evicts_kept [OF evict_overflow_evicts])

lemma sweep_kept: "lg_inv l \<Longrightarrow> kept_or_dropped l (fst (ledger_sweep now l)) k"
  using evicts_kept [of "expired now" l "with_queue (expired_loop now (lg_order l) (lg_entries l)) l"]
    expired_loop_ok [OF lg_inv_queue, of l now]
  by (auto simp: ledger_sweep_def Let_def loop_ok_def expired_def kept_or_dropped_def)

lemma claim_cases:
  assumes "lg_inv l" and "x \<notin> lg_done l" and "\<forall>k e. entry_of l k = Some e \<longrightarrow> le_execution e \<noteq> x"
  obtains
    (claimed) l' e where "ledger_claim now key tool x l = (l', Claimed)" "lg_inv l'" "lg_done l' = lg_done l"
      "entry_of l' key = Some e" "le_execution e = x" "\<not> le_settled e"
      "\<forall>e. entry_of l key = Some e \<longrightarrow> le_settled e" "\<forall>k. k \<noteq> key \<longrightarrow> kept_or_dropped l l' k"
  | (replayed) l' e e' where "ledger_claim now key tool x l = (l', Replayed e')" "lg_inv l'" "lg_done l' = lg_done l"
      "entry_of l key = Some e" "le_settled e" "e' = e\<lparr>le_replays := le_replays e + 1\<rparr>" "entry_of l' key = Some e'"
      "\<forall>k. k \<noteq> key \<longrightarrow> kept_or_dropped l l' k"
  | (held) l' e where "ledger_claim now key tool x l = (l', Held e)" "lg_inv l'" "lg_done l' = lg_done l"
      "entry_of l key = Some e" "\<not> le_settled e" "\<forall>k. kept_or_dropped l l' k"
proof -
  let ?l = "evict_head now l"
  have i: "lg_inv ?l" by (rule evict_head_inv [OF assms(1)])
  have kd: "kept_or_dropped l ?l k" for k by (rule evict_head_kept [OF assms(1)])
  show thesis
  proof (cases "entry_of ?l key")
    case None
    define e :: "'a ledger_entry" where "e = \<lparr>le_key = key, le_tool = tool, le_execution = x, le_state = Ledger_In_Flight,
        le_result = None, le_reason = [], le_claimed_at = now, le_settled_at = 0,
        le_expires_at = now + lg_ttl ?l, le_replays = 0\<rparr>"
    let ?l2 = "?l\<lparr>lg_entries := AList.update key e (lg_entries ?l), lg_order := lg_order ?l @ [key]\<rparr>"
    have ns: "\<not> le_settled e" by (simp add: e_def le_settled_def)
    have "\<forall>k e'. entry_of ?l k = Some e' \<longrightarrow> le_execution e' \<noteq> x"
      using kd assms(3) unfolding kept_or_dropped_def by (metis option.distinct(1))
    then have i2: "lg_inv ?l2"
      using new_entry_inv [OF i None, of e] assms(2) ns by (simp add: e_def)
    have k2: "kept_or_dropped ?l2 (evict_overflow ?l2) k" for k by (rule evict_overflow_kept [OF i2])
    show thesis
    proof (rule claimed [of "evict_overflow ?l2" e])
      show "ledger_claim now key tool x l = (evict_overflow ?l2, Claimed)"
        using None by (simp add: ledger_claim_def Let_def e_def)
      show "entry_of (evict_overflow ?l2) key = Some e"
        using k2 [of key] ns by (auto simp: kept_or_dropped_def AList.update_conv')
      show "\<forall>e. entry_of l key = Some e \<longrightarrow> le_settled e"
        using kd [of key] None by (auto simp: kept_or_dropped_def)
      show "\<forall>k. k \<noteq> key \<longrightarrow> kept_or_dropped l (evict_overflow ?l2) k"
      proof (intro allI impI)
        fix k assume "k \<noteq> key"
        then have "kept_or_dropped ?l ?l2 k" by (simp add: kept_or_dropped_def AList.update_conv')
        from kept_or_dropped_trans [OF kept_or_dropped_trans [OF kd [of k] this] k2 [of k]]
        show "kept_or_dropped l (evict_overflow ?l2) k" .
      qed
    qed (use i2 ns in \<open>simp_all add: evict_overflow_inv e_def\<close>)
  next
    case (Some e)
    then have e: "entry_of l key = Some e"
      using kd [of key] by (auto simp: kept_or_dropped_def)
    show thesis
    proof (cases "le_settled e")
      case True
      let ?e = "e\<lparr>le_replays := le_replays e + 1\<rparr>"
      have same_done: "m\<lparr>lg_done := lg_done l\<rparr> = m" if "lg_done m = lg_done l" for m :: "'a ledger"
        using that by simp
      show thesis
      proof (rule replayed [of "?l\<lparr>lg_entries := AList.update key ?e (lg_entries ?l)\<rparr>" ?e e])
        show "lg_inv (?l\<lparr>lg_entries := AList.update key ?e (lg_entries ?l)\<rparr>)"
          using update_entry_inv [OF i Some, of ?e "lg_done ?l"] lg_inv_entry [OF i Some] same_done
          by (simp add: le_settled_def)
        show "\<forall>k. k \<noteq> key \<longrightarrow> kept_or_dropped l (?l\<lparr>lg_entries := AList.update key ?e (lg_entries ?l)\<rparr>) k"
          using kd by (auto simp: kept_or_dropped_def AList.update_conv')
      qed (use True Some e in \<open>simp_all add: ledger_claim_def Let_def AList.update_conv'\<close>)
    next
      case False
      show thesis
        by (rule held [of ?l e]) (use False Some e i kd in \<open>simp_all add: ledger_claim_def Let_def\<close>)
    qed
  qed
qed

lemma settle_entry:
  "entry_of (ledger_settle now key res reason ok l) k =
     (case entry_of l key of
        Some e \<Rightarrow> if \<not> le_settled e \<and> k = key
                  then Some (e\<lparr>le_state := (if ok then Ledger_Completed else Ledger_Failed),
                       le_result := (if ok then res else le_result e), le_reason := reason, le_settled_at := now\<rparr>)
                  else entry_of l k
      | None \<Rightarrow> entry_of l k)"
  by (auto simp: ledger_settle_def Let_def AList.update_conv' split: option.splits)

lemma settle_done:
  "lg_done (ledger_settle now key res reason ok l) =
     (case entry_of l key of Some e \<Rightarrow> if \<not> le_settled e then insert (le_execution e) (lg_done l) else lg_done l
      | None \<Rightarrow> lg_done l)"
  by (auto simp: ledger_settle_def Let_def split: option.splits)

lemma release_entry:
  "entry_of (ledger_release key l) k =
     (case entry_of l key of Some e \<Rightarrow> if \<not> le_settled e \<and> k = key then None else entry_of l k
      | None \<Rightarrow> entry_of l k)"
  by (auto simp: ledger_release_def AList.delete_conv' split: option.splits)

lemma release_done:
  "lg_done (ledger_release key l) =
     (case entry_of l key of Some e \<Rightarrow> if \<not> le_settled e then insert (le_execution e) (lg_done l) else lg_done l
      | None \<Rightarrow> lg_done l)"
  by (auto simp: ledger_release_def split: option.splits)

lemma sweep_done [simp]: "lg_done (fst (ledger_sweep now l)) = lg_done l"
  by (simp add: ledger_sweep_def Let_def)

section \<open>Bounds and exactness\<close>

lemma length_entries: "distinct (map fst es) \<Longrightarrow> length es = card (dom (map_of es))"
  by (metis distinct_card dom_map_of_conv_image_fst length_map set_map)

lemma length_delete:
  assumes "distinct (map fst es)" and "map_of es k = Some e"
  shows "Suc (length (AList.delete k es)) = length es"
proof -
  have "finite (dom (map_of es))" "k \<in> dom (map_of es)" using assms(2) by (auto simp: finite_dom_map_of)
  then have "Suc (card (dom (map_of es) - {k})) = card (dom (map_of es))" by (rule card_Suc_Diff1)
  then show ?thesis
    using length_entries [OF assms(1)] length_entries [OF AList.distinct_delete [OF assms(1), of k]]
    by (simp add: AList.delete_conv')
qed

lemma loop_ok_gone: "loop_ok P ord es q \<Longrightarrow> map_of es k = None \<Longrightarrow> map_of (snd q) k = None"
  unfolding loop_ok_def evicts_def by metis

lemma loop_ok_kept: "loop_ok P ord es q \<Longrightarrow> map_of es k = Some e \<Longrightarrow> \<not> P e \<Longrightarrow> map_of (snd q) k = Some e"
  unfolding loop_ok_def evicts_def by (metis option.inject)

lemma inflight_kept:
  "kept_or_dropped l l' k \<Longrightarrow> entry_of l k = Some e \<Longrightarrow> \<not> le_settled e \<Longrightarrow> entry_of l' k = Some e"
  unfolding kept_or_dropped_def by (metis option.inject)

lemma overflow_loop_length:
  assumes "queue_ok ord es"
  shows "length (snd (overflow_loop n ord es)) \<le> length es - n
    \<or> (\<forall>k \<in> set ord. \<forall>e. map_of (snd (overflow_loop n ord es)) k = Some e \<longrightarrow> \<not> le_settled e)"
  using assms
proof (induction n ord es rule: overflow_loop.induct)
  case (3 n k ord es)
  then obtain e where e: "map_of es k = Some e" by (auto simp: queue_ok_def)
  show ?case
  proof (cases "le_settled e")
    case True
    have "Suc (length (AList.delete k es)) = length es"
      using length_delete [OF _ e] 3(4) by (simp add: queue_ok_def)
    moreover have "map_of (snd (overflow_loop n ord (AList.delete k es))) k = None"
      by (rule loop_ok_gone [OF overflow_loop_ok [OF queue_ok_delete [OF 3(4)]]]) (simp add: AList.delete_conv')
    ultimately show ?thesis using 3(3) [OF e] queue_ok_delete [OF 3(4)] True e by auto
  next
    case False
    have "map_of (snd (overflow_loop (Suc n) ord es)) k = Some e"
      by (rule loop_ok_kept [OF overflow_loop_ok [OF queue_ok_tl [OF 3(4)]] e False])
    then show ?thesis using 3(2) [OF e] queue_ok_tl [OF 3(4)] False e by (auto simp: case_prod_unfold Let_def)
  qed
qed simp_all

lemma expired_loop_exact:
  assumes "queue_ok ord es" and "k \<in> set ord" and "map_of es k = Some e"
  shows "map_of (snd (expired_loop now ord es)) k = (if expired now e then None else Some e)"
  using assms
proof (induction now ord es rule: expired_loop.induct)
  case (2 now h ord es)
  from 2(4) obtain d where d: "map_of es h = Some d" by (auto simp: queue_ok_def)
  show ?case
  proof (cases "expired now d")
    case True
    let ?es = "AList.delete h es"
    have q: "queue_ok ord ?es" by (rule queue_ok_delete [OF 2(4)])
    have "map_of (snd (expired_loop now ord ?es)) h = None"
      by (rule loop_ok_gone [OF expired_loop_ok [OF q]]) (simp add: AList.delete_conv')
    then show ?thesis using 2(2) [OF d True q] 2(5,6) d True by (cases "k = h") auto
  next
    case False
    have q: "queue_ok ord es" by (rule queue_ok_tl [OF 2(4)])
    have "map_of (snd (expired_loop now ord es)) h = Some d"
      by (rule loop_ok_kept [OF expired_loop_ok [OF q] d False])
    then show ?thesis using 2(3) [OF d False q] 2(5,6) d False by (cases "k = h") (auto simp: case_prod_unfold Let_def)
  qed
qed simp

lemma rollback_loop_result:
  "rollback_loop ws s r = (s', r') \<Longrightarrow>
     s' = fold (\<lambda>w s. fst (undo w s)) ws s
     \<and> map uo_step (rr_outcomes r') = map uo_step (rr_outcomes r) @ map wk_step ws
     \<and> (\<exists>outs. rr_outcomes r' = rr_outcomes r @ outs
          \<and> rr_compensated r' = rr_compensated r + length (filter uo_compensated outs)
          \<and> rr_skipped r' = rr_skipped r + length (filter uo_skipped outs)
          \<and> rr_failed r' = rr_failed r + length (filter (\<lambda>u. uo_err u \<noteq> None) outs))"
proof (induction ws arbitrary: s r)
  case Nil
  then show ?case by simp
next
  case (Cons w ws)
  obtain t u where u: "undo w s = (t, u)" by (cases "undo w s")
  have c: "uo_step u = wk_step w" "uo_skipped u \<longrightarrow> \<not> uo_compensated u \<and> uo_err u = None"
    "\<not> uo_skipped u \<longrightarrow> (uo_compensated u \<longleftrightarrow> uo_err u = None)"
    using u by (auto simp: undo_def split: option.splits prod.splits)
  have "rollback_loop ws t (report_outcome u r) = (s', r')" using Cons.prems u by simp
  from Cons.IH [OF this] obtain outs where
    o: "s' = fold (\<lambda>w s. fst (undo w s)) ws t"
      "map uo_step (rr_outcomes r') = map uo_step (rr_outcomes (report_outcome u r)) @ map wk_step ws"
      "rr_outcomes r' = rr_outcomes (report_outcome u r) @ outs"
      "rr_compensated r' = rr_compensated (report_outcome u r) + length (filter uo_compensated outs)"
      "rr_skipped r' = rr_skipped (report_outcome u r) + length (filter uo_skipped outs)"
      "rr_failed r' = rr_failed (report_outcome u r) + length (filter (\<lambda>u. uo_err u \<noteq> None) outs)"
    by blast
  show ?case
    using o c u by (intro conjI exI [of _ "u # outs"]) (auto simp: report_outcome_def Let_def)
qed

lemma rollback_outcomes:
  assumes "rollback j s = (s', r)"
  shows "s' = fold (\<lambda>w s. fst (undo w s)) (rev j) s \<and> map uo_step (rr_outcomes r) = rev (map wk_step j)"
proof -
  let ?r = "\<lparr>rr_outcomes = [], rr_compensated = 0, rr_skipped = 0, rr_failed = 0, rr_complete = False\<rparr>"
  obtain s1 r1 where r: "rollback_loop (rev j) s ?r = (s1, r1)" by (cases "rollback_loop (rev j) s ?r")
  show ?thesis using rollback_loop_result [OF r] r assms by (auto simp: rollback_def rev_map)
qed

section \<open>Properties\<close>

text \<open>The ledger never grows past its capacity but for work in flight: after a fresh claim it
  holds no more entries than its capacity, or every entry it holds is in flight; and no claim
  drops an entry that is in flight.\<close>

theorem ledger_is_bounded:
  assumes "lg_inv l" and "x \<notin> lg_done l" and "\<forall>k e. entry_of l k = Some e \<longrightarrow> le_execution e \<noteq> x"
    and "ledger_claim now key tool x l = (l', a)"
  shows "(a = Claimed \<longrightarrow> length (lg_entries l') \<le> lg_max l
        \<or> (\<forall>k e. entry_of l' k = Some e \<longrightarrow> \<not> le_settled e))
    \<and> (\<forall>k e. entry_of l k = Some e \<and> \<not> le_settled e \<longrightarrow> entry_of l' k = Some e)"
proof
  show "\<forall>k e. entry_of l k = Some e \<and> \<not> le_settled e \<longrightarrow> entry_of l' k = Some e"
  proof (intro allI impI)
    fix k e assume "entry_of l k = Some e \<and> \<not> le_settled e"
    then have h: "entry_of l k = Some e" "\<not> le_settled e" by simp_all
    show "entry_of l' k = Some e"
    proof (cases rule: claim_cases [OF assms(1-3), of now key tool])
      case (1 m d)
      then show ?thesis using assms(4) h inflight_kept [of l m k] by (cases "k = key") auto
    next
      case (2 m d d2)
      then show ?thesis using assms(4) h inflight_kept [of l m k] by (cases "k = key") auto
    next
      case (3 m d)
      then show ?thesis using assms(4) h inflight_kept [of l m k] by auto
    qed
  qed
  show "a = Claimed \<longrightarrow> length (lg_entries l') \<le> lg_max l
      \<or> (\<forall>k e. entry_of l' k = Some e \<longrightarrow> \<not> le_settled e)"
  proof
    assume a: "a = Claimed"
    let ?l = "evict_head now l"
    from assms(4) a obtain e where l': "entry_of ?l key = None"
        "l' = evict_overflow (?l\<lparr>lg_entries := AList.update key e (lg_entries ?l), lg_order := lg_order ?l @ [key]\<rparr>)"
        "e = \<lparr>le_key = key, le_tool = tool, le_execution = x, le_state = Ledger_In_Flight,
        le_result = None, le_reason = [], le_claimed_at = now, le_settled_at = 0,
        le_expires_at = now + lg_ttl ?l, le_replays = 0\<rparr>"
      by (auto simp: ledger_claim_def Let_def split: option.splits if_splits)
    let ?l2 = "?l\<lparr>lg_entries := AList.update key e (lg_entries ?l), lg_order := lg_order ?l @ [key]\<rparr>"
    have "\<forall>k e'. entry_of ?l k = Some e' \<longrightarrow> le_execution e' \<noteq> x"
      using evict_head_kept [OF assms(1)] assms(3) unfolding kept_or_dropped_def by (metis option.distinct(1))
    then have i: "lg_inv ?l2"
      using new_entry_inv [OF evict_head_inv [OF assms(1)] l'(1), of e] assms(2) l'(3)
      by (simp add: le_settled_def)
    then have "set (lg_order ?l2) = dom (entry_of ?l2)" by (simp add: lg_inv_def)
    then show "length (lg_entries l') \<le> lg_max l \<or> (\<forall>k e. entry_of l' k = Some e \<longrightarrow> \<not> le_settled e)"
      using overflow_loop_length [OF lg_inv_queue [OF i], of "length (lg_entries ?l2) - lg_max ?l2"]
        evicts_dom [OF evict_overflow_evicts [OF i]] l'(2)
      by (fastforce simp: evict_overflow_def)
  qed
qed

text \<open>A sweep drops exactly the settled entries whose window has passed; an entry in flight,
  however old, and every entry within its window stays as it is.\<close>

theorem sweep_is_exact:
  assumes "lg_inv l"
  shows "entry_of (fst (ledger_sweep now l)) k =
      (case entry_of l k of Some e \<Rightarrow> if le_settled e \<and> le_expires_at e \<le> now then None else Some e | None \<Rightarrow> None)"
proof (cases "entry_of l k")
  case None
  then show ?thesis using sweep_kept [OF assms, of now k] by (auto simp: kept_or_dropped_def)
next
  case (Some e)
  then have "k \<in> set (lg_order l)" "lg_entries l \<noteq> []" using assms by (auto simp: lg_inv_def)
  then show ?thesis
    using expired_loop_exact [OF lg_inv_queue [OF assms] _ Some, of now] Some
    by (auto simp: ledger_sweep_def Let_def expired_def)
qed

text \<open>A rollback attempts every recorded step, in the reverse of the order they completed in,
  each on the world the one before left, also after one has failed; its counts are the outcomes'
  and it is complete exactly when every step was undone.\<close>

theorem rollback_undoes_in_reverse:
  "case rollback j s of (s', r) \<Rightarrow>
     s' = fold (\<lambda>w s. fst (undo w s)) (rev j) s
     \<and> map uo_step (rr_outcomes r) = rev (map wk_step j)
     \<and> rr_compensated r = length (filter uo_compensated (rr_outcomes r))
     \<and> rr_skipped r = length (filter uo_skipped (rr_outcomes r))
     \<and> rr_failed r = length (filter (\<lambda>u. uo_err u \<noteq> None) (rr_outcomes r))
     \<and> rr_complete r = list_all (\<lambda>u. \<not> uo_skipped u \<and> uo_err u = None) (rr_outcomes r)"
proof -
  let ?r = "\<lparr>rr_outcomes = [], rr_compensated = 0, rr_skipped = 0, rr_failed = 0, rr_complete = False\<rparr>"
  obtain s' r where r: "rollback_loop (rev j) s ?r = (s', r)" by (cases "rollback_loop (rev j) s ?r")
  show ?thesis
    using rollback_loop_result [OF r] r
    by (auto simp: rollback_def rev_map list_all_iff filter_empty_conv)
qed

section \<open>Witnesses\<close>

text \<open>A ledger of one place with one entry, settled; its window ends at 110.\<close>

definition one_settled :: "nat ledger" where
  "one_settled = ledger_settle 12 ''a'' (Some 7) ''completed'' True (fst (ledger_claim 10 ''a'' ''t'' 0 (new_ledger 100 1)))"

lemmas ledger_eval = one_settled_def ledger_settle_def ledger_claim_def new_ledger_def evict_head_def
  evict_overflow_def with_queue_def max_per_claim_def le_settled_def Let_def numeral_eq_Suc

lemma one_settled_inv: "lg_inv one_settled"
proof -
  have "lg_inv (fst (ledger_claim 10 ''a'' ''t'' 0 (new_ledger 100 1 :: nat ledger)))"
    by (rule claim_cases [where l = "new_ledger 100 1 :: nat ledger" and x = 0 and now = 10
          and key = "''a''" and tool = "''t''"])
       (simp_all add: new_ledger_inv, simp_all add: new_ledger_def)
  then show ?thesis unfolding one_settled_def by (rule ledger_settle_inv)
qed

theorem ledger_is_bounded_witness:
  "snd (ledger_claim 20 ''b'' ''t'' 1 one_settled) = Claimed
   \<and> length (lg_entries (fst (ledger_claim 20 ''b'' ''t'' 1 one_settled))) = 1"
proof -
  have "x \<notin> lg_done one_settled" "\<forall>k e. entry_of one_settled k = Some e \<longrightarrow> le_execution e \<noteq> x"
    if "x = 1" for x using that by (auto simp: ledger_eval split: if_splits)
  from ledger_is_bounded [OF one_settled_inv this surjective_pairing, of 1 20 "''b''" "''t''"]
  show ?thesis by (simp add: ledger_eval)
qed

theorem sweep_is_exact_witness:
  "entry_of (fst (ledger_sweep 109 one_settled)) ''a'' \<noteq> None \<and> entry_of (fst (ledger_sweep 110 one_settled)) ''a'' = None"
  using sweep_is_exact [OF one_settled_inv, of 109 "''a''"] sweep_is_exact [OF one_settled_inv, of 110 "''a''"]
  by (simp add: ledger_eval)

end
