(* ===== verification/ToolExecutor.thy ===== *)
theory ToolExecutor
  imports ToolLedger
begin

text \<open>
  The execution of one tool call (\<^verbatim>\<open>Execute\<close> of \<^verbatim>\<open>packages/go/toolruntime/executor.go\<close>) over the
  shared ledger.  Each call of \<^verbatim>\<open>Execute\<close> is a process known by its execution identifier; its steps
  run between those of any other execution.  What the permission engine, the validators, the
  sandbox, the budget, the breaker, the tool and the backoff answer is the step's input, so nothing
  is assumed of them; \<^verbatim>\<open>Execute\<close>'s own decisions are the step function.
\<close>

section \<open>Requests and where an execution is\<close>

text \<open>What is fixed of an execution: the key it derives, whether it goes through the ledger (its
  effect is mutating, or reads are deduplicated), its effect, and its attempts after
  the budget was applied.\<close>

record xrequest =
  xq_key :: string
  xq_tool :: string
  xq_effect :: effect_class
  xq_max_attempts :: nat

definition uses_ledger :: "bool \<Rightarrow> xrequest \<Rightarrow> bool" where
  "uses_ledger dedupe_reads q = (mutating (xq_effect q) \<or> dedupe_reads)"

text \<open>\<^verbatim>\<open>res.Phase\<close> as the attempt loop leaves it.\<close>

datatype xphase = Ph_None | Ph_Invoke | Ph_Validate_Out

datatype 'r xresult =
    R_Refused
  | R_Cancelled
  | R_Duplicate
  | R_Replayed "'r option"
  | R_Replayed_Failure string
  | R_Failed xphase
  | R_Done 'r

text \<open>
  Before anything, about to claim in a round, awaiting another execution's entry, about to enter
  the sandbox, about to start an attempt, inside the tool, ended.
\<close>

datatype 'r xpc =
    X_Start
  | X_Claim nat
  | X_Wait nat nat
  | X_Admit
  | X_Attempt nat xphase
  | X_Invoke nat
  | X_Ended "'r xresult"

text \<open>
  The inputs: permission, input budget and input validation passed or not; the clock at a claim;
  a wake-up of a waiter, or its cancellation; the sandbox's answer; time left and the
  breaker's answer before an attempt; and what came of an invocation: a valid result, a result that
  breaks the contract or the output budget, or an error with its reason and whether it is retryable
  and the backoff was slept through.
\<close>

datatype 'r xinput =
    In_Permission bool
  | In_Now instant
  | In_Wake
  | In_Cancel
  | In_Sandbox bool
  | In_Check instant string bool
  | In_Valid instant 'r
  | In_Invalid instant
  | In_Error instant string bool

section \<open>The steps of an execution\<close>

definition replay_of :: "'r ledger_entry \<Rightarrow> 'r xresult" where
  "replay_of e = (if le_state e = Ledger_Failed then R_Replayed_Failure (le_reason e) else R_Replayed (le_result e))"

definition max_rounds :: nat where "max_rounds = 3"

definition after_claim :: "nat \<Rightarrow> 'r claim_answer \<Rightarrow> 'r xpc" where
  "after_claim round a =
     (case a of
        Claimed \<Rightarrow> X_Admit
      | Replayed e \<Rightarrow> X_Ended (replay_of e)
      | Held e \<Rightarrow> X_Wait round (le_execution e))"

text \<open>\<^verbatim>\<open>Await\<close> answers with an error when the entry was released, and every error of it is
  returned as a cancellation.\<close>

definition after_await :: "nat \<Rightarrow> 'r ledger_entry option \<Rightarrow> 'r xpc" where
  "after_await round cur =
     (case cur of
        None \<Rightarrow> X_Ended R_Cancelled
      | Some e \<Rightarrow> if le_settled e then X_Ended (replay_of e) else X_Claim (round + 1))"

text \<open>The terminal failure: what was tried is stored, what was not is released by the deferred
  function.\<close>

definition close_claim :: "bool \<Rightarrow> xrequest \<Rightarrow> xphase \<Rightarrow> instant \<Rightarrow> string \<Rightarrow> 'r ledger \<Rightarrow> 'r ledger" where
  "close_claim dr q ph now reason l =
     (if \<not> uses_ledger dr q then l
      else if ph = Ph_Invoke then ledger_settle now (xq_key q) None reason False l
      else ledger_release (xq_key q) l)"

definition invocation_failed :: "xrequest \<Rightarrow> nat \<Rightarrow> bool \<Rightarrow> bool" where
  "invocation_failed q n again = (n \<ge> xq_max_attempts q \<or> \<not> again \<or> \<not> auto_retryable (xq_effect q))"

text \<open>One step: the next place, the ledger, and whether the tool was invoked.  An input that does
  not belong to the place is no step.\<close>

definition attempt_step :: "bool \<Rightarrow> xrequest \<Rightarrow> nat \<Rightarrow> xphase \<Rightarrow> instant \<Rightarrow> string \<Rightarrow> bool \<Rightarrow> 'r ledger
    \<Rightarrow> 'r xpc \<times> 'r ledger \<times> bool" where
  "attempt_step dr q n ph t why ok l =
     (if n \<le> xq_max_attempts q \<and> ok then (X_Invoke n, l, True)
      else (X_Ended (R_Failed ph), close_claim dr q ph t why l, False))"

definition claim_step :: "xrequest \<Rightarrow> nat \<Rightarrow> nat \<Rightarrow> instant \<Rightarrow> 'r ledger \<Rightarrow> 'r xpc \<times> 'r ledger \<times> bool" where
  "claim_step q x n t l =
     (if n < max_rounds
      then (let (l', a) = ledger_claim t (xq_key q) (xq_tool q) x l in (after_claim n a, l', False))
      else (X_Ended R_Duplicate, l, False))"

definition invoke_step :: "bool \<Rightarrow> xrequest \<Rightarrow> nat \<Rightarrow> 'r xinput \<Rightarrow> 'r ledger \<Rightarrow> 'r xpc \<times> 'r ledger \<times> bool" where
  "invoke_step dr q n i l =
     (case i of
        In_Valid t r \<Rightarrow>
          (X_Ended (R_Done r),
           if uses_ledger dr q then ledger_settle t (xq_key q) (Some r) ''completed'' True l else l, False)
      | In_Invalid t \<Rightarrow>
          (X_Ended (R_Failed Ph_Validate_Out), close_claim dr q Ph_Validate_Out t [] l, False)
      | In_Error t why again \<Rightarrow>
          (if invocation_failed q n again
           then (X_Ended (R_Failed Ph_Invoke), close_claim dr q Ph_Invoke t why l, False)
           else (X_Attempt (n + 1) Ph_Invoke, l, False))
      | _ \<Rightarrow> (X_Invoke n, l, False))"

definition exec_step :: "bool \<Rightarrow> xrequest \<Rightarrow> nat \<Rightarrow> 'r xinput \<Rightarrow> 'r xpc \<Rightarrow> 'r ledger \<Rightarrow> 'r xpc \<times> 'r ledger \<times> bool" where
  "exec_step dr q x i pc l =
     (case pc of
        X_Start \<Rightarrow>
          (case i of
             In_Permission ok \<Rightarrow>
               (if \<not> ok then X_Ended R_Refused else if uses_ledger dr q then X_Claim 0 else X_Admit, l, False)
           | _ \<Rightarrow> (pc, l, False))
      | X_Claim n \<Rightarrow> (case i of In_Now t \<Rightarrow> claim_step q x n t l | _ \<Rightarrow> (pc, l, False))
      | X_Wait n y \<Rightarrow>
          (case i of
             In_Wake \<Rightarrow>
               (case ledger_await (xq_key q) y l of None \<Rightarrow> (pc, l, False) | Some cur \<Rightarrow> (after_await n cur, l, False))
           | In_Cancel \<Rightarrow> (X_Ended R_Cancelled, l, False)
           | _ \<Rightarrow> (pc, l, False))
      | X_Admit \<Rightarrow>
          (case i of
             In_Sandbox ok \<Rightarrow>
               (if ok then (X_Attempt 1 Ph_None, l, False)
                else (X_Ended (R_Failed Ph_None), close_claim dr q Ph_None 0 [] l, False))
           | _ \<Rightarrow> (pc, l, False))
      | X_Attempt n ph \<Rightarrow>
          (case i of In_Check t why ok \<Rightarrow> attempt_step dr q n ph t why ok l | _ \<Rightarrow> (pc, l, False))
      | X_Invoke n \<Rightarrow> invoke_step dr q n i l
      | X_Ended r \<Rightarrow> (pc, l, False))"

section \<open>All executions on one ledger\<close>

text \<open>
  The system: the ledger, every execution's place, and for the statements the invocations in
  order, the keys whose stored outcome the ledger dropped, and the keys released by an execution
  that had invoked its tool.
\<close>

record 'r xsys =
  xs_ledger :: "'r ledger"
  xs_pc :: "nat \<Rightarrow> 'r xpc"
  xs_calls :: "nat list"
  xs_dropped :: "string set"
  xs_voided :: "string set"

datatype 'r xop = Act nat "'r xinput" | Sweep instant

definition settled_in :: "'r ledger \<Rightarrow> string \<Rightarrow> bool" where
  "settled_in l k = (case map_of (lg_entries l) k of None \<Rightarrow> False | Some e \<Rightarrow> le_settled e)"

definition in_flight_in :: "'r ledger \<Rightarrow> string \<Rightarrow> bool" where
  "in_flight_in l k = (case map_of (lg_entries l) k of None \<Rightarrow> False | Some e \<Rightarrow> \<not> le_settled e)"

definition dropped_keys :: "'r ledger \<Rightarrow> 'r ledger \<Rightarrow> string set" where
  "dropped_keys l l' = {k. settled_in l k \<and> \<not> settled_in l' k}"

definition voided_keys :: "nat list \<Rightarrow> nat \<Rightarrow> string \<Rightarrow> 'r ledger \<Rightarrow> 'r ledger \<Rightarrow> string set" where
  "voided_keys calls x key l l' =
     (if x \<in> set calls \<and> in_flight_in l key \<and> map_of (lg_entries l') key = None then {key} else {})"

fun xs_step :: "bool \<Rightarrow> (nat \<Rightarrow> xrequest) \<Rightarrow> 'r xsys \<Rightarrow> 'r xop \<Rightarrow> 'r xsys" where
  "xs_step dr rq s (Act x i) =
     (let l = xs_ledger s; (pc, l', called) = exec_step dr (rq x) x i (xs_pc s x) l
      in s\<lparr>xs_ledger := l', xs_pc := (xs_pc s)(x := pc),
           xs_calls := (if called then xs_calls s @ [x] else xs_calls s),
           xs_dropped := xs_dropped s \<union> dropped_keys l l',
           xs_voided := xs_voided s \<union> voided_keys (xs_calls s) x (xq_key (rq x)) l l'\<rparr>)"
| "xs_step dr rq s (Sweep t) =
     (let l = xs_ledger s; l' = fst (ledger_sweep t l)
      in s\<lparr>xs_ledger := l', xs_dropped := xs_dropped s \<union> dropped_keys l l'\<rparr>)"

definition xs_start :: "duration \<Rightarrow> int \<Rightarrow> 'r xsys" where
  "xs_start ttl mx = \<lparr>xs_ledger = new_ledger ttl mx, xs_pc = (\<lambda>_. X_Start), xs_calls = [],
     xs_dropped = {}, xs_voided = {}\<rparr>"

section \<open>The invariant\<close>

text \<open>An execution past its claim that has not ended; and one that has not claimed.\<close>

fun past_claim :: "'r xpc \<Rightarrow> bool" where
  "past_claim X_Admit = True"
| "past_claim (X_Attempt n ph) = True"
| "past_claim (X_Invoke n) = True"
| "past_claim _ = False"

fun before_claim :: "'r xpc \<Rightarrow> bool" where
  "before_claim X_Start = True"
| "before_claim (X_Claim n) = True"
| "before_claim (X_Wait n y) = True"
| "before_claim _ = False"

fun in_ledger :: "'r xpc \<Rightarrow> bool" where
  "in_ledger (X_Claim n) = True"
| "in_ledger (X_Wait n y) = True"
| "in_ledger _ = False"

definition holds_key :: "bool \<Rightarrow> (nat \<Rightarrow> xrequest) \<Rightarrow> 'r xsys \<Rightarrow> nat \<Rightarrow> bool" where
  "holds_key dr rq s x \<longleftrightarrow> uses_ledger dr (rq x) \<and> past_claim (xs_pc s x)"

text \<open>An execution that holds its key has the key's entry, in flight; an entry in flight has such
  an execution; and an execution that has not claimed has neither an entry nor a closed channel.\<close>

definition hold_inv :: "bool \<Rightarrow> (nat \<Rightarrow> xrequest) \<Rightarrow> 'r xsys \<Rightarrow> bool" where
  "hold_inv dr rq s \<longleftrightarrow> lg_inv (xs_ledger s)
     \<and> (\<forall>x. holds_key dr rq s x \<longrightarrow>
          (\<exists>e. entry_of (xs_ledger s) (xq_key (rq x)) = Some e \<and> \<not> le_settled e \<and> le_execution e = x))
     \<and> (\<forall>k e. entry_of (xs_ledger s) k = Some e \<and> \<not> le_settled e \<longrightarrow>
          holds_key dr rq s (le_execution e) \<and> xq_key (rq (le_execution e)) = k)
     \<and> (\<forall>x. before_claim (xs_pc s x) \<longrightarrow> x \<notin> lg_done (xs_ledger s)
          \<and> (\<forall>k e. entry_of (xs_ledger s) k = Some e \<longrightarrow> le_execution e \<noteq> x))
     \<and> (\<forall>x. in_ledger (xs_pc s x) \<longrightarrow> uses_ledger dr (rq x))"

text \<open>Every step is one of these.\<close>

lemma exec_step_kinds:
  assumes "exec_step dr q x i pc l = (pc', l', called)"
  obtains
    (quiet) "l' = l" "uses_ledger dr q \<longrightarrow> past_claim pc' = past_claim pc" "before_claim pc' \<longrightarrow> before_claim pc"
      "in_ledger pc' \<longrightarrow> uses_ledger dr q \<or> in_ledger pc"
      "called \<longrightarrow> (\<exists>n ph. pc = X_Attempt n ph)"
  | (claim) n t a where "pc = X_Claim n" "ledger_claim t (xq_key q) (xq_tool q) x l = (l', a)"
      "pc' = after_claim n a" "\<not> called"
  | (settle) r t res why ok where "past_claim pc" "uses_ledger dr q" "pc' = X_Ended r" "\<not> called"
      "l' = ledger_settle t (xq_key q) res why ok l"
  | (release) r where "past_claim pc" "uses_ledger dr q" "pc' = X_Ended r" "\<not> called"
      "l' = ledger_release (xq_key q) l"
proof (cases pc)
  case X_Start
  show thesis by (rule quiet) (use assms X_Start in \<open>auto simp: exec_step_def split: xinput.splits if_splits\<close>)
next
  case (X_Claim n)
  show thesis
  proof (cases "\<exists>t. i = In_Now t \<and> n < max_rounds")
    case True
    then obtain t where t: "i = In_Now t" "n < max_rounds" by blast
    obtain m a where "ledger_claim t (xq_key q) (xq_tool q) x l = (m, a)" by (cases "ledger_claim t (xq_key q) (xq_tool q) x l")
    then show thesis using claim [of n t a] assms X_Claim t by (auto simp: exec_step_def claim_step_def)
  next
    case False
    show thesis
      by (rule quiet) (use assms X_Claim False in \<open>auto simp: exec_step_def claim_step_def split: xinput.splits if_splits\<close>)
  qed
next
  case (X_Wait n y)
  show thesis
    by (rule quiet) (use assms X_Wait in \<open>auto simp: exec_step_def after_await_def split: xinput.splits option.splits if_splits\<close>)
next
  case X_Admit
  show thesis
  proof (cases "i = In_Sandbox False \<and> uses_ledger dr q")
    case True
    then show thesis using release assms X_Admit by (auto simp: exec_step_def close_claim_def)
  next
    case False
    show thesis
      by (rule quiet) (use assms X_Admit False in \<open>auto simp: exec_step_def close_claim_def split: xinput.splits if_splits\<close>)
  qed
next
  case (X_Attempt n ph)
  show thesis
  proof (cases "\<exists>t why ok. i = In_Check t why ok \<and> \<not> (n \<le> xq_max_attempts q \<and> ok) \<and> uses_ledger dr q")
    case True
    then show thesis
      using settle release assms X_Attempt by (auto simp: exec_step_def attempt_step_def close_claim_def split: if_splits)
  next
    case False
    show thesis
      by (rule quiet) (use assms X_Attempt False in
        \<open>auto simp: exec_step_def attempt_step_def close_claim_def split: xinput.splits if_splits\<close>)
  qed
next
  case (X_Invoke n)
  show thesis
  proof (cases "uses_ledger dr q \<and> (\<exists>r. pc' = X_Ended r)")
    case True
    then show thesis
      using settle release assms X_Invoke
      by (auto simp: exec_step_def invoke_step_def close_claim_def split: if_splits xinput.splits)
  next
    case False
    show thesis
      by (rule quiet) (use assms X_Invoke False in
        \<open>auto simp: exec_step_def invoke_step_def close_claim_def split: xinput.splits if_splits\<close>)
  qed
next
  case (X_Ended r)
  show thesis by (rule quiet) (use assms X_Ended in \<open>auto simp: exec_step_def\<close>)
qed

lemma exec_step_ended: "exec_step dr q x i (X_Ended r) l = (X_Ended r, l, False)"
  by (simp add: exec_step_def)

lemma hold_invD:
  assumes "hold_inv dr rq s"
  shows "lg_inv (xs_ledger s)"
    and "holds_key dr rq s x \<Longrightarrow>
      \<exists>e. entry_of (xs_ledger s) (xq_key (rq x)) = Some e \<and> \<not> le_settled e \<and> le_execution e = x"
    and "entry_of (xs_ledger s) k = Some e \<Longrightarrow> \<not> le_settled e \<Longrightarrow>
      holds_key dr rq s (le_execution e) \<and> xq_key (rq (le_execution e)) = k"
    and "before_claim (xs_pc s x) \<Longrightarrow> x \<notin> lg_done (xs_ledger s)
      \<and> (\<forall>k e. entry_of (xs_ledger s) k = Some e \<longrightarrow> le_execution e \<noteq> x)"
    and "in_ledger (xs_pc s x) \<Longrightarrow> uses_ledger dr (rq x)"
  using assms unfolding hold_inv_def by blast+

lemma kept_execution:
  assumes "kept_or_dropped l l' k" and "entry_of l' k = Some e"
  shows "entry_of l k = Some e"
  using assms by (auto simp: kept_or_dropped_def)

text \<open>The system after a step of one execution, as far as the invariant looks.\<close>

definition moved :: "'r xsys \<Rightarrow> nat \<Rightarrow> 'r xpc \<Rightarrow> 'r ledger \<Rightarrow> 'r xsys \<Rightarrow> bool" where
  "moved s x pc l' s' \<longleftrightarrow> xs_ledger s' = l' \<and> xs_pc s' = (xs_pc s)(x := pc)"

lemma hold_quiet:
  assumes "hold_inv dr rq s" and "moved s x pc (xs_ledger s) s'"
    and "uses_ledger dr (rq x) \<longrightarrow> past_claim pc = past_claim (xs_pc s x)"
    and "before_claim pc \<longrightarrow> before_claim (xs_pc s x)"
    and "in_ledger pc \<longrightarrow> uses_ledger dr (rq x) \<or> in_ledger (xs_pc s x)"
  shows "hold_inv dr rq s'"
proof -
  have h: "holds_key dr rq s' y = holds_key dr rq s y" for y
    using assms(2,3) by (auto simp: holds_key_def moved_def)
  have b: "before_claim (xs_pc s' y) \<Longrightarrow> before_claim (xs_pc s y)" for y
    using assms(2,4) by (auto simp: moved_def split: if_splits)
  have i: "in_ledger (xs_pc s' y) \<Longrightarrow> uses_ledger dr (rq y)" for y
    using assms(2,5) hold_invD(5) [OF assms(1), of y] by (auto simp: moved_def split: if_splits)
  show ?thesis
    unfolding hold_inv_def h using hold_invD [OF assms(1)] assms(2) b i by (auto simp: moved_def)
qed

lemma hold_ledger:
  assumes "hold_inv dr rq s" and "lg_inv l'" and "lg_done l' = lg_done (xs_ledger s)"
    and "\<And>k. kept_or_dropped (xs_ledger s) l' k" and "moved s x (xs_pc s x) l' s'"
  shows "hold_inv dr rq s'"
proof -
  have pc: "xs_pc s' = xs_pc s" "xs_ledger s' = l'" using assms(5) by (auto simp: moved_def)
  then have h: "holds_key dr rq s' y = holds_key dr rq s y" for y by (simp add: holds_key_def)
  show ?thesis
    unfolding hold_inv_def h pc
  proof (intro conjI allI impI)
    fix y assume "holds_key dr rq s y"
    then show "\<exists>e. entry_of l' (xq_key (rq y)) = Some e \<and> \<not> le_settled e \<and> le_execution e = y"
      using hold_invD(2) [OF assms(1), of y] inflight_kept [OF assms(4)] by blast
  next
    fix k e assume "entry_of l' k = Some e \<and> \<not> le_settled e"
    then show "holds_key dr rq s (le_execution e)" "xq_key (rq (le_execution e)) = k"
      using hold_invD(3) [OF assms(1), of k e] kept_execution [OF assms(4)] by blast+
  next
    fix y assume "before_claim (xs_pc s y)"
    then show "y \<notin> lg_done l'" using hold_invD(4) [OF assms(1)] assms(3) by simp
    fix k e assume "entry_of l' k = Some e"
    then show "le_execution e \<noteq> y"
      using hold_invD(4) [OF assms(1) \<open>before_claim (xs_pc s y)\<close>] kept_execution [OF assms(4)] by blast
  qed (use assms hold_invD(5) [OF assms(1)] in auto)
qed

text \<open>A claim by an execution that is about to claim.\<close>

lemma hold_claim:
  assumes h: "hold_inv dr rq s" and pc: "xs_pc s x = X_Claim n"
    and c: "ledger_claim t (xq_key (rq x)) (xq_tool (rq x)) x (xs_ledger s) = (l', a)"
    and m: "moved s x (after_claim n a) l' s'"
  shows "hold_inv dr rq s'"
proof -
  let ?l = "xs_ledger s" and ?k = "xq_key (rq x)"
  have u: "uses_ledger dr (rq x)" using hold_invD(5) [OF h, of x] pc by simp
  have b: "x \<notin> lg_done ?l" "\<forall>k e. entry_of ?l k = Some e \<longrightarrow> le_execution e \<noteq> x"
    using hold_invD(4) [OF h, of x] pc by auto
  show ?thesis
  proof (cases rule: claim_cases [OF hold_invD(1) [OF h] b, of t ?k "xq_tool (rq x)"])
    case (1 m1 e)
    then have l': "l' = m1" "a = Claimed" using c by simp_all
    have pcs: "xs_pc s' = (xs_pc s)(x := X_Admit)" "xs_ledger s' = l'"
      using m l' by (auto simp: moved_def after_claim_def)
    have hk: "holds_key dr rq s' y = (y = x \<or> holds_key dr rq s y)" for y
      using u pc by (auto simp: holds_key_def pcs)
    have other: "xq_key (rq y) \<noteq> ?k" if "holds_key dr rq s y" for y
      using hold_invD(2) [OF h that] 1(7) by auto
    show ?thesis
      unfolding hold_inv_def hk pcs(2)
    proof (intro conjI allI impI)
      show "lg_inv l'" using 1 l' by simp
    next
      fix y assume "y = x \<or> holds_key dr rq s y"
      then show "\<exists>e. entry_of l' (xq_key (rq y)) = Some e \<and> \<not> le_settled e \<and> le_execution e = y"
      proof
        assume "y = x" then show ?thesis using 1 l' by blast
      next
        assume y: "holds_key dr rq s y"
        then show ?thesis
          using hold_invD(2) [OF h y] inflight_kept [of ?l l' "xq_key (rq y)"] 1(8) l' other [OF y] by blast
      qed
    next
      fix k d assume d: "entry_of l' k = Some d \<and> \<not> le_settled d"
      have "(le_execution d = x \<or> holds_key dr rq s (le_execution d)) \<and> xq_key (rq (le_execution d)) = k"
      proof (cases "k = ?k")
        case True then show ?thesis using d 1(4,5) l' by auto
      next
        case False
        then have "entry_of ?l k = Some d" using kept_execution [of ?l l' k d] 1(8) l' d by auto
        then show ?thesis using hold_invD(3) [OF h] d by blast
      qed
      then show "le_execution d = x \<or> holds_key dr rq s (le_execution d)" "xq_key (rq (le_execution d)) = k"
        by simp_all
    next
      fix y assume y: "before_claim (xs_pc s' y)"
      then have y': "y \<noteq> x" "before_claim (xs_pc s y)" by (auto simp: pcs split: if_splits)
      then show "y \<notin> lg_done l'" using hold_invD(4) [OF h, of y] 1(3) l' by auto
      fix k d assume d: "entry_of l' k = Some d"
      show "le_execution d \<noteq> y"
      proof (cases "k = ?k")
        case True then show ?thesis using d 1(4,5) l' y' by auto
      next
        case False
        then have "entry_of ?l k = Some d" using kept_execution [of ?l l' k d] 1(8) l' d by auto
        then show ?thesis using hold_invD(4) [OF h y'(2)] by blast
      qed
    next
      fix y assume "in_ledger (xs_pc s' y)"
      then show "uses_ledger dr (rq y)" using hold_invD(5) [OF h, of y] by (auto simp: pcs split: if_splits)
    qed
  next
    case (2 m1 e e')
    then have l': "l' = m1" "a = Replayed e'" using c by simp_all
    have e': "le_settled e'" "le_execution e' = le_execution e" using 2(5,6) by (simp_all add: le_settled_def)
    have pcs: "xs_pc s' = (xs_pc s)(x := X_Ended (replay_of e'))" "xs_ledger s' = l'"
      using m l' by (auto simp: moved_def after_claim_def)
    have hk: "holds_key dr rq s' y = holds_key dr rq s y" for y using pc by (auto simp: holds_key_def pcs)
    have other: "xq_key (rq y) \<noteq> ?k" if "holds_key dr rq s y" for y
      using hold_invD(2) [OF h that] 2(4,5) by auto
    show ?thesis
      unfolding hold_inv_def hk pcs(2)
    proof (intro conjI allI impI)
      show "lg_inv l'" using 2 l' by simp
    next
      fix y assume y: "holds_key dr rq s y"
      then show "\<exists>e. entry_of l' (xq_key (rq y)) = Some e \<and> \<not> le_settled e \<and> le_execution e = y"
        using hold_invD(2) [OF h y] inflight_kept [of ?l l' "xq_key (rq y)"] 2(8) l' other [OF y] by blast
    next
      fix k d assume d: "entry_of l' k = Some d \<and> \<not> le_settled d"
      then have "k \<noteq> ?k" using 2(7) e'(1) l' by auto
      then have "entry_of ?l k = Some d" using kept_execution [of ?l l' k d] 2(8) l' d by auto
      then show "holds_key dr rq s (le_execution d)" "xq_key (rq (le_execution d)) = k"
        using hold_invD(3) [OF h] d by blast+
    next
      fix y assume "before_claim (xs_pc s' y)"
      then have y': "before_claim (xs_pc s y)" by (auto simp: pcs split: if_splits)
      then show "y \<notin> lg_done l'" using hold_invD(4) [OF h, of y] 2(3) l' by auto
      fix k d assume d: "entry_of l' k = Some d"
      show "le_execution d \<noteq> y"
      proof (cases "k = ?k")
        case True then show ?thesis using d 2(4,7) l' e'(2) hold_invD(4) [OF h y'] by auto
      next
        case False
        then have "entry_of ?l k = Some d" using kept_execution [of ?l l' k d] 2(8) l' d by auto
        then show ?thesis using hold_invD(4) [OF h y'] by blast
      qed
    next
      fix y assume "in_ledger (xs_pc s' y)"
      then show "uses_ledger dr (rq y)" using hold_invD(5) [OF h, of y] by (auto simp: pcs split: if_splits)
    qed
  next
    case (3 m1 e)
    then have l': "l' = m1" "a = Held e" using c by simp_all
    let ?s = "s\<lparr>xs_ledger := l'\<rparr>"
    have "hold_inv dr rq ?s"
      by (rule hold_ledger [OF h, of l' x]) (use 3 l' in \<open>auto simp: moved_def\<close>)
    then show ?thesis
      by (rule hold_quiet) (use m l' pc in \<open>auto simp: moved_def after_claim_def\<close>)
  qed
qed

text \<open>The end of an execution that held its key: settled or released.\<close>

lemma hold_finish:
  assumes h: "hold_inv dr rq s" and x: "holds_key dr rq s x"
    and l': "lg_inv l'" "lg_done l' = insert x (lg_done (xs_ledger s))"
      "\<And>k. k \<noteq> xq_key (rq x) \<Longrightarrow> entry_of l' k = entry_of (xs_ledger s) k"
      "\<And>e. entry_of l' (xq_key (rq x)) = Some e \<Longrightarrow> le_settled e \<and> le_execution e = x"
    and m: "moved s x (X_Ended r) l' s'"
  shows "hold_inv dr rq s'"
proof -
  let ?l = "xs_ledger s" and ?k = "xq_key (rq x)"
  obtain e where e: "entry_of ?l ?k = Some e" "\<not> le_settled e" "le_execution e = x"
    using hold_invD(2) [OF h x] by blast
  have pcs: "xs_pc s' = (xs_pc s)(x := X_Ended r)" "xs_ledger s' = l'" using m by (auto simp: moved_def)
  have hk: "holds_key dr rq s' y = (y \<noteq> x \<and> holds_key dr rq s y)" for y by (auto simp: holds_key_def pcs)
  have other: "xq_key (rq y) \<noteq> ?k" if "holds_key dr rq s y" "y \<noteq> x" for y
    using hold_invD(2) [OF h that(1)] e that(2) by auto
  show ?thesis
    unfolding hold_inv_def hk pcs(2)
  proof (intro conjI allI impI)
    fix y assume y: "y \<noteq> x \<and> holds_key dr rq s y"
    then show "\<exists>e. entry_of l' (xq_key (rq y)) = Some e \<and> \<not> le_settled e \<and> le_execution e = y"
      using hold_invD(2) [OF h, of y] l'(3) other by simp
  next
    fix k d assume d: "entry_of l' k = Some d \<and> \<not> le_settled d"
    then have "k \<noteq> ?k" using l'(4) by auto
    then have k: "entry_of ?l k = Some d" using d l'(3) by simp
    then have "holds_key dr rq s (le_execution d) \<and> xq_key (rq (le_execution d)) = k"
      using hold_invD(3) [OF h k] d by blast
    then show "le_execution d \<noteq> x" "holds_key dr rq s (le_execution d)" "xq_key (rq (le_execution d)) = k"
      using \<open>k \<noteq> ?k\<close> by auto
  next
    fix y assume y: "before_claim (xs_pc s' y)"
    then have y': "y \<noteq> x" "before_claim (xs_pc s y)" by (auto simp: pcs split: if_splits)
    then show "y \<notin> lg_done l'" using hold_invD(4) [OF h, of y] l'(2) by auto
    fix k d assume d: "entry_of l' k = Some d"
    then show "le_execution d \<noteq> y"
      using l'(3) [of k] l'(4) [of d] hold_invD(4) [OF h y'(2)] y'(1) by (cases "k = ?k") auto
  next
    fix y assume "in_ledger (xs_pc s' y)"
    then show "uses_ledger dr (rq y)" using hold_invD(5) [OF h, of y] by (auto simp: pcs split: if_splits)
  qed (use l'(1) in simp)
qed

lemma act_moved:
  assumes "exec_step dr (rq x) x i (xs_pc s x) (xs_ledger s) = (pc, l', called)"
  shows "moved s x pc l' (xs_step dr rq s (Act x i))"
  using assms by (simp add: moved_def Let_def)

lemma hold_step: "hold_inv dr rq s \<Longrightarrow> hold_inv dr rq (xs_step dr rq s op)"
proof (cases op)
  case (Sweep t)
  assume h: "hold_inv dr rq s"
  show ?thesis
    by (rule hold_ledger [OF h, of "fst (ledger_sweep t (xs_ledger s))" undefined])
       (use hold_invD(1) [OF h] in \<open>simp_all add: Sweep moved_def ledger_sweep_inv sweep_kept Let_def\<close>)
next
  case (Act x i)
  assume h: "hold_inv dr rq s"
  obtain pc l' called where e: "exec_step dr (rq x) x i (xs_pc s x) (xs_ledger s) = (pc, l', called)"
    by (cases "exec_step dr (rq x) x i (xs_pc s x) (xs_ledger s)")
  note m = act_moved [of dr rq x i s pc l' called, OF e]
  show ?thesis
    unfolding Act
  proof (cases rule: exec_step_kinds [OF e])
    case 1
    then show "hold_inv dr rq (xs_step dr rq s (Act x i))" using hold_quiet [OF h] m by blast
  next
    case (2 n t a)
    then show "hold_inv dr rq (xs_step dr rq s (Act x i))" using hold_claim [OF h 2(1,2)] m by simp
  next
    case (3 r t res why ok)
    then have hk: "holds_key dr rq s x" by (simp add: holds_key_def)
    obtain d where d: "entry_of (xs_ledger s) (xq_key (rq x)) = Some d" "\<not> le_settled d" "le_execution d = x"
      using hold_invD(2) [OF h hk] by blast
    show "hold_inv dr rq (xs_step dr rq s (Act x i))"
      by (rule hold_finish [OF h hk, of l'])
         (use m 3 d hold_invD(1) [OF h] in
           \<open>auto simp: ledger_settle_inv settle_entry settle_done le_settled_def split: if_splits\<close>)
  next
    case (4 r)
    then have hk: "holds_key dr rq s x" by (simp add: holds_key_def)
    obtain d where d: "entry_of (xs_ledger s) (xq_key (rq x)) = Some d" "\<not> le_settled d" "le_execution d = x"
      using hold_invD(2) [OF h hk] by blast
    show "hold_inv dr rq (xs_step dr rq s (Act x i))"
      by (rule hold_finish [OF h hk, of l'])
         (use m 4 d hold_invD(1) [OF h] in
           \<open>auto simp: ledger_release_inv release_entry release_done split: if_splits\<close>)
  qed
qed

lemma new_ledger_sel: "lg_entries (new_ledger ttl mx) = []" "lg_done (new_ledger ttl mx) = {}"
  by (simp_all add: new_ledger_def)

lemma hold_start: "hold_inv dr rq (xs_start ttl mx)"
  using new_ledger_inv [of ttl mx] by (simp add: hold_inv_def xs_start_def holds_key_def new_ledger_sel)

interpretation ledger_held: invariant_ops "xs_step dr rq" "hold_inv dr rq" for dr rq
  by unfold_locales (rule hold_step)

section \<open>One execution per key\<close>

text \<open>Every execution that invoked its tool is past its claim, and unless the key's outcome was
  dropped or voided, the key's entry is its own.\<close>

definition once_inv :: "bool \<Rightarrow> (nat \<Rightarrow> xrequest) \<Rightarrow> 'r xsys \<Rightarrow> bool" where
  "once_inv dr rq s \<longleftrightarrow> hold_inv dr rq s
     \<and> (\<forall>x \<in> set (xs_calls s). \<not> before_claim (xs_pc s x)
          \<and> (uses_ledger dr (rq x) \<longrightarrow> xq_key (rq x) \<notin> xs_dropped s \<union> xs_voided s \<longrightarrow>
               (\<exists>e. entry_of (xs_ledger s) (xq_key (rq x)) = Some e \<and> le_execution e = x)))"

lemma once_invD:
  "once_inv dr rq s \<Longrightarrow> hold_inv dr rq s"
  "once_inv dr rq s \<Longrightarrow> x \<in> set (xs_calls s) \<Longrightarrow> \<not> before_claim (xs_pc s x)"
  "once_inv dr rq s \<Longrightarrow> x \<in> set (xs_calls s) \<Longrightarrow> uses_ledger dr (rq x) \<Longrightarrow>
     xq_key (rq x) \<notin> xs_dropped s \<union> xs_voided s \<Longrightarrow>
     \<exists>e. entry_of (xs_ledger s) (xq_key (rq x)) = Some e \<and> le_execution e = x"
  by (simp_all add: once_inv_def)

lemma entry_survives:
  "kept_or_dropped l l' k \<Longrightarrow> entry_of l k = Some e \<Longrightarrow> k \<notin> dropped_keys l l' \<Longrightarrow> entry_of l' k = Some e"
  by (auto simp: kept_or_dropped_def dropped_keys_def settled_in_def)

text \<open>Where an entry goes in a claim, if its outcome is not dropped.\<close>

lemma claim_entry_survives:
  assumes h: "hold_inv dr rq s" and pc: "xs_pc s x = X_Claim n"
    and c: "ledger_claim t (xq_key (rq x)) (xq_tool (rq x)) x (xs_ledger s) = (l', a)"
    and e: "entry_of (xs_ledger s) k = Some e" and k: "k \<notin> dropped_keys (xs_ledger s) l'"
  shows "\<exists>e'. entry_of l' k = Some e' \<and> le_execution e' = le_execution e"
proof -
  have b: "x \<notin> lg_done (xs_ledger s)" "\<forall>k e. entry_of (xs_ledger s) k = Some e \<longrightarrow> le_execution e \<noteq> x"
    using hold_invD(4) [OF h, of x] pc by auto
  show ?thesis
  proof (cases rule: claim_cases [OF hold_invD(1) [OF h] b, of t "xq_key (rq x)" "xq_tool (rq x)"])
    case (1 m d)
    show ?thesis
    proof (cases "k = xq_key (rq x)")
      case True
      then have "k \<in> dropped_keys (xs_ledger s) l'"
        using 1 e c by (auto simp: dropped_keys_def settled_in_def)
      then show ?thesis using k by simp
    next
      case False
      then show ?thesis using entry_survives [of "xs_ledger s" l' k e] 1 e c k by simp
    qed
  next
    case (2 m d d')
    have m: "l' = m" using 2(1) c by simp
    show ?thesis
    proof (cases "k = xq_key (rq x)")
      case True
      then have "e = d" using 2(4) e by simp
      then show ?thesis using True 2(6,7) m by simp
    next
      case False
      then have "kept_or_dropped (xs_ledger s) l' k" using 2(8) m by simp
      then show ?thesis using entry_survives e k by blast
    qed
  next
    case (3 m d)
    then show ?thesis using entry_survives [of "xs_ledger s" l' k e] e c k by simp
  qed
qed

lemma called_attempt:
  assumes "exec_step dr q x i pc l = (pc', l', True)"
  shows "l' = l \<and> past_claim pc \<and> past_claim pc' \<and> \<not> before_claim pc'"
  using assms
  by (cases pc; cases i)
     (auto simp: exec_step_def attempt_step_def claim_step_def invoke_step_def Let_def
      split: if_splits option.splits prod.splits)

lemma once_step: "once_inv dr rq s \<Longrightarrow> once_inv dr rq (xs_step dr rq s op)"
proof (cases op)
  case (Sweep t)
  assume o: "once_inv dr rq s"
  have "\<exists>e. entry_of (fst (ledger_sweep t (xs_ledger s))) (xq_key (rq x)) = Some e \<and> le_execution e = x"
    if "x \<in> set (xs_calls s)" "uses_ledger dr (rq x)" "xq_key (rq x) \<notin> xs_dropped s \<union> xs_voided s"
      "xq_key (rq x) \<notin> dropped_keys (xs_ledger s) (fst (ledger_sweep t (xs_ledger s)))" for x
    using once_invD(3) [OF o that(1-3)] sweep_kept [OF hold_invD(1) [OF once_invD(1) [OF o]]]
      entry_survives that(4) by metis
  then show ?thesis
    using once_invD [OF o] hold_step [OF once_invD(1) [OF o], of "Sweep t"]
    unfolding once_inv_def Sweep by (simp add: Let_def)
next
  case (Act x i)
  assume o: "once_inv dr rq s"
  let ?l = "xs_ledger s" and ?s = "xs_step dr rq s (Act x i)"
  obtain pc l' called where e: "exec_step dr (rq x) x i (xs_pc s x) ?l = (pc, l', called)"
    by (cases "exec_step dr (rq x) x i (xs_pc s x) ?l")
  have s': "xs_ledger ?s = l'" "xs_pc ?s = (xs_pc s)(x := pc)"
      "xs_calls ?s = (if called then xs_calls s @ [x] else xs_calls s)"
      "xs_dropped ?s = xs_dropped s \<union> dropped_keys ?l l'"
      "xs_voided ?s = xs_voided s \<union> voided_keys (xs_calls s) x (xq_key (rq x)) ?l l'"
    using e by (simp_all add: Let_def)
  have hold: "hold_inv dr rq ?s" by (rule hold_step [OF once_invD(1) [OF o]])
  note h = once_invD(1) [OF o]
  have before: "\<not> before_claim (xs_pc ?s y)" if "y \<in> set (xs_calls ?s)" for y
  proof (cases "y = x")
    case True
    show ?thesis
    proof (cases "x \<in> set (xs_calls s)")
      case c: True
      then have "\<not> before_claim (xs_pc s x)" using once_invD(2) [OF o] by blast
      then show ?thesis
        using True s'(2) by (cases rule: exec_step_kinds [OF e]) auto
    next
      case False
      then show ?thesis using that True s' called_attempt [of dr "rq x" x i "xs_pc s x" ?l pc l'] e
        by (auto split: if_splits)
    qed
  next
    case False
    then show ?thesis using that once_invD(2) [OF o, of y] s' by (auto split: if_splits)
  qed
  have "\<exists>d. entry_of l' (xq_key (rq y)) = Some d \<and> le_execution d = y"
    if y: "y \<in> set (xs_calls s)" "uses_ledger dr (rq y)" "xq_key (rq y) \<notin> xs_dropped ?s \<union> xs_voided ?s" for y
  proof -
    obtain d where d: "entry_of ?l (xq_key (rq y)) = Some d" "le_execution d = y"
      using once_invD(3) [OF o y(1,2)] y(3) s'(4,5) by blast
    have nd: "xq_key (rq y) \<notin> dropped_keys ?l l'" using y(3) s'(4) by blast
    show ?thesis
    proof (cases rule: exec_step_kinds [OF e])
      case 1
      then show ?thesis using d by simp
    next
      case (2 n t a)
      show ?thesis using claim_entry_survives [OF h 2(1,2) d(1) nd] d(2) by simp
    next
      case (3 r t res why ok)
      then show ?thesis using d by (auto simp: settle_entry split: option.splits)
    next
      case (4 r)
      have hk: "holds_key dr rq s x" using 4 by (simp add: holds_key_def)
      obtain b where b: "entry_of ?l (xq_key (rq x)) = Some b" "\<not> le_settled b" "le_execution b = x"
        using hold_invD(2) [OF h hk] by blast
      have "xq_key (rq y) \<noteq> xq_key (rq x)"
      proof
        assume eq: "xq_key (rq y) = xq_key (rq x)"
        then have "y = x" using b d by simp
        then have "xq_key (rq y) \<in> voided_keys (xs_calls s) x (xq_key (rq x)) ?l l'"
          using y(1) b 4(5) by (simp add: voided_keys_def in_flight_in_def release_entry)
        then show False using y(3) s'(5) by blast
      qed
      then show ?thesis using d b 4(5) by (simp add: release_entry)
    qed
  qed
  moreover have "\<exists>d. entry_of l' (xq_key (rq x)) = Some d \<and> le_execution d = x"
    if "called" "uses_ledger dr (rq x)"
    using hold_invD(2) [OF h, of x] called_attempt [of dr "rq x" x i "xs_pc s x" ?l pc l'] e that
    by (auto simp: holds_key_def)
  ultimately show ?thesis
    unfolding once_inv_def Act using hold before s' by (auto split: if_splits)
qed

interpretation tool_once: invariant_ops "xs_step dr rq" "once_inv dr rq" for dr rq
  by unfold_locales (rule once_step)

lemma once_start: "once_inv dr rq (xs_start ttl mx)"
  using hold_start [of dr rq ttl mx] by (simp add: once_inv_def xs_start_def)

section \<open>Attempts and waiters\<close>

fun attempts_ok :: "xrequest \<Rightarrow> nat \<Rightarrow> 'r xpc \<Rightarrow> bool" where
  "attempts_ok q c (X_Attempt n ph) =
     (1 \<le> n \<and> Suc c = n \<and> (1 < n \<longrightarrow> n \<le> xq_max_attempts q \<and> auto_retryable (xq_effect q)))"
| "attempts_ok q c (X_Invoke n) =
     (1 \<le> n \<and> c = n \<and> n \<le> xq_max_attempts q \<and> (1 < n \<longrightarrow> auto_retryable (xq_effect q)))"
| "attempts_ok q c (X_Ended r) =
     (c \<le> xq_max_attempts q \<and> (\<not> auto_retryable (xq_effect q) \<longrightarrow> c \<le> 1))"
| "attempts_ok q c _ = (c = 0)"

lemma attempts_exec_step:
  assumes "exec_step dr q x i pc l = (pc', l', called)" and "attempts_ok q c pc"
  shows "attempts_ok q (if called then Suc c else c) pc'"
  using assms
  by (cases pc; cases i)
     (auto simp: exec_step_def attempt_step_def claim_step_def invoke_step_def invocation_failed_def
        after_claim_def after_await_def Let_def
      split: if_splits option.splits prod.splits claim_answer.splits)

definition attempts_inv :: "(nat \<Rightarrow> xrequest) \<Rightarrow> 'r xsys \<Rightarrow> bool" where
  "attempts_inv rq s \<longleftrightarrow> (\<forall>x. attempts_ok (rq x) (count_list (xs_calls s) x) (xs_pc s x))"

lemma attempts_step: "attempts_inv rq s \<Longrightarrow> attempts_inv rq (xs_step dr rq s op)"
proof (cases op)
  case (Act x i)
  assume a: "attempts_inv rq s"
  obtain pc l' called where e: "exec_step dr (rq x) x i (xs_pc s x) (xs_ledger s) = (pc, l', called)"
    by (cases "exec_step dr (rq x) x i (xs_pc s x) (xs_ledger s)")
  have "attempts_ok (rq x) (if called then Suc (count_list (xs_calls s) x) else count_list (xs_calls s) x) pc"
    using attempts_exec_step [OF e] a by (auto simp: attempts_inv_def)
  then show ?thesis
    using a e unfolding Act attempts_inv_def by (auto simp: Let_def count_list_append)
qed (simp add: attempts_inv_def Let_def)

interpretation tool_attempts: invariant_ops "xs_step dr rq" "attempts_inv rq" for dr rq
  by unfold_locales (rule attempts_step)

text \<open>A waiter waits for an execution that is working on its key, or is done.\<close>

definition wait_inv :: "bool \<Rightarrow> (nat \<Rightarrow> xrequest) \<Rightarrow> 'r xsys \<Rightarrow> bool" where
  "wait_inv dr rq s \<longleftrightarrow> hold_inv dr rq s
     \<and> (\<forall>x n y. xs_pc s x = X_Wait n y \<longrightarrow>
          y \<in> lg_done (xs_ledger s) \<or> holds_key dr rq s y \<and> xq_key (rq y) = xq_key (rq x))"

lemma done_grows:
  assumes "hold_inv dr rq s" and "exec_step dr (rq x) x i (xs_pc s x) (xs_ledger s) = (pc, l', called)"
  shows "lg_done (xs_ledger s) \<subseteq> lg_done l'
    \<and> (holds_key dr rq s x \<longrightarrow> x \<in> lg_done l' \<or> past_claim pc)"
proof (cases rule: exec_step_kinds [OF assms(2)])
  case (2 n t a)
  have b: "x \<notin> lg_done (xs_ledger s)" "\<forall>k e. entry_of (xs_ledger s) k = Some e \<longrightarrow> le_execution e \<noteq> x"
    using hold_invD(4) [OF assms(1), of x] 2 by auto
  have "lg_done l' = lg_done (xs_ledger s)"
    using 2(2) by (cases rule: claim_cases [OF hold_invD(1) [OF assms(1)] b, of t "xq_key (rq x)" "xq_tool (rq x)"]) auto
  then show ?thesis using 2 by (simp add: holds_key_def)
next
  case (3 r t res why ok)
  then show ?thesis
    using hold_invD(2) [OF assms(1), of x] by (auto simp: holds_key_def settle_done split: option.splits)
next
  case (4 r)
  then show ?thesis
    using hold_invD(2) [OF assms(1), of x] by (auto simp: holds_key_def release_done split: option.splits)
qed (auto simp: holds_key_def)

lemma new_waiter:
  assumes "hold_inv dr rq s" and "exec_step dr (rq x) x i (xs_pc s x) (xs_ledger s) = (X_Wait n y, l', called)"
  shows "xs_pc s x = X_Wait n y \<or> holds_key dr rq s y \<and> xq_key (rq y) = xq_key (rq x)"
proof (cases rule: exec_step_kinds [OF assms(2)])
  case 1
  then show ?thesis
    using assms(2) hold_invD(3) [OF assms(1)]
    by (cases "xs_pc s x"; cases i)
       (auto simp: exec_step_def claim_step_def attempt_step_def invoke_step_def after_await_def after_claim_def Let_def
          ledger_claim_def
        split: if_splits option.splits prod.splits claim_answer.splits)
next
  case (2 m t a)
  then obtain e where e: "a = Held e" "y = le_execution e" by (auto simp: after_claim_def split: claim_answer.splits)
  have b: "x \<notin> lg_done (xs_ledger s)" "\<forall>k e. entry_of (xs_ledger s) k = Some e \<longrightarrow> le_execution e \<noteq> x"
    using hold_invD(4) [OF assms(1), of x] 2 by auto
  have "entry_of (xs_ledger s) (xq_key (rq x)) = Some e \<and> \<not> le_settled e"
    using 2(2) e
    by (cases rule: claim_cases [OF hold_invD(1) [OF assms(1)] b, of t "xq_key (rq x)" "xq_tool (rq x)"]) auto
  then show ?thesis using hold_invD(3) [OF assms(1)] e by blast
qed simp_all

lemma wait_step: "wait_inv dr rq s \<Longrightarrow> wait_inv dr rq (xs_step dr rq s op)"
proof (cases op)
  case (Sweep t)
  assume w: "wait_inv dr rq s"
  then show ?thesis
    using hold_step [of dr rq s "Sweep t"] unfolding wait_inv_def Sweep by (auto simp: Let_def holds_key_def)
next
  case (Act x i)
  assume w: "wait_inv dr rq s"
  then have h: "hold_inv dr rq s" by (simp add: wait_inv_def)
  let ?s = "xs_step dr rq s (Act x i)"
  obtain pc l' called where e: "exec_step dr (rq x) x i (xs_pc s x) (xs_ledger s) = (pc, l', called)"
    by (cases "exec_step dr (rq x) x i (xs_pc s x) (xs_ledger s)")
  have s': "xs_ledger ?s = l'" "xs_pc ?s = (xs_pc s)(x := pc)" using e by (simp_all add: Let_def)
  have keeps: "y \<in> lg_done l' \<or> holds_key dr rq ?s y" if "holds_key dr rq s y" for y
    using done_grows [OF h e] that s' by (auto simp: holds_key_def)
  have "y \<in> lg_done l' \<or> holds_key dr rq ?s y \<and> xq_key (rq y) = xq_key (rq z)"
    if z: "xs_pc ?s z = X_Wait n y" for z n y
  proof -
    have "xs_pc s z = X_Wait n y \<or> holds_key dr rq s y \<and> xq_key (rq y) = xq_key (rq z)"
      using new_waiter [of dr rq s x i n y l' called] h e z s' by (cases "z = x") auto
    then show ?thesis using w keeps done_grows [OF h e] unfolding wait_inv_def by blast
  qed
  then show ?thesis using hold_step [OF h, of "Act x i"] s'(1) unfolding wait_inv_def Act by blast
qed

interpretation tool_waiters: invariant_ops "xs_step dr rq" "wait_inv dr rq" for dr rq
  by unfold_locales (rule wait_step)

section \<open>Properties\<close>


text \<open>One execution invokes its tool at most as often as its attempts allow, and a tool whose
  effect cannot be undone at most once, whatever the errors are classified as.\<close>

theorem attempts_are_bounded:
  assumes "s = run_ops (xs_step dr rq) (xs_start ttl mx) ops"
  shows "count_list (xs_calls s) x \<le> xq_max_attempts (rq x)
    \<and> (xq_effect (rq x) = Effect_Irreversible \<longrightarrow> count_list (xs_calls s) x \<le> 1)"
proof -
  have "attempts_inv rq (xs_start ttl mx :: 'a xsys)" by (simp add: attempts_inv_def xs_start_def)
  from tool_attempts.run_inv [OF this, of dr ops]
  have "attempts_ok (rq x) (count_list (xs_calls s) x) (xs_pc s x)"
    unfolding assms(1) attempts_inv_def by blast
  then show ?thesis by (cases "xs_pc s x") (auto simp: auto_retryable_def)
qed

text \<open>C24. Waiting never deadlocks: an execution that waits for another's outcome waits for one
  that is past its claim and works on the same key, never for one that itself waits, or it can be
  woken at once.\<close>

theorem waiters_wait_for_workers:
  assumes "s = run_ops (xs_step dr rq) (xs_start ttl mx) ops" and "xs_pc s x = X_Wait n y"
  shows "ledger_await (xq_key (rq x)) y (xs_ledger s) \<noteq> None
    \<or> past_claim (xs_pc s y) \<and> xq_key (rq y) = xq_key (rq x)"
proof -
  have "wait_inv dr rq (xs_start ttl mx :: 'a xsys)"
    using hold_start [of dr rq ttl mx] by (simp add: wait_inv_def xs_start_def)
  from tool_waiters.run_inv [OF this, of ops] have "wait_inv dr rq s" unfolding assms(1) .
  then show ?thesis
    using assms(2) unfolding wait_inv_def by (auto simp: ledger_await_def holds_key_def)
qed

text \<open>A duplicate is answered from the ledger: an execution that claims a key whose outcome is
  stored and within its window ends with that outcome, success or failure, and does not invoke
  the tool.\<close>

theorem duplicate_is_replayed:
  assumes "s = run_ops (xs_step dr rq) (xs_start ttl mx) ops"
    and "xs_pc s x = X_Claim n" and "n < max_rounds"
    and "entry_of (xs_ledger s) (xq_key (rq x)) = Some e" and "le_settled e" and "t < le_expires_at e"
  shows "xs_pc (xs_step dr rq s (Act x (In_Now t))) x = X_Ended (replay_of e)
    \<and> xs_calls (xs_step dr rq s (Act x (In_Now t))) = xs_calls s"
proof -
  have h: "hold_inv dr rq s" unfolding assms(1) by (rule ledger_held.run_inv [OF hold_start])
  have "entry_of (evict_head t (xs_ledger s)) (xq_key (rq x)) = Some e"
    using evict_head_evicts [OF hold_invD(1) [OF h], of t] assms(4,6)
    unfolding evicts_def expired_def by (metis option.inject)
  then show ?thesis
    using assms(2,3,5)
    by (simp add: exec_step_def claim_step_def ledger_claim_def after_claim_def replay_of_def Let_def)
qed

section \<open>Two flaws\<close>

text \<open>Two executions of one key, both of a tool that writes.\<close>

definition two_requests :: "nat \<Rightarrow> xrequest" where
  "two_requests _ = \<lparr>xq_key = ''k'', xq_tool = ''book'', xq_effect = Effect_Write, xq_max_attempts = 3\<rparr>"

lemmas run_two = two_requests_def exec_step_def claim_step_def attempt_step_def invoke_step_def
  invocation_failed_def ledger_claim_def ledger_settle_def ledger_release_def ledger_await_def evict_head_def evict_overflow_def
  with_queue_def after_claim_def after_await_def replay_of_def close_claim_def uses_ledger_def mutating_def
  auto_retryable_def le_settled_def max_rounds_def max_per_claim_def xs_start_def new_ledger_def
  settled_in_def in_flight_in_def dropped_keys_def voided_keys_def numeral_eq_Suc Let_def

text \<open>A mutating call whose result breaks the contract is run again by a duplicate: its key is
  released although the tool was invoked, and the next execution of the key invokes it too.\<close>

theorem rejected_result_runs_again:
  "case run_ops (xs_step False two_requests) (xs_start second 10 :: nat xsys)
     [Act 0 (In_Permission True), Act 0 (In_Now 0), Act 0 (In_Sandbox True), Act 0 (In_Check 0 [] True),
      Act 0 (In_Invalid 1),
      Act 1 (In_Permission True), Act 1 (In_Now 2), Act 1 (In_Sandbox True), Act 1 (In_Check 2 [] True),
      Act 1 (In_Valid 3 7)] of s \<Rightarrow>
     xs_calls s = [0, 1] \<and> xs_pc s 0 = X_Ended (R_Failed Ph_Validate_Out) \<and> xs_pc s 1 = X_Ended (R_Done 7)"
  by (simp add: run_two)

text \<open>A duplicate that waited for an execution which was then refused by the sandbox, and never
  invoked the tool, does not take its place: it ends as cancelled, with no entry left under the
  key.\<close>

theorem released_waiter_is_cancelled:
  "case run_ops (xs_step False two_requests) (xs_start second 10 :: nat xsys)
     [Act 0 (In_Permission True), Act 0 (In_Now 0), Act 1 (In_Permission True), Act 1 (In_Now 1),
      Act 0 (In_Sandbox False), Act 1 In_Wake] of s \<Rightarrow>
     xs_calls s = [] \<and> xs_pc s 1 = X_Ended R_Cancelled \<and> entry_of (xs_ledger s) ''k'' = None"
  by (simp add: run_two)

section \<open>Witnesses\<close>

text \<open>Two executions of one key: the first succeeds, the second is a duplicate that waited.\<close>

definition good_ops :: "nat xop list" where
  "good_ops = [Act 0 (In_Permission True), Act 0 (In_Now 0), Act 1 (In_Permission True), Act 1 (In_Now 1),
     Act 0 (In_Sandbox True), Act 0 (In_Check 2 [] True), Act 0 (In_Error 3 ''timeout'' True),
     Act 0 (In_Check 4 [] True), Act 0 (In_Valid 5 7)]"

abbreviation good_sys :: "nat xsys" where
  "good_sys \<equiv> run_ops (xs_step False two_requests) (xs_start second 10) good_ops"

lemma good_sys_state:
  "xs_calls good_sys = [0, 0]" "xs_dropped good_sys = {}" "xs_voided good_sys = {}"
  "xs_pc good_sys 1 = X_Wait 0 0" "xs_pc good_sys 0 = X_Ended (R_Done 7)"
  "\<exists>e. entry_of (xs_ledger good_sys) ''k'' = Some e \<and> le_settled e \<and> le_expires_at e = second
     \<and> replay_of e = R_Replayed (Some 7)"
  by (simp_all add: good_ops_def run_two)


theorem attempts_are_bounded_witness:
  "count_list (xs_calls good_sys) 0 \<le> 3 \<and> xs_calls good_sys = [0, 0]"
  using attempts_are_bounded [OF refl, of False two_requests second 10 good_ops 0] good_sys_state(1)
  by (simp add: two_requests_def)

theorem waiters_wait_for_workers_witness:
  "ledger_await ''k'' 0 (xs_ledger good_sys) \<noteq> None \<and> xs_pc good_sys 1 = X_Wait 0 0"
  using waiters_wait_for_workers [OF refl good_sys_state(4)] good_sys_state(4,5)
  by (simp add: two_requests_def)

theorem duplicate_is_replayed_witness:
  "xs_pc (run_ops (xs_step False two_requests) (xs_start second 10)
      (good_ops @ [Act 2 (In_Permission True), Act 2 (In_Now 9)])) 2 = X_Ended (R_Replayed (Some 7))"
proof -
  let ?s = "run_ops (xs_step False two_requests) (xs_start second 10) (good_ops @ [Act 2 (In_Permission True)])"
  have p2: "xs_pc good_sys 2 = X_Start" by (simp add: good_ops_def run_two)
  obtain e where e: "entry_of (xs_ledger ?s) ''k'' = Some e" "le_settled e" "le_expires_at e = second"
      "replay_of e = R_Replayed (Some 7)"
    using good_sys_state(6) p2 by (auto simp: run_ops_append exec_step_def Let_def)
  have "xs_pc ?s 2 = X_Claim 0" by (simp add: good_ops_def run_two)
  from duplicate_is_replayed [OF refl this, of e 9] e
  show ?thesis by (simp add: max_rounds_def two_requests_def run_ops_append del: xs_step.simps)
qed

end
