(* ===== verification/ToolRetry.thy ===== *)
theory ToolRetry
  imports Breaker ToolLedger
begin

text \<open>
  What bounds a tool execution: which errors are worth another attempt and the retry policy
  (\<^verbatim>\<open>packages/go/toolruntime/retry.go\<close>, \<^verbatim>\<open>errors.go\<close>, \<^verbatim>\<open>shortReason\<close> of \<^verbatim>\<open>compensation.go\<close>), the budget and
  the sandbox's accounting (\<^verbatim>\<open>sandbox.go\<close>), and the dead letters.  An error is the list of the
  sentinels \<^verbatim>\<open>errors.Is\<close> finds in it, with the kind of the provider error it wraps.  Multipliers and
  jitter are exact rationals, as in \<^verbatim>\<open>Breaker\<close>.
\<close>

section \<open>Errors\<close>

datatype tool_sentinel = Err_Not_Registered | Err_No_Capability | Err_No_Healthy_Provider
  | Err_Version_Unsatisfiable | Err_Permission_Denied | Err_Consent_Required | Err_Invalid_Input
  | Err_Invalid_Output | Err_Timeout | Err_Cancelled | Err_Circuit_Open | Err_Queue_Full
  | Err_Budget_Exceeded | Err_Duplicate | Err_Compensation_Failed | Err_Closed | Err_Invariant
  | Err_Deadline | Err_Context_Canceled | Err_Other nat

record tool_error =
  te_is :: "tool_sentinel list"
  te_provider :: "error_kind option"

definition is_err :: "tool_error \<Rightarrow> tool_sentinel \<Rightarrow> bool" where
  "is_err e x = (x \<in> set (te_is e))"

definition permanent_sentinels :: "tool_sentinel list" where
  "permanent_sentinels = [Err_Permission_Denied, Err_Consent_Required, Err_Invalid_Input, Err_Invalid_Output,
     Err_Not_Registered, Err_No_Capability, Err_Version_Unsatisfiable, Err_Cancelled, Err_Duplicate,
     Err_Budget_Exceeded, Err_Invariant, Err_Closed]"

definition classify :: "tool_error option \<Rightarrow> bool" where
  "classify err =
     (case err of
        None \<Rightarrow> False
      | Some e \<Rightarrow>
          if list_ex (is_err e) permanent_sentinels then False
          else if is_err e Err_Circuit_Open then False
          else if is_err e Err_Timeout \<or> is_err e Err_No_Healthy_Provider then True
          else (case te_provider e of Some k \<Rightarrow> retryable k | None \<Rightarrow> True))"

text \<open>The reason codes, in the order they are tested.\<close>

definition reason_codes :: "(tool_sentinel \<times> string) list" where
  "reason_codes = [(Err_Timeout, ''timeout''), (Err_Cancelled, ''cancelled''),
     (Err_Circuit_Open, ''circuit_open''), (Err_Permission_Denied, ''permission_denied''),
     (Err_Consent_Required, ''consent_required''), (Err_Invalid_Input, ''invalid_input''),
     (Err_Invalid_Output, ''invalid_output''), (Err_Budget_Exceeded, ''budget_exceeded''),
     (Err_Queue_Full, ''queue_full''), (Err_Duplicate, ''duplicate''),
     (Err_No_Healthy_Provider, ''no_healthy_tool''), (Err_No_Capability, ''no_capability''),
     (Err_Compensation_Failed, ''compensation_failed''), (Err_Closed, ''closed''),
     (Err_Invariant, ''invariant''), (Err_Deadline, ''timeout''), (Err_Context_Canceled, ''cancelled'')]"

definition short_reason :: "tool_error option \<Rightarrow> string" where
  "short_reason err =
     (case err of
        None \<Rightarrow> []
      | Some e \<Rightarrow> (case find (\<lambda>(x, code). is_err e x) reason_codes of
                    Some (x, code) \<Rightarrow> code
                  | None \<Rightarrow> ''tool_error''))"

section \<open>The retry policy\<close>

record retry_spec =
  rs_max_attempts :: int
  rs_initial_backoff :: duration
  rs_max_backoff :: duration
  rs_multiplier :: rat
  rs_jitter :: rat
  rs_no_backoff :: bool
  rs_retry_on :: "tool_sentinel list"

definition default_retry_spec :: retry_spec where
  "default_retry_spec =
     \<lparr>rs_max_attempts = 3, rs_initial_backoff = 50 * millisecond, rs_max_backoff = 2 * second,
      rs_multiplier = 2, rs_jitter = 1 / 5, rs_no_backoff = False, rs_retry_on = []\<rparr>"

datatype retry_problem = Attempts_Negative | Backoff_Negative | Initial_Over_Max | Shrinking_Multiplier
  | Jitter_Outside | Irreversible_Retried

definition retry_problems :: "retry_spec \<Rightarrow> effect_class \<Rightarrow> retry_problem list" where
  "retry_problems r e =
     (if rs_max_attempts r < 0 then [Attempts_Negative] else [])
     @ (if rs_initial_backoff r < 0 \<or> rs_max_backoff r < 0 then [Backoff_Negative] else [])
     @ (if rs_max_backoff r > 0 \<and> rs_initial_backoff r > rs_max_backoff r then [Initial_Over_Max] else [])
     @ (if rs_multiplier r \<noteq> 0 \<and> rs_multiplier r < 1 then [Shrinking_Multiplier] else [])
     @ (if rs_jitter r < 0 \<or> rs_jitter r > 1 then [Jitter_Outside] else [])
     @ (if e = Effect_Irreversible \<and> rs_max_attempts r > 1 then [Irreversible_Retried] else [])"

definition or_default :: "'a::zero \<Rightarrow> 'a \<Rightarrow> 'a" where
  "or_default x d = (if x = 0 then d else x)"

definition retry_with_defaults :: "retry_spec \<Rightarrow> retry_spec \<Rightarrow> retry_spec" where
  "retry_with_defaults r def =
     (let r1 = (if \<not> rs_no_backoff r \<and> rs_no_backoff def \<and> rs_initial_backoff r = 0
                then r\<lparr>rs_no_backoff := True\<rparr> else r)
      in if rs_no_backoff r1
         then r1\<lparr>rs_initial_backoff := 0, rs_max_backoff := 0, rs_jitter := 0,
                 rs_max_attempts := or_default (rs_max_attempts r1) (rs_max_attempts def)\<rparr>
         else r1\<lparr>rs_max_attempts := or_default (rs_max_attempts r1) (rs_max_attempts def),
                 rs_initial_backoff := or_default (rs_initial_backoff r1) (rs_initial_backoff def),
                 rs_max_backoff := or_default (rs_max_backoff r1) (rs_max_backoff def),
                 rs_multiplier := or_default (rs_multiplier r1) (rs_multiplier def),
                 rs_jitter := or_default (rs_jitter r1) (rs_jitter def)\<rparr>)"

definition to_runtime_policy :: "retry_spec \<Rightarrow> retry_policy" where
  "to_runtime_policy r =
     \<lparr>rp_max_attempts = rs_max_attempts r, rp_initial_backoff = rs_initial_backoff r,
      rp_max_backoff = rs_max_backoff r, rp_multiplier = rs_multiplier r, rp_jitter_fraction = rs_jitter r\<rparr>"

definition spec_retryable :: "retry_spec \<Rightarrow> tool_error option \<Rightarrow> bool" where
  "spec_retryable r err =
     (if \<not> classify err then False
      else if rs_retry_on r = [] then True
      else (case err of None \<Rightarrow> False | Some e \<Rightarrow> list_ex (is_err e) (rs_retry_on r)))"

definition engine_backoff :: "retry_spec \<Rightarrow> int \<Rightarrow> rat \<Rightarrow> duration" where
  "engine_backoff r attempt rnd =
     (if rs_no_backoff r then 0 else backoff (to_runtime_policy r) attempt (Some rnd))"

section \<open>Dead letters\<close>

record 'd dead_letters =
  dl_max :: nat
  dl_entries :: "'d list"
  dl_dropped :: nat

definition new_dead_letters :: "int \<Rightarrow> 'd dead_letters" where
  "new_dead_letters limit = \<lparr>dl_max = (if limit \<le> 0 then 256 else nat limit), dl_entries = [], dl_dropped = 0\<rparr>"

definition dead_letter_add :: "'d \<Rightarrow> 'd dead_letters \<Rightarrow> 'd dead_letters" where
  "dead_letter_add d q =
     (if length (dl_entries q) \<ge> dl_max q
      then q\<lparr>dl_entries := tl (dl_entries q) @ [d], dl_dropped := dl_dropped q + 1\<rparr>
      else q\<lparr>dl_entries := dl_entries q @ [d]\<rparr>)"

section \<open>Budgets\<close>

record budget =
  bg_wall_clock :: duration
  bg_input_bytes :: int
  bg_output_bytes :: int
  bg_max_attempts :: int
  bg_slots :: int

definition default_budget :: budget where
  "default_budget =
     \<lparr>bg_wall_clock = 30 * second, bg_input_bytes = 256 * 1024, bg_output_bytes = 1024 * 1024,
      bg_max_attempts = 3, bg_slots = 1\<rparr>"

datatype budget_problem = Wall_Clock_Negative | Bytes_Negative | Budget_Attempts_Negative | Slots_Negative

definition budget_problems :: "budget \<Rightarrow> budget_problem list" where
  "budget_problems b =
     (if bg_wall_clock b < 0 then [Wall_Clock_Negative] else [])
     @ (if bg_input_bytes b < 0 \<or> bg_output_bytes b < 0 then [Bytes_Negative] else [])
     @ (if bg_max_attempts b < 0 then [Budget_Attempts_Negative] else [])
     @ (if bg_slots b < 0 then [Slots_Negative] else [])"

definition budget_with_defaults :: "budget \<Rightarrow> budget \<Rightarrow> budget" where
  "budget_with_defaults b def =
     \<lparr>bg_wall_clock = or_default (bg_wall_clock b) (bg_wall_clock def),
      bg_input_bytes = or_default (bg_input_bytes b) (bg_input_bytes def),
      bg_output_bytes = or_default (bg_output_bytes b) (bg_output_bytes def),
      bg_max_attempts = or_default (bg_max_attempts b) (bg_max_attempts def),
      bg_slots = or_default (bg_slots b) (bg_slots def)\<rparr>"

definition stricter :: "int \<Rightarrow> int \<Rightarrow> int" where
  "stricter x y = (if y > 0 \<and> (x = 0 \<or> y < x) then y else x)"

definition tighten :: "budget \<Rightarrow> budget \<Rightarrow> budget" where
  "tighten b other =
     \<lparr>bg_wall_clock = stricter (bg_wall_clock b) (bg_wall_clock other),
      bg_input_bytes = stricter (bg_input_bytes b) (bg_input_bytes other),
      bg_output_bytes = stricter (bg_output_bytes b) (bg_output_bytes other),
      bg_max_attempts = stricter (bg_max_attempts b) (bg_max_attempts other),
      bg_slots = (if bg_slots other > bg_slots b then bg_slots other else bg_slots b)\<rparr>"

section \<open>The sandbox\<close>

text \<open>
  Leases are numbered as they are granted; \<open>sx_leases\<close> holds every lease ever granted.
\<close>

record lease =
  ls_tool :: string
  ls_budget :: budget
  ls_out_bytes :: int
  ls_released :: bool

record sandbox =
  sx_max_slots :: int
  sx_default_tool :: int
  sx_in_use :: int
  sx_per_tool :: "(string \<times> int) list"
  sx_tool_caps :: "(string \<times> int) list"
  sx_admitted :: nat
  sx_refused :: nat
  sx_leases :: "lease list"

definition new_sandbox :: "int \<Rightarrow> int \<Rightarrow> sandbox" where
  "new_sandbox max_slots per_tool =
     \<lparr>sx_max_slots = (if max_slots \<le> 0 then 64 else max_slots),
      sx_default_tool = (if per_tool \<le> 0 then 8 else per_tool),
      sx_in_use = 0, sx_per_tool = [], sx_tool_caps = [], sx_admitted = 0, sx_refused = 0, sx_leases = []\<rparr>"

definition set_tool_concurrency :: "string \<Rightarrow> int \<Rightarrow> sandbox \<Rightarrow> sandbox" where
  "set_tool_concurrency t n s = (if n \<le> 0 then s else s\<lparr>sx_tool_caps := AList.update t n (sx_tool_caps s)\<rparr>)"

definition running :: "string \<Rightarrow> sandbox \<Rightarrow> int" where
  "running t s = (case map_of (sx_per_tool s) t of Some n \<Rightarrow> n | None \<Rightarrow> 0)"

definition tool_cap :: "string \<Rightarrow> sandbox \<Rightarrow> int" where
  "tool_cap t s = (case map_of (sx_tool_caps s) t of Some n \<Rightarrow> n | None \<Rightarrow> sx_default_tool s)"

definition at_least_one :: "int \<Rightarrow> int" where
  "at_least_one n = (if n \<le> 0 then 1 else n)"

datatype enter_error = Sandbox_Full | Tool_Full

definition enter :: "string \<Rightarrow> budget \<Rightarrow> sandbox \<Rightarrow> sandbox \<times> (enter_error + nat)" where
  "enter t b s =
     (let slots = at_least_one (bg_slots b) in
      if sx_in_use s + slots > sx_max_slots s then (s\<lparr>sx_refused := sx_refused s + 1\<rparr>, Inl Sandbox_Full)
      else if running t s \<ge> tool_cap t s then (s\<lparr>sx_refused := sx_refused s + 1\<rparr>, Inl Tool_Full)
      else (s\<lparr>sx_in_use := sx_in_use s + slots,
              sx_per_tool := AList.update t (running t s + 1) (sx_per_tool s),
              sx_admitted := sx_admitted s + 1,
              sx_leases := sx_leases s @ [\<lparr>ls_tool = t, ls_budget = b, ls_out_bytes = 0, ls_released = False\<rparr>]\<rparr>,
            Inr (length (sx_leases s))))"

definition sandbox_release :: "string \<Rightarrow> int \<Rightarrow> sandbox \<Rightarrow> sandbox" where
  "sandbox_release t slots s =
     (let n = sx_in_use s - at_least_one slots
      in s\<lparr>sx_in_use := (if n < 0 then 0 else n),
           sx_per_tool := (if running t s \<le> 1 then AList.delete t (sx_per_tool s)
                           else AList.update t (running t s - 1) (sx_per_tool s))\<rparr>)"

definition lease_release :: "nat \<Rightarrow> sandbox \<Rightarrow> sandbox" where
  "lease_release i s =
     (if i < length (sx_leases s)
      then (let l = sx_leases s ! i in
            if ls_released l then s
            else sandbox_release (ls_tool l) (bg_slots (ls_budget l))
                   (s\<lparr>sx_leases := (sx_leases s)[i := l\<lparr>ls_released := True\<rparr>]\<rparr>))
      else s)"

definition charge_output :: "int \<Rightarrow> lease \<Rightarrow> lease \<times> bool" where
  "charge_output n l =
     (if n \<le> 0 then (l, True)
      else let total = ls_out_bytes l + n
           in (l\<lparr>ls_out_bytes := total\<rparr>,
               \<not> (bg_output_bytes (ls_budget l) > 0 \<and> total > bg_output_bytes (ls_budget l))))"

definition lease_charge :: "nat \<Rightarrow> int \<Rightarrow> sandbox \<Rightarrow> sandbox \<times> bool" where
  "lease_charge i n s =
     (if i < length (sx_leases s)
      then (let (l, ok) = charge_output n (sx_leases s ! i)
            in (s\<lparr>sx_leases := (sx_leases s)[i := l]\<rparr>, ok))
      else (s, True))"

datatype sandbox_op = Sx_Enter string budget | Sx_Release nat | Sx_Charge nat int | Sx_Cap string int

fun sandbox_step :: "sandbox \<Rightarrow> sandbox_op \<Rightarrow> sandbox" where
  "sandbox_step s (Sx_Enter t b) = fst (enter t b s)"
| "sandbox_step s (Sx_Release i) = lease_release i s"
| "sandbox_step s (Sx_Charge i n) = fst (lease_charge i n s)"
| "sandbox_step s (Sx_Cap t n) = set_tool_concurrency t n s"

section \<open>The sandbox's accounts\<close>

definition live_slots :: "lease list \<Rightarrow> int" where
  "live_slots ls = sum_list (map (\<lambda>l. if ls_released l then 0 else at_least_one (bg_slots (ls_budget l))) ls)"

definition live_of :: "string \<Rightarrow> lease list \<Rightarrow> nat" where
  "live_of t ls = length (filter (\<lambda>l. \<not> ls_released l \<and> ls_tool l = t) ls)"

definition sandbox_inv :: "sandbox \<Rightarrow> bool" where
  "sandbox_inv s \<longleftrightarrow> sx_in_use s = live_slots (sx_leases s) \<and> sx_in_use s \<le> sx_max_slots s
     \<and> (\<forall>t. running t s = int (live_of t (sx_leases s))) \<and> distinct (map fst (sx_per_tool s))"

lemma at_least_one_pos: "1 \<le> at_least_one n"
  by (simp add: at_least_one_def)

lemma live_slots_nonneg: "0 \<le> live_slots ls"
  unfolding live_slots_def using at_least_one_pos order_trans [OF zero_le_one]
  by (intro sum_list_nonneg) (auto split: if_splits)

lemma live_slots_snoc: "live_slots (ls @ [l]) = live_slots ls + live_slots [l]"
  by (simp add: live_slots_def)

lemma live_update:
  assumes "i < length ls"
  shows "live_slots (ls[i := l]) = live_slots ls - live_slots [ls ! i] + live_slots [l]"
    and "int (live_of t (ls[i := l])) = int (live_of t ls) - int (live_of t [ls ! i]) + int (live_of t [l])"
proof -
  have split: "ls = take i ls @ ls ! i # drop (Suc i) ls" "ls[i := l] = take i ls @ l # drop (Suc i) ls"
    using assms by (simp_all add: id_take_nth_drop upd_conv_take_nth_drop)
  show "live_slots (ls[i := l]) = live_slots ls - live_slots [ls ! i] + live_slots [l]"
    by (subst (1) split(2), subst (2) split(1)) (simp add: live_slots_def)
  show "int (live_of t (ls[i := l])) = int (live_of t ls) - int (live_of t [ls ! i]) + int (live_of t [l])"
    by (subst (1) split(2), subst (2) split(1)) (simp add: live_of_def)
qed

lemma live_of_le: "i < length ls \<Longrightarrow> \<not> ls_released (ls ! i) \<Longrightarrow> 1 \<le> live_of (ls_tool (ls ! i)) ls"
  by (auto simp: live_of_def Suc_le_eq filter_empty_conv)

lemma running_update:
  "running t' (s\<lparr>sx_per_tool := AList.update t n (sx_per_tool s)\<rparr>) = (if t' = t then n else running t' s)"
  by (simp add: running_def update_conv')

lemma running_delete:
  "running t' (s\<lparr>sx_per_tool := AList.delete t (sx_per_tool s)\<rparr>) = (if t' = t then 0 else running t' s)"
  by (simp add: running_def delete_conv')

lemma running_frame [simp]:
  "running t (s\<lparr>sx_refused := r\<rparr>) = running t s" "running t (s\<lparr>sx_in_use := u\<rparr>) = running t s"
  "running t (s\<lparr>sx_admitted := a\<rparr>) = running t s" "running t (s\<lparr>sx_leases := ls\<rparr>) = running t s"
  "running t (s\<lparr>sx_tool_caps := cs\<rparr>) = running t s"
  by (simp_all add: running_def)

lemma enter_inv:
  assumes "sandbox_inv s"
  shows "sandbox_inv (fst (enter t b s))"
proof -
  let ?l = "\<lparr>ls_tool = t, ls_budget = b, ls_out_bytes = 0, ls_released = False\<rparr>"
  have "live_of t' (ls @ [?l]) = live_of t' ls + (if t' = t then 1 else 0)" for t' ls
    by (simp add: live_of_def)
  moreover have "live_slots (ls @ [?l]) = live_slots ls + at_least_one (bg_slots b)" for ls
    by (simp add: live_slots_def)
  moreover have "running t' (s\<lparr>sx_in_use := u, sx_per_tool := AList.update t n (sx_per_tool s), sx_admitted := a,
      sx_leases := ls\<rparr>) = (if t' = t then n else running t' s)" for t' u n a ls
    by (simp add: running_def update_conv')
  ultimately show ?thesis
    using assms by (auto simp: enter_def Let_def sandbox_inv_def distinct_update)
qed

lemma sandbox_release_inv:
  assumes "sandbox_inv s" and "i < length (sx_leases s)" and "\<not> ls_released (sx_leases s ! i)"
  shows "sandbox_inv (lease_release i s)"
proof -
  let ?l = "sx_leases s ! i" and ?l' = "(sx_leases s ! i)\<lparr>ls_released := True\<rparr>"
  let ?s = "s\<lparr>sx_leases := (sx_leases s)[i := ?l']\<rparr>" and ?t = "ls_tool (sx_leases s ! i)"
  have one: "live_slots [?l] = at_least_one (bg_slots (ls_budget ?l))" "live_slots [?l'] = 0"
    "live_of t [?l] = (if t = ?t then 1 else 0)" "live_of t [?l'] = 0" for t
    using assms(3) by (simp_all add: live_slots_def live_of_def)
  have use: "sx_in_use s - at_least_one (bg_slots (ls_budget ?l)) = live_slots ((sx_leases s)[i := ?l'])"
    using assms(1) live_update(1) [OF assms(2), of ?l'] one by (simp add: sandbox_inv_def)
  have run: "int (live_of t ((sx_leases s)[i := ?l'])) = running t s - (if t = ?t then 1 else 0)" for t
    using assms(1) live_update(2) [OF assms(2), of t ?l'] one by (simp add: sandbox_inv_def)
  have pos: "0 \<le> live_slots ((sx_leases s)[i := ?l'])" by (rule live_slots_nonneg)
  have some: "1 \<le> running ?t s"
    using assms live_of_le [OF assms(2,3)] by (simp add: sandbox_inv_def)
  have rel: "lease_release i s = sandbox_release ?t (bg_slots (ls_budget ?l)) ?s"
    using assms by (simp add: lease_release_def Let_def)
  have "sx_in_use (lease_release i s) = live_slots ((sx_leases s)[i := ?l'])"
    unfolding rel using use pos by (simp add: sandbox_release_def Let_def)
  moreover have "sx_leases (lease_release i s) = (sx_leases s)[i := ?l']" "sx_max_slots (lease_release i s) = sx_max_slots s"
    unfolding rel by (simp_all add: sandbox_release_def Let_def)
  moreover have "running t (lease_release i s) = running t s - (if t = ?t then 1 else 0)" for t
    unfolding rel using some by (auto simp: sandbox_release_def Let_def running_def update_conv' delete_conv')
  moreover have "distinct (map fst (sx_per_tool (lease_release i s)))"
    unfolding rel using assms(1) by (simp add: sandbox_release_def Let_def sandbox_inv_def distinct_update distinct_delete)
  moreover have "live_slots ((sx_leases s)[i := ?l']) \<le> sx_max_slots s"
    using assms(1) use at_least_one_pos [of "bg_slots (ls_budget ?l)"] by (simp add: sandbox_inv_def)
  ultimately show ?thesis using run by (simp add: sandbox_inv_def)
qed

lemma charge_inv:
  assumes "sandbox_inv s"
  shows "sandbox_inv (fst (lease_charge i n s))"
proof (cases "i < length (sx_leases s)")
  case True
  let ?l = "sx_leases s ! i" and ?l' = "fst (charge_output n (sx_leases s ! i))"
  have same: "live_slots [?l'] = live_slots [?l]" "live_of t [?l'] = live_of t [?l]" for t
    by (simp_all add: charge_output_def live_slots_def live_of_def Let_def)
  have "live_slots ((sx_leases s)[i := ?l']) = live_slots (sx_leases s)"
    "live_of t ((sx_leases s)[i := ?l']) = live_of t (sx_leases s)" for t
    using live_update(1) [OF True, of ?l'] live_update(2) [OF True, of t ?l'] same by simp_all
  moreover have "fst (lease_charge i n s) = s\<lparr>sx_leases := (sx_leases s)[i := ?l']\<rparr>"
    using True by (simp add: lease_charge_def split: prod.splits)
  ultimately show ?thesis using assms by (simp add: sandbox_inv_def)
qed (use assms in \<open>simp add: lease_charge_def\<close>)

lemma lease_release_inv:
  assumes "sandbox_inv s"
  shows "sandbox_inv (lease_release i s)"
proof (cases "i < length (sx_leases s) \<and> \<not> ls_released (sx_leases s ! i)")
  case False
  then show ?thesis using assms by (auto simp: lease_release_def)
qed (simp add: sandbox_release_inv assms)

lemma sandbox_step_inv: "sandbox_inv s \<Longrightarrow> sandbox_inv (sandbox_step s a)"
  by (cases a) (simp_all add: enter_inv charge_inv lease_release_inv set_tool_concurrency_def sandbox_inv_def [of "sx_tool_caps_update _ _"] sandbox_inv_def [of s])

lemma new_sandbox_inv: "sandbox_inv (new_sandbox m d)"
  by (simp add: new_sandbox_def sandbox_inv_def live_slots_def live_of_def running_def)

interpretation sandbox_accounts: invariant_ops sandbox_step sandbox_inv
  by unfold_locales (rule sandbox_step_inv)

lemma step_config: "sx_max_slots (sandbox_step s a) = sx_max_slots s"
  by (cases a) (auto simp: enter_def lease_release_def sandbox_release_def lease_charge_def
      set_tool_concurrency_def Let_def split: prod.splits)

lemma run_max_slots: "sx_max_slots (run_ops sandbox_step s ops) = sx_max_slots s"
  by (induction ops arbitrary: s) (simp_all add: step_config)

section \<open>Properties\<close>


text \<open>Tightening is a meet: with zero for no limit, every limit of the result is the smaller of
  the two, in either order, and no limit of the result is above one of the arguments'.\<close>

definition limit_of :: "int \<Rightarrow> int option" where
  "limit_of x = (if x = 0 then None else Some x)"

definition min_limit :: "int option \<Rightarrow> int option \<Rightarrow> int option" where
  "min_limit a b = (case (a, b) of (None, _) \<Rightarrow> b | (_, None) \<Rightarrow> a | (Some x, Some y) \<Rightarrow> Some (min x y))"

lemma stricter_is_min: "0 \<le> x \<Longrightarrow> 0 \<le> y \<Longrightarrow> limit_of (stricter x y) = min_limit (limit_of x) (limit_of y)"
  by (auto simp: limit_of_def min_limit_def stricter_def)

lemma stricter_nonneg: "0 \<le> x \<Longrightarrow> 0 \<le> y \<Longrightarrow> 0 \<le> stricter x y"
  by (simp add: stricter_def)

lemma stricter_commute: "0 \<le> x \<Longrightarrow> 0 \<le> y \<Longrightarrow> stricter x y = stricter y x"
  by (auto simp: stricter_def)

lemma budget_problems_none:
  "budget_problems b = [] \<longleftrightarrow> 0 \<le> bg_wall_clock b \<and> 0 \<le> bg_input_bytes b \<and> 0 \<le> bg_output_bytes b
     \<and> 0 \<le> bg_max_attempts b \<and> 0 \<le> bg_slots b"
  by (auto simp: budget_problems_def)

theorem tighten_is_a_meet:
  assumes "budget_problems b = []" and "budget_problems c = []"
  shows "limit_of (bg_wall_clock (tighten b c)) = min_limit (limit_of (bg_wall_clock b)) (limit_of (bg_wall_clock c))
    \<and> limit_of (bg_input_bytes (tighten b c)) = min_limit (limit_of (bg_input_bytes b)) (limit_of (bg_input_bytes c))
    \<and> limit_of (bg_output_bytes (tighten b c)) = min_limit (limit_of (bg_output_bytes b)) (limit_of (bg_output_bytes c))
    \<and> limit_of (bg_max_attempts (tighten b c)) = min_limit (limit_of (bg_max_attempts b)) (limit_of (bg_max_attempts c))
    \<and> budget_problems (tighten b c) = [] \<and> tighten b c = tighten c b"
proof -
  have p: "0 \<le> bg_wall_clock b" "0 \<le> bg_input_bytes b" "0 \<le> bg_output_bytes b" "0 \<le> bg_max_attempts b"
      "0 \<le> bg_slots b" "0 \<le> bg_wall_clock c" "0 \<le> bg_input_bytes c" "0 \<le> bg_output_bytes c"
      "0 \<le> bg_max_attempts c" "0 \<le> bg_slots c"
    using assms by (simp_all add: budget_problems_none)
  then have ok: "budget_problems (tighten b c) = []"
    by (simp add: budget_problems_none tighten_def stricter_nonneg)
  have comm: "tighten b c = tighten c b"
    unfolding tighten_def
    by (rule budget.equality)
       (simp_all add: p stricter_commute [OF p(1) p(6)] stricter_commute [OF p(2) p(7)]
          stricter_commute [OF p(3) p(8)] stricter_commute [OF p(4) p(9)])
  have sel: "bg_wall_clock (tighten b c) = stricter (bg_wall_clock b) (bg_wall_clock c)"
    "bg_input_bytes (tighten b c) = stricter (bg_input_bytes b) (bg_input_bytes c)"
    "bg_output_bytes (tighten b c) = stricter (bg_output_bytes b) (bg_output_bytes c)"
    "bg_max_attempts (tighten b c) = stricter (bg_max_attempts b) (bg_max_attempts c)"
    by (simp_all add: tighten_def)
  show ?thesis
    by (intro conjI ok comm) (simp_all add: sel stricter_is_min p)
qed

theorem tighten_is_a_meet_witness:
  "tighten default_budget (default_budget\<lparr>bg_input_bytes := 0, bg_max_attempts := 1\<rparr>)
     = tighten (default_budget\<lparr>bg_input_bytes := 0, bg_max_attempts := 1\<rparr>) default_budget"
  using tighten_is_a_meet [of default_budget "default_budget\<lparr>bg_input_bytes := 0, bg_max_attempts := 1\<rparr>"]
  by (simp add: budget_problems_none default_budget_def)

text \<open>A policy only narrows the classifier, which refuses an error that carries a permanent sentinel.\<close>

lemma policy_narrows: "spec_retryable r err \<Longrightarrow> classify err"
  by (simp add: spec_retryable_def split: if_splits)

lemma permanent_is_refused:
  assumes "x \<in> set permanent_sentinels" and "is_err e x"
  shows "\<not> spec_retryable r (Some e)"
proof -
  have "list_ex (is_err e) permanent_sentinels" unfolding list_ex_iff using assms by blast
  then have "\<not> classify (Some e)" by (simp only: classify_def option.case if_True not_False_eq_True)
  then show ?thesis using policy_narrows by blast
qed

end
