(* ===== verification/ToolContract.thy ===== *)
theory ToolContract
  imports ToolValue ToolLedger ToolRetry
begin

text \<open>
  Tool contracts (\<^verbatim>\<open>packages/go/toolruntime/contract.go\<close>): fields, what a value must satisfy, the
  validation of a contract, of arguments and of results; and versions (\<^verbatim>\<open>ids.go\<close>).  Floats are a
  parameter, with the conversion from integers and the comparison as a record of functions.
\<close>

section \<open>Kinds\<close>

datatype value_kind = Kind_Null | Kind_String | Kind_Int | Kind_Float | Kind_Bool | Kind_Bytes | Kind_List | Kind_Map

primrec kind_of :: "'f val \<Rightarrow> value_kind" where
  "kind_of V_Null = Kind_Null"
| "kind_of (V_String s) = Kind_String"
| "kind_of (V_Int w) = Kind_Int"
| "kind_of (V_Float x) = Kind_Float"
| "kind_of (V_Bool b) = Kind_Bool"
| "kind_of (V_Bytes s) = Kind_Bytes"
| "kind_of (V_List vs) = Kind_List"
| "kind_of (V_Map ps) = Kind_Map"

definition is_null :: "'f val \<Rightarrow> bool" where
  "is_null v = (kind_of v = Kind_Null)"

primrec value_len :: "'f val \<Rightarrow> nat" where
  "value_len V_Null = 0"
| "value_len (V_String s) = length s"
| "value_len (V_Int w) = 0"
| "value_len (V_Float x) = 0"
| "value_len (V_Bool b) = 0"
| "value_len (V_Bytes s) = length s"
| "value_len (V_List vs) = length vs"
| "value_len (V_Map ps) = length ps"

record 'f float_ops =
  fo_of_int :: "64 word \<Rightarrow> 'f"
  fo_less :: "'f \<Rightarrow> 'f \<Rightarrow> bool"

definition value_flt :: "'f float_ops \<Rightarrow> 'f val \<Rightarrow> 'f option" where
  "value_flt fo v = (case v of V_Float x \<Rightarrow> Some x | V_Int w \<Rightarrow> Some (fo_of_int fo w) | _ \<Rightarrow> None)"

definition value_str :: "'f val \<Rightarrow> string" where
  "value_str v = (case v of V_String s \<Rightarrow> s | _ \<Rightarrow> [])"

section \<open>Fields\<close>

record 'f field_spec =
  fs_name :: string
  fs_kind :: value_kind
  fs_required :: bool
  fs_default :: "'f val"
  fs_has_default :: bool
  fs_max_len :: int
  fs_min :: 'f
  fs_max :: 'f
  fs_bounded :: bool
  fs_enum :: "string list"
  fs_sensitive :: bool

datatype field_problem = Name_Required | Required_With_Default | Max_Len_Negative | Bounds_Crossed
  | Enum_On_Other_Kind | Default_Of_Other_Kind

definition field_problems :: "'f float_ops \<Rightarrow> 'f field_spec \<Rightarrow> field_problem list" where
  "field_problems fo f =
     (if fs_name f = [] then [Name_Required] else [])
     @ (if fs_required f \<and> fs_has_default f then [Required_With_Default] else [])
     @ (if fs_max_len f < 0 then [Max_Len_Negative] else [])
     @ (if fs_bounded f \<and> fo_less fo (fs_max f) (fs_min f) then [Bounds_Crossed] else [])
     @ (if fs_enum f \<noteq> [] \<and> fs_kind f \<noteq> Kind_String then [Enum_On_Other_Kind] else [])
     @ (if fs_has_default f \<and> \<not> is_null (fs_default f) \<and> kind_of (fs_default f) \<noteq> fs_kind f
        then [Default_Of_Other_Kind] else [])"

datatype field_error = Null_Where_Required | Wrong_Kind | Too_Long | Not_A_Number | Out_Of_Range | Not_In_Enum

text \<open>\<^verbatim>\<open>check\<close>: the first constraint a present value breaks.\<close>

definition field_check :: "'f float_ops \<Rightarrow> 'f field_spec \<Rightarrow> 'f val \<Rightarrow> field_error option" where
  "field_check fo f v =
     (if is_null v then (if fs_required f then Some Null_Where_Required else None)
      else if kind_of v \<noteq> fs_kind f \<and> \<not> (fs_kind f = Kind_Float \<and> kind_of v = Kind_Int) then Some Wrong_Kind
      else if fs_max_len f > 0 \<and> int (value_len v) > fs_max_len f then Some Too_Long
      else (case (if fs_bounded f
                  then (case value_flt fo v of
                          None \<Rightarrow> Some Not_A_Number
                        | Some n \<Rightarrow> if fo_less fo n (fs_min f) \<or> fo_less fo (fs_max f) n then Some Out_Of_Range
                                   else None)
                  else None) of
              Some e \<Rightarrow> Some e
            | None \<Rightarrow> if fs_enum f \<noteq> [] \<and> value_str v \<notin> set (fs_enum f) then Some Not_In_Enum else None))"

section \<open>Versions\<close>

text \<open>\<^verbatim>\<open>strings.Split\<close> at dots; \<^verbatim>\<open>strconv.Atoi\<close>, which takes a sign and leading zeros.\<close>

fun split_dots :: "string \<Rightarrow> string \<Rightarrow> string list" where
  "split_dots acc [] = [rev acc]"
| "split_dots acc (c # cs) = (if c = CHR ''.'' then rev acc # split_dots [] cs else split_dots (c # acc) cs)"

definition digits_value :: "string \<Rightarrow> int option" where
  "digits_value s =
     (if s = [] \<or> \<not> list_all is_digit s then None
      else Some (foldl (\<lambda>n c. 10 * n + (int (of_char c) - 48)) 0 s))"

definition atoi :: "string \<Rightarrow> int option" where
  "atoi s =
     (let (neg, ds) = (case s of [] \<Rightarrow> (False, [])
                       | c # cs \<Rightarrow> if c = CHR ''-'' then (True, cs) else if c = CHR ''+'' then (False, cs)
                                  else (False, s))
      in case digits_value ds of
           None \<Rightarrow> None
         | Some n \<Rightarrow> (let m = (if neg then - n else n)
                      in if - (2 ^ 63) \<le> m \<and> m < 2 ^ 63 then Some m else None))"

definition parse_version :: "string \<Rightarrow> (int \<times> int \<times> int) option" where
  "parse_version v =
     (case map atoi (split_dots [] v) of
        [Some a, Some b, Some c] \<Rightarrow> if a < 0 \<or> b < 0 \<or> c < 0 then None else Some (a, b, c)
      | _ \<Rightarrow> None)"

definition version_valid :: "string \<Rightarrow> bool" where
  "version_valid v = (parse_version v \<noteq> None)"

definition version_major :: "string \<Rightarrow> int" where
  "version_major v = (case parse_version v of None \<Rightarrow> - 1 | Some (m, _) \<Rightarrow> m)"

text \<open>Go's \<^verbatim>\<open>strings.Compare\<close> is the lexicographic order of bytes.\<close>

definition compare_strings :: "string \<Rightarrow> string \<Rightarrow> int" where
  "compare_strings a b = (if a = b then 0 else if a < b then - 1 else 1)"

fun compare_pairs :: "(int \<times> int) list \<Rightarrow> int" where
  "compare_pairs [] = 0"
| "compare_pairs ((a, b) # ps) = (if a \<noteq> b then (if a < b then - 1 else 1) else compare_pairs ps)"

definition version_compare :: "string \<Rightarrow> string \<Rightarrow> int" where
  "version_compare v w =
     (case (parse_version v, parse_version w) of
        (None, None) \<Rightarrow> compare_strings v w
      | (None, Some _) \<Rightarrow> - 1
      | (Some _, None) \<Rightarrow> 1
      | (Some (a1, a2, a3), Some (b1, b2, b3)) \<Rightarrow> compare_pairs [(a1, b1), (a2, b2), (a3, b3)])"

record version_constraint =
  vc_exact :: string
  vc_major :: int

definition satisfies :: "version_constraint \<Rightarrow> string \<Rightarrow> bool" where
  "satisfies c v =
     (if vc_exact c \<noteq> [] then vc_exact c = v
      else if vc_major c \<ge> 0 then version_major v = vc_major c
      else True)"

section \<open>Contracts\<close>

record 'f contract =
  ct_descriptor :: descriptor
  ct_capabilities :: "string list"
  ct_owner :: string
  ct_effect :: effect_class
  ct_input :: "'f field_spec list"
  ct_output :: "'f field_spec list"
  ct_allow_extra :: bool
  ct_timeout :: duration
  ct_retry :: retry_spec
  ct_budget :: budget
  ct_permissions :: "string list"
  ct_consent :: string
  ct_concurrency :: int
  ct_streaming :: bool
  ct_compensable :: bool

datatype contract_problem = Tool_Required | Version_Malformed | No_Capability | Empty_Capability | No_Owner
  | Timeout_Not_Positive | Timeout_Over_Maximum | Concurrency_Negative
  | Input_Field field_problem | Duplicate_Input string | Output_Field field_problem | Duplicate_Output string
  | Irreversible_Compensable | Retry_Problem retry_problem | Budget_Problem budget_problem

definition descriptor_problems :: "descriptor \<Rightarrow> contract_problem list" where
  "descriptor_problems d =
     (if fst d = [] then [Tool_Required] else []) @ (if \<not> version_valid (snd d) then [Version_Malformed] else [])"

text \<open>The loop over the fields of one side, with the names seen so far.\<close>

fun fields_problems :: "'f float_ops \<Rightarrow> (field_problem \<Rightarrow> contract_problem) \<Rightarrow> (string \<Rightarrow> contract_problem)
    \<Rightarrow> string list \<Rightarrow> 'f field_spec list \<Rightarrow> contract_problem list" where
  "fields_problems fo wrap dup seen [] = []"
| "fields_problems fo wrap dup seen (f # fs) =
     map wrap (field_problems fo f) @ (if fs_name f \<in> set seen then [dup (fs_name f)] else [])
     @ fields_problems fo wrap dup (fs_name f # seen) fs"

definition contract_problems :: "'f float_ops \<Rightarrow> duration \<Rightarrow> 'f contract \<Rightarrow> contract_problem list" where
  "contract_problems fo max_timeout c =
     descriptor_problems (ct_descriptor c)
     @ (if ct_capabilities c = [] then [No_Capability] else [])
     @ map (\<lambda>_. Empty_Capability) (filter (\<lambda>k. k = []) (ct_capabilities c))
     @ (if ct_owner c = [] then [No_Owner] else [])
     @ (if ct_timeout c \<le> 0 then [Timeout_Not_Positive] else [])
     @ (if max_timeout > 0 \<and> ct_timeout c > max_timeout then [Timeout_Over_Maximum] else [])
     @ (if ct_concurrency c < 0 then [Concurrency_Negative] else [])
     @ fields_problems fo Input_Field Duplicate_Input [] (ct_input c)
     @ fields_problems fo Output_Field Duplicate_Output [] (ct_output c)
     @ (if ct_effect c = Effect_Irreversible \<and> ct_compensable c then [Irreversible_Compensable] else [])
     @ map Retry_Problem (retry_problems (ct_retry c) (ct_effect c))
     @ map Budget_Problem (budget_problems (ct_budget c))"

definition provides :: "'f contract \<Rightarrow> string \<Rightarrow> bool" where
  "provides c want = (want \<in> set (ct_capabilities c))"

definition input_spec :: "'f contract \<Rightarrow> string \<Rightarrow> 'f field_spec option" where
  "input_spec c name = find (\<lambda>f. fs_name f = name) (ct_input c)"

datatype validate_error = Missing_Field string | Bad_Field string field_error | Unknown_Field string

text \<open>The loop over the declared input fields, which fills in defaults; then the undeclared names in
  sorted order.\<close>

fun input_loop :: "'f float_ops \<Rightarrow> 'f field_spec list \<Rightarrow> 'f arguments \<Rightarrow> validate_error + 'f arguments" where
  "input_loop fo [] out = Inr out"
| "input_loop fo (f # fs) out =
     (case map_of out (fs_name f) of
        None \<Rightarrow>
          (if fs_required f then Inl (Missing_Field (fs_name f))
           else input_loop fo fs (if fs_has_default f then AList.update (fs_name f) (fs_default f) out else out))
      | Some v \<Rightarrow>
          (case field_check fo f v of
             Some e \<Rightarrow> Inl (Bad_Field (fs_name f) e)
           | None \<Rightarrow> input_loop fo fs out))"

definition undeclared :: "'f field_spec list \<Rightarrow> 'f arguments \<Rightarrow> string list" where
  "undeclared fs a = filter (\<lambda>k. k \<notin> fs_name ` set fs) (sort (map fst a))"

definition validate_input :: "'f float_ops \<Rightarrow> 'f contract \<Rightarrow> 'f arguments \<Rightarrow> validate_error + 'f arguments" where
  "validate_input fo c a =
     (case input_loop fo (ct_input c) a of
        Inl e \<Rightarrow> Inl e
      | Inr out \<Rightarrow> (case undeclared (ct_input c) out of [] \<Rightarrow> Inr out | k # _ \<Rightarrow> Inl (Unknown_Field k)))"

fun output_loop :: "'f float_ops \<Rightarrow> 'f field_spec list \<Rightarrow> 'f arguments \<Rightarrow> validate_error option" where
  "output_loop fo [] r = None"
| "output_loop fo (f # fs) r =
     (case map_of r (fs_name f) of
        None \<Rightarrow> if fs_required f then Some (Missing_Field (fs_name f)) else output_loop fo fs r
      | Some v \<Rightarrow> (case field_check fo f v of Some e \<Rightarrow> Some (Bad_Field (fs_name f) e) | None \<Rightarrow> output_loop fo fs r))"

definition validate_output :: "'f float_ops \<Rightarrow> 'f contract \<Rightarrow> 'f arguments \<Rightarrow> validate_error option" where
  "validate_output fo c r =
     (case output_loop fo (ct_output c) r of
        Some e \<Rightarrow> Some e
      | None \<Rightarrow>
          if ct_allow_extra c then None
          else (case undeclared (ct_output c) r of [] \<Rightarrow> None | k # _ \<Rightarrow> Some (Unknown_Field k)))"

definition sensitive_fields :: "'f contract \<Rightarrow> string list" where
  "sensitive_fields c = sort (map fs_name (filter fs_sensitive (ct_input c)))"

section \<open>What validation decides\<close>

text \<open>One field against the arguments, and the whole of one side.\<close>

definition field_ok :: "'f float_ops \<Rightarrow> 'f arguments \<Rightarrow> 'f field_spec \<Rightarrow> bool" where
  "field_ok fo a f =
     (case map_of a (fs_name f) of None \<Rightarrow> \<not> fs_required f | Some v \<Rightarrow> field_check fo f v = None)"

definition all_declared :: "'f field_spec list \<Rightarrow> 'f arguments \<Rightarrow> bool" where
  "all_declared fs a = list_all (\<lambda>(k, v). k \<in> fs_name ` set fs) a"

text \<open>The arguments with defaults filled in, as a map.\<close>

definition filled :: "'f field_spec list \<Rightarrow> 'f arguments \<Rightarrow> string \<Rightarrow> 'f val option" where
  "filled fs a k =
     (case map_of a k of
        Some v \<Rightarrow> Some v
      | None \<Rightarrow> (case find (\<lambda>f. fs_name f = k) fs of
                  Some f \<Rightarrow> if fs_has_default f then Some (fs_default f) else None
                | None \<Rightarrow> None))"

lemma undeclared_nil: "undeclared fs a = [] \<longleftrightarrow> all_declared fs a"
  by (auto simp: undeclared_def all_declared_def list_all_iff filter_empty_conv)

lemma find_none_name: "find (\<lambda>f. fs_name f = k) fs = None \<longleftrightarrow> k \<notin> fs_name ` set fs"
  by (auto simp: find_None_iff)

lemma map_of_update: "map_of (AList.update k v a) = (map_of a)(k \<mapsto> v)"
  by (rule update_conv')

lemma field_ok_update: "fs_name f \<noteq> k \<Longrightarrow> field_ok fo (AList.update k v a) f = field_ok fo a f"
  by (simp add: field_ok_def map_of_update)

lemma input_loop_exact:
  assumes "distinct (map fs_name fs)"
  shows "(case input_loop fo fs a of
            Inr out \<Rightarrow> list_all (field_ok fo a) fs \<and> map_of out = filled fs a
          | Inl e \<Rightarrow> \<not> list_all (field_ok fo a) fs)"
  using assms
proof (induction fs arbitrary: a)
  case Nil
  have "map_of a = filled [] a" by (rule ext) (simp add: filled_def split: option.splits)
  then show ?case by simp
next
  case (Cons f fs)
  have d: "distinct (map fs_name fs)" and new: "fs_name f \<notin> fs_name ` set fs" using Cons.prems by auto
  note IH = Cons.IH [OF d]
  show ?case
  proof (cases "map_of a (fs_name f)")
    case (Some v)
    have "filled (f # fs) a = filled fs a" using Some by (auto simp: filled_def fun_eq_iff split: option.splits)
    moreover have "field_ok fo a f = (field_check fo f v = None)" using Some by (simp add: field_ok_def)
    ultimately show ?thesis using IH [of a] Some by (auto split: option.splits sum.splits)
  next
    case None
    define a' where "a' = (if fs_has_default f then AList.update (fs_name f) (fs_default f) a else a)"
    have "list_all (field_ok fo a') fs = list_all (field_ok fo a) fs"
    proof -
      have "field_ok fo a' g = field_ok fo a g" if "g \<in> set fs" for g
      proof -
        have "fs_name g \<noteq> fs_name f" using new that by (metis imageI)
        then show ?thesis by (simp add: a'_def field_ok_update)
      qed
      then show ?thesis by (simp add: list_all_iff)
    qed
    moreover have "filled fs a' = filled (f # fs) a"
    proof (rule ext)
      fix k
      have "find (\<lambda>g. fs_name g = fs_name f) fs = None" using new by (simp add: find_none_name)
      then show "filled fs a' k = filled (f # fs) a k"
        using None by (cases "k = fs_name f") (auto simp: a'_def filled_def map_of_update split: option.splits)
    qed
    moreover have "field_ok fo a f = (\<not> fs_required f)" using None by (simp add: field_ok_def)
    moreover have "input_loop fo (f # fs) a = (if fs_required f then Inl (Missing_Field (fs_name f)) else input_loop fo fs a')"
      using None by (simp add: a'_def)
    ultimately show ?thesis using IH [of a'] by (auto split: sum.splits)
  qed
qed

lemma all_declared_filled:
  assumes "map_of out = filled fs a"
  shows "all_declared fs out = all_declared fs a"
proof -
  have dom: "all_declared fs b \<longleftrightarrow> dom (map_of b) \<subseteq> fs_name ` set fs" for b :: "'a arguments"
    by (auto simp: all_declared_def list_all_iff dom_map_of_conv_image_fst image_subset_iff)
  have "dom (filled fs a) \<subseteq> dom (map_of a) \<union> fs_name ` set fs" "dom (map_of a) \<subseteq> dom (filled fs a)"
    by (auto simp: filled_def find_none_name [symmetric] split: option.splits)
  then have "dom (map_of out) \<subseteq> fs_name ` set fs \<longleftrightarrow> dom (map_of a) \<subseteq> fs_name ` set fs"
    unfolding assms by blast
  then show ?thesis unfolding dom .
qed

lemma fields_distinct:
  assumes "fields_problems fo wrap dup seen fs = []"
  shows "distinct (map fs_name fs) \<and> list_all (\<lambda>f. field_problems fo f = []) fs
    \<and> set seen \<inter> fs_name ` set fs = {}"
  using assms by (induction fs arbitrary: seen) (fastforce split: if_splits)+

lemma contract_fields_distinct:
  assumes "contract_problems fo mt c = []"
  shows "distinct (map fs_name (ct_input c))" "distinct (map fs_name (ct_output c))"
  using assms fields_distinct [of fo Input_Field Duplicate_Input "[]" "ct_input c"]
    fields_distinct [of fo Output_Field Duplicate_Output "[]" "ct_output c"]
  by (simp_all add: contract_problems_def)

lemma output_loop_exact: "output_loop fo fs r = None \<longleftrightarrow> list_all (field_ok fo r) fs"
  by (induction fs) (auto simp: field_ok_def split: option.splits)

section \<open>Properties\<close>

text \<open>Validation of arguments against a contract the registry accepts: it accepts exactly the
  arguments that name only declared fields, give every required one and pass every check, and
  answers them unchanged but for the defaults of the declared fields that were absent.\<close>

theorem validate_input_is_exact:
  assumes "contract_problems fo mt c = []"
  shows "(case validate_input fo c a of
            Inr out \<Rightarrow> all_declared (ct_input c) a \<and> list_all (field_ok fo a) (ct_input c)
                \<and> map_of out = filled (ct_input c) a
          | Inl e \<Rightarrow> \<not> (all_declared (ct_input c) a \<and> list_all (field_ok fo a) (ct_input c)))"
proof -
  have loop: "(case input_loop fo (ct_input c) a of
            Inr out \<Rightarrow> list_all (field_ok fo a) (ct_input c) \<and> map_of out = filled (ct_input c) a
          | Inl e \<Rightarrow> \<not> list_all (field_ok fo a) (ct_input c))"
    by (rule input_loop_exact [OF contract_fields_distinct(1) [OF assms]])
  show ?thesis
  proof (cases "input_loop fo (ct_input c) a")
    case (Inl e)
    then show ?thesis using loop by (simp add: validate_input_def)
  next
    case (Inr out)
    then have out: "list_all (field_ok fo a) (ct_input c)" "map_of out = filled (ct_input c) a" using loop by simp_all
    show ?thesis
      using Inr out all_declared_filled [OF out(2)] undeclared_nil [of "ct_input c" out]
      by (cases "undeclared (ct_input c) out") (simp_all add: validate_input_def)
  qed
qed

definition int_floats :: "int float_ops" where
  "int_floats = \<lparr>fo_of_int = sint, fo_less = (<)\<rparr>"

definition count_field :: "int field_spec" where
  "count_field = \<lparr>fs_name = ''n'', fs_kind = Kind_Int, fs_required = False, fs_default = V_Int 9,
     fs_has_default = True, fs_max_len = 0, fs_min = 0, fs_max = 5, fs_bounded = True, fs_enum = [],
     fs_sensitive = False\<rparr>"

definition count_contract :: "int contract" where
  "count_contract = \<lparr>ct_descriptor = (''t'', ''1.0.0''), ct_capabilities = [''c''], ct_owner = ''o'',
     ct_effect = Effect_Read, ct_input = [count_field], ct_output = [], ct_allow_extra = False,
     ct_timeout = second, ct_retry = default_retry_spec, ct_budget = default_budget, ct_permissions = [],
     ct_consent = [], ct_concurrency = 0, ct_streaming = False, ct_compensable = False\<rparr>"

lemma count_contract_ok: "contract_problems int_floats 0 count_contract = []"
  by code_simp

theorem validate_input_is_exact_witness:
  "validate_input int_floats count_contract [(''n'', V_Int 3)] = Inr [(''n'', V_Int 3)]
   \<and> map_of [(''n'', V_Int 3)] = filled [count_field] [(''n'', V_Int 3)]"
proof -
  have v: "validate_input int_floats count_contract [(''n'', V_Int 3)] = Inr [(''n'', V_Int 3)]"
    by code_simp
  have "ct_input count_contract = [count_field]" by (simp add: count_contract_def)
  then show ?thesis using validate_input_is_exact [OF count_contract_ok, of "[(''n'', V_Int 3)]"] v by simp
qed

text \<open>A default is never checked against its own field: a contract the registry accepts can fill in
  a value that the same contract refuses when it is given.\<close>

theorem default_breaks_its_own_bounds:
  "contract_problems int_floats 0 count_contract = []
   \<and> validate_input int_floats count_contract [] = Inr [(''n'', V_Int 9)]
   \<and> validate_input int_floats count_contract [(''n'', V_Int 9)] = Inl (Bad_Field ''n'' Out_Of_Range)"
  by code_simp

text \<open>A result is accepted exactly when it gives every required output, every declared field it has
  passes its check, and it has no undeclared field unless the contract allows them.\<close>

theorem validate_output_is_exact:
  "validate_output fo c r = None \<longleftrightarrow>
     list_all (field_ok fo r) (ct_output c) \<and> (ct_allow_extra c \<or> all_declared (ct_output c) r)"
  using output_loop_exact [of fo "ct_output c" r] undeclared_nil [of "ct_output c" r]
  by (auto simp: validate_output_def split: option.splits list.splits)

end
