(* ===== verification/StableSort.thy ===== *)
theory StableSort
  imports Prelude "HOL-Library.Multiset"
begin

text \<open>
  Go's \<^verbatim>\<open>sort.SliceStable\<close> with a comparison function, which a component's own order has to make a
  strict weak order.  The contract is a locale; each component that sorts interprets it.
\<close>

section \<open>Sorting with a comparison function\<close>

fun insert_by :: "('a \<Rightarrow> 'a \<Rightarrow> bool) \<Rightarrow> 'a \<Rightarrow> 'a list \<Rightarrow> 'a list" where
  "insert_by lt x [] = [x]"
| "insert_by lt x (y # ys) = (if lt y x then y # insert_by lt x ys else x # y # ys)"

definition stable_sort :: "('a \<Rightarrow> 'a \<Rightarrow> bool) \<Rightarrow> 'a list \<Rightarrow> 'a list" where
  "stable_sort lt xs = foldr (insert_by lt) xs []"

lemma mset_insert_by [simp]: "mset (insert_by lt x ys) = add_mset x (mset ys)"
  by (induction ys) auto

lemma set_insert_by [simp]: "set (insert_by lt x ys) = insert x (set ys)"
  by (induction ys) auto

lemma mset_stable_sort [simp]: "mset (stable_sort lt xs) = mset xs"
  by (induction xs) (simp_all add: stable_sort_def)

lemma set_stable_sort [simp]: "set (stable_sort lt xs) = set xs"
  by (metis mset_stable_sort set_mset_mset)

lemma length_stable_sort [simp]: "length (stable_sort lt xs) = length xs"
  by (metis mset_stable_sort size_mset)

lemma distinct_stable_sort [simp]: "distinct (stable_sort lt xs) = distinct xs"
  by (metis mset_stable_sort mset_eq_imp_distinct_iff)

section \<open>Strict weak orders\<close>

locale strict_weak =
  fixes lt :: "'a \<Rightarrow> 'a \<Rightarrow> bool"
  assumes asym: "lt x y \<Longrightarrow> \<not> lt y x"
    and negtrans: "lt x z \<Longrightarrow> lt x y \<or> lt y z"
begin

lemma irrefl: "\<not> lt x x"
  using asym by blast

lemma less_trans: "lt x y \<Longrightarrow> lt y z \<Longrightarrow> lt x z"
  using asym negtrans by blast

lemma not_less_trans: "\<not> lt y x \<Longrightarrow> \<not> lt z y \<Longrightarrow> \<not> lt z x"
  using negtrans by blast

lemma insert_sorted:
  "sorted_wrt (\<lambda>a b. \<not> lt b a) ys \<Longrightarrow> sorted_wrt (\<lambda>a b. \<not> lt b a) (insert_by lt x ys)"
proof (induction ys)
  case Nil
  then show ?case by simp
next
  case (Cons y ys)
  have 1: "\<not> lt x y" if "lt y x" using asym [OF that] .
  have 2: "\<not> lt z x" if "\<not> lt y x" "z \<in> set ys" for z
    using not_less_trans [of y x z] that Cons.prems by simp
  show ?case using Cons 1 2 by simp
qed

lemma sort_sorted: "sorted_wrt (\<lambda>a b. \<not> lt b a) (stable_sort lt xs)"
  by (induction xs) (simp_all add: stable_sort_def insert_sorted)

text \<open>The head of the sorted list is beaten by nothing.\<close>

lemma sort_first: "stable_sort lt xs = y # ys \<Longrightarrow> x \<in> set xs \<Longrightarrow> \<not> lt x y"
proof -
  assume e: "stable_sort lt xs = y # ys" and x: "x \<in> set xs"
  have "sorted_wrt (\<lambda>a b. \<not> lt b a) (y # ys)" using sort_sorted [of xs] e by simp
  moreover have "x \<in> set (y # ys)" using x set_stable_sort [of lt xs] e by metis
  ultimately show "\<not> lt x y" using irrefl by auto
qed

text \<open>Of equally good elements the first stays first.\<close>

lemma insert_stable:
  "filter (\<lambda>y. \<not> lt a y \<and> \<not> lt y a) (insert_by lt x ys)
     = filter (\<lambda>y. \<not> lt a y \<and> \<not> lt y a) (x # ys)"
proof (induction ys)
  case Nil
  then show ?case by simp
next
  case (Cons y ys)
  have "\<not> (\<not> lt a y \<and> \<not> lt y a \<and> \<not> lt a x \<and> \<not> lt x a)" if "lt y x"
    using that negtrans by blast
  then show ?case using Cons by auto
qed

lemma sort_stable:
  "filter (\<lambda>y. \<not> lt a y \<and> \<not> lt y a) (stable_sort lt xs)
     = filter (\<lambda>y. \<not> lt a y \<and> \<not> lt y a) xs"
proof (induction xs)
  case Nil
  then show ?case by (simp add: stable_sort_def)
next
  case (Cons x xs)
  have "stable_sort lt (x # xs) = insert_by lt x (stable_sort lt xs)" by (simp add: stable_sort_def)
  then show ?case using Cons insert_stable [of a x "stable_sort lt xs"] by simp
qed

text \<open>Where the order tells any two members apart, the sorted list does not depend on the order given.\<close>

lemma sorted_unique:
  assumes "mset xs = mset ys" "sorted_wrt (\<lambda>a b. \<not> lt b a) xs" "sorted_wrt (\<lambda>a b. \<not> lt b a) ys"
    and "\<And>x y. x \<in> set xs \<Longrightarrow> y \<in> set xs \<Longrightarrow> x \<noteq> y \<Longrightarrow> lt x y \<or> lt y x"
  shows "xs = ys"
  using assms
proof (induction xs arbitrary: ys)
  case Nil
  then show ?case by simp
next
  case (Cons x xs)
  from Cons.prems(1) obtain y zs where y: "ys = y # zs" by (cases ys) auto
  have "set (x # xs) = set ys" by (rule mset_eq_setD [OF Cons.prems(1)])
  then have my: "y \<in> set (x # xs)" and mx: "x \<in> set (y # zs)" using y by auto
  have "x = y"
  proof (rule ccontr)
    assume n: "x \<noteq> y"
    then have "\<not> lt y x" "\<not> lt x y" using my mx Cons.prems(2,3) y by auto
    then show False using Cons.prems(4) [of x y] my n by auto
  qed
  then show ?case using Cons.IH [of zs] Cons.prems y by auto
qed

lemma sort_unique:
  assumes "mset xs = mset ys" "\<And>x y. x \<in> set xs \<Longrightarrow> y \<in> set xs \<Longrightarrow> x \<noteq> y \<Longrightarrow> lt x y \<or> lt y x"
  shows "stable_sort lt xs = stable_sort lt ys"
  by (rule sorted_unique) (use assms in \<open>auto simp: sort_sorted\<close>)

end

text \<open>How orders are put together: by a key, reversed, and one after the other.\<close>

lemma strict_weak_linorder: "strict_weak ((<) :: 'a::linorder \<Rightarrow> 'a \<Rightarrow> bool)"
  by unfold_locales auto

lemma strict_weak_on: "strict_weak lt \<Longrightarrow> strict_weak (\<lambda>x y. lt (f x) (f y))"
  by (auto simp: strict_weak_def)

lemma strict_weak_reversed: "strict_weak lt \<Longrightarrow> strict_weak (\<lambda>x y. lt y x)"
  unfolding strict_weak_def by blast

lemma strict_weak_then:
  "strict_weak l \<Longrightarrow> strict_weak m \<Longrightarrow> strict_weak (\<lambda>x y. l x y \<or> \<not> l y x \<and> m x y)"
  unfolding strict_weak_def by blast

end
