(* ===== verification/ToolRegistry.thy ===== *)
theory ToolRegistry
  imports ToolContract StableSort "HOL-Library.Product_Lexorder"
begin

text \<open>
  The registry of tools and the resolution of a capability (\<^verbatim>\<open>packages/go/toolruntime/registry.go\<close>,
  \<^verbatim>\<open>discovery.go\<close>).  The registry is the snapshot its readers load; a map is an association list, and
  the order in which Go iterates over the map while a snapshot is built is an argument of the
  operation that builds it.
\<close>

section \<open>Registrations\<close>

datatype lifecycle = Life_Pending | Life_Active | Life_Deprecated | Life_Draining | Life_Retired

definition dispatchable :: "lifecycle \<Rightarrow> bool" where
  "dispatchable l = (l = Life_Active \<or> l = Life_Deprecated)"

fun lifecycle_transitions :: "lifecycle \<Rightarrow> lifecycle list" where
  "lifecycle_transitions Life_Pending = [Life_Active, Life_Retired]"
| "lifecycle_transitions Life_Active = [Life_Deprecated, Life_Draining, Life_Retired]"
| "lifecycle_transitions Life_Deprecated = [Life_Active, Life_Draining, Life_Retired]"
| "lifecycle_transitions Life_Draining = [Life_Retired]"
| "lifecycle_transitions Life_Retired = []"

definition can_move :: "lifecycle \<Rightarrow> lifecycle \<Rightarrow> bool" where
  "can_move from to = (to \<in> set (lifecycle_transitions from))"

datatype health = Health_Unknown | Health_Healthy | Health_Degraded | Health_Unhealthy

definition usable :: "health \<Rightarrow> bool" where
  "usable h = (h \<noteq> Health_Unhealthy)"

text \<open>An implementation is nil, or has the optional interfaces or not.\<close>

record tool_impl =
  ti_compensates :: bool
  ti_streams :: bool

record 'f registration =
  rg_contract :: "'f contract"
  rg_tool :: "tool_impl option"
  rg_lifecycle :: lifecycle
  rg_health :: health
  rg_priority :: int
  rg_registered_at :: instant
  rg_updated_at :: instant
  rg_health_change :: instant
  rg_executions :: nat
  rg_failures :: nat

definition reg_descriptor :: "'f registration \<Rightarrow> descriptor" where
  "reg_descriptor r = ct_descriptor (rg_contract r)"

section \<open>Orders\<close>

definition health_rank :: "health \<Rightarrow> int" where
  "health_rank h = (case h of Health_Healthy \<Rightarrow> 0 | Health_Unknown \<Rightarrow> 1 | Health_Degraded \<Rightarrow> 2 | Health_Unhealthy \<Rightarrow> 3)"

definition lifecycle_rank :: "lifecycle \<Rightarrow> int" where
  "lifecycle_rank l = (if l = Life_Active then 0 else if l = Life_Deprecated then 1 else 2)"

definition prefer_over :: "'f registration \<Rightarrow> 'f registration \<Rightarrow> bool" where
  "prefer_over a b =
     (if health_rank (rg_health a) \<noteq> health_rank (rg_health b)
      then health_rank (rg_health a) < health_rank (rg_health b)
      else if lifecycle_rank (rg_lifecycle a) \<noteq> lifecycle_rank (rg_lifecycle b)
      then lifecycle_rank (rg_lifecycle a) < lifecycle_rank (rg_lifecycle b)
      else if rg_priority a \<noteq> rg_priority b then rg_priority a > rg_priority b
      else (let c = version_compare (snd (reg_descriptor b)) (snd (reg_descriptor a))
            in if c \<noteq> 0 then c < 0 else fst (reg_descriptor a) < fst (reg_descriptor b)))"

definition descriptor_before :: "descriptor \<Rightarrow> descriptor \<Rightarrow> bool" where
  "descriptor_before a b =
     (if fst a \<noteq> fst b then fst a < fst b else version_compare (snd a) (snd b) < 0)"

section \<open>Snapshots\<close>

type_synonym 'f registrations = "(descriptor \<times> 'f registration) list"

record 'f registry =
  ry_max_timeout :: duration
  ry_by_descriptor :: "'f registrations"
  ry_by_capability :: "(string \<times> descriptor list) list"
  ry_order :: "descriptor list"

definition new_registry :: "duration \<Rightarrow> 'f registry" where
  "new_registry mt = \<lparr>ry_max_timeout = mt, ry_by_descriptor = [], ry_by_capability = [], ry_order = []\<rparr>"

definition capability_list :: "(string \<times> descriptor list) list \<Rightarrow> string \<Rightarrow> descriptor list" where
  "capability_list m c = (case map_of m c of Some ds \<Rightarrow> ds | None \<Rightarrow> [])"

definition registered :: "'f registrations \<Rightarrow> descriptor \<Rightarrow> 'f registration" where
  "registered regs d = the (map_of regs d)"

text \<open>The loop that appends every descriptor to each of its capabilities.\<close>

definition index_descriptor :: "'f registrations \<Rightarrow> descriptor \<Rightarrow> (string \<times> descriptor list) list
    \<Rightarrow> (string \<times> descriptor list) list" where
  "index_descriptor next d m =
     fold (\<lambda>c m. AList.update c (capability_list m c @ [d]) m)
          (ct_capabilities (rg_contract (registered next d))) m"

definition commit :: "(descriptor list \<Rightarrow> descriptor list) \<Rightarrow> 'f registrations \<Rightarrow> 'f registry \<Rightarrow> 'f registry" where
  "commit iterate next r =
     (let order = stable_sort descriptor_before (iterate (map fst next));
          index = fold (index_descriptor next) order []
      in r\<lparr>ry_by_descriptor := next, ry_order := order,
           ry_by_capability :=
             map (\<lambda>(c, ds). (c, stable_sort (\<lambda>a b. prefer_over (registered next a) (registered next b)) ds)) index\<rparr>)"

datatype registry_error = Contract_Invalid "contract_problem list" | Cannot_Compensate | Cannot_Stream
  | Not_Registered | Illegal_Lifecycle

definition inherit :: "'f registration option \<Rightarrow> instant \<Rightarrow> 'f registration \<Rightarrow> 'f registration" where
  "inherit prev now reg =
     (case prev of
        Some p \<Rightarrow>
          reg\<lparr>rg_updated_at := now, rg_registered_at := rg_registered_at p, rg_executions := rg_executions p,
              rg_failures := rg_failures p,
              rg_health := (if rg_health reg = Health_Unknown then rg_health p else rg_health reg),
              rg_health_change := rg_health_change p\<rparr>
      | None \<Rightarrow> reg\<lparr>rg_updated_at := now, rg_registered_at := now, rg_health_change := now\<rparr>)"

definition register :: "'f float_ops \<Rightarrow> (descriptor list \<Rightarrow> descriptor list) \<Rightarrow> instant \<Rightarrow> 'f registration
    \<Rightarrow> 'f registry \<Rightarrow> 'f registry \<times> registry_error option" where
  "register fo iterate now reg r =
     (let problems = contract_problems fo (ry_max_timeout r) (rg_contract reg) in
      if problems \<noteq> [] then (r, Some (Contract_Invalid problems))
      else if ct_compensable (rg_contract reg) \<and> (case rg_tool reg of Some t \<Rightarrow> \<not> ti_compensates t | None \<Rightarrow> False)
      then (r, Some Cannot_Compensate)
      else if ct_streaming (rg_contract reg) \<and> (case rg_tool reg of Some t \<Rightarrow> \<not> ti_streams t | None \<Rightarrow> False)
      then (r, Some Cannot_Stream)
      else (let d = reg_descriptor reg;
                reg' = inherit (map_of (ry_by_descriptor r) d) now reg
            in (commit iterate (AList.update d reg' (ry_by_descriptor r)) r, None)))"

definition unregister :: "(descriptor list \<Rightarrow> descriptor list) \<Rightarrow> descriptor \<Rightarrow> 'f registry
    \<Rightarrow> 'f registry \<times> registry_error option" where
  "unregister iterate d r =
     (case map_of (ry_by_descriptor r) d of
        None \<Rightarrow> (r, Some Not_Registered)
      | Some _ \<Rightarrow> (commit iterate (AList.delete d (ry_by_descriptor r)) r, None))"

definition set_lifecycle :: "(descriptor list \<Rightarrow> descriptor list) \<Rightarrow> instant \<Rightarrow> descriptor \<Rightarrow> lifecycle
    \<Rightarrow> 'f registry \<Rightarrow> 'f registry \<times> registry_error option" where
  "set_lifecycle iterate now d to r =
     (case map_of (ry_by_descriptor r) d of
        None \<Rightarrow> (r, Some Not_Registered)
      | Some g \<Rightarrow>
          if rg_lifecycle g = to then (r, None)
          else if \<not> can_move (rg_lifecycle g) to then (r, Some Illegal_Lifecycle)
          else (commit iterate (AList.update d (g\<lparr>rg_lifecycle := to, rg_updated_at := now\<rparr>) (ry_by_descriptor r)) r,
                None))"

definition set_health :: "(descriptor list \<Rightarrow> descriptor list) \<Rightarrow> instant \<Rightarrow> descriptor \<Rightarrow> health
    \<Rightarrow> 'f registry \<Rightarrow> 'f registry \<times> registry_error option" where
  "set_health iterate now d h r =
     (case map_of (ry_by_descriptor r) d of
        None \<Rightarrow> (r, Some Not_Registered)
      | Some g \<Rightarrow>
          if rg_health g = h then (r, None)
          else (commit iterate (AList.update d (g\<lparr>rg_health := h, rg_health_change := now, rg_updated_at := now\<rparr>)
                                 (ry_by_descriptor r)) r,
                None))"

definition record_outcome :: "(descriptor list \<Rightarrow> descriptor list) \<Rightarrow> descriptor \<Rightarrow> bool \<Rightarrow> 'f registry \<Rightarrow> 'f registry" where
  "record_outcome iterate d ok r =
     (case map_of (ry_by_descriptor r) d of
        None \<Rightarrow> r
      | Some g \<Rightarrow>
          commit iterate (AList.update d (g\<lparr>rg_executions := rg_executions g + 1,
                                            rg_failures := (if ok then rg_failures g else rg_failures g + 1)\<rparr>)
                           (ry_by_descriptor r)) r)"

datatype 'f registry_op =
    Ry_Register instant "'f registration"
  | Ry_Unregister descriptor
  | Ry_Lifecycle instant descriptor lifecycle
  | Ry_Health instant descriptor health
  | Ry_Outcome descriptor bool

text \<open>An operation comes with the order its map iteration had.\<close>

fun registry_step :: "'f float_ops \<Rightarrow> 'f registry \<Rightarrow> (descriptor list \<Rightarrow> descriptor list) \<times> 'f registry_op
    \<Rightarrow> 'f registry" where
  "registry_step fo r (it, Ry_Register now g) = fst (register fo it now g r)"
| "registry_step fo r (it, Ry_Unregister d) = fst (unregister it d r)"
| "registry_step fo r (it, Ry_Lifecycle now d l) = fst (set_lifecycle it now d l r)"
| "registry_step fo r (it, Ry_Health now d h) = fst (set_health it now d h r)"
| "registry_step fo r (it, Ry_Outcome d ok) = record_outcome it d ok r"

section \<open>Discovery\<close>

record request =
  dr_capability :: string
  dr_version :: version_constraint
  dr_prefer :: string
  dr_require_healthy :: bool
  dr_max_candidates :: int
  dr_exclude :: "string list"

datatype request_problem = Capability_Required | Exact_Version_Malformed | Candidates_Negative

definition request_problems :: "request \<Rightarrow> request_problem list" where
  "request_problems q =
     (if dr_capability q = [] then [Capability_Required] else [])
     @ (if vc_exact (dr_version q) \<noteq> [] \<and> \<not> version_valid (vc_exact (dr_version q))
        then [Exact_Version_Malformed] else [])
     @ (if dr_max_candidates q < 0 then [Candidates_Negative] else [])"

datatype resolve_error = Request_Invalid "request_problem list" | No_Capability_Registered
  | Version_Unsatisfiable | No_Healthy_Provider

definition default_max_candidates :: nat where "default_max_candidates = 3"

text \<open>The filter over the pre-sorted descriptors, after the version has matched.\<close>

definition eligible :: "request \<Rightarrow> 'f registration \<Rightarrow> descriptor \<Rightarrow> bool" where
  "eligible q g d =
     (fst d \<notin> set (dr_exclude q) \<and> dispatchable (rg_lifecycle g) \<and> usable (rg_health g)
      \<and> (dr_require_healthy q \<longrightarrow> rg_health g = Health_Healthy))"

definition preferred_first :: "string \<Rightarrow> descriptor \<Rightarrow> descriptor \<Rightarrow> bool" where
  "preferred_first t a b = (fst a = t \<and> fst b \<noteq> t)"

definition resolve :: "request \<Rightarrow> 'f registry \<Rightarrow> resolve_error + ('f registration \<times> nat) list" where
  "resolve q r =
     (if request_problems q \<noteq> [] then Inl (Request_Invalid (request_problems q))
      else
        (let ds = capability_list (ry_by_capability r) (dr_capability q) in
         if ds = [] then Inl No_Capability_Registered
         else
           (let matching = filter (\<lambda>d. satisfies (dr_version q) (snd d)) ds;
                kept = filter (\<lambda>d. eligible q (registered (ry_by_descriptor r) d) d) matching
            in if matching = [] then Inl Version_Unsatisfiable
               else if kept = [] then Inl No_Healthy_Provider
               else
                 (let sorted = (if dr_prefer q \<noteq> [] then stable_sort (preferred_first (dr_prefer q)) kept else kept);
                      limit = (if dr_max_candidates q \<le> 0 then default_max_candidates else nat (dr_max_candidates q));
                      chosen = take limit sorted
                  in Inr (zip (map (registered (ry_by_descriptor r)) chosen) [0..<length chosen])))))"

definition resolve_one :: "request \<Rightarrow> 'f registry \<Rightarrow> resolve_error + ('f registration \<times> nat)" where
  "resolve_one q r =
     (case resolve (q\<lparr>dr_max_candidates := 1\<rparr>) r of Inl e \<Rightarrow> Inl e | Inr cs \<Rightarrow> Inr (hd cs))"

section \<open>The orders are strict weak orders\<close>

text \<open>Where a version stands: a malformed one below every well-formed one, by its text.\<close>

definition version_rank :: "string \<Rightarrow> nat \<times> (int \<times> int \<times> int) \<times> string" where
  "version_rank v = (case parse_version v of None \<Rightarrow> (0, (0, 0, 0), v) | Some t \<Rightarrow> (1, t, []))"

lemma version_compare_rank:
  "version_compare v w =
     (if version_rank v = version_rank w then 0 else if version_rank v < version_rank w then - 1 else 1)"
  by (auto simp: version_compare_def version_rank_def compare_strings_def less_prod_def' split: option.splits)

lemma strict_weak_version: "strict_weak (\<lambda>v w. version_compare v w < 0)"
proof -
  have "(\<lambda>v w. version_compare v w < 0) = (\<lambda>v w. version_rank v < version_rank w)"
    by (auto simp: version_compare_rank fun_eq_iff)
  then show ?thesis using strict_weak_on [OF strict_weak_linorder, of version_rank] by simp
qed

lemma version_compare_swap: "version_compare w v = - version_compare v w"
  by (auto simp: version_compare_rank)

lemma descriptor_before_alt:
  "descriptor_before = (\<lambda>a b. fst a < fst b \<or> \<not> fst b < fst a \<and> version_compare (snd a) (snd b) < 0)"
  by (auto simp: descriptor_before_def fun_eq_iff)

interpretation by_descriptor: strict_weak descriptor_before
  unfolding descriptor_before_alt
  by (intro strict_weak_then strict_weak_on [OF strict_weak_linorder, of fst]
      strict_weak_on [OF strict_weak_version, of snd])

lemma prefer_over_alt:
  "prefer_over = (\<lambda>a b.
     health_rank (rg_health a) < health_rank (rg_health b)
     \<or> \<not> health_rank (rg_health b) < health_rank (rg_health a)
       \<and> (lifecycle_rank (rg_lifecycle a) < lifecycle_rank (rg_lifecycle b)
          \<or> \<not> lifecycle_rank (rg_lifecycle b) < lifecycle_rank (rg_lifecycle a)
            \<and> (rg_priority b < rg_priority a
               \<or> \<not> rg_priority a < rg_priority b
                 \<and> (version_compare (snd (reg_descriptor b)) (snd (reg_descriptor a)) < 0
                    \<or> \<not> version_compare (snd (reg_descriptor a)) (snd (reg_descriptor b)) < 0
                      \<and> fst (reg_descriptor a) < fst (reg_descriptor b)))))"
proof (intro ext)
  fix a b :: "'a registration"
  have "version_compare (snd (reg_descriptor a)) (snd (reg_descriptor b))
      = - version_compare (snd (reg_descriptor b)) (snd (reg_descriptor a))"
    by (rule version_compare_swap)
  then show "prefer_over a b = (health_rank (rg_health a) < health_rank (rg_health b)
     \<or> \<not> health_rank (rg_health b) < health_rank (rg_health a)
       \<and> (lifecycle_rank (rg_lifecycle a) < lifecycle_rank (rg_lifecycle b)
          \<or> \<not> lifecycle_rank (rg_lifecycle b) < lifecycle_rank (rg_lifecycle a)
            \<and> (rg_priority b < rg_priority a
               \<or> \<not> rg_priority a < rg_priority b
                 \<and> (version_compare (snd (reg_descriptor b)) (snd (reg_descriptor a)) < 0
                    \<or> \<not> version_compare (snd (reg_descriptor a)) (snd (reg_descriptor b)) < 0
                      \<and> fst (reg_descriptor a) < fst (reg_descriptor b)))))"
    unfolding prefer_over_def Let_def by auto
qed

interpretation preference: strict_weak prefer_over
  unfolding prefer_over_alt
  by (intro strict_weak_then strict_weak_on [OF strict_weak_linorder, of "\<lambda>g. health_rank (rg_health g)"]
      strict_weak_on [OF strict_weak_linorder, of "\<lambda>g. lifecycle_rank (rg_lifecycle g)"]
      strict_weak_on [OF strict_weak_reversed [OF strict_weak_linorder], of rg_priority]
      strict_weak_on [OF strict_weak_reversed [OF strict_weak_version], of "\<lambda>g. snd (reg_descriptor g)"]
      strict_weak_on [OF strict_weak_linorder, of "\<lambda>g. fst (reg_descriptor g)"])

section \<open>What a snapshot holds\<close>

lemma capability_update:
  "capability_list (AList.update c ds m) c' = (if c' = c then ds else capability_list m c')"
  by (simp add: capability_list_def update_conv')

lemma index_one:
  "capability_list (fold (\<lambda>c m. AList.update c (capability_list m c @ [d]) m) cs m) c
     = capability_list m c @ replicate (count_list cs c) d"
  by (induction cs arbitrary: m) (simp_all add: capability_update replicate_append_same [symmetric])

lemma index_all:
  "set (capability_list (fold (index_descriptor next) ds m) c)
     = set (capability_list m c) \<union> {d \<in> set ds. provides (rg_contract (registered next d)) c}"
proof (induction ds arbitrary: m)
  case Nil
  then show ?case by simp
next
  case (Cons d ds)
  have "set (capability_list (index_descriptor next d m) c) = set (capability_list m c)
      \<union> (if provides (rg_contract (registered next d)) c then {d} else {})"
    by (auto simp: index_descriptor_def index_one provides_def count_list_0_iff)
  then show ?case using Cons by auto
qed

lemma capability_list_map:
  "f [] = [] \<Longrightarrow> capability_list (map (\<lambda>(c, ds). (c, f ds)) m) c = f (capability_list m c)"
  by (simp add: capability_list_def map_of_map split: option.splits)

definition iterates :: "(descriptor list \<Rightarrow> descriptor list) \<Rightarrow> bool" where
  "iterates it \<longleftrightarrow> (\<forall>xs. mset (it xs) = mset xs)"

definition registry_inv :: "'f float_ops \<Rightarrow> 'f registry \<Rightarrow> bool" where
  "registry_inv fo r \<longleftrightarrow>
     distinct (map fst (ry_by_descriptor r))
     \<and> (\<forall>d g. map_of (ry_by_descriptor r) d = Some g \<longrightarrow>
          reg_descriptor g = d \<and> contract_problems fo (ry_max_timeout r) (rg_contract g) = [])
     \<and> mset (ry_order r) = mset (map fst (ry_by_descriptor r))
     \<and> sorted_wrt (\<lambda>a b. \<not> descriptor_before b a) (ry_order r)
     \<and> (\<forall>c. set (capability_list (ry_by_capability r) c)
              = {d. \<exists>g. map_of (ry_by_descriptor r) d = Some g \<and> provides (rg_contract g) c}
          \<and> sorted_wrt (\<lambda>a b. \<not> prefer_over (registered (ry_by_descriptor r) b) (registered (ry_by_descriptor r) a))
              (capability_list (ry_by_capability r) c))"

lemma commit_inv:
  assumes it: "iterates it" and d: "distinct (map fst next)"
    and ok: "\<And>d g. map_of next d = Some g \<Longrightarrow>
      reg_descriptor g = d \<and> contract_problems fo (ry_max_timeout r) (rg_contract g) = []"
  shows "registry_inv fo (commit it next r)"
proof -
  let ?o = "stable_sort descriptor_before (it (map fst next))"
  let ?lt = "\<lambda>a b. prefer_over (registered next a) (registered next b)"
  have o: "mset ?o = mset (map fst next)" using it by (simp add: iterates_def)
  then have so: "set ?o = fst ` set next" by (metis set_map set_mset_mset)
  have cap: "capability_list (ry_by_capability (commit it next r)) c
      = stable_sort ?lt (capability_list (fold (index_descriptor next) ?o []) c)" for c
    by (simp add: commit_def Let_def capability_list_map stable_sort_def)
  have mem: "set (capability_list (fold (index_descriptor next) ?o []) c)
      = {d. \<exists>g. map_of next d = Some g \<and> provides (rg_contract g) c}" for c
  proof -
    have "d \<in> fst ` set next \<longleftrightarrow> (\<exists>g. map_of next d = Some g)" for d
      using map_of_None_iff [of "next" d] by (cases "map_of next d") auto
    then show ?thesis unfolding index_all so by (auto simp: capability_list_def registered_def)
  qed
  have sw: "strict_weak ?lt" by (rule strict_weak_on) (rule preference.strict_weak_axioms)
  have fields: "ry_by_descriptor (commit it next r) = next" "ry_order (commit it next r) = ?o"
    "ry_max_timeout (commit it next r) = ry_max_timeout r"
    by (simp_all add: commit_def Let_def)
  show ?thesis
    unfolding registry_inv_def fields cap set_stable_sort mem
    using d ok o by_descriptor.sort_sorted strict_weak.sort_sorted [OF sw] by auto
qed

lemma registered_ok:
  "registry_inv fo r \<Longrightarrow> map_of (ry_by_descriptor r) d = Some g \<Longrightarrow>
     reg_descriptor g = d \<and> contract_problems fo (ry_max_timeout r) (rg_contract g) = []"
  unfolding registry_inv_def by blast

text \<open>Every writer rebuilds the snapshot from the old map with one entry changed or dropped.\<close>

lemma change_inv:
  assumes I: "registry_inv fo r" and it: "iterates it" and g: "reg_descriptor g = d"
    and ok: "contract_problems fo (ry_max_timeout r) (rg_contract g) = []"
  shows "registry_inv fo (commit it (AList.update d g (ry_by_descriptor r)) r)"
proof (rule commit_inv [OF it])
  show "distinct (map fst (AList.update d g (ry_by_descriptor r)))"
    using I by (simp add: registry_inv_def distinct_update)
  show "reg_descriptor g' = d' \<and> contract_problems fo (ry_max_timeout r) (rg_contract g') = []"
    if m: "map_of (AList.update d g (ry_by_descriptor r)) d' = Some g'" for d' g'
  proof (cases "d' = d")
    case True
    then show ?thesis using m g ok by (simp add: update_conv')
  next
    case False
    then show ?thesis using m registered_ok [OF I, of d' g'] by (simp add: update_conv')
  qed
qed

lemma change_entry_inv:
  assumes I: "registry_inv fo r" and it: "iterates it" and g: "map_of (ry_by_descriptor r) d = Some g"
    and same: "rg_contract g' = rg_contract g"
  shows "registry_inv fo (commit it (AList.update d g' (ry_by_descriptor r)) r)"
  by (rule change_inv [OF I it]) (use registered_ok [OF I g] same in \<open>simp_all add: reg_descriptor_def\<close>)

lemma drop_inv:
  assumes I: "registry_inv fo r" and it: "iterates it"
  shows "registry_inv fo (commit it (AList.delete d (ry_by_descriptor r)) r)"
proof (rule commit_inv [OF it])
  show "distinct (map fst (AList.delete d (ry_by_descriptor r)))"
    using I by (simp add: registry_inv_def distinct_delete)
  show "reg_descriptor g' = d' \<and> contract_problems fo (ry_max_timeout r) (rg_contract g') = []"
    if m: "map_of (AList.delete d (ry_by_descriptor r)) d' = Some g'" for d' g'
    using m registered_ok [OF I, of d' g'] by (simp add: delete_conv' split: if_splits)
qed

lemma inherit_sel [simp]: "rg_contract (inherit p now g) = rg_contract g" "rg_lifecycle (inherit p now g) = rg_lifecycle g"
  "rg_tool (inherit p now g) = rg_tool g" "rg_priority (inherit p now g) = rg_priority g"
  by (simp_all add: inherit_def split: option.splits)

lemma registry_step_inv:
  assumes I: "registry_inv fo r" and it: "iterates it"
  shows "registry_inv fo (registry_step fo r (it, a))"
proof (cases a)
  case (Ry_Register now g)
  then show ?thesis
    using I change_inv [OF I it, of "inherit (map_of (ry_by_descriptor r) (reg_descriptor g)) now g" "reg_descriptor g"]
    by (simp add: register_def Let_def reg_descriptor_def)
next
  case (Ry_Unregister d)
  then show ?thesis
    using I drop_inv [OF I it] by (cases "map_of (ry_by_descriptor r) d") (simp_all add: unregister_def)
next
  case (Ry_Lifecycle now d l)
  then show ?thesis
    using I change_entry_inv [OF I it, of d] by (cases "map_of (ry_by_descriptor r) d") (simp_all add: set_lifecycle_def)
next
  case (Ry_Health now d h)
  then show ?thesis
    using I change_entry_inv [OF I it, of d] by (cases "map_of (ry_by_descriptor r) d") (simp_all add: set_health_def)
next
  case (Ry_Outcome d ok)
  then show ?thesis
    using I change_entry_inv [OF I it, of d] by (cases "map_of (ry_by_descriptor r) d") (simp_all add: record_outcome_def)
qed

lemma new_registry_inv: "registry_inv fo (new_registry mt)"
  by (simp add: registry_inv_def new_registry_def capability_list_def)

text \<open>An operation whose iteration order is none leaves the registry; so the locale applies to all.\<close>

definition guarded_step :: "'f float_ops \<Rightarrow> 'f registry \<Rightarrow> (descriptor list \<Rightarrow> descriptor list) \<times> 'f registry_op
    \<Rightarrow> 'f registry" where
  "guarded_step fo r a = (if iterates (fst a) then registry_step fo r a else r)"

interpretation registry_ops: invariant_ops "guarded_step fo" "registry_inv fo" for fo
  by unfold_locales (auto simp: guarded_step_def intro: registry_step_inv)

lemma guarded_run:
  "list_all (\<lambda>a. iterates (fst a)) ops \<Longrightarrow> run_ops (guarded_step fo) r ops = run_ops (registry_step fo) r ops"
  by (induction ops arbitrary: r) (simp_all add: guarded_step_def)

lemma registry_run_inv:
  assumes "list_all (\<lambda>a. iterates (fst a)) ops"
  shows "registry_inv fo (run_ops (registry_step fo) (new_registry mt) ops)"
  using registry_ops.run_inv [OF new_registry_inv, of fo mt ops] guarded_run [OF assms, of fo] by simp

section \<open>What a resolution answers\<close>

definition provider :: "'f registry \<Rightarrow> string \<Rightarrow> 'f registration \<Rightarrow> bool" where
  "provider r c g \<longleftrightarrow> map_of (ry_by_descriptor r) (reg_descriptor g) = Some g \<and> provides (rg_contract g) c"

definition serves :: "'f registry \<Rightarrow> request \<Rightarrow> 'f registration \<Rightarrow> bool" where
  "serves r q g \<longleftrightarrow> provider r (dr_capability q) g \<and> satisfies (dr_version q) (snd (reg_descriptor g))
     \<and> rg_lifecycle g \<in> {Life_Active, Life_Deprecated} \<and> rg_health g \<noteq> Health_Unhealthy
     \<and> (dr_require_healthy q \<longrightarrow> rg_health g = Health_Healthy) \<and> fst (reg_descriptor g) \<notin> set (dr_exclude q)"

definition request_limit :: "request \<Rightarrow> nat" where
  "request_limit q = (if dr_max_candidates q \<le> 0 then default_max_candidates else nat (dr_max_candidates q))"

lemma providers_listed:
  assumes I: "registry_inv fo r"
  shows "d \<in> set (capability_list (ry_by_capability r) c) \<longleftrightarrow>
      provider r c (registered (ry_by_descriptor r) d) \<and> reg_descriptor (registered (ry_by_descriptor r) d) = d"
proof -
  have "d \<in> set (capability_list (ry_by_capability r) c) \<longleftrightarrow>
      (\<exists>g. map_of (ry_by_descriptor r) d = Some g \<and> provides (rg_contract g) c)"
    using I by (simp add: registry_inv_def)
  then show ?thesis
    using registered_ok [OF I, of d] by (auto simp: provider_def registered_def)
qed

lemma sorted_wrt_filter_take:
  "sorted_wrt P xs \<Longrightarrow> x \<in> set (take n (filter Q xs)) \<Longrightarrow> y \<in> set (filter Q xs) \<Longrightarrow>
     y \<notin> set (take n (filter Q xs)) \<Longrightarrow> P x y"
proof -
  assume s: "sorted_wrt P xs" and x: "x \<in> set (take n (filter Q xs))" and y: "y \<in> set (filter Q xs)"
    and ny: "y \<notin> set (take n (filter Q xs))"
  have "sorted_wrt P (take n (filter Q xs) @ drop n (filter Q xs))"
    using s by (simp add: sorted_wrt_filter)
  moreover have "y \<in> set (drop n (filter Q xs))"
    using y ny by (metis Un_iff append_take_drop_id set_append)
  ultimately show "P x y" using x unfolding sorted_wrt_append by blast
qed

definition kept_candidates :: "request \<Rightarrow> 'f registry \<Rightarrow> descriptor list" where
  "kept_candidates q r =
     filter (\<lambda>d. satisfies (dr_version q) (snd d) \<and> eligible q (registered (ry_by_descriptor r) d) d)
       (capability_list (ry_by_capability r) (dr_capability q))"

lemma serves_kept:
  assumes I: "registry_inv fo r"
  shows "serves r q g \<longleftrightarrow>
      reg_descriptor g \<in> set (kept_candidates q r) \<and> registered (ry_by_descriptor r) (reg_descriptor g) = g"
proof -
  have r: "registered (ry_by_descriptor r) (reg_descriptor g) = g" if "provider r c g" for c
    using that by (simp add: provider_def registered_def)
  show ?thesis
    using providers_listed [OF I, of "reg_descriptor g" "dr_capability q"] r
    by (auto simp: serves_def eligible_def dispatchable_def usable_def kept_candidates_def)
qed

lemma kept_serves:
  assumes I: "registry_inv fo r" and d: "d \<in> set (kept_candidates q r)"
  shows "serves r q (registered (ry_by_descriptor r) d)" "reg_descriptor (registered (ry_by_descriptor r) d) = d"
proof -
  have "d \<in> set (capability_list (ry_by_capability r) (dr_capability q))"
    using d by (simp add: kept_candidates_def)
  then have e: "reg_descriptor (registered (ry_by_descriptor r) d) = d" using providers_listed [OF I] by simp
  then show "reg_descriptor (registered (ry_by_descriptor r) d) = d" .
  show "serves r q (registered (ry_by_descriptor r) d)" using d e by (simp add: serves_kept [OF I])
qed

lemma kept_order:
  assumes I: "registry_inv fo r" and x: "x \<in> set (take n (kept_candidates q r))"
    and y: "y \<in> set (kept_candidates q r)" "y \<notin> set (take n (kept_candidates q r))"
  shows "\<not> prefer_over (registered (ry_by_descriptor r) y) (registered (ry_by_descriptor r) x)"
  using sorted_wrt_filter_take [OF _ x [unfolded kept_candidates_def] y(1) [unfolded kept_candidates_def]
      y(2) [unfolded kept_candidates_def]] I
  unfolding registry_inv_def by blast

text \<open>The code's answer in terms of these lists.\<close>

lemma resolve_alt:
  assumes "request_problems q = []"
  shows "resolve q r =
    (let ds = capability_list (ry_by_capability r) (dr_capability q);
         kept = kept_candidates q r;
         chosen = take (request_limit q)
           (if dr_prefer q \<noteq> [] then stable_sort (preferred_first (dr_prefer q)) kept else kept)
     in if ds = [] then Inl No_Capability_Registered
        else if filter (\<lambda>d. satisfies (dr_version q) (snd d)) ds = [] then Inl Version_Unsatisfiable
        else if kept = [] then Inl No_Healthy_Provider
        else Inr (zip (map (registered (ry_by_descriptor r)) chosen) [0..<length chosen]))"
proof -
  have "filter (\<lambda>d. eligible q (registered (ry_by_descriptor r) d) d)
        (filter (\<lambda>d. satisfies (dr_version q) (snd d)) (capability_list (ry_by_capability r) (dr_capability q)))
      = kept_candidates q r"
    by (simp add: kept_candidates_def conj_commute)
  then show ?thesis
    using assms by (simp only: resolve_def Let_def request_limit_def if_False not_True_eq_False simp_thms)
qed

lemma request_limit_pos: "0 < request_limit q"
  by (simp add: request_limit_def default_max_candidates_def)

text \<open>When a candidate is left.\<close>

lemma resolve_found:
  assumes I: "registry_inv fo r" and q: "request_problems q = []" and k: "kept_candidates q r \<noteq> []"
  shows "\<exists>c. resolve q r = Inr (zip (map (registered (ry_by_descriptor r)) c) [0..<length c]) \<and> c \<noteq> []
    \<and> length c \<le> request_limit q
    \<and> list_all (\<lambda>(g, n). serves r q g) (zip (map (registered (ry_by_descriptor r)) c) [0..<length c])
    \<and> (dr_prefer q = [] \<longrightarrow>
         (\<forall>g'. serves r q g' \<and> g' \<notin> fst ` set (zip (map (registered (ry_by_descriptor r)) c) [0..<length c]) \<longrightarrow>
            list_all (\<lambda>(g, n). \<not> prefer_over g' g) (zip (map (registered (ry_by_descriptor r)) c) [0..<length c])))"
proof -
  let ?ds = "capability_list (ry_by_capability r) (dr_capability q)" and ?k = "kept_candidates q r"
  let ?sat = "\<lambda>d. satisfies (dr_version q) (snd d)" and ?reg = "registered (ry_by_descriptor r)"
  have ne: "?ds \<noteq> []" "filter ?sat ?ds \<noteq> []" using k by (auto simp: kept_candidates_def filter_empty_conv)
  define s where "s = (if dr_prefer q \<noteq> [] then stable_sort (preferred_first (dr_prefer q)) ?k else ?k)"
  define c where "c = take (request_limit q) s"
  have s: "set s = set ?k" "s \<noteq> []" using k set_stable_sort [of "preferred_first (dr_prefer q)" ?k]
    by (auto simp: s_def simp del: set_stable_sort)
  have r: "resolve q r = Inr (zip (map ?reg c) [0..<length c])"
    using k ne by (simp add: resolve_alt [OF q] Let_def s_def [symmetric] c_def [symmetric])
  have sub: "set c \<subseteq> set ?k" using s(1) set_take_subset [of "request_limit q" s] by (simp add: c_def)
  have "c \<noteq> []" using s(2) request_limit_pos [of q] by (simp add: c_def)
  moreover have "length c \<le> request_limit q" by (simp add: c_def)
  moreover have f: "map fst (zip (map ?reg c) [0..<length c]) = map ?reg c" by simp
  have all: "list_all (\<lambda>(g, n). P g) (zip (map ?reg c) [0..<length c]) = list_all (\<lambda>d. P (?reg d)) c" for P
  proof -
    have "list_all (\<lambda>(g, n). P g) (zip (map ?reg c) [0..<length c])
        = list_all P (map fst (zip (map ?reg c) [0..<length c]))"
      by (simp add: list_all_iff case_prod_beta del: map_fst_zip)
    then show ?thesis unfolding f by (simp add: list_all_iff)
  qed
  moreover have "list_all (\<lambda>d. serves r q (?reg d)) c"
    using sub kept_serves(1) [OF I] by (auto simp: list_all_iff)
  moreover have "list_all (\<lambda>d. \<not> prefer_over g' (?reg d)) c"
    if p: "dr_prefer q = []" and g': "serves r q g'" and out: "g' \<notin> ?reg ` set c" for g'
  proof -
    have kg: "reg_descriptor g' \<in> set ?k" "?reg (reg_descriptor g') = g'" using g' serves_kept [OF I] by auto
    then have "reg_descriptor g' \<notin> set c" using out kg(2) by (metis imageI)
    then show ?thesis
      using kept_order [OF I, of _ "request_limit q" q "reg_descriptor g'"] kg p
      by (auto simp: list_all_iff c_def s_def)
  qed
  moreover have "fst ` set (zip (map ?reg c) [0..<length c]) = ?reg ` set c"
    by (metis f list.set_map)
  ultimately show ?thesis using r by (intro exI [of _ c]) simp
qed

section \<open>Properties\<close>


definition tool_reg :: "string \<Rightarrow> string \<Rightarrow> lifecycle \<Rightarrow> health \<Rightarrow> int registration" where
  "tool_reg t v l h =
     \<lparr>rg_contract = count_contract\<lparr>ct_descriptor := (t, v)\<rparr>, rg_tool = None, rg_lifecycle = l, rg_health = h,
      rg_priority = 0, rg_registered_at = 0, rg_updated_at = 0, rg_health_change = 0, rg_executions = 0,
      rg_failures = 0\<rparr>"

definition ask :: request where
  "ask = \<lparr>dr_capability = ''c'', dr_version = \<lparr>vc_exact = [], vc_major = - 1\<rparr>, dr_prefer = [],
     dr_require_healthy = False, dr_max_candidates = 1, dr_exclude = []\<rparr>"

lemma id_iterates: "iterates (\<lambda>xs. xs)"
  by (simp add: iterates_def)

definition two_tools :: "((descriptor list \<Rightarrow> descriptor list) \<times> int registry_op) list" where
  "two_tools = [(\<lambda>xs. xs, Ry_Register 1 (tool_reg ''a'' ''1.0.0'' Life_Active Health_Unknown)),
     (\<lambda>xs. xs, Ry_Register 2 (tool_reg ''b'' ''1.0.0'' Life_Deprecated Health_Healthy))]"

lemma two_tools_iterate: "list_all (\<lambda>a. iterates (fst a)) two_tools"
  by (simp add: two_tools_def id_iterates)

lemma two_tools_answer:
  "map_sum id (map (\<lambda>(g, n). reg_descriptor g))
     (resolve ask (run_ops (registry_step int_floats) (new_registry 0) two_tools)) = Inr [(''b'', ''1.0.0'')]"
  by code_simp


text \<open>A deprecated version that is healthy is chosen over an active one of unknown health, though
  the registry's documentation says a deprecated one is picked only when nothing active serves.\<close>

theorem deprecated_is_preferred:
  "prefer_over (tool_reg ''b'' ''1.0.0'' Life_Deprecated Health_Healthy)
     (tool_reg ''a'' ''1.0.0'' Life_Active Health_Unknown)"
  by code_simp

text \<open>Registering a retired version again brings it back to service, an edge the lifecycle table does
  not have.\<close>

theorem registration_revives_retired:
  "\<not> can_move Life_Retired Life_Active
   \<and> (case map_of (ry_by_descriptor (run_ops (registry_step int_floats) (new_registry 0)
         [(\<lambda>xs. xs, Ry_Register 1 (tool_reg ''a'' ''1.0.0'' Life_Active Health_Unknown)),
          (\<lambda>xs. xs, Ry_Lifecycle 2 (''a'', ''1.0.0'') Life_Retired),
          (\<lambda>xs. xs, Ry_Register 3 (tool_reg ''a'' ''1.0.0'' Life_Active Health_Unknown))]))
         (''a'', ''1.0.0'') of
       Some g \<Rightarrow> rg_lifecycle g = Life_Active | None \<Rightarrow> False)"
  by code_simp

text \<open>The order the code calls total is not: two registrations of one tool whose versions differ in
  leading zeros are not ordered, so map iteration decides between them.\<close>

theorem preference_is_not_total:
  "let a = tool_reg ''a'' ''1.0.0'' Life_Active Health_Healthy; b = tool_reg ''a'' ''1.0.00'' Life_Active Health_Healthy
   in reg_descriptor a \<noteq> reg_descriptor b \<and> version_valid ''1.0.00''
      \<and> \<not> prefer_over a b \<and> \<not> prefer_over b a"
  by code_simp

text \<open>Versions are compared by their numbers, a malformed one below every well-formed one: the
  comparison is the one of a linear order of ranks.\<close>

theorem version_compare_is_a_preorder:
  "version_compare v w =
     (if version_rank v = version_rank w then 0 else if version_rank v < version_rank w then - 1 else 1)"
  by (rule version_compare_rank)

text \<open>A retired version stays retired under every operation but a new registration of it or its
  removal.\<close>

theorem retired_stays_retired:
  assumes "map_of (ry_by_descriptor r) d = Some g" and "rg_lifecycle g = Life_Retired"
    and "case a of Ry_Register now g' \<Rightarrow> reg_descriptor g' \<noteq> d | Ry_Unregister d' \<Rightarrow> d' \<noteq> d | _ \<Rightarrow> True"
  shows "\<exists>g'. map_of (ry_by_descriptor (registry_step fo r (it, a))) d = Some g' \<and> rg_lifecycle g' = Life_Retired"
  using assms
  by (cases a)
     (auto simp: register_def unregister_def set_lifecycle_def set_health_def record_outcome_def commit_def Let_def
        update_conv' delete_conv' can_move_def split: option.splits)

theorem retired_stays_retired_witness:
  "\<exists>g'. map_of (ry_by_descriptor (registry_step int_floats
       (new_registry 0\<lparr>ry_by_descriptor := [((''a'', ''1.0.0''), tool_reg ''a'' ''1.0.0'' Life_Retired Health_Unknown)]\<rparr>)
       (\<lambda>xs. xs, Ry_Lifecycle 1 (''a'', ''1.0.0'') Life_Active))) (''a'', ''1.0.0'') = Some g'
     \<and> rg_lifecycle g' = Life_Retired"
  by (rule retired_stays_retired [where g = "tool_reg ''a'' ''1.0.0'' Life_Retired Health_Unknown"])
     (simp_all add: tool_reg_def)

end
