(* ===== verification/ToolPlan.thy ===== *)
theory ToolPlan
  imports ToolRegistry
begin

text \<open>
  Intents and plans (\<^verbatim>\<open>packages/go/toolruntime/intent.go\<close>, \<^verbatim>\<open>plan.go\<close>): what a caller may ask, the
  search for a dependency cycle, the levels the planner orders requests in, and the tree it builds.
\<close>

section \<open>Intents\<close>

record binding =
  bd_from_ref :: string
  bd_from_field :: string
  bd_to_arg :: string
  bd_required :: bool

datatype cond_op = Cond_Exists | Cond_Absent | Cond_Equals | Cond_Not_Equals | Cond_Greater | Cond_Less

record 'f condition =
  cn_from_ref :: string
  cn_field :: string
  cn_op :: cond_op
  cn_value :: "'f val"

record 'f cap_request =
  cr_ref :: string
  cr_capability :: string
  cr_version :: version_constraint
  cr_args :: "'f arguments"
  cr_depends_on :: "string list"
  cr_bindings :: "binding list"
  cr_condition :: "'f condition option"
  cr_fallback :: bool
  cr_optional :: bool
  cr_prefer :: string

record 'f intent =
  it_actor :: string
  it_requests :: "'f cap_request list"
  it_deadline :: "instant option"
  it_budget :: budget

datatype intent_problem = No_Requests | No_Actor | Duplicate_Ref string | Capability_Missing nat | Ref_Missing nat
  | Unknown_Dependency nat string | Self_Dependency nat | Binding_From_Ref nat | Binding_From_Field nat
  | Binding_To_Arg nat | Binding_Unknown nat string | Condition_From_Ref nat | Condition_Field nat
  | Condition_Unknown nat string | Cycle_Through string | Intent_Budget budget_problem

definition binding_problems :: "nat \<Rightarrow> binding \<Rightarrow> intent_problem list" where
  "binding_problems i b =
     (if bd_from_ref b = [] then [Binding_From_Ref i] else [])
     @ (if bd_from_field b = [] then [Binding_From_Field i] else [])
     @ (if bd_to_arg b = [] then [Binding_To_Arg i] else [])"

definition condition_problems :: "nat \<Rightarrow> 'f condition \<Rightarrow> intent_problem list" where
  "condition_problems i c =
     (if cn_from_ref c = [] then [Condition_From_Ref i] else [])
     @ (if cn_field c = [] then [Condition_Field i] else [])"

definition cap_request_problems :: "nat \<Rightarrow> string list \<Rightarrow> bool \<Rightarrow> 'f cap_request \<Rightarrow> intent_problem list" where
  "cap_request_problems i refs multi r =
     (if cr_capability r = [] then [Capability_Missing i] else [])
     @ (if multi \<and> cr_ref r = [] then [Ref_Missing i] else [])
     @ concat (map (\<lambda>d. (if d \<notin> set refs then [Unknown_Dependency i d] else [])
                        @ (if d = cr_ref r then [Self_Dependency i] else [])) (cr_depends_on r))
     @ concat (map (\<lambda>b. binding_problems i b
                        @ (if bd_from_ref b \<noteq> [] \<and> bd_from_ref b \<notin> set refs
                           then [Binding_Unknown i (bd_from_ref b)] else [])) (cr_bindings r))
     @ (case cr_condition r of
          None \<Rightarrow> []
        | Some c \<Rightarrow> condition_problems i c
            @ (if cn_from_ref c \<noteq> [] \<and> cn_from_ref c \<notin> set refs
               then [Condition_Unknown i (cn_from_ref c)] else []))"

text \<open>The loop that collects the refs and reports repeated ones.\<close>

fun collect_refs :: "string list \<Rightarrow> 'f cap_request list \<Rightarrow> string list \<times> intent_problem list" where
  "collect_refs seen [] = (seen, [])"
| "collect_refs seen (r # rs) =
     (if cr_ref r = [] then collect_refs seen rs
      else (let (refs, ps) = collect_refs (cr_ref r # seen) rs
            in (refs, if cr_ref r \<in> set seen then Duplicate_Ref (cr_ref r) # ps else ps)))"

section \<open>The search for a cycle\<close>

text \<open>A dependency graph: every ref with the refs it depends on.\<close>

type_synonym graph = "(string \<times> string list) list"

definition request_edges :: "'f cap_request \<Rightarrow> string list" where
  "request_edges r = cr_depends_on r @ map bd_from_ref (cr_bindings r)
     @ (case cr_condition r of None \<Rightarrow> [] | Some c \<Rightarrow> [cn_from_ref c])"

definition cycle_graph :: "'f cap_request list \<Rightarrow> graph" where
  "cycle_graph rs =
     fold (\<lambda>r g. if cr_ref r = [] then g else AList.update (cr_ref r) (request_edges r) g) rs []"

definition known :: "graph \<Rightarrow> string \<Rightarrow> bool" where
  "known g x = (map_of g x \<noteq> None)"

definition edges_of :: "graph \<Rightarrow> string \<Rightarrow> string list" where
  "edges_of g x = (case map_of g x of Some es \<Rightarrow> es | None \<Rightarrow> [])"

datatype colour = White | Grey | Black

text \<open>
  \<^verbatim>\<open>visit\<close> and the loops over edges and over all refs, with the colours as state: the result is
  None when the fuel, a bound on the depth, is used up; else the colours and the ref found.
\<close>

fun visit :: "nat \<Rightarrow> graph \<Rightarrow> (string \<Rightarrow> colour) \<Rightarrow> string \<Rightarrow> ((string \<Rightarrow> colour) \<times> string option) option"
  and visit_all :: "nat \<Rightarrow> graph \<Rightarrow> (string \<Rightarrow> colour) \<Rightarrow> string list \<Rightarrow> ((string \<Rightarrow> colour) \<times> string option) option" where
  "visit 0 g c x = None"
| "visit (Suc n) g c x =
     (case c x of
        Grey \<Rightarrow> Some (c, Some x)
      | Black \<Rightarrow> Some (c, None)
      | White \<Rightarrow>
          (case visit_all n g (c(x := Grey)) (sort (edges_of g x)) of
             None \<Rightarrow> None
           | Some (c', Some y) \<Rightarrow> Some (c', Some y)
           | Some (c', None) \<Rightarrow> Some (c'(x := Black), None)))"
| "visit_all n g c [] = Some (c, None)"
| "visit_all n g c (x # xs) =
     (if \<not> known g x then visit_all n g c xs
      else (case visit n g c x of
              None \<Rightarrow> None
            | Some (c', Some y) \<Rightarrow> Some (c', Some y)
            | Some (c', None) \<Rightarrow> visit_all n g c' xs))"

definition find_cycle :: "graph \<Rightarrow> string option" where
  "find_cycle g =
     (case visit_all (length g + 1) g (\<lambda>_. White) (sort (map fst g)) of
        Some (_, found) \<Rightarrow> found
      | None \<Rightarrow> None)"

definition intent_problems :: "'f intent \<Rightarrow> intent_problem list" where
  "intent_problems i =
     (let (refs, dups) = collect_refs [] (it_requests i);
          multi = length (it_requests i) > 1
      in (if it_requests i = [] then [No_Requests] else [])
         @ (if it_actor i = [] then [No_Actor] else [])
         @ dups
         @ concat (map (\<lambda>(k, r). cap_request_problems k refs multi r) (List.enumerate 0 (it_requests i)))
         @ (case find_cycle (cycle_graph (it_requests i)) of Some x \<Rightarrow> [Cycle_Through x] | None \<Rightarrow> [])
         @ map Intent_Budget (budget_problems (it_budget i)))"

section \<open>Levels\<close>

text \<open>
  \<^verbatim>\<open>levelise\<close>: the refs in request order, the dependencies of each, and the loop over the refs
  done so far, which ends as every round either stops or adds one.
\<close>

definition default_ref :: "nat \<Rightarrow> 'f cap_request \<Rightarrow> string" where
  "default_ref i r = (if cr_ref r = [] then ''r'' @ itoa i else cr_ref r)"

definition plan_order :: "'f cap_request list \<Rightarrow> string list" where
  "plan_order rs = map (\<lambda>(i, r). default_ref i r) (List.enumerate 0 rs)"

definition level_graph :: "'f cap_request list \<Rightarrow> graph" where
  "level_graph rs =
     fold (\<lambda>(i, r) g. AList.update (default_ref i r) (request_edges r) g) (List.enumerate 0 rs) []"

definition ready_refs :: "graph \<Rightarrow> string list \<Rightarrow> string list \<Rightarrow> string list" where
  "ready_refs g order dn =
     filter (\<lambda>x. x \<notin> set dn \<and> list_all (\<lambda>d. \<not> known g d \<or> d \<in> set dn) (edges_of g x)) order"

definition remaining :: "string list \<Rightarrow> string list \<Rightarrow> string list" where
  "remaining order dn = filter (\<lambda>x. x \<notin> set dn) order"

lemma ready_progress:
  assumes "ready_refs g order dn \<noteq> []"
  shows "card (set order - set (fold List.insert (ready_refs g order dn) dn)) < card (set order - set dn)"
proof (rule psubset_card_mono)
  have s: "set (fold List.insert xs ys) = set xs \<union> set ys" for xs ys :: "string list"
    by (induction xs arbitrary: ys) auto
  obtain x where "x \<in> set (ready_refs g order dn)" using assms by (cases "ready_refs g order dn") auto
  then show "set order - set (fold List.insert (ready_refs g order dn) dn) \<subset> set order - set dn"
    unfolding s by (auto simp: ready_refs_def)
qed simp

function level_loop :: "graph \<Rightarrow> string list \<Rightarrow> string list \<Rightarrow> string list + string list list" where
  "level_loop g order dn =
     (if \<not> length dn < length order then Inr []
      else (let ready = ready_refs g order dn in
            if ready = [] then Inl (remaining order dn)
            else (case level_loop g order (fold List.insert ready dn) of
                    Inl e \<Rightarrow> Inl e
                  | Inr ls \<Rightarrow> Inr (sort ready # ls))))"
  by auto

termination
  by (relation "measure (\<lambda>(g, order, dn). card (set order - set dn))") (simp_all add: ready_progress)

declare level_loop.simps [simp del]

definition levelise :: "'f cap_request list \<Rightarrow> string list + string list list" where
  "levelise rs = level_loop (level_graph rs) (plan_order rs) []"

section \<open>Steps and plans\<close>

datatype step_kind = Step_Invoke | Step_Sequence | Step_Parallel | Step_Conditional | Step_Fallback

record 'f step_info =
  si_id :: string
  si_ref :: string
  si_capability :: string
  si_descriptor :: descriptor
  si_contract :: "'f contract"
  si_args :: "'f arguments"
  si_bindings :: "binding list"
  si_optional :: bool
  si_compensable :: bool
  si_effect :: effect_class

datatype 'f step = Step (st_kind: step_kind) (st_info: "'f step_info") (st_condition: "'f condition option")
  (st_children: "'f step list")

fun leaves :: "'f step \<Rightarrow> 'f step list" where
  "leaves (Step k i c ss) = (if k = Step_Invoke then [Step k i c ss] else concat (map leaves ss))"

definition leaf_infos :: "'f step \<Rightarrow> 'f step_info list" where
  "leaf_infos s = map st_info (leaves s)"

definition plan_mutates :: "'f step \<Rightarrow> bool" where
  "plan_mutates s = list_ex (\<lambda>i. mutating (si_effect i)) (leaf_infos s)"

definition plan_irreversible :: "'f step \<Rightarrow> bool" where
  "plan_irreversible s = list_ex (\<lambda>i. si_effect i = Effect_Irreversible) (leaf_infos s)"

definition fully_compensable :: "'f step \<Rightarrow> bool" where
  "fully_compensable s = list_all (\<lambda>i. \<not> (mutating (si_effect i) \<and> \<not> si_compensable i)) (leaf_infos s)"

section \<open>The search finds a cycle exactly when there is one\<close>

definition dep_rel :: "graph \<Rightarrow> (string \<times> string) set" where
  "dep_rel g = {(x, y). known g x \<and> known g y \<and> y \<in> set (edges_of g x)}"

definition black_ok :: "graph \<Rightarrow> (string \<Rightarrow> colour) \<Rightarrow> bool" where
  "black_ok g c \<longleftrightarrow> (\<forall>x. c x = Black \<longrightarrow> (x, x) \<notin> (dep_rel g)\<^sup>+ \<and> (\<forall>y. (x, y) \<in> dep_rel g \<longrightarrow> c y = Black))"

lemma black_closed: "black_ok g c \<Longrightarrow> c x = Black \<Longrightarrow> (x, y) \<in> (dep_rel g)\<^sup>* \<Longrightarrow> c y = Black"
  by (rotate_tac 2, induction rule: rtrancl_induct) (auto simp: black_ok_def)

lemma finished_black:
  assumes b: "black_ok g c" and x: "c x = Grey" and s: "\<forall>y. (x, y) \<in> dep_rel g \<longrightarrow> c y = Black"
  shows "black_ok g (c(x := Black))"
proof -
  have "(x, x) \<notin> (dep_rel g)\<^sup>+"
  proof
    assume "(x, x) \<in> (dep_rel g)\<^sup>+"
    then obtain y where y: "(x, y) \<in> dep_rel g" "(y, x) \<in> (dep_rel g)\<^sup>*" by (auto dest: tranclD)
    then have "c x = Black" using black_closed [OF b _ y(2)] s by blast
    then show False using x by simp
  qed
  then show ?thesis using b s by (auto simp: black_ok_def)
qed

text \<open>What a search leaves: no colour is taken back, grey refs are those it was called with.\<close>

definition search_kept :: "(string \<Rightarrow> colour) \<Rightarrow> (string \<Rightarrow> colour) \<Rightarrow> bool" where
  "search_kept c c' \<longleftrightarrow> (\<forall>z. (c z \<noteq> White \<longrightarrow> c' z = c z) \<and> (c' z = Grey \<longrightarrow> c z = Grey))"

lemma search_kept_refl: "search_kept c c"
  by (simp add: search_kept_def)

lemma search_kept_trans: "search_kept c c' \<Longrightarrow> search_kept c' c'' \<Longrightarrow> search_kept c c''"
  unfolding search_kept_def by (metis)

lemma visit_sound:
  "black_ok g c \<Longrightarrow> known g x \<Longrightarrow> (\<forall>z. c z = Grey \<longrightarrow> (z, x) \<in> (dep_rel g)\<^sup>+) \<Longrightarrow>
     visit n g c x = Some (c', f) \<Longrightarrow>
     (case f of Some y \<Rightarrow> (y, y) \<in> (dep_rel g)\<^sup>+ | None \<Rightarrow> black_ok g c' \<and> search_kept c c' \<and> c' x = Black)"
  and visit_all_sound:
  "black_ok g c \<Longrightarrow> (\<forall>z x. c z = Grey \<longrightarrow> x \<in> set xs \<longrightarrow> known g x \<longrightarrow> (z, x) \<in> (dep_rel g)\<^sup>+) \<Longrightarrow>
     visit_all n g c xs = Some (c', f) \<Longrightarrow>
     (case f of Some y \<Rightarrow> (y, y) \<in> (dep_rel g)\<^sup>+
      | None \<Rightarrow> black_ok g c' \<and> search_kept c c' \<and> (\<forall>x \<in> set xs. known g x \<longrightarrow> c' x = Black))"
proof (induction n g c x and n g c xs arbitrary: c' f and c' f rule: visit_visit_all.induct)
  case (1 g c x)
  then show ?case by simp
next
  case (2 n g c x)
  show ?case
  proof (cases "c x")
    case White
    let ?c = "c(x := Grey)"
    have pre: "black_ok g ?c"
      using 2(2) White unfolding black_ok_def by (metis colour.distinct fun_upd_apply)
    have edge: "(x, y) \<in> dep_rel g" if "y \<in> set (sort (edges_of g x))" "known g y" for y
      using that 2(3) by (simp add: dep_rel_def)
    have greys: "\<forall>z y. ?c z = Grey \<longrightarrow> y \<in> set (sort (edges_of g x)) \<longrightarrow> known g y \<longrightarrow> (z, y) \<in> (dep_rel g)\<^sup>+"
      using 2(4) edge by (metis fun_upd_apply trancl.simps)
    obtain c1 f1 where r: "visit_all n g ?c (sort (edges_of g x)) = Some (c1, f1)"
      using 2(5) White by (cases "visit_all n g ?c (sort (edges_of g x))") auto
    note IH = 2(1) [OF White pre greys r]
    show ?thesis
    proof (cases f1)
      case None
      then have k: "black_ok g c1" "search_kept ?c c1" "\<forall>y \<in> set (sort (edges_of g x)). known g y \<longrightarrow> c1 y = Black"
        using IH by simp_all
      have "c1 x = Grey" using k(2) by (simp add: search_kept_def)
      moreover have "\<forall>y. (x, y) \<in> dep_rel g \<longrightarrow> c1 y = Black" using k(3) by (auto simp: dep_rel_def)
      ultimately have "black_ok g (c1(x := Black))" using finished_black [OF k(1)] by blast
      moreover have "search_kept c (c1(x := Black))"
        using k(2) White unfolding search_kept_def by (metis colour.distinct(5) fun_upd_apply)
      ultimately show ?thesis using 2(5) White r None by auto
    qed (use 2(5) White r IH in auto)
  qed (use 2 in \<open>auto simp: search_kept_refl\<close>)
next
  case (3 n g c)
  then show ?case by (auto simp: search_kept_refl)
next
  case (4 n g c x xs)
  show ?case
  proof (cases "known g x")
    case False
    then show ?thesis using 4(1) [OF False, of c' f] 4(4-6) by (auto split: option.splits)
  next
    case True
    then obtain c1 f1 where r: "visit n g c x = Some (c1, f1)"
      using 4(6) by (cases "visit n g c x") auto
    have pre: "\<forall>z. c z = Grey \<longrightarrow> (z, x) \<in> (dep_rel g)\<^sup>+" using 4(5) True by simp
    have nn: "\<not> \<not> known g x" using True by simp
    note IH = 4(2) [OF nn 4(4) True pre r]
    show ?thesis
    proof (cases f1)
      case None
      then have k: "black_ok g c1" "search_kept c c1" "c1 x = Black" using IH by simp_all
      have r2: "visit_all n g c1 xs = Some (c', f)" using 4(6) True r None by simp
      have greys: "\<forall>z y. c1 z = Grey \<longrightarrow> y \<in> set xs \<longrightarrow> known g y \<longrightarrow> (z, y) \<in> (dep_rel g)\<^sup>+"
        using 4(5) k(2) by (simp add: search_kept_def)
      have "case f of Some y \<Rightarrow> (y, y) \<in> (dep_rel g)\<^sup>+
          | None \<Rightarrow> black_ok g c' \<and> search_kept c1 c' \<and> (\<forall>x \<in> set xs. known g x \<longrightarrow> c' x = Black)"
        using 4(3) [of "(c1, f1)" c1 f1 c' f] True r None k(1) greys r2 by simp
      moreover have "c' x = Black" if "search_kept c1 c'" using that k(3) by (simp add: search_kept_def)
      ultimately show ?thesis using search_kept_trans [OF k(2)] by (auto split: option.splits)
    qed (use 4(6) True r IH in auto)
  qed
qed

text \<open>The fuel is enough: every call on the stack has coloured a ref of its own.\<close>

definition white_refs :: "graph \<Rightarrow> (string \<Rightarrow> colour) \<Rightarrow> string set" where
  "white_refs g c = {x. known g x \<and> c x = White}"

lemma known_keys: "known g x \<longleftrightarrow> x \<in> set (map fst g)"
  using map_of_None_iff [of g x] by (auto simp: known_def)

lemma known_finite: "finite {x. known g x}"
  unfolding known_keys by simp

lemma white_finite: "finite (white_refs g c)"
  using known_finite by (rule rev_finite_subset) (auto simp: white_refs_def)

lemma white_grey:
  assumes "known g x" and "c x = White"
  shows "Suc (card (white_refs g (c(x := Grey)))) = card (white_refs g c)"
proof -
  have "white_refs g (c(x := Grey)) = white_refs g c - {x}" by (auto simp: white_refs_def)
  moreover have "x \<in> white_refs g c" using assms by (simp add: white_refs_def)
  ultimately show ?thesis using white_finite by (metis card_Suc_Diff1)
qed

lemma visit_fuel:
  "known g x \<Longrightarrow> card (white_refs g c) < n \<Longrightarrow>
     \<exists>c' f. visit n g c x = Some (c', f) \<and> white_refs g c' \<subseteq> white_refs g c"
  and visit_all_fuel:
  "card (white_refs g c) < n \<Longrightarrow>
     \<exists>c' f. visit_all n g c xs = Some (c', f) \<and> white_refs g c' \<subseteq> white_refs g c"
proof (induction n g c x and n g c xs rule: visit_visit_all.induct)
  case (1 g c x)
  then show ?case by simp
next
  case (2 n g c x)
  show ?case
  proof (cases "c x")
    case White
    have "Suc (card (white_refs g (c(x := Grey)))) = card (white_refs g c)"
      by (rule white_grey [of g x c, OF 2(2) White])
    then have "card (white_refs g (c(x := Grey))) < n" using 2(3) by linarith
    then obtain c1 f1 where r: "visit_all n g (c(x := Grey)) (sort (edges_of g x)) = Some (c1, f1)"
      "white_refs g c1 \<subseteq> white_refs g (c(x := Grey))"
      using 2(1) [OF White] by blast
    have "white_refs g c1 \<subseteq> white_refs g c" "white_refs g (c1(x := Black)) \<subseteq> white_refs g c"
      using r(2) by (auto simp: white_refs_def split: if_splits)
    then show ?thesis using r(1) White by (cases f1) simp_all
  qed simp_all
next
  case (3 n g c)
  then show ?case by simp
next
  case (4 n g c x xs)
  show ?case
  proof (cases "known g x")
    case False
    then show ?thesis using 4(1) 4(4) by simp
  next
    case True
    obtain c1 f1 where r: "visit n g c x = Some (c1, f1)" "white_refs g c1 \<subseteq> white_refs g c"
      using 4(2) True 4(4) by blast
    show ?thesis
    proof (cases f1)
      case None
      have "card (white_refs g c1) < n" using 4(4) card_mono [OF white_finite r(2)] by linarith
      then obtain c2 f2 where "visit_all n g c1 xs = Some (c2, f2)" "white_refs g c2 \<subseteq> white_refs g c1"
        using 4(3) [of "(c1, f1)" c1 f1] True r(1) None by auto
      then show ?thesis using True r None by auto
    qed (use True r in auto)
  qed
qed

lemma white_all: "card (white_refs g c) \<le> length g"
proof -
  have "white_refs g c \<subseteq> set (map fst g)"
    by (auto simp: white_refs_def known_def) (metis map_of_None_iff not_None_eq option.distinct(1))
  then have "card (white_refs g c) \<le> card (set (map fst g))" by (rule card_mono [rotated]) simp
  also have "\<dots> \<le> length g" by (metis card_length length_map)
  finally show ?thesis .
qed

lemma find_cycle_exact: "find_cycle g = None \<longleftrightarrow> acyclic (dep_rel g)"
proof -
  have "card (white_refs g (\<lambda>_. White)) < length g + 1" using white_all [of g "\<lambda>_. White"] by simp
  then obtain c f where r: "visit_all (length g + 1) g (\<lambda>_. White) (sort (map fst g)) = Some (c, f)"
    using visit_all_fuel by blast
  have b: "black_ok g (\<lambda>_. White)" by (simp add: black_ok_def)
  have s: "case f of Some y \<Rightarrow> (y, y) \<in> (dep_rel g)\<^sup>+
     | None \<Rightarrow> black_ok g c \<and> search_kept (\<lambda>_. White) c \<and> (\<forall>x \<in> set (sort (map fst g)). known g x \<longrightarrow> c x = Black)"
    by (rule visit_all_sound [OF b _ r]) simp
  show ?thesis
  proof (cases f)
    case None
    then have k: "black_ok g c" "\<And>x. known g x \<Longrightarrow> c x = Black" using s known_keys [of g] by auto
    have "(x, x) \<notin> (dep_rel g)\<^sup>+" for x
    proof
      assume h: "(x, x) \<in> (dep_rel g)\<^sup>+"
      then have "known g x" by (auto dest!: tranclD simp: dep_rel_def)
      then show False using h k by (auto simp: black_ok_def)
    qed
    then show ?thesis using r None by (auto simp: find_cycle_def acyclic_def)
  next
    case (Some y)
    then show ?thesis using r s by (auto simp: find_cycle_def acyclic_def)
  qed
qed

section \<open>What the levels are\<close>

lemma set_insert_all: "set (fold List.insert xs ys) = set xs \<union> set ys"
  by (induction xs arbitrary: ys) auto

lemma insert_all_append: "distinct xs \<Longrightarrow> set xs \<inter> set ys = {} \<Longrightarrow> fold List.insert xs ys = rev xs @ ys"
  by (induction xs arbitrary: ys) auto

text \<open>Levels after the refs \<open>dn\<close>: each holds exactly the refs that are ready.\<close>

fun levels_ok :: "graph \<Rightarrow> string list \<Rightarrow> string list \<Rightarrow> string list list \<Rightarrow> bool" where
  "levels_ok g order dn [] \<longleftrightarrow> set order \<subseteq> set dn"
| "levels_ok g order dn (l # ls) \<longleftrightarrow> l \<noteq> [] \<and> l = sort (ready_refs g order dn) \<and> levels_ok g order (l @ dn) ls"

lemma ready_refs_cong: "set dn = set dn' \<Longrightarrow> ready_refs g order dn = ready_refs g order dn'"
  by (simp add: ready_refs_def)

lemma levels_ok_cong: "set dn = set dn' \<Longrightarrow> levels_ok g order dn ls = levels_ok g order dn' ls"
proof (induction ls arbitrary: dn dn')
  case Nil
  then show ?case by simp
next
  case (Cons l ls)
  have "set (l @ dn) = set (l @ dn')" using Cons.prems by simp
  note IH = Cons.IH [OF this]
  show ?case unfolding levels_ok.simps IH ready_refs_cong [OF Cons.prems, of g order] ..
qed

lemma level_loop_end: "\<not> length dn < length order \<Longrightarrow> level_loop g order dn = Inr []"
  by (subst level_loop.simps) simp

lemma level_loop_none:
  "length dn < length order \<Longrightarrow> ready_refs g order dn = [] \<Longrightarrow> level_loop g order dn = Inl (remaining order dn)"
  by (subst level_loop.simps) simp

lemma level_loop_next:
  "length dn < length order \<Longrightarrow> ready_refs g order dn \<noteq> [] \<Longrightarrow>
     level_loop g order dn =
       (case level_loop g order (fold List.insert (ready_refs g order dn) dn) of
          Inl e \<Rightarrow> Inl e | Inr ls \<Rightarrow> Inr (sort (ready_refs g order dn) # ls))"
  by (subst level_loop.simps) (simp add: Let_def)

lemma level_loop_ok:
  assumes "distinct order" and "distinct dn" and "set dn \<subseteq> set order" and "level_loop g order dn = Inr ls"
  shows "levels_ok g order dn ls"
  using assms
proof (induction g order dn arbitrary: ls rule: level_loop.induct)
  case (1 g order dn)
  let ?r = "ready_refs g order dn"
  show ?case
  proof (cases "length dn < length order")
    case False
    then have "card (set order) \<le> card (set dn)" using 1(2,3) by (simp add: distinct_card)
    then have "set dn = set order" using 1(4) card_seteq [of "set order" "set dn"] by simp
    then show ?thesis using 1(5) level_loop_end [OF False] by auto
  next
    case True
    then have ne: "?r \<noteq> []" using 1(5) level_loop_none [of dn order g] by auto
    then obtain ls' where ls: "ls = sort ?r # ls'" "level_loop g order (fold List.insert ?r dn) = Inr ls'"
      using 1(5) level_loop_next [OF True ne] by (auto split: sum.splits)
    have d: "distinct ?r" "set ?r \<inter> set dn = {}" "set ?r \<subseteq> set order" using 1(2) by (auto simp: ready_refs_def)
    have f: "fold List.insert ?r dn = rev ?r @ dn" by (rule insert_all_append [OF d(1,2)])
    have "levels_ok g order (fold List.insert ?r dn) ls'"
      by (rule 1(1) [OF _ refl ne 1(2) _ _ ls(2)]) (use True 1(3,4) d f in auto)
    moreover have "set (fold List.insert ?r dn) = set (sort ?r @ dn)" by (simp add: set_insert_all)
    ultimately have "levels_ok g order (sort ?r @ dn) ls'" using levels_ok_cong by blast
    moreover have "sort ?r \<noteq> []" using ne by (metis set_empty set_sort)
    ultimately show ?thesis using ls(1) by simp
  qed
qed

lemma levels_partition:
  "levels_ok g order dn ls \<Longrightarrow> distinct order \<Longrightarrow>
     distinct (concat ls) \<and> set (concat ls) \<inter> set dn = {} \<and> set (concat ls) = set order - set dn"
proof (induction ls arbitrary: dn)
  case Nil
  then show ?case by auto
next
  case (Cons l ls)
  then have ok: "levels_ok g order (l @ dn) ls" unfolding levels_ok.simps by blast
  have IH: "distinct (concat ls)" "set (concat ls) = set order - set (l @ dn)"
    using Cons.IH [OF ok Cons.prems(2)] by auto
  have "distinct l" "set l \<subseteq> set order - set dn" using Cons.prems by (auto simp: ready_refs_def)
  then show ?case unfolding concat.simps set_append distinct_append using IH by auto
qed

lemma levels_early:
  "levels_ok g order dn ls \<Longrightarrow> k < length ls \<Longrightarrow> x \<in> set (ls ! k) \<Longrightarrow> d \<in> set (edges_of g x) \<Longrightarrow> known g d \<Longrightarrow>
     d \<in> set dn \<or> (\<exists>j < k. d \<in> set (ls ! j))"
proof (induction ls arbitrary: dn k)
  case Nil
  then show ?case by simp
next
  case (Cons l ls)
  show ?case
  proof (cases k)
    case 0
    then show ?thesis using Cons.prems by (auto simp: ready_refs_def list_all_iff)
  next
    case (Suc m)
    have "d \<in> set (l @ dn) \<or> (\<exists>j < m. d \<in> set (ls ! j))"
    proof (rule Cons.IH)
      show "levels_ok g order (l @ dn) ls" using Cons.prems(1) unfolding levels_ok.simps by blast
    qed (use Cons.prems Suc in simp_all)
    then show ?thesis
    proof
      assume "d \<in> set (l @ dn)"
      then show ?thesis using Suc by (auto intro: exI [of _ 0])
    next
      assume "\<exists>j < m. d \<in> set (ls ! j)"
      then obtain j where "j < m" "d \<in> set (ls ! j)" by blast
      then show ?thesis using Suc by (intro disjI2 exI [of _ "Suc j"]) simp
    qed
  qed
qed

text \<open>A ref is in a level only if it could not have been in the one before.\<close>

lemma levels_late:
  "levels_ok g order dn ls \<Longrightarrow> distinct order \<Longrightarrow> Suc k < length ls \<Longrightarrow> x \<in> set (ls ! Suc k) \<Longrightarrow>
     \<exists>d \<in> set (edges_of g x). d \<in> set (ls ! k)"
proof (induction ls arbitrary: dn k)
  case Nil
  then show ?case by simp
next
  case (Cons l ls)
  show ?case
  proof (cases k)
    case 0
    then obtain m ms where ls: "ls = m # ms" "x \<in> set m" using Cons.prems by (cases ls) auto
    then have x: "x \<in> set (ready_refs g order (l @ dn))" using Cons.prems(1) by auto
    then have "x \<notin> set (ready_refs g order dn)" using Cons.prems(1) by (auto simp: ready_refs_def)
    then obtain d where d: "d \<in> set (edges_of g x)" "known g d" "d \<notin> set dn"
      using x by (auto simp: ready_refs_def list_all_iff)
    then have "d \<in> set l" using x by (auto simp: ready_refs_def list_all_iff)
    then show ?thesis using d(1) 0 by auto
  next
    case (Suc m)
    have "levels_ok g order (l @ dn) ls" using Cons.prems(1) unfolding levels_ok.simps by blast
    then have "\<exists>d \<in> set (edges_of g x). d \<in> set (ls ! m)"
      by (rule Cons.IH) (use Cons.prems Suc in simp_all)
    then show ?thesis using Suc by simp
  qed
qed

text \<open>When nothing is ready something is on a cycle.\<close>

lemma stuck_cycle:
  assumes k: "\<forall>x. known g x \<longleftrightarrow> x \<in> set order" and r: "ready_refs g order dn = []" and x: "x \<in> set order" "x \<notin> set dn"
  shows "\<not> acyclic (dep_rel g)"
proof
  assume a: "acyclic (dep_rel g)"
  have "dep_rel g \<subseteq> set order \<times> set order" using k by (auto simp: dep_rel_def)
  then have "finite (dep_rel g)" by (rule finite_subset) simp
  then have "wf ((dep_rel g)\<inverse>)" by (rule finite_acyclic_wf_converse) (rule a)
  moreover have "x \<in> set order - set dn" using x by simp
  ultimately obtain z where z: "z \<in> set order - set dn" "\<And>y. (y, z) \<in> (dep_rel g)\<inverse> \<Longrightarrow> y \<notin> set order - set dn"
    by (rule wfE_min) metis
  have "\<not> known g d \<or> d \<in> set dn" if "d \<in> set (edges_of g z)" for d
    using z that k by (auto simp: dep_rel_def)
  then have "z \<in> set (ready_refs g order dn)" using z(1) by (simp add: ready_refs_def list_all_iff)
  then show False using r by simp
qed

lemma level_loop_stuck:
  assumes "\<forall>x. known g x \<longleftrightarrow> x \<in> set order" and "distinct order" and "distinct dn" and "set dn \<subseteq> set order"
    and "level_loop g order dn = Inl e"
  shows "\<not> acyclic (dep_rel g)"
  using assms
proof (induction g order dn arbitrary: e rule: level_loop.induct)
  case (1 g order dn)
  let ?r = "ready_refs g order dn"
  have lt: "length dn < length order" using 1(6) level_loop_end [of dn order g] by (metis sum.distinct(1))
  show ?case
  proof (cases "?r = []")
    case True
    have "\<not> set order \<subseteq> set dn"
    proof
      assume "set order \<subseteq> set dn"
      then have "card (set order) \<le> card (set dn)" by (intro card_mono) auto
      then show False using lt 1(3,4) by (simp add: distinct_card)
    qed
    then show ?thesis using stuck_cycle [OF 1(2) True] by blast
  next
    case False
    then obtain e' where e: "level_loop g order (fold List.insert ?r dn) = Inl e'"
      using 1(6) level_loop_next [OF lt False] by (auto split: sum.splits)
    have d: "distinct ?r" "set ?r \<inter> set dn = {}" "set ?r \<subseteq> set order" using 1(3) by (auto simp: ready_refs_def)
    have f: "fold List.insert ?r dn = rev ?r @ dn" by (rule insert_all_append [OF d(1,2)])
    show ?thesis
      by (rule 1(1) [OF _ refl False 1(2,3) _ _ e]) (use lt 1(4,5) d f in auto)
  qed
qed

lemma known_update: "known (AList.update k v g) x \<longleftrightarrow> x = k \<or> known g x"
  by (simp add: known_def update_conv')

lemma known_fold:
  "known (fold (\<lambda>(i, r) g. AList.update (f i r) (h r) g) xs g) x \<longleftrightarrow> known g x \<or> x \<in> (\<lambda>(i, r). f i r) ` set xs"
  by (induction xs arbitrary: g) (auto simp: known_update)

lemma level_graph_known: "known (level_graph rs) x \<longleftrightarrow> x \<in> set (plan_order rs)"
  unfolding level_graph_def known_fold by (simp add: plan_order_def known_def)

section \<open>A validated intent can be ordered\<close>

lemma known_fold_nonempty:
  "known (fold (\<lambda>r g. if cr_ref r = [] then g else AList.update (cr_ref r) (request_edges r) g) rs g) x \<longleftrightarrow>
     known g x \<or> x \<in> cr_ref ` {r \<in> set rs. cr_ref r \<noteq> []}"
  by (induction rs arbitrary: g) (auto simp: known_update)

text \<open>With every request named the two graphs are one.\<close>

lemma graphs_agree_from:
  assumes "list_all (\<lambda>r. cr_ref r \<noteq> []) rs"
  shows "fold (\<lambda>(i, r) g. AList.update (default_ref i r) (request_edges r) g) (List.enumerate n rs) g
       = fold (\<lambda>r g. if cr_ref r = [] then g else AList.update (cr_ref r) (request_edges r) g) rs g"
  using assms by (induction rs arbitrary: n g) (simp_all add: default_ref_def)

lemma plan_order_named:
  assumes "list_all (\<lambda>r. cr_ref r \<noteq> []) rs"
  shows "map (\<lambda>(i, r). default_ref i r) (List.enumerate n rs) = map cr_ref rs"
  using assms by (induction rs arbitrary: n) (simp_all add: default_ref_def)

lemma collect_refs_sound:
  "collect_refs seen rs = (refs, []) \<Longrightarrow>
     distinct (filter (\<lambda>x. x \<noteq> []) (map cr_ref rs))
     \<and> set (filter (\<lambda>x. x \<noteq> []) (map cr_ref rs)) \<inter> set seen = {}
     \<and> set refs = set seen \<union> set (filter (\<lambda>x. x \<noteq> []) (map cr_ref rs))"
proof (induction rs arbitrary: seen refs)
  case Nil
  then show ?case by simp
next
  case (Cons r rs)
  show ?case
  proof (cases "cr_ref r = []")
    case True
    then show ?thesis using Cons by simp
  next
    case False
    then have "collect_refs (cr_ref r # seen) rs = (refs, [])" "cr_ref r \<notin> set seen"
      using Cons.prems by (auto split: prod.splits if_splits)
    then show ?thesis using Cons.IH [of "cr_ref r # seen" refs] False by auto
  qed
qed

lemma enumerate_problems:
  "concat (map (\<lambda>(k, r). f k r) (List.enumerate n rs)) = [] \<Longrightarrow> r \<in> set rs \<Longrightarrow> \<exists>k. f k r = []"
  by (induction rs arbitrary: n) auto

text \<open>A lone anonymous request can depend on nothing.\<close>

lemma no_refs_no_edges:
  "cap_request_problems k [] multi r = [] \<Longrightarrow> request_edges r = []"
  by (cases "cr_condition r"; cases "cr_depends_on r"; cases "cr_bindings r")
     (auto simp: cap_request_problems_def request_edges_def binding_problems_def condition_problems_def split: if_splits)

lemma valid_intent_order:
  assumes "intent_problems i = []"
  shows "distinct (plan_order (it_requests i)) \<and> acyclic (dep_rel (level_graph (it_requests i)))"
proof -
  let ?rs = "it_requests i"
  obtain refs dups where c: "collect_refs [] ?rs = (refs, dups)" by fastforce
  have p: "dups = []" "concat (map (\<lambda>(k, r). cap_request_problems k refs (length ?rs > 1) r) (List.enumerate 0 ?rs)) = []"
    "find_cycle (cycle_graph ?rs) = None"
    using assms c by (auto simp: intent_problems_def Let_def split: option.splits)
  have s: "distinct (filter (\<lambda>x. x \<noteq> []) (map cr_ref ?rs))" "set refs = set (filter (\<lambda>x. x \<noteq> []) (map cr_ref ?rs))"
    using collect_refs_sound [of "[]" ?rs refs] c p(1) by auto
  show ?thesis
  proof (cases "list_all (\<lambda>r. cr_ref r \<noteq> []) ?rs")
    case True
    have "filter (\<lambda>x. x \<noteq> []) (map cr_ref ?rs) = map cr_ref ?rs"
      using True by (simp add: list_all_iff filter_id_conv)
    then have "distinct (plan_order ?rs)" using s(1) plan_order_named [OF True, of 0] by (simp add: plan_order_def)
    moreover have "level_graph ?rs = cycle_graph ?rs"
      unfolding level_graph_def cycle_graph_def by (rule graphs_agree_from [OF True])
    ultimately show ?thesis using p(3) find_cycle_exact by simp
  next
    case False
    then obtain r where r: "r \<in> set ?rs" "cr_ref r = []" by (auto simp: list_all_iff)
    obtain k where k: "cap_request_problems k refs (length ?rs > 1) r = []"
      using enumerate_problems [OF p(2) r(1)] by blast
    then have "\<not> length ?rs > 1" using r(2) by (simp add: cap_request_problems_def split: if_splits)
    then have one: "?rs = [r]" using r(1) by (cases ?rs) auto
    then have "refs = []" using s(2) r(2) by simp
    then have "request_edges r = []" using k no_refs_no_edges by simp
    then have "dep_rel (level_graph ?rs) = {}"
      using one by (auto simp: dep_rel_def level_graph_def edges_of_def enumerate_eq_zip)
    then show ?thesis using one by (simp add: plan_order_def acyclic_def enumerate_eq_zip)
  qed
qed

section \<open>Properties\<close>

text \<open>C21. The search for a cycle is exact: with its bound on the depth it reports a ref exactly when the
  dependencies of the named requests have a cycle.\<close>

theorem find_cycle_is_exact:
  "find_cycle g = None \<longleftrightarrow> acyclic (dep_rel g)"
  by (rule find_cycle_exact)

lemma levelise_valid:
  assumes "intent_problems i = []"
  obtains ls where "levelise (it_requests i) = Inr ls" "distinct (concat ls)"
    "set (concat ls) = set (plan_order (it_requests i))"
    "\<And>k x d. k < length ls \<Longrightarrow> x \<in> set (ls ! k) \<Longrightarrow> d \<in> set (edges_of (level_graph (it_requests i)) x) \<Longrightarrow>
       d \<in> set (plan_order (it_requests i)) \<Longrightarrow> \<exists>j < k. d \<in> set (ls ! j)"
    "\<And>k x. k < length ls \<Longrightarrow> x \<in> set (ls ! k) \<Longrightarrow> 0 < k \<Longrightarrow>
       \<exists>d \<in> set (edges_of (level_graph (it_requests i)) x). d \<in> set (ls ! (k - 1))"
proof -
  let ?g = "level_graph (it_requests i)" and ?o = "plan_order (it_requests i)"
  have v: "distinct ?o" "acyclic (dep_rel ?g)" using valid_intent_order [OF assms] by auto
  have known: "\<forall>x. known ?g x \<longleftrightarrow> x \<in> set ?o" using level_graph_known by blast
  have "levelise (it_requests i) \<noteq> Inl e" for e
    using level_loop_stuck [OF known v(1), of "[]" e] v(2) by (auto simp: levelise_def)
  then obtain ls where ls: "level_loop ?g ?o [] = Inr ls" by (cases "level_loop ?g ?o []") (auto simp: levelise_def)
  have ok: "levels_ok ?g ?o [] ls" by (rule level_loop_ok [OF v(1) _ _ ls]) simp_all
  have early: "\<exists>j < k. d \<in> set (ls ! j)"
    if "k < length ls" "x \<in> set (ls ! k)" "d \<in> set (edges_of ?g x)" "d \<in> set ?o" for k x d
    using levels_early [OF ok that(1-3)] that(4) known by simp
  have late: "\<exists>d \<in> set (edges_of ?g x). d \<in> set (ls ! (k - 1))"
    if "k < length ls" "x \<in> set (ls ! k)" "0 < k" for k x
    using levels_late [OF ok v(1), of "k - 1" x] that by simp
  have "levelise (it_requests i) = Inr ls" using ls by (simp add: levelise_def)
  then show thesis using that levels_partition [OF ok v(1)] early late by simp
qed

text \<open>C20. The levels of a validated intent exist and are the earliest possible: every ref is in exactly
  one level, after everything it depends on, and a ref of a later level depends on one of the level
  before; so the planner never reports a cycle that validation did not.\<close>

theorem valid_intents_are_levelled:
  assumes "intent_problems i = []"
  shows "(case levelise (it_requests i) of
      Inl e \<Rightarrow> False
    | Inr ls \<Rightarrow> distinct (concat ls) \<and> set (concat ls) = set (plan_order (it_requests i))
        \<and> (\<forall>k < length ls. \<forall>x \<in> set (ls ! k).
             (\<forall>d \<in> set (edges_of (level_graph (it_requests i)) x).
                d \<in> set (plan_order (it_requests i)) \<longrightarrow> (\<exists>j < k. d \<in> set (ls ! j)))
             \<and> (0 < k \<longrightarrow> (\<exists>d \<in> set (edges_of (level_graph (it_requests i)) x). d \<in> set (ls ! (k - 1))))))"
proof -
  obtain ls where ls: "levelise (it_requests i) = Inr ls" "distinct (concat ls)"
    "set (concat ls) = set (plan_order (it_requests i))"
    "\<And>k x d. k < length ls \<Longrightarrow> x \<in> set (ls ! k) \<Longrightarrow> d \<in> set (edges_of (level_graph (it_requests i)) x) \<Longrightarrow>
       d \<in> set (plan_order (it_requests i)) \<Longrightarrow> \<exists>j < k. d \<in> set (ls ! j)"
    "\<And>k x. k < length ls \<Longrightarrow> x \<in> set (ls ! k) \<Longrightarrow> 0 < k \<Longrightarrow>
       \<exists>d \<in> set (edges_of (level_graph (it_requests i)) x). d \<in> set (ls ! (k - 1))"
    using levelise_valid [OF assms] by metis
  show ?thesis unfolding ls(1) sum.case using ls(2-5) by blast
qed

definition ask_for :: "string \<Rightarrow> string list \<Rightarrow> int cap_request" where
  "ask_for ref deps = \<lparr>cr_ref = ref, cr_capability = ''c'', cr_version = \<lparr>vc_exact = [], vc_major = - 1\<rparr>, cr_args = [],
     cr_depends_on = deps, cr_bindings = [], cr_condition = None, cr_fallback = False, cr_optional = False,
     cr_prefer = []\<rparr>"

definition three_requests :: "int intent" where
  "three_requests = \<lparr>it_actor = ''s'', it_requests = [ask_for ''b'' [''a''], ask_for ''a'' [], ask_for ''c'' []],
     it_deadline = None, it_budget = default_budget\<rparr>"

theorem valid_intents_are_levelled_witness:
  "intent_problems three_requests = []
   \<and> levelise (it_requests three_requests) = Inr [[''a'', ''c''], [''b'']]
   \<and> set (concat [[''a'', ''c''], [''b'']]) = set (plan_order (it_requests three_requests))"
proof -
  have v: "intent_problems three_requests = []" by code_simp
  have l: "levelise (it_requests three_requests) = Inr [[''a'', ''c''], [''b'']]" by code_simp
  show ?thesis using valid_intents_are_levelled [OF v] unfolding l by (simp only: sum.case v l simp_thms)
qed

end
