(* ===== verification/ToolPlanner.thy ===== *)
theory ToolPlanner
  imports ToolPlan
begin

text \<open>
  The planner (\<^verbatim>\<open>Planner.Plan\<close> of \<^verbatim>\<open>packages/go/toolruntime/plan.go\<close>): each request resolved to a
  step, the steps put in levels, the levels assembled into a tree.
\<close>

section \<open>One request\<close>

datatype plan_error = Intent_Invalid "intent_problem list" | Unresolvable string resolve_error
  | Static_Input descriptor validate_error | Fallback_Irreversible string | Plan_Cycle "string list"

text \<open>What can be checked before any argument is bound.\<close>

definition check_static :: "'f float_ops \<Rightarrow> 'f step_info \<Rightarrow> validate_error option" where
  "check_static fo s =
     (case find (\<lambda>b. input_spec (si_contract s) (bd_to_arg b) = None) (si_bindings s) of
        Some b \<Rightarrow> Some (Unknown_Field (bd_to_arg b))
      | None \<Rightarrow>
          (case find (\<lambda>(k, v). case input_spec (si_contract s) k of None \<Rightarrow> True | Some f \<Rightarrow> field_check fo f v \<noteq> None)
                  (si_args s) of
             Some (k, v) \<Rightarrow>
               Some (case input_spec (si_contract s) k of
                       None \<Rightarrow> Unknown_Field k | Some f \<Rightarrow> Bad_Field (fs_name f) (the (field_check fo f v)))
           | None \<Rightarrow>
               (case find (\<lambda>f. \<not> (\<not> fs_required f \<or> fs_has_default f) \<and> map_of (si_args s) (fs_name f) = None
                               \<and> fs_name f \<notin> set (map bd_to_arg (si_bindings s))) (ct_input (si_contract s)) of
                  Some f \<Rightarrow> Some (Missing_Field (fs_name f))
                | None \<Rightarrow> None)))"

definition invoke_info :: "string \<Rightarrow> 'f cap_request \<Rightarrow> string \<Rightarrow> 'f registration \<Rightarrow> 'f step_info" where
  "invoke_info ref q sid g =
     \<lparr>si_id = sid, si_ref = ref, si_capability = cr_capability q, si_descriptor = reg_descriptor g,
      si_contract = rg_contract g, si_args = cr_args q, si_bindings = cr_bindings q, si_optional = cr_optional q,
      si_compensable = ct_compensable (rg_contract g), si_effect = ct_effect (rg_contract g)\<rparr>"

definition zero_contract :: "'f contract" where
  "zero_contract =
     \<lparr>ct_descriptor = ([], []), ct_capabilities = [], ct_owner = [], ct_effect = Effect_Read, ct_input = [],
      ct_output = [], ct_allow_extra = False, ct_timeout = 0,
      ct_retry = \<lparr>rs_max_attempts = 0, rs_initial_backoff = 0, rs_max_backoff = 0, rs_multiplier = 0, rs_jitter = 0,
                  rs_no_backoff = False, rs_retry_on = []\<rparr>,
      ct_budget = \<lparr>bg_wall_clock = 0, bg_input_bytes = 0, bg_output_bytes = 0, bg_max_attempts = 0, bg_slots = 0\<rparr>,
      ct_permissions = [], ct_consent = [], ct_concurrency = 0, ct_streaming = False, ct_compensable = False\<rparr>"

text \<open>A composite node; what its constructor leaves out is zero.\<close>

definition node_info :: "string \<Rightarrow> string \<Rightarrow> string \<Rightarrow> bool \<Rightarrow> bool \<Rightarrow> effect_class \<Rightarrow> 'f step_info" where
  "node_info sid ref cap opt cmp eff =
     \<lparr>si_id = sid, si_ref = ref, si_capability = cap, si_descriptor = ([], []), si_contract = zero_contract,
      si_args = [], si_bindings = [], si_optional = opt, si_compensable = cmp, si_effect = eff\<rparr>"

text \<open>The loop over the candidates.\<close>

fun invoke_steps :: "'f float_ops \<Rightarrow> string \<Rightarrow> 'f cap_request \<Rightarrow> bool \<Rightarrow> nat \<Rightarrow> ('f registration \<times> nat) list
    \<Rightarrow> plan_error + 'f step list" where
  "invoke_steps fo ref q multi k [] = Inr []"
| "invoke_steps fo ref q multi k ((g, rank) # cs) =
     (let i = invoke_info ref q (if multi then ref @ ''#'' @ itoa k else ref) g in
      case check_static fo i of
        Some e \<Rightarrow> Inl (Static_Input (reg_descriptor g) e)
      | None \<Rightarrow>
          (case invoke_steps fo ref q multi (k + 1) cs of
             Inl e \<Rightarrow> Inl e
           | Inr ss \<Rightarrow> Inr (Step Step_Invoke i None [] # ss)))"

definition discovery_request :: "'f cap_request \<Rightarrow> request" where
  "discovery_request q =
     \<lparr>dr_capability = cr_capability q, dr_version = cr_version q, dr_prefer = cr_prefer q,
      dr_require_healthy = False,
      dr_max_candidates = (if cr_fallback q then int default_max_candidates else 1), dr_exclude = []\<rparr>"

definition conditional_step :: "string \<Rightarrow> 'f cap_request \<Rightarrow> 'f step \<Rightarrow> 'f step" where
  "conditional_step ref q s =
     (case cr_condition q of
        None \<Rightarrow> s
      | Some c \<Rightarrow>
          Step Step_Conditional
            (node_info (ref @ ''?'') ref (cr_capability q) (cr_optional q) (si_compensable (st_info s)) (si_effect (st_info s)))
            (Some c) [s])"

definition plan_request :: "'f float_ops \<Rightarrow> 'f registry \<Rightarrow> string \<Rightarrow> 'f cap_request \<Rightarrow> plan_error + 'f step" where
  "plan_request fo r ref q =
     (case resolve (discovery_request q) r of
        Inl e \<Rightarrow> Inl (Unresolvable ref e)
      | Inr cs \<Rightarrow>
          (case invoke_steps fo ref q (length cs > 1) 0 cs of
             Inl e \<Rightarrow> Inl e
           | Inr [] \<Rightarrow> Inl (Unresolvable ref No_Healthy_Provider)
           | Inr (s # ss) \<Rightarrow>
               if ss \<noteq> []
               then (if si_effect (st_info s) = Effect_Irreversible then Inl (Fallback_Irreversible ref)
                     else Inr (conditional_step ref q
                            (Step Step_Fallback
                               (node_info ref ref (cr_capability q) (cr_optional q)
                                  (list_all (\<lambda>s. si_compensable (st_info s)) (s # ss)) (si_effect (st_info s)))
                               None (s # ss))))
               else Inr (conditional_step ref q s)))"

section \<open>The plan\<close>

fun plan_requests :: "'f float_ops \<Rightarrow> 'f registry \<Rightarrow> nat \<Rightarrow> 'f cap_request list
    \<Rightarrow> plan_error + (string \<times> 'f step) list" where
  "plan_requests fo r k [] = Inr []"
| "plan_requests fo r k (q # qs) =
     (case plan_request fo r (default_ref k q) q of
        Inl e \<Rightarrow> Inl e
      | Inr s \<Rightarrow>
          (case plan_requests fo r (k + 1) qs of
             Inl e \<Rightarrow> Inl e
           | Inr ss \<Rightarrow> Inr ((default_ref k q, s) # ss)))"

definition shape_of :: "'f step \<Rightarrow> string" where
  "shape_of s =
     (case st_kind s of
        Step_Fallback \<Rightarrow> ''fallback'' | Step_Conditional \<Rightarrow> ''conditional'' | Step_Parallel \<Rightarrow> ''parallel''
      | Step_Sequence \<Rightarrow> ''sequential'' | Step_Invoke \<Rightarrow> ''single'')"

definition group_of :: "(string \<Rightarrow> 'f step) \<Rightarrow> nat \<Rightarrow> string list \<Rightarrow> 'f step" where
  "group_of resolved i level =
     (case level of
        [x] \<Rightarrow> resolved x
      | _ \<Rightarrow> Step Step_Parallel (node_info (''level'' @ itoa i) [] [] False False Effect_Read) None (map resolved level))"

definition assemble :: "string list list \<Rightarrow> (string \<Rightarrow> 'f step) \<Rightarrow> 'f step \<times> string" where
  "assemble levels resolved =
     (if length levels = 1 \<and> length (hd levels) = 1
      then (let s = resolved (hd (hd levels)) in (s, shape_of s))
      else (let groups = map (\<lambda>(i, level). group_of resolved i level) (List.enumerate 0 levels);
                parallel = list_ex (\<lambda>level. length level \<noteq> 1) levels
            in if length groups = 1 then (hd groups, ''parallel'')
               else (Step Step_Sequence (node_info ''root'' [] [] False False Effect_Read) None groups,
                     if parallel then ''mixed'' else ''sequential'')))"

record 'f plan =
  pn_actor :: string
  pn_root :: "'f step"
  pn_deadline :: instant
  pn_budget :: budget
  pn_built_at :: instant
  pn_shape :: string

record 'f planner =
  pl_registry :: "'f registry"
  pl_budget :: budget
  pl_ttl :: duration

definition make_plan :: "'f float_ops \<Rightarrow> 'f planner \<Rightarrow> instant \<Rightarrow> 'f intent \<Rightarrow> plan_error + 'f plan" where
  "make_plan fo p now i =
     (if intent_problems i \<noteq> [] then Inl (Intent_Invalid (intent_problems i))
      else
        (case plan_requests fo (pl_registry p) 0 (it_requests i) of
           Inl e \<Rightarrow> Inl e
         | Inr steps \<Rightarrow>
             (case levelise (it_requests i) of
                Inl refs \<Rightarrow> Inl (Plan_Cycle refs)
              | Inr levels \<Rightarrow>
                  (let (root, shape) = assemble levels (\<lambda>x. the (map_of steps x));
                       b = tighten (pl_budget p) (it_budget i);
                       ttl = (if bg_wall_clock b > 0 \<and> bg_wall_clock b < pl_ttl p then bg_wall_clock b else pl_ttl p)
                   in Inr \<lparr>pn_actor = it_actor i, pn_root = root,
                           pn_deadline = (case it_deadline i of Some d \<Rightarrow> d | None \<Rightarrow> now + ttl),
                           pn_budget = b, pn_built_at = now, pn_shape = shape\<rparr>))))"

section \<open>The leaves of a planned request\<close>

lemma leaf_infos_simps:
  "leaf_infos (Step k i c ss) = (if k = Step_Invoke then [i] else concat (map leaf_infos ss))"
  by (simp add: leaf_infos_def [abs_def] map_concat comp_def)

text \<open>What every leaf of request \<open>q\<close> under \<open>ref\<close> is: an invocation of a registration that serves it.\<close>

definition pinned :: "'f float_ops \<Rightarrow> 'f registry \<Rightarrow> string \<Rightarrow> 'f cap_request \<Rightarrow> 'f step_info \<Rightarrow> bool" where
  "pinned fo r ref q i \<longleftrightarrow>
     (\<exists>g sid. serves r (discovery_request q) g \<and> i = invoke_info ref q sid g \<and> check_static fo i = None)"

lemma invoke_steps_pinned:
  "invoke_steps fo ref q multi k cs = Inr ss \<Longrightarrow> list_all (\<lambda>(g, n). serves r (discovery_request q) g) cs \<Longrightarrow>
     length ss = length cs \<and> list_all (\<lambda>s. leaf_infos s = [st_info s] \<and> pinned fo r ref q (st_info s)) ss"
proof (induction cs arbitrary: k ss)
  case Nil
  then show ?case by simp
next
  case (Cons c cs)
  obtain g n where c: "c = (g, n)" by (cases c)
  let ?i = "invoke_info ref q (if multi then ref @ ''#'' @ itoa k else ref) g"
  have st: "check_static fo ?i = None" using Cons.prems c by (auto simp: Let_def split: option.splits)
  then obtain ss' where ss: "invoke_steps fo ref q multi (k + 1) cs = Inr ss'" "ss = Step Step_Invoke ?i None [] # ss'"
    using Cons.prems c by (auto simp: Let_def split: sum.splits)
  have "pinned fo r ref q ?i" using Cons.prems(2) c st by (auto simp: pinned_def)
  then show ?case using Cons.IH [OF ss(1)] Cons.prems(2) ss(2) by (simp add: leaf_infos_simps)
qed

lemma leaf_infos_conditional: "leaf_infos (conditional_step ref q s) = leaf_infos s"
  by (simp add: conditional_step_def leaf_infos_simps split: option.split)

text \<open>On any registry in a good state a resolution that answers, answers servers.\<close>

lemma resolve_serves:
  assumes I: "registry_inv fo r" and a: "resolve q r = Inr cs"
  shows "cs \<noteq> [] \<and> list_all (\<lambda>(g, n). serves r q g) cs"
proof -
  have q: "request_problems q = []" using a by (auto simp: resolve_def split: if_splits)
  have "kept_candidates q r \<noteq> []"
    using a by (auto simp: resolve_alt [OF q] Let_def split: if_splits)
  from resolve_found [OF I q this] a show ?thesis by auto
qed

lemma plan_request_pinned:
  assumes I: "registry_inv fo r" and a: "plan_request fo r ref q = Inr s"
  shows "leaf_infos s \<noteq> [] \<and> list_all (pinned fo r ref q) (leaf_infos s)"
proof -
  obtain cs where cs: "resolve (discovery_request q) r = Inr cs"
    using a by (auto simp: plan_request_def split: sum.splits)
  obtain ss where ss: "invoke_steps fo ref q (length cs > 1) 0 cs = Inr ss"
    using a cs by (auto simp: plan_request_def split: sum.splits)
  have p: "length ss = length cs" "list_all (\<lambda>s. leaf_infos s = [st_info s] \<and> pinned fo r ref q (st_info s)) ss"
    using invoke_steps_pinned [OF ss] resolve_serves [OF I cs] by blast+
  obtain t ts where t: "ss = t # ts" using a cs ss by (cases ss) (auto simp: plan_request_def)
  have "concat (map leaf_infos us) = map st_info us" if "list_all (\<lambda>s. leaf_infos s = [st_info s] \<and> pinned fo r ref q (st_info s)) us" for us
    using that by (induction us) auto
  then have all: "concat (map leaf_infos ss) = map st_info ss" using p(2) by blast
  have "leaf_infos s = map st_info ss"
  proof (cases "ts = []")
    case True
    then have "s = conditional_step ref q t" using a cs ss t by (simp add: plan_request_def)
    then show ?thesis using p(2) t True by (simp add: leaf_infos_conditional)
  next
    case False
    then obtain i where "s = conditional_step ref q (Step Step_Fallback i None ss)"
      using a cs ss t by (auto simp: plan_request_def split: if_splits)
    then show ?thesis using all by (simp add: leaf_infos_conditional) (simp add: leaf_infos_simps)
  qed
  then show ?thesis using p(2) t by (auto simp: list_all_iff)
qed

section \<open>The leaves of a plan\<close>

definition level_infos :: "(string \<Rightarrow> 'f step) \<Rightarrow> string list \<Rightarrow> 'f step_info list" where
  "level_infos resolved level = concat (map (\<lambda>x. leaf_infos (resolved x)) level)"

lemma group_infos: "leaf_infos (group_of resolved i level) = level_infos resolved level"
  by (auto simp: group_of_def level_infos_def leaf_infos_simps comp_def split: list.split)

lemma groups_infos:
  "concat (map leaf_infos (map (\<lambda>(i, level). group_of resolved i level) (List.enumerate k levels)))
     = concat (map (level_infos resolved) levels)"
  by (induction levels arbitrary: k) (simp_all add: group_infos)

lemma assemble_infos: "leaf_infos (fst (assemble levels resolved)) = concat (map (level_infos resolved) levels)"
proof (cases "length levels = 1 \<and> length (hd levels) = 1")
  case True
  then obtain x where "levels = [[x]]"
    by (cases levels; cases "hd levels"; auto simp: length_Suc_conv)
  then show ?thesis by (simp add: assemble_def Let_def level_infos_def)
next
  case False
  let ?gs = "map (\<lambda>(i, level). group_of resolved i level) (List.enumerate 0 levels)"
  show ?thesis
  proof (cases "length ?gs = 1")
    case True
    then obtain g where g: "?gs = [g]" by (auto simp: length_Suc_conv)
    have "leaf_infos (fst (assemble levels resolved)) = leaf_infos (hd ?gs)"
      using False True by (simp add: assemble_def Let_def)
    also have "\<dots> = concat (map leaf_infos ?gs)" unfolding g by simp
    finally show ?thesis unfolding groups_infos .
  next
    case many: False
    have "leaf_infos (fst (assemble levels resolved)) = concat (map leaf_infos ?gs)"
      using False many by (simp add: assemble_def Let_def leaf_infos_simps del: map_map)
    then show ?thesis unfolding groups_infos .
  qed
qed

lemma plan_requests_steps:
  "plan_requests fo r k qs = Inr ss \<Longrightarrow>
     map fst ss = map (\<lambda>(i, q). default_ref i q) (List.enumerate k qs)
     \<and> list_all2 (\<lambda>(ref, s) q. plan_request fo r ref q = Inr s) ss qs"
proof (induction qs arbitrary: k ss)
  case Nil
  then show ?case by simp
next
  case (Cons q qs)
  obtain s where s: "plan_request fo r (default_ref k q) q = Inr s"
    using Cons.prems by (auto split: sum.splits)
  then obtain ss' where "plan_requests fo r (k + 1) qs = Inr ss'" "ss = (default_ref k q, s) # ss'"
    using Cons.prems by (auto split: sum.splits)
  then show ?case using Cons.IH [of "k + 1" ss'] s by simp
qed

text \<open>What a plan is made of.\<close>

lemma make_plan_parts:
  assumes "make_plan fo p now i = Inr pl"
  obtains steps levels where "intent_problems i = []" "plan_requests fo (pl_registry p) 0 (it_requests i) = Inr steps"
    "levelise (it_requests i) = Inr levels"
    "leaf_infos (pn_root pl) = concat (map (level_infos (\<lambda>x. the (map_of steps x))) levels)"
proof -
  obtain steps levels where s: "plan_requests fo (pl_registry p) 0 (it_requests i) = Inr steps"
    "levelise (it_requests i) = Inr levels" "intent_problems i = []"
    using assms by (auto simp: make_plan_def split: if_splits sum.splits)
  have "pn_root pl = fst (assemble levels (\<lambda>x. the (map_of steps x)))"
    using assms s by (auto simp: make_plan_def Let_def split: prod.splits)
  then show thesis using that s assemble_infos by metis
qed

lemma planned_step_leaves:
  assumes I: "registry_inv fo r" and p: "plan_requests fo r 0 qs = Inr steps" and d: "distinct (plan_order qs)"
    and x: "x \<in> set (plan_order qs)"
  shows "leaf_infos (the (map_of steps x)) \<noteq> []
      \<and> (\<exists>k < length qs. x = default_ref k (qs ! k)
           \<and> list_all (pinned fo r x (qs ! k)) (leaf_infos (the (map_of steps x))))"
proof -
  have s: "map fst steps = plan_order qs" "list_all2 (\<lambda>(ref, s) q. plan_request fo r ref q = Inr s) steps qs"
    using plan_requests_steps [OF p] by (simp_all add: plan_order_def)
  obtain k where k: "k < length steps" "fst (steps ! k) = x"
    using x s(1) by (metis in_set_conv_nth length_map nth_map)
  have m: "map_of steps x = Some (snd (steps ! k))"
    using k s(1) d by (metis map_of_eq_Some_iff nth_mem prod.collapse)
  have q: "plan_request fo r x (qs ! k) = Inr (snd (steps ! k))" "k < length qs"
    using s(2) k list_all2_nthD [OF s(2) k(1)] list_all2_lengthD [OF s(2)] by (auto simp: case_prod_beta)
  have "x = default_ref k (qs ! k)"
    using k(2) arg_cong [OF s(1), of "\<lambda>xs. xs ! k"] k(1) q(2) by (simp add: plan_order_def nth_enumerate_eq)
  then show ?thesis using m plan_request_pinned [OF I q(1)] q(2) by auto
qed

lemma level_refs:
  assumes "registry_inv fo r" "plan_requests fo r 0 qs = Inr steps" "distinct (plan_order qs)"
    and "set level \<subseteq> set (plan_order qs)"
  shows "si_ref ` set (level_infos (\<lambda>x. the (map_of steps x)) level) = set level"
  using assms(4)
proof (induction level)
  case Nil
  then show ?case by (simp add: level_infos_def)
next
  case (Cons x level)
  obtain q where q: "leaf_infos (the (map_of steps x)) \<noteq> []"
      "list_all (pinned fo r x q) (leaf_infos (the (map_of steps x)))"
    using planned_step_leaves [OF assms(1-3), of x] Cons.prems by auto
  then have "si_ref ` set (leaf_infos (the (map_of steps x))) = {x}"
    by (cases "leaf_infos (the (map_of steps x))") (auto simp: pinned_def invoke_info_def list_all_iff)
  then show ?case using Cons by (simp add: level_infos_def image_Un)
qed

lemma levels_refs:
  assumes "registry_inv fo r" "plan_requests fo r 0 qs = Inr steps" "distinct (plan_order qs)"
    and "set (concat ls) \<subseteq> set (plan_order qs)"
  shows "si_ref ` set (concat (map (level_infos (\<lambda>x. the (map_of steps x))) ls)) = set (concat ls)"
  using assms(4) by (induction ls) (simp_all add: image_Un level_refs [OF assms(1-3)])

section \<open>Properties\<close>

text \<open>C19. A plan calls what serves: every leaf of a plan made on a reachable registry is an invocation, for
  one of the requests, of a registration that provides its capability, satisfies its version and
  may be dispatched, with its static arguments checked; and every request has a leaf.\<close>

theorem plan_pins_what_serves:
  assumes "list_all (\<lambda>a. iterates (fst a)) ops"
    and "pl_registry p = run_ops (registry_step fo) (new_registry mt) ops"
    and "make_plan fo p now i = Inr pl"
  shows "set (map si_ref (leaf_infos (pn_root pl))) = set (plan_order (it_requests i))
    \<and> list_all (\<lambda>s. \<exists>k g. k < length (it_requests i) \<and> si_ref s = plan_order (it_requests i) ! k
          \<and> serves (pl_registry p) (discovery_request (it_requests i ! k)) g
          \<and> s = invoke_info (si_ref s) (it_requests i ! k) (si_id s) g \<and> check_static fo s = None)
        (leaf_infos (pn_root pl))"
proof -
  let ?qs = "it_requests i" and ?r = "pl_registry p"
  have I: "registry_inv fo ?r" unfolding assms(2) by (rule registry_run_inv [OF assms(1)])
  obtain steps levels where s: "intent_problems i = []" "plan_requests fo ?r 0 ?qs = Inr steps"
    "levelise ?qs = Inr levels"
    "leaf_infos (pn_root pl) = concat (map (level_infos (\<lambda>x. the (map_of steps x))) levels)"
    using make_plan_parts [OF assms(3)] by metis
  have d: "distinct (plan_order ?qs)" using valid_intent_order [OF s(1)] by simp
  have all: "set (concat levels) = set (plan_order ?qs)" by (rule levelise_valid [OF s(1)]) (simp add: s(3))
  have one: "\<exists>k g. k < length ?qs \<and> si_ref t = plan_order ?qs ! k \<and> serves ?r (discovery_request (?qs ! k)) g
      \<and> t = invoke_info (si_ref t) (?qs ! k) (si_id t) g \<and> check_static fo t = None"
    if t: "t \<in> set (leaf_infos (pn_root pl))" for t
  proof -
    obtain x where x: "x \<in> set (plan_order ?qs)" "t \<in> set (leaf_infos (the (map_of steps x)))"
      using t all unfolding s(4) by (auto simp: level_infos_def)
    then obtain k where k: "k < length ?qs" "x = default_ref k (?qs ! k)" "pinned fo ?r x (?qs ! k) t"
      using planned_step_leaves [OF I s(2) d x(1)] by (auto simp: list_all_iff)
    have "plan_order ?qs ! k = x" using k by (simp add: plan_order_def nth_enumerate_eq)
    moreover obtain g sid where g: "serves ?r (discovery_request (?qs ! k)) g"
      "t = invoke_info x (?qs ! k) sid g" "check_static fo t = None"
      using k(3) by (auto simp: pinned_def)
    moreover have "si_ref t = x" "si_id t = sid" using g(2) by (simp_all add: invoke_info_def)
    ultimately show ?thesis using k(1) by metis
  qed
  have "set (map si_ref (leaf_infos (pn_root pl))) = set (plan_order ?qs)"
    using levels_refs [OF I s(2) d, of levels] all unfolding s(4) by simp
  then show ?thesis using one by (simp add: list_all_iff)
qed

text \<open>Dependencies come first: the leaves of a plan can be cut in two so that everything a request
  depends on is before the cut and the request itself after it.\<close>

theorem plan_puts_dependencies_first:
  assumes "list_all (\<lambda>a. iterates (fst a)) ops"
    and "pl_registry p = run_ops (registry_step fo) (new_registry mt) ops"
    and "make_plan fo p now i = Inr pl"
    and "d \<in> set (edges_of (level_graph (it_requests i)) x)"
    and "x \<in> set (plan_order (it_requests i))" "d \<in> set (plan_order (it_requests i))"
  shows "\<exists>pre post. map si_ref (leaf_infos (pn_root pl)) = pre @ post \<and> d \<in> set pre \<and> x \<in> set post
           \<and> x \<notin> set pre \<and> d \<notin> set post"
proof -
  let ?qs = "it_requests i" and ?r = "pl_registry p"
  have I: "registry_inv fo ?r" unfolding assms(2) by (rule registry_run_inv [OF assms(1)])
  obtain steps ls where s: "intent_problems i = []" "plan_requests fo ?r 0 ?qs = Inr steps" "levelise ?qs = Inr ls"
    "leaf_infos (pn_root pl) = concat (map (level_infos (\<lambda>x. the (map_of steps x))) ls)"
    using make_plan_parts [OF assms(3)] by metis
  have o: "distinct (plan_order ?qs)" using valid_intent_order [OF s(1)] by simp
  obtain ls' where "levelise ?qs = Inr ls'" "distinct (concat ls')" "set (concat ls') = set (plan_order ?qs)"
    "\<And>k x d. k < length ls' \<Longrightarrow> x \<in> set (ls' ! k) \<Longrightarrow> d \<in> set (edges_of (level_graph ?qs) x) \<Longrightarrow>
       d \<in> set (plan_order ?qs) \<Longrightarrow> \<exists>j < k. d \<in> set (ls' ! j)"
    using levelise_valid [OF s(1)] by metis
  then have l: "distinct (concat ls)" "set (concat ls) = set (plan_order ?qs)"
    "\<And>k x d. k < length ls \<Longrightarrow> x \<in> set (ls ! k) \<Longrightarrow> d \<in> set (edges_of (level_graph ?qs) x) \<Longrightarrow>
       d \<in> set (plan_order ?qs) \<Longrightarrow> \<exists>j < k. d \<in> set (ls ! j)"
    using s(3) by simp_all
  obtain k where k: "k < length ls" "x \<in> set (ls ! k)"
    using assms(5) l(2) by (metis (no_types, lifting) in_set_conv_nth UN_E set_concat)
  obtain j where j: "j < k" "d \<in> set (ls ! j)" using l(3) [OF k assms(4,6)] by blast
  define infos where "infos = (\<lambda>ls. concat (map (level_infos (\<lambda>x. the (map_of steps x))) ls))"
  have sub: "set (concat (take k ls)) \<subseteq> set (plan_order ?qs)" "set (concat (drop k ls)) \<subseteq> set (plan_order ?qs)"
    using l(2) by (auto dest: in_set_takeD in_set_dropD)
  have refs: "si_ref ` set (infos (take k ls)) = set (concat (take k ls))"
    "si_ref ` set (infos (drop k ls)) = set (concat (drop k ls))"
    unfolding infos_def by (rule levels_refs [OF I s(2) o sub(1)], rule levels_refs [OF I s(2) o sub(2)])
  have c: "concat ls = concat (take k ls) @ concat (drop k ls)"
    by (metis append_take_drop_id concat_append)
  have "drop k ls = ls ! k # drop (Suc k) ls" using k(1) by (rule Cons_nth_drop_Suc [symmetric])
  then have x: "x \<in> set (concat (drop k ls))" using k(2) by simp
  have "ls ! j \<in> set (take k ls)" using j(1) k(1) by (auto simp: in_set_conv_nth)
  then have d: "d \<in> set (concat (take k ls))" using j(2) by auto
  have "set (concat (take k ls)) \<inter> set (concat (drop k ls)) = {}" using l(1) unfolding c distinct_append by blast
  then have "x \<notin> set (concat (take k ls))" "d \<notin> set (concat (drop k ls))" using x d by blast+
  moreover have "leaf_infos (pn_root pl) = infos (take k ls) @ infos (drop k ls)"
    unfolding s(4) infos_def by (metis append_take_drop_id concat_append map_append)
  ultimately show ?thesis
    using x d refs by (intro exI [of _ "map si_ref (infos (take k ls))"] exI [of _ "map si_ref (infos (drop k ls))"]) simp
qed

definition plan_two_tools :: "int planner" where
  "plan_two_tools = \<lparr>pl_registry = run_ops (registry_step int_floats) (new_registry 0) two_tools,
     pl_budget = default_budget, pl_ttl = 5\<rparr>"

definition best_tool :: "int registration" where
  "best_tool = (tool_reg ''b'' ''1.0.0'' Life_Deprecated Health_Healthy)\<lparr>rg_registered_at := 2, rg_updated_at := 2,
     rg_health_change := 2\<rparr>"

lemma best_tool_found: "resolve ask (run_ops (registry_step int_floats) (new_registry 0) two_tools) = Inr [(best_tool, 0)]"
  by code_simp

lemma plan_ask_for:
  "plan_request int_floats (pl_registry plan_two_tools) x (ask_for y ds)
     = Inr (Step Step_Invoke (invoke_info x (ask_for y ds) x best_tool) None [])"
proof -
  have d: "discovery_request (ask_for y ds) = ask" by (simp add: discovery_request_def ask_for_def ask_def)
  have s: "check_static int_floats (invoke_info x (ask_for y ds) x best_tool) = None" by code_simp
  have c: "conditional_step x (ask_for y ds) s = s" for s by (simp add: conditional_step_def ask_for_def)
  show ?thesis by (simp add: plan_request_def d plan_two_tools_def best_tool_found s c)
qed

lemma three_requests_planned:
  obtains pl where "make_plan int_floats plan_two_tools 0 three_requests = Inr pl"
    "map si_ref (leaf_infos (pn_root pl)) = [''a'', ''c'', ''b'']" "pn_shape pl = ''mixed''"
proof -
  let ?n = "\<lambda>y ds. Step Step_Invoke (invoke_info y (ask_for y ds) y best_tool) None []"
  have v: "intent_problems three_requests = []" by code_simp
  have l: "levelise (it_requests three_requests) = Inr [[''a'', ''c''], [''b'']]" by code_simp
  have r: "default_ref k (ask_for (c # cs) ds) = c # cs" for k c cs ds by (simp add: default_ref_def ask_for_def)
  have s: "plan_requests int_floats (pl_registry plan_two_tools) 0 (it_requests three_requests)
      = Inr [(''b'', ?n ''b'' [''a'']), (''a'', ?n ''a'' []), (''c'', ?n ''c'' [])]"
    by (simp add: three_requests_def plan_ask_for r)
  have i: "itoa 0 = ''0''" by code_simp
  have a: "assemble [[''a'', ''c''], [''b'']] f
      = (Step Step_Sequence (node_info ''root'' [] [] False False Effect_Read) None
           [Step Step_Parallel (node_info ''level0'' [] [] False False Effect_Read) None [f ''a'', f ''c''], f ''b''],
         ''mixed'')" for f :: "string \<Rightarrow> int step"
    by (simp add: assemble_def group_of_def enumerate_eq_zip i)
  obtain pl where "make_plan int_floats plan_two_tools 0 three_requests = Inr pl"
    "pn_shape pl = ''mixed''"
    "leaf_infos (pn_root pl) = map (\<lambda>(y, ds). invoke_info y (ask_for y ds) y best_tool) [(''a'', []), (''c'', []), (''b'', [''a''])]"
    by (simp add: make_plan_def Let_def v l s a leaf_infos_simps)
  then show thesis using that by (simp add: invoke_info_def)
qed

theorem plan_pins_what_serves_witness:
  "\<exists>pl. make_plan int_floats plan_two_tools 0 three_requests = Inr pl \<and> pn_shape pl = ''mixed''
     \<and> leaf_infos (pn_root pl) \<noteq> []
     \<and> list_all (\<lambda>s. \<exists>k g. k < length (it_requests three_requests) \<and> si_ref s = plan_order (it_requests three_requests) ! k
          \<and> serves (pl_registry plan_two_tools) (discovery_request (it_requests three_requests ! k)) g
          \<and> s = invoke_info (si_ref s) (it_requests three_requests ! k) (si_id s) g \<and> check_static int_floats s = None)
        (leaf_infos (pn_root pl))"
proof -
  obtain pl where pl: "make_plan int_floats plan_two_tools 0 three_requests = Inr pl"
    "map si_ref (leaf_infos (pn_root pl)) = [''a'', ''c'', ''b'']" "pn_shape pl = ''mixed''"
    by (rule three_requests_planned)
  have r: "pl_registry plan_two_tools = run_ops (registry_step int_floats) (new_registry 0) two_tools"
    by (simp add: plan_two_tools_def)
  have "leaf_infos (pn_root pl) \<noteq> []" using pl(2) by auto
  then show ?thesis
    using plan_pins_what_serves [OF two_tools_iterate r pl(1), THEN conjunct2] pl(1,3) by (intro exI [of _ pl] conjI)
qed

theorem plan_puts_dependencies_first_witness:
  "\<exists>pl pre post. make_plan int_floats plan_two_tools 0 three_requests = Inr pl
     \<and> map si_ref (leaf_infos (pn_root pl)) = pre @ post \<and> ''a'' \<in> set pre \<and> ''b'' \<in> set post
     \<and> ''b'' \<notin> set pre \<and> ''a'' \<notin> set post"
proof -
  obtain pl where pl: "make_plan int_floats plan_two_tools 0 three_requests = Inr pl"
    by (rule three_requests_planned)
  have r: "pl_registry plan_two_tools = run_ops (registry_step int_floats) (new_registry 0) two_tools"
    by (simp add: plan_two_tools_def)
  have "''a'' \<in> set (edges_of (level_graph (it_requests three_requests)) ''b'')"
    "''b'' \<in> set (plan_order (it_requests three_requests))" "''a'' \<in> set (plan_order (it_requests three_requests))"
    by code_simp+
  then show ?thesis using plan_puts_dependencies_first [OF two_tools_iterate r pl] pl by metis
qed

text \<open>Only the first candidate of a fallback chain is asked whether it is irreversible: a chain whose
  second candidate is irreversible is planned, though the code says such a chain is refused.\<close>

definition irreversible_second :: "((descriptor list \<Rightarrow> descriptor list) \<times> int registry_op) list" where
  "irreversible_second =
     (let reg = (\<lambda>t e. \<lparr>rg_contract = count_contract\<lparr>ct_descriptor := (t, ''1.0.0''), ct_effect := e,
                      ct_retry := default_retry_spec\<lparr>rs_max_attempts := 1\<rparr>\<rparr>,
                   rg_tool = None, rg_lifecycle = Life_Active, rg_health = Health_Healthy, rg_priority = 0,
                   rg_registered_at = 0, rg_updated_at = 0, rg_health_change = 0, rg_executions = 0, rg_failures = 0\<rparr>)
      in [(\<lambda>xs. xs, Ry_Register 1 (reg ''a'' Effect_Read)), (\<lambda>xs. xs, Ry_Register 2 (reg ''b'' Effect_Irreversible))])"

theorem fallback_reaches_irreversible:
  "(let r = run_ops (registry_step int_floats) (new_registry 0) irreversible_second
    in map_sum (\<lambda>_. ()) (\<lambda>s. (st_kind s, map si_effect (leaf_infos s)))
         (plan_request int_floats r ''x'' (ask_for ''x'' []\<lparr>cr_fallback := True\<rparr>)))
     = Inr (Step_Fallback, [Effect_Read, Effect_Irreversible])"
  by code_simp

end
