(* ===== verification/ToolDispatcher.thy ===== *)
theory ToolDispatcher
  imports ToolPlan
begin

text \<open>
  The dispatcher that runs a plan (\<^verbatim>\<open>packages/go/toolruntime/dispatcher.go\<close>): a step relation on the
  plan's process tree and the shared plan state.  The children of a parallel step interleave at
  every point where they touch the state; what the scheduler and the executor answer to a call is
  any outcome.
\<close>

section \<open>State\<close>

datatype 'f outcome = Out_Error tool_error | Out_Done "'f arguments" | Out_Replayed "'f arguments"

record step_outcome =
  so_step :: string
  so_ref :: string
  so_err :: "tool_error option"
  so_skipped :: bool

text \<open>
  The plan state, with the journal of the plan; and for the statements the steps handed to the
  executor, those whose tools ran and succeeded and those that succeeded.
\<close>

record 'f dstate =
  ds_results :: "(string \<times> 'f arguments) list"
  ds_steps :: "step_outcome list"
  ds_journal :: "'f step_info list"
  ds_called :: "string list"
  ds_ran :: "'f step_info list"
  ds_succeeded :: "string list"

definition new_dstate :: "'f dstate" where
  "new_dstate = \<lparr>ds_results = [], ds_steps = [], ds_journal = [], ds_called = [], ds_ran = [], ds_succeeded = []\<rparr>"

definition put_result :: "string \<Rightarrow> 'f arguments \<Rightarrow> 'f dstate \<Rightarrow> 'f dstate" where
  "put_result ref out st = (if ref = [] then st else st\<lparr>ds_results := AList.update ref out (ds_results st)\<rparr>)"

definition add_outcome :: "'f step_info \<Rightarrow> tool_error option \<Rightarrow> bool \<Rightarrow> 'f dstate \<Rightarrow> 'f dstate" where
  "add_outcome i err skipped st =
     st\<lparr>ds_steps := ds_steps st @ [\<lparr>so_step = si_id i, so_ref = si_ref i, so_err = err, so_skipped = skipped\<rparr>]\<rparr>"

definition invariant_error :: tool_error where
  "invariant_error = \<lparr>te_is = [Err_Invariant], te_provider = None\<rparr>"

section \<open>Conditions and bindings\<close>

record 'f value_ops =
  vo_floats :: "'f float_ops"
  vo_text :: "'f \<Rightarrow> string"

definition condition_holds :: "'f value_ops \<Rightarrow> (string \<times> 'f arguments) list \<Rightarrow> 'f condition \<Rightarrow> bool" where
  "condition_holds vo results c =
     (case map_of results (cn_from_ref c) of
        None \<Rightarrow> cn_op c = Cond_Absent
      | Some res \<Rightarrow>
          (let v = map_of res (cn_field c) in
           case cn_op c of
             Cond_Exists \<Rightarrow> (case v of Some x \<Rightarrow> \<not> is_null x | None \<Rightarrow> False)
           | Cond_Absent \<Rightarrow> (case v of Some x \<Rightarrow> is_null x | None \<Rightarrow> True)
           | Cond_Equals \<Rightarrow> (case v of Some x \<Rightarrow> value_equal (vo_text vo) x (cn_value c) | None \<Rightarrow> False)
           | Cond_Not_Equals \<Rightarrow> (case v of Some x \<Rightarrow> \<not> value_equal (vo_text vo) x (cn_value c) | None \<Rightarrow> True)
           | Cond_Greater \<Rightarrow>
               (case v of
                  None \<Rightarrow> False
                | Some x \<Rightarrow> (case (value_flt (vo_floats vo) x, value_flt (vo_floats vo) (cn_value c)) of
                              (Some a, Some b) \<Rightarrow> fo_less (vo_floats vo) b a | _ \<Rightarrow> False))
           | Cond_Less \<Rightarrow>
               (case v of
                  None \<Rightarrow> False
                | Some x \<Rightarrow> (case (value_flt (vo_floats vo) x, value_flt (vo_floats vo) (cn_value c)) of
                              (Some a, Some b) \<Rightarrow> fo_less (vo_floats vo) a b | _ \<Rightarrow> False))))"

definition binding_before :: "binding \<Rightarrow> binding \<Rightarrow> bool" where
  "binding_before a b =
     (if bd_to_arg a \<noteq> bd_to_arg b then bd_to_arg a < bd_to_arg b else bd_from_ref a < bd_from_ref b)"

fun bind_loop :: "(string \<times> 'f arguments) list \<Rightarrow> binding list \<Rightarrow> 'f arguments \<Rightarrow> tool_error + 'f arguments" where
  "bind_loop results [] a = Inr a"
| "bind_loop results (b # bs) a =
     (case map_of results (bd_from_ref b) of
        None \<Rightarrow> if bd_required b then Inl invariant_error else bind_loop results bs a
      | Some src \<Rightarrow>
          (case map_of src (bd_from_field b) of
             None \<Rightarrow> if bd_required b then Inl invariant_error else bind_loop results bs a
           | Some v \<Rightarrow>
               if is_null v then (if bd_required b then Inl invariant_error else bind_loop results bs a)
               else bind_loop results bs (AList.update (bd_to_arg b) v a)))"

definition bind_args :: "'f step_info \<Rightarrow> 'f dstate \<Rightarrow> tool_error + 'f arguments" where
  "bind_args i st =
     (if si_bindings i = [] then Inr (si_args i)
      else bind_loop (ds_results st) (stable_sort binding_before (si_bindings i)) (si_args i))"

definition class_for :: "effect_class \<Rightarrow> string" where
  "class_for e = (if e = Effect_Read \<or> e = Effect_Irreversible then ''interactive'' else ''background'')"

section \<open>Processes\<close>

text \<open>
  What is left to run: a step, a call in the executor, a loop over children with the one running,
  parallel children, a fallback with the branch running; or the error returned.
\<close>

datatype 'f proc =
    P_Step "'f step"
  | P_Call "'f step_info"
  | P_Seq "'f proc" "'f step list"
  | P_Par "'f proc list"
  | P_Fall bool effect_class "'f proc" "'f step list"
  | P_Done "tool_error option"

definition forgiven :: "bool \<Rightarrow> tool_error \<Rightarrow> 'f proc" where
  "forgiven opt e = P_Done (if opt then None else Some e)"

text \<open>After \<^verbatim>\<open>Execute\<close>: the executor journals what it really ran, if that changes the world.\<close>

definition finish_call :: "'f step_info \<Rightarrow> 'f outcome \<Rightarrow> 'f dstate \<Rightarrow> 'f proc \<times> 'f dstate" where
  "finish_call i r st =
     (case r of
        Out_Error e \<Rightarrow> (forgiven (si_optional i) e, add_outcome i (Some e) False st)
      | Out_Done out \<Rightarrow>
          (P_Done None,
           put_result (si_ref i) out
             (add_outcome i None False
               (st\<lparr>ds_journal := (if mutating (si_effect i) then ds_journal st @ [i] else ds_journal st),
                   ds_ran := ds_ran st @ [i],
                   ds_succeeded := ds_succeeded st @ [si_id i]\<rparr>)))
      | Out_Replayed out \<Rightarrow>
          (P_Done None,
           put_result (si_ref i) out
             (add_outcome i None False (st\<lparr>ds_succeeded := ds_succeeded st @ [si_id i]\<rparr>))))"

text \<open>A branch of a fallback is run as an invocation that is not optional.\<close>

definition as_branch :: "'f step \<Rightarrow> 'f step" where
  "as_branch s = Step Step_Invoke ((st_info s)\<lparr>si_optional := False\<rparr>) (st_condition s) (st_children s)"

definition fallback_stops :: "effect_class \<Rightarrow> tool_error \<Rightarrow> bool" where
  "fallback_stops eff e =
     (mutating eff \<and> is_err e Err_Timeout \<or> is_err e Err_Cancelled \<or> is_err e Err_Closed)"

definition skip_leaves :: "'f step \<Rightarrow> 'f dstate \<Rightarrow> 'f dstate" where
  "skip_leaves s st = fold (\<lambda>i st. add_outcome i None True st) (leaf_infos s) st"

definition ends_badly :: "'f proc \<Rightarrow> bool" where
  "ends_badly p = (case p of P_Done (Some e) \<Rightarrow> True | _ \<Rightarrow> False)"

definition first_error :: "'f proc list \<Rightarrow> tool_error option" where
  "first_error ps =
     (case find ends_badly ps of
        Some (P_Done r) \<Rightarrow> r
      | _ \<Rightarrow> None)"

definition is_done :: "'f proc \<Rightarrow> bool" where
  "is_done p = (case p of P_Done _ \<Rightarrow> True | _ \<Rightarrow> False)"

inductive dstep :: "'f value_ops \<Rightarrow> 'f proc \<times> 'f dstate \<Rightarrow> 'f proc \<times> 'f dstate \<Rightarrow> bool" for vo where
  invoke_refused: "st_kind s = Step_Invoke \<Longrightarrow> bind_args (st_info s) st = Inl e \<Longrightarrow>
    dstep vo (P_Step s, st) (forgiven (si_optional (st_info s)) e, add_outcome (st_info s) (Some e) False st)"
| invoke_bound: "st_kind s = Step_Invoke \<Longrightarrow> bind_args (st_info s) st = Inr a \<Longrightarrow>
    dstep vo (P_Step s, st) (P_Call ((st_info s)\<lparr>si_args := a\<rparr>), st\<lparr>ds_called := ds_called st @ [si_id (st_info s)]\<rparr>)"
| call_ends: "dstep vo (P_Call i, st) (finish_call i r st)"
| sequence: "st_kind s = Step_Sequence \<Longrightarrow>
    dstep vo (P_Step s, st) (P_Seq (P_Done None) (st_children s), st)"
| seq_inner: "dstep vo (p, st) (p', st') \<Longrightarrow> dstep vo (P_Seq p cs, st) (P_Seq p' cs, st')"
| seq_next: "dstep vo (P_Seq (P_Done None) (c # cs), st) (P_Seq (P_Step c) cs, st)"
| seq_end: "dstep vo (P_Seq (P_Done None) [], st) (P_Done None, st)"
| seq_fails: "dstep vo (P_Seq (P_Done (Some e)) cs, st) (P_Done (Some e), st)"
| parallel: "st_kind s = Step_Parallel \<Longrightarrow> dstep vo (P_Step s, st) (P_Par (map P_Step (st_children s)), st)"
| par_inner: "i < length ps \<Longrightarrow> dstep vo (ps ! i, st) (p', st') \<Longrightarrow> dstep vo (P_Par ps, st) (P_Par (ps[i := p']), st')"
| par_end: "list_all is_done ps \<Longrightarrow> dstep vo (P_Par ps, st) (P_Done (first_error ps), st)"
| condition_missing: "st_kind s = Step_Conditional \<Longrightarrow> st_condition s = None \<Longrightarrow>
    dstep vo (P_Step s, st) (P_Done (Some invariant_error), st)"
| condition_false: "st_kind s = Step_Conditional \<Longrightarrow> st_condition s = Some c \<Longrightarrow>
    \<not> condition_holds vo (ds_results st) c \<Longrightarrow> dstep vo (P_Step s, st) (P_Done None, skip_leaves s st)"
| condition_true: "st_kind s = Step_Conditional \<Longrightarrow> st_condition s = Some c \<Longrightarrow>
    condition_holds vo (ds_results st) c \<Longrightarrow>
    dstep vo (P_Step s, st) (P_Seq (P_Done None) (st_children s), st)"
| fallback_empty: "st_kind s = Step_Fallback \<Longrightarrow> st_children s = [] \<Longrightarrow> dstep vo (P_Step s, st) (P_Done None, st)"
| fallback: "st_kind s = Step_Fallback \<Longrightarrow> st_children s = c # cs \<Longrightarrow>
    dstep vo (P_Step s, st)
      (P_Fall (si_optional (st_info s)) (si_effect (st_info c)) (P_Step (as_branch c)) cs, st)"
| fall_inner: "dstep vo (p, st) (p', st') \<Longrightarrow> dstep vo (P_Fall opt eff p cs, st) (P_Fall opt eff p' cs, st')"
| fall_ok: "dstep vo (P_Fall opt eff (P_Done None) cs, st) (P_Done None, st)"
| fall_next: "\<not> fallback_stops eff e \<Longrightarrow>
    dstep vo (P_Fall opt eff (P_Done (Some e)) (c # cs), st)
      (P_Fall opt (si_effect (st_info c)) (P_Step (as_branch c)) cs, st)"
| fall_ends: "cs = [] \<or> fallback_stops eff e \<Longrightarrow>
    dstep vo (P_Fall opt eff (P_Done (Some e)) cs, st) (forgiven opt e, st)"

text \<open>\<^verbatim>\<open>Run\<close>: what happens when the plan's process has ended.\<close>

definition run_ends :: "('f step_info \<Rightarrow> 'w work) \<Rightarrow> tool_error option \<Rightarrow> 'f dstate \<Rightarrow> 'w
    \<Rightarrow> 'w \<times> tool_error option \<times> rollback_report option" where
  "run_ends to_work err st w =
     (if err \<noteq> None \<and> ds_journal st \<noteq> []
      then (let (w', report) = rollback (map to_work (ds_journal st)) w
            in (w', if rr_failed report = 0 then err
                    else Some \<lparr>te_is = [Err_Compensation_Failed], te_provider = None\<rparr>, Some report))
      else (w, err, None))"

inductive_cases call_stepE: "dstep vo (P_Call i, st) c"
inductive_cases done_stepE: "dstep vo (P_Done r, st) c"
inductive_cases seq_stepE: "dstep vo (P_Seq p cs, st) c"
inductive_cases par_stepE: "dstep vo (P_Par ps, st) c"
inductive_cases fall_stepE: "dstep vo (P_Fall opt eff p cs, st) c"

section \<open>Runs end\<close>

text \<open>The steps a process can still take.\<close>

fun step_weight :: "'f step \<Rightarrow> nat" where
  "step_weight (Step k i c ss) = 3 + sum_list (map (\<lambda>s. Suc (step_weight s)) ss)"

fun proc_weight :: "'f proc \<Rightarrow> nat" where
  "proc_weight (P_Step s) = step_weight s"
| "proc_weight (P_Call i) = 1"
| "proc_weight (P_Seq p cs) = 1 + proc_weight p + sum_list (map (\<lambda>s. Suc (step_weight s)) cs)"
| "proc_weight (P_Par ps) = 1 + sum_list (map proc_weight ps)"
| "proc_weight (P_Fall opt eff p cs) = 1 + proc_weight p + sum_list (map (\<lambda>s. Suc (step_weight s)) cs)"
| "proc_weight (P_Done r) = 0"

lemma step_weight_children: "step_weight s = 3 + sum_list (map (\<lambda>s. Suc (step_weight s)) (st_children s))"
  by (cases s) simp

lemma step_weight_pos [simp]: "0 < step_weight s" "Suc 0 < step_weight s"
  by (cases s; simp)+

lemma step_weight_branch [simp]: "step_weight (as_branch s) = step_weight s"
  by (simp add: as_branch_def step_weight_children [of s])

lemma sum_list_update_less:
  "i < length ps \<Longrightarrow> (f p :: nat) < f (ps ! i) \<Longrightarrow> sum_list (map f (ps[i := p])) < sum_list (map f ps)"
proof (induction ps arbitrary: i)
  case Nil
  then show ?case by simp
next
  case (Cons q ps)
  then show ?case by (cases i) auto
qed

lemma sum_list_suc_le: "sum_list (map f xs) \<le> sum_list (map (\<lambda>x. Suc (f x)) xs)"
  by (induction xs) auto

lemma finish_call_done: "\<exists>r' st'. finish_call i r st = (P_Done r', st')"
  by (cases r) (simp_all add: finish_call_def forgiven_def)

lemma dstep_weight: "dstep vo c c' \<Longrightarrow> proc_weight (fst c') < proc_weight (fst c)"
proof (induction c c' rule: dstep.induct)
  case (call_ends i st r)
  then show ?case using finish_call_done [of i r st] by auto
next
  case (parallel s st)
  then show ?case
    using sum_list_suc_le [of step_weight "st_children s"] by (simp add: step_weight_children [of s] comp_def)
next
  case (par_inner i ps st p' st')
  then show ?case using sum_list_update_less [of i ps proc_weight p'] by simp
next
  case (fallback s c cs st)
  then show ?case by (simp add: step_weight_children [of s])
next
  case (sequence s st)
  then show ?case by (simp add: step_weight_children [of s])
next
  case (condition_true s c st)
  then show ?case by (simp add: step_weight_children [of s])
qed (simp_all add: forgiven_def)

lemma dstep_bounded: "(dstep vo ^^ n) c c' \<Longrightarrow> n + proc_weight (fst c') \<le> proc_weight (fst c)"
proof (induction n arbitrary: c')
  case 0
  then show ?case by simp
next
  case (Suc n)
  then obtain d where "(dstep vo ^^ n) c d" "dstep vo d c'" by auto
  then show ?case using Suc.IH [of d] dstep_weight [of vo d c'] by linarith
qed

text \<open>Nothing but the end stops a process, whatever the state.\<close>

lemma step_progress: "\<exists>c'. dstep vo (P_Step s, st) c'"
proof (cases "st_kind s")
  case Step_Invoke
  then show ?thesis using invoke_refused invoke_bound by (cases "bind_args (st_info s) st") blast+
next
  case Step_Conditional
  then show ?thesis
    using condition_missing condition_false condition_true by (cases "st_condition s") blast+
next
  case Step_Fallback
  then show ?thesis using fallback_empty fallback by (cases "st_children s") blast+
qed (blast intro: sequence parallel)+

lemma proc_progress: "\<not> is_done p \<Longrightarrow> \<exists>c'. dstep vo (p, st) c'"
proof (induction p)
  case (P_Step s)
  then show ?case using step_progress by blast
next
  case (P_Call i)
  then show ?case using call_ends by blast
next
  case (P_Seq p cs)
  show ?case
  proof (cases "is_done p")
    case True
    then obtain r where "p = P_Done r" by (cases p) (auto simp: is_done_def)
    then show ?thesis using seq_next seq_end seq_fails by (cases r; cases cs) blast+
  next
    case False
    then show ?thesis using P_Seq.IH seq_inner by (metis surj_pair)
  qed
next
  case (P_Par ps)
  show ?case
  proof (cases "list_all is_done ps")
    case True
    then show ?thesis using par_end by blast
  next
    case False
    then obtain i where i: "i < length ps" "\<not> is_done (ps ! i)" by (auto simp: list_all_length)
    then obtain p' st' where "dstep vo (ps ! i, st) (p', st')" using P_Par.IH [of "ps ! i"] by fastforce
    then show ?thesis using par_inner [OF i(1)] by blast
  qed
next
  case (P_Fall opt eff p cs)
  show ?case
  proof (cases "is_done p")
    case True
    then obtain r where r: "p = P_Done r" by (cases p) (auto simp: is_done_def)
    show ?thesis
    proof (cases r)
      case None
      then show ?thesis using r fall_ok by blast
    next
      case (Some e)
      then show ?thesis using r fall_next fall_ends by (cases cs; cases "fallback_stops eff e") blast+
    qed
  next
    case False
    then show ?thesis using P_Fall.IH fall_inner by (metis surj_pair)
  qed
next
  case (P_Done r)
  then show ?case by (simp add: is_done_def)
qed

section \<open>Every step is called at most once\<close>

text \<open>The invocations a process may still hand to the executor.\<close>

fun callable :: "'f step \<Rightarrow> string list" where
  "callable (Step k i c ss) =
     (if k = Step_Invoke then [si_id i]
      else if k = Step_Fallback then map (\<lambda>s. si_id (st_info s)) ss
      else concat (map callable ss))"

fun to_call :: "'f proc \<Rightarrow> string multiset" where
  "to_call (P_Step s) = mset (callable s)"
| "to_call (P_Call i) = {#}"
| "to_call (P_Seq p cs) = to_call p + mset (concat (map callable cs))"
| "to_call (P_Par ps) = sum_list (map to_call ps)"
| "to_call (P_Fall opt eff p cs) = to_call p + mset (map (\<lambda>s. si_id (st_info s)) cs)"
| "to_call (P_Done r) = {#}"

lemma callable_kinds:
  "st_kind s = Step_Invoke \<Longrightarrow> callable s = [si_id (st_info s)]"
  "st_kind s = Step_Fallback \<Longrightarrow> callable s = map (\<lambda>s. si_id (st_info s)) (st_children s)"
  "st_kind s \<noteq> Step_Invoke \<Longrightarrow> st_kind s \<noteq> Step_Fallback \<Longrightarrow> callable s = concat (map callable (st_children s))"
  by (cases s; simp)+

lemma callable_branch [simp]: "callable (as_branch s) = [si_id (st_info s)]"
  by (simp add: as_branch_def)

lemma sum_list_update_mset:
  "i < length ps \<Longrightarrow> sum_list (map f (ps[i := p])) + f (ps ! i) = sum_list (map f ps) + (f p :: 'b multiset)"
proof (induction ps arbitrary: i)
  case Nil
  then show ?case by simp
next
  case (Cons q ps)
  then show ?case by (cases i) (auto simp: ac_simps)
qed

lemma mset_concat_map: "mset (concat (map f xs)) = sum_list (map (\<lambda>x. mset (f x)) xs)"
  by (induction xs) auto

lemma skip_leaves_frame [simp]:
  "ds_called (skip_leaves s st) = ds_called st" "ds_succeeded (skip_leaves s st) = ds_succeeded st"
  "ds_journal (skip_leaves s st) = ds_journal st" "ds_ran (skip_leaves s st) = ds_ran st"
proof -
  have "ds_called (fold (\<lambda>i st. add_outcome i None True st) is st) = ds_called st
      \<and> ds_succeeded (fold (\<lambda>i st. add_outcome i None True st) is st) = ds_succeeded st
      \<and> ds_journal (fold (\<lambda>i st. add_outcome i None True st) is st) = ds_journal st
      \<and> ds_ran (fold (\<lambda>i st. add_outcome i None True st) is st) = ds_ran st" for "is" :: "'a step_info list"
    by (induction "is" arbitrary: st) (simp_all add: add_outcome_def)
  then show "ds_called (skip_leaves s st) = ds_called st" "ds_succeeded (skip_leaves s st) = ds_succeeded st"
    "ds_journal (skip_leaves s st) = ds_journal st" "ds_ran (skip_leaves s st) = ds_ran st"
    by (simp_all add: skip_leaves_def)
qed

lemma put_result_frame [simp]:
  "ds_called (put_result r out st) = ds_called st" "ds_succeeded (put_result r out st) = ds_succeeded st"
  "ds_journal (put_result r out st) = ds_journal st" "ds_ran (put_result r out st) = ds_ran st"
  by (simp_all add: put_result_def)

lemma add_outcome_frame [simp]:
  "ds_called (add_outcome i e k st) = ds_called st" "ds_succeeded (add_outcome i e k st) = ds_succeeded st"
  "ds_journal (add_outcome i e k st) = ds_journal st" "ds_ran (add_outcome i e k st) = ds_ran st"
  by (simp_all add: add_outcome_def)

lemma finish_call_frame:
  assumes "finish_call i r st = (p, st')"
  shows "ds_called st' = ds_called st" "to_call p = {#}"
  using assms by (cases r; auto simp: finish_call_def forgiven_def)+

lemma dstep_called:
  "dstep vo (p, st) (p', st') \<Longrightarrow> mset (ds_called st') + to_call p' \<subseteq># mset (ds_called st) + to_call p"
proof (induction "(p, st)" "(p', st')" arbitrary: p st p' st' rule: dstep.induct)
  case (call_ends i st r)
  then show ?case using finish_call_frame [OF call_ends] by simp
next
  case (parallel s st)
  then show ?case by (simp add: callable_kinds mset_concat_map comp_def)
next
  case (par_inner i ps st p' st')
  let ?S = "sum_list (map to_call ps)" and ?S' = "sum_list (map to_call (ps[i := p']))"
  have "?S' + to_call (ps ! i) = ?S + to_call p'" by (rule sum_list_update_mset [OF par_inner(1)])
  then have "mset (ds_called st') + ?S' + to_call (ps ! i) = mset (ds_called st') + to_call p' + ?S"
    by (simp only: add.assoc) (simp only: add.commute [of ?S])
  also have "\<dots> \<subseteq># mset (ds_called st) + to_call (ps ! i) + ?S"
    by (rule subset_mset.add_right_mono [OF par_inner(3)])
  also have "\<dots> = mset (ds_called st) + ?S + to_call (ps ! i)"
    by (simp only: add.assoc) (simp only: add.commute [of ?S])
  finally show ?case by simp
qed (auto simp: callable_kinds forgiven_def ac_simps intro: mset_subset_eq_mono_add)

lemma run_called:
  "(dstep vo)\<^sup>*\<^sup>* c c' \<Longrightarrow> mset (ds_called (snd c')) + to_call (fst c') \<subseteq># mset (ds_called (snd c)) + to_call (fst c)"
proof (induction rule: rtranclp_induct)
  case base
  then show ?case by simp
next
  case (step d e)
  then have "mset (ds_called (snd e)) + to_call (fst e) \<subseteq># mset (ds_called (snd d)) + to_call (fst d)"
    using dstep_called [of vo "fst d" "snd d" "fst e" "snd e"] by simp
  then show ?case using step.IH by (rule subset_mset.order_trans)
qed

section \<open>A plan that succeeds has run what it required\<close>

text \<open>The invocations a step needs, and those a process still owes; a process that has lost one.\<close>

fun required :: "'f step \<Rightarrow> string list" where
  "required (Step k i c ss) =
     (if k = Step_Invoke then (if si_optional i then [] else [si_id i])
      else if k = Step_Sequence \<or> k = Step_Parallel then concat (map required ss)
      else [])"

fun owes :: "'f proc \<Rightarrow> string set" where
  "owes (P_Step s) = set (required s)"
| "owes (P_Call i) = (if si_optional i then {} else {si_id i})"
| "owes (P_Seq p cs) = owes p \<union> (\<Union>s \<in> set cs. set (required s))"
| "owes (P_Par ps) = (\<Union>p \<in> set ps. owes p)"
| "owes (P_Fall opt eff p cs) = {}"
| "owes (P_Done r) = {}"

fun failed :: "'f proc \<Rightarrow> bool" where
  "failed (P_Step s) = False"
| "failed (P_Call i) = False"
| "failed (P_Seq p cs) = failed p"
| "failed (P_Par ps) = list_ex failed ps"
| "failed (P_Fall opt eff p cs) = False"
| "failed (P_Done r) = (r \<noteq> None)"

lemma required_kinds:
  "st_kind s = Step_Invoke \<Longrightarrow> required s = (if si_optional (st_info s) then [] else [si_id (st_info s)])"
  "st_kind s = Step_Sequence \<Longrightarrow> required s = concat (map required (st_children s))"
  "st_kind s = Step_Parallel \<Longrightarrow> required s = concat (map required (st_children s))"
  "st_kind s = Step_Conditional \<Longrightarrow> required s = []"
  "st_kind s = Step_Fallback \<Longrightarrow> required s = []"
  by (cases s; simp)+

lemma finish_call_owes:
  assumes "finish_call i r st = (p, st')"
  shows "set (ds_succeeded st) \<subseteq> set (ds_succeeded st')"
    and "\<not> failed p \<Longrightarrow> (if si_optional i then {} else {si_id i}) \<subseteq> set (ds_succeeded st')"
  using assms by (cases r; auto simp: finish_call_def forgiven_def split: if_splits)+

lemma done_owes: "is_done p \<Longrightarrow> owes p = {}"
  by (cases p) (simp_all add: is_done_def)

lemma ends_badly_iff: "ends_badly p \<longleftrightarrow> (\<exists>e. p = P_Done (Some e))"
  by (auto simp: ends_badly_def split: proc.splits option.splits)

lemma done_failed: "is_done p \<Longrightarrow> failed p = ends_badly p"
  by (cases p) (auto simp: is_done_def ends_badly_def split: option.splits)

lemma first_error_none:
  assumes "list_all is_done ps" and "first_error ps = None"
  shows "\<not> list_ex failed ps" and "p \<in> set ps \<Longrightarrow> owes p = {}"
proof -
  show "owes p = {}" if "p \<in> set ps"
    by (rule done_owes) (use that assms(1) in \<open>simp add: list_all_iff\<close>)
  have "find ends_badly ps = None"
  proof (rule ccontr)
    assume "find ends_badly ps \<noteq> None"
    then obtain q where q: "find ends_badly ps = Some q" by blast
    then obtain e where "q = P_Done (Some e)" by (auto simp: find_Some_iff ends_badly_iff)
    then show False using assms(2) q by (simp add: first_error_def)
  qed
  then have "\<not> ends_badly p" if "p \<in> set ps" for p using that by (simp add: find_None_iff)
  moreover have "failed p \<longleftrightarrow> ends_badly p" if "p \<in> set ps" for p
    by (rule done_failed) (use that assms(1) in \<open>simp add: list_all_iff\<close>)
  ultimately show "\<not> list_ex failed ps" by (auto simp: list_ex_iff)
qed

lemma dstep_owes:
  "dstep vo (p, st) (p', st') \<Longrightarrow>
     set (ds_succeeded st) \<subseteq> set (ds_succeeded st')
     \<and> (\<not> failed p' \<longrightarrow> \<not> failed p \<and> owes p \<subseteq> owes p' \<union> set (ds_succeeded st'))"
proof (induction "(p, st)" "(p', st')" arbitrary: p st p' st' rule: dstep.induct)
  case (call_ends i st r)
  then show ?case using finish_call_owes [OF call_ends] by auto
next
  case (par_inner i ps st p' st')
  have mem: "ps[i := p'] ! j = (if j = i then p' else ps ! j)" if "j < length ps" for j
    using that by (simp add: nth_list_update)
  show ?case
  proof (intro conjI impI)
    show "set (ds_succeeded st) \<subseteq> set (ds_succeeded st')" using par_inner(3) by blast
    assume nf: "\<not> failed (P_Par (ps[i := p']))"
    then have f: "\<not> failed p'" "\<And>j. j < length ps \<Longrightarrow> j \<noteq> i \<Longrightarrow> \<not> failed (ps ! j)"
      using mem par_inner(1) by (auto simp: list_ex_length)
    have IH: "\<not> failed (ps ! i)" "owes (ps ! i) \<subseteq> owes p' \<union> set (ds_succeeded st')" using par_inner(3) f(1) by auto
    show "\<not> failed (P_Par ps)" using IH(1) f(2) by (auto simp: list_ex_length)
    show "owes (P_Par ps) \<subseteq> owes (P_Par (ps[i := p'])) \<union> set (ds_succeeded st')"
    proof
      fix x assume "x \<in> owes (P_Par ps)"
      then obtain j where j: "j < length ps" "x \<in> owes (ps ! j)" by (auto simp: in_set_conv_nth)
      show "x \<in> owes (P_Par (ps[i := p'])) \<union> set (ds_succeeded st')"
      proof (cases "j = i")
        case True
        then have "x \<in> owes p' \<or> x \<in> set (ds_succeeded st')" using IH(2) j(2) by blast
        then show ?thesis using par_inner(1) by (auto simp: set_update_memI intro!: bexI [of _ p'])
      next
        case False
        then have "ps ! j \<in> set (ps[i := p'])" using j(1) by (metis length_list_update nth_list_update_neq nth_mem)
        then show ?thesis using j(2) by auto
      qed
    qed
  qed
next
  case (par_end ps st)
  then show ?case using first_error_none [OF par_end] by (cases "first_error ps") auto
qed (auto simp: required_kinds forgiven_def)

lemma run_owes:
  "(dstep vo)\<^sup>*\<^sup>* c c' \<Longrightarrow> set (ds_succeeded (snd c)) \<subseteq> set (ds_succeeded (snd c'))
     \<and> (\<not> failed (fst c') \<longrightarrow> \<not> failed (fst c) \<and> owes (fst c) \<subseteq> owes (fst c') \<union> set (ds_succeeded (snd c')))"
proof (induction rule: rtranclp_induct)
  case base
  then show ?case by simp
next
  case (step d e)
  have "set (ds_succeeded (snd d)) \<subseteq> set (ds_succeeded (snd e))
     \<and> (\<not> failed (fst e) \<longrightarrow> \<not> failed (fst d) \<and> owes (fst d) \<subseteq> owes (fst e) \<union> set (ds_succeeded (snd e)))"
    using dstep_owes [of vo "fst d" "snd d" "fst e" "snd e"] step(2) by simp
  then show ?case using step.IH by blast
qed

section \<open>The journal\<close>

text \<open>What a process and the plan state say of the mutating steps: each is journaled as it succeeds.\<close>

definition journal_ok :: "'f dstate \<Rightarrow> bool" where
  "journal_ok st \<longleftrightarrow> ds_journal st = filter (\<lambda>i. mutating (si_effect i)) (ds_ran st)
     \<and> mset (map si_id (ds_ran st)) \<subseteq># mset (ds_succeeded st)"

lemma finish_call_journal: "journal_ok st \<Longrightarrow> journal_ok (snd (finish_call i r st))"
  by (cases r) (auto simp: finish_call_def journal_ok_def intro: subset_mset.order_trans)

lemma dstep_journal: "dstep vo c c' \<Longrightarrow> journal_ok (snd c) \<Longrightarrow> journal_ok (snd c')"
  by (induction rule: dstep.induct) (simp_all add: finish_call_journal, simp_all add: journal_ok_def)

lemma run_journal: "(dstep vo)\<^sup>*\<^sup>* c c' \<Longrightarrow> journal_ok (snd c) \<Longrightarrow> journal_ok (snd c')"
  by (induction rule: rtranclp_induct) (auto intro: dstep_journal)

section \<open>Properties\<close>

text \<open>C18. Every run of a plan ends: whatever the tools answer and however parallel branches interleave, a
  run takes no more steps than the plan's weight, and a process that cannot go on has returned.\<close>

theorem plan_runs_end:
  assumes "(dstep vo ^^ n) (P_Step s, st) (p, st')"
  shows "n \<le> step_weight s \<and> ((\<exists>r. p = P_Done r) \<or> (\<exists>c. dstep vo (p, st') c))"
proof
  show "n \<le> step_weight s" using dstep_bounded [OF assms] by simp
  show "(\<exists>r. p = P_Done r) \<or> (\<exists>c. dstep vo (p, st') c)"
    using proc_progress [of p vo st'] by (cases p) (auto simp: is_done_def)
qed

text \<open>In every run each step of the plan is handed to the executor at most as often as it occurs in
  the plan: once, under a plan's distinct step identifiers.\<close>

theorem steps_are_called_once:
  assumes "(dstep vo)\<^sup>*\<^sup>* (P_Step s, new_dstate) (p, st)" and "distinct (callable s)"
  shows "distinct (ds_called st) \<and> set (ds_called st) \<subseteq> set (callable s)"
proof -
  have "mset (ds_called st) + to_call p \<subseteq># mset (callable s)"
    using run_called [OF assms(1)] by (simp add: new_dstate_def)
  then have sub: "mset (ds_called st) \<subseteq># mset (callable s)"
    using subset_mset.order_trans [OF mset_subset_eq_add_left] by blast
  have "count (mset (ds_called st)) x \<le> 1" for x
    using mset_subset_eq_count [OF sub, of x] distinct_count_atmost_1 [of "callable s"] assms(2)
    by (metis le_trans dual_order.refl zero_le_one)
  then have "distinct (ds_called st)"
    unfolding distinct_count_atmost_1 by (metis count_mset_0_iff le_neq_implies_less less_one)
  then show ?thesis using set_mset_mono [OF sub] by simp
qed

text \<open>A plan that returns no error has run what it required: every invocation that is not optional
  and stands under sequences and parallel groups only has succeeded.\<close>

theorem success_means_required_done:
  assumes "(dstep vo)\<^sup>*\<^sup>* (P_Step s, new_dstate) (P_Done None, st)"
  shows "set (required s) \<subseteq> set (ds_succeeded st)"
  using run_owes [OF assms] by simp


section \<open>Witnesses\<close>

definition demo_info :: "string \<Rightarrow> int step_info" where
  "demo_info x = \<lparr>si_id = x, si_ref = x, si_capability = ''c'', si_descriptor = (''t'', ''1.0.0''),
     si_contract = count_contract, si_args = [], si_bindings = [], si_optional = False, si_compensable = True,
     si_effect = Effect_Write\<rparr>"

definition demo_leaf :: "string \<Rightarrow> int step" where
  "demo_leaf x = Step Step_Invoke (demo_info x) None []"

definition demo_plan :: "int step" where
  "demo_plan = Step Step_Sequence (demo_info ''root'') None [demo_leaf ''a'', demo_leaf ''b'']"

definition demo_ops :: "int value_ops" where
  "demo_ops = \<lparr>vo_floats = int_floats, vo_text = (\<lambda>_. [])\<rparr>"

definition demo_first :: "int dstate" where
  "demo_first = snd (finish_call (demo_info ''a'') (Out_Done []) (new_dstate\<lparr>ds_called := [''a'']\<rparr>))"

definition demo_last :: "int outcome \<Rightarrow> int dstate" where
  "demo_last r = snd (finish_call (demo_info ''b'') r (demo_first\<lparr>ds_called := [''a'', ''b'']\<rparr>))"

lemma demo_leaf_steps:
  assumes "finish_call (demo_info x) r (st\<lparr>ds_called := ds_called st @ [x]\<rparr>) = (p, st')"
  shows "(dstep demo_ops)\<^sup>*\<^sup>* (P_Seq (P_Step (demo_leaf x)) cs, st) (P_Seq p cs, st')"
proof -
  have "bind_args (demo_info x) st = Inr []" by (simp add: bind_args_def demo_info_def)
  then have "dstep demo_ops (P_Step (demo_leaf x), st) (P_Call (demo_info x), st\<lparr>ds_called := ds_called st @ [x]\<rparr>)"
    using invoke_bound [of "demo_leaf x" st "[]" demo_ops] by (simp add: demo_leaf_def demo_info_def)
  moreover have "dstep demo_ops (P_Call (demo_info x), st\<lparr>ds_called := ds_called st @ [x]\<rparr>) (p, st')"
    using call_ends [of demo_ops "demo_info x" "st\<lparr>ds_called := ds_called st @ [x]\<rparr>" r] assms by simp
  ultimately show ?thesis by (meson converse_rtranclp_into_rtranclp rtranclp.rtrancl_refl seq_inner)
qed

lemma demo_run:
  assumes "finish_call (demo_info ''b'') r (demo_first\<lparr>ds_called := [''a'', ''b'']\<rparr>) = (P_Done e, demo_last r)"
  shows "(dstep demo_ops)\<^sup>*\<^sup>* (P_Step demo_plan, new_dstate) (P_Done e, demo_last r)"
proof -
  have f: "finish_call (demo_info ''a'') (Out_Done []) (new_dstate\<lparr>ds_called := ds_called new_dstate @ [''a'']\<rparr>)
      = (P_Done None, demo_first)"
    by (simp add: demo_first_def finish_call_def new_dstate_def)
  have g: "finish_call (demo_info ''b'') r (demo_first\<lparr>ds_called := ds_called demo_first @ [''b'']\<rparr>) = (P_Done e, demo_last r)"
    using assms by (simp add: demo_first_def finish_call_def new_dstate_def)
  have s1: "(dstep demo_ops)\<^sup>*\<^sup>* (P_Step demo_plan, new_dstate) (P_Seq (P_Done None) [demo_leaf ''a'', demo_leaf ''b''], new_dstate)"
    by (rule r_into_rtranclp) (use sequence [of demo_plan demo_ops new_dstate] in \<open>simp add: demo_plan_def\<close>)
  have s2: "(dstep demo_ops)\<^sup>*\<^sup>* (P_Seq (P_Done None) (demo_leaf x # cs), st) (P_Seq (P_Step (demo_leaf x)) cs, st)" for x cs st
    by (rule r_into_rtranclp) (rule seq_next)
  have s3: "(dstep demo_ops)\<^sup>*\<^sup>* (P_Seq (P_Done e) [], demo_last r) (P_Done e, demo_last r)"
    by (rule r_into_rtranclp, cases e) (simp_all add: seq_end seq_fails)
  show ?thesis
    by (rule rtranclp_trans [OF s1 rtranclp_trans [OF s2 rtranclp_trans [OF demo_leaf_steps [OF f]
        rtranclp_trans [OF s2 rtranclp_trans [OF demo_leaf_steps [OF g] s3]]]]])
qed

definition demo_error :: tool_error where
  "demo_error = \<lparr>te_is = [Err_Other 0], te_provider = None\<rparr>"

lemma demo_failed: "(dstep demo_ops)\<^sup>*\<^sup>* (P_Step demo_plan, new_dstate) (P_Done (Some demo_error), demo_last (Out_Error demo_error))"
  by (rule demo_run) (simp add: demo_last_def finish_call_def forgiven_def demo_info_def)

lemma demo_done: "(dstep demo_ops)\<^sup>*\<^sup>* (P_Step demo_plan, new_dstate) (P_Done None, demo_last (Out_Done []))"
  by (rule demo_run) (simp add: demo_last_def finish_call_def)

lemmas demo_eval = demo_last_def demo_first_def finish_call_def demo_info_def new_dstate_def put_result_def
  add_outcome_def forgiven_def mutating_def

theorem plan_runs_end_witness:
  "\<exists>n st'. (dstep demo_ops ^^ n) (P_Step demo_plan, new_dstate) (P_Done None, st') \<and> n \<le> 11"
proof -
  obtain n where n: "(dstep demo_ops ^^ n) (P_Step demo_plan, new_dstate) (P_Done None, demo_last (Out_Done []))"
    using demo_done by (auto simp: rtranclp_power)
  have "step_weight demo_plan = 11" by (simp add: demo_plan_def demo_leaf_def)
  then show ?thesis using plan_runs_end [OF n] n by auto
qed

theorem steps_are_called_once_witness:
  "ds_called (demo_last (Out_Done [])) = [''a'', ''b''] \<and> distinct (ds_called (demo_last (Out_Done [])))"
proof -
  have "distinct (callable demo_plan)" by (simp add: demo_plan_def demo_leaf_def demo_info_def)
  then show ?thesis using steps_are_called_once [OF demo_done] by (simp add: demo_eval)
qed

theorem success_means_required_done_witness:
  "required demo_plan = [''a'', ''b''] \<and> set [''a'', ''b''] \<subseteq> set (ds_succeeded (demo_last (Out_Done [])))"
proof -
  have r: "required demo_plan = [''a'', ''b'']" by (simp add: demo_plan_def demo_leaf_def demo_info_def)
  show ?thesis using success_means_required_done [OF demo_done] unfolding r by simp
qed

definition undo_by_name :: "int step_info \<Rightarrow> string list work" where
  "undo_by_name i = \<lparr>wk_step = 0, wk_effect = si_effect i, wk_tool = Some (\<lambda>w. (w @ [si_id i], None))\<rparr>"


end
