(* ===== verification/ToolPermission.thy ===== *)
theory ToolPermission
  imports ToolContract
begin

text \<open>
  Who may invoke a tool (\<^verbatim>\<open>packages/go/toolruntime/permission.go\<close>): grants, roles, consent and
  emergency overrides, and the audit entries the engine writes (\<^verbatim>\<open>audit.go\<close>).  The auditor is what
  it was handed, in order; an engine without one has no log.  A zero time is \<open>None\<close>.
\<close>

section \<open>Decisions, grants and overrides\<close>

record decision =
  dc_allowed :: bool
  dc_reason :: string
  dc_missing :: "string list"
  dc_consent :: string
  dc_override :: string
  dc_at :: "instant option"

definition denied :: "string \<Rightarrow> string list \<Rightarrow> decision" where
  "denied reason missing = \<lparr>dc_allowed = False, dc_reason = reason, dc_missing = sort missing, dc_consent = [],
     dc_override = [], dc_at = None\<rparr>"

definition allowed :: "string \<Rightarrow> decision" where
  "allowed reason = \<lparr>dc_allowed = True, dc_reason = reason, dc_missing = [], dc_consent = [], dc_override = [],
     dc_at = None\<rparr>"

text \<open>What a denial is as an error.\<close>

definition decision_error :: "decision \<Rightarrow> tool_sentinel option" where
  "decision_error d =
     (if dc_allowed d then None
      else if dc_reason d = ''consent_required'' then Some Err_Consent_Required else Some Err_Permission_Denied)"

record grant =
  gr_actor :: string
  gr_permissions :: "string list"
  gr_roles :: "string list"
  gr_consents :: "(string \<times> string) list"
  gr_expires :: "instant option"

record override =
  ov_name :: string
  ov_permissions :: "string list"
  ov_actors :: "string list"
  ov_tools :: "string list"
  ov_expires :: "instant option"
  ov_authorised :: string
  ov_reason :: string

datatype override_problem = Override_No_Name | Override_Grants_Nothing | Override_No_Expiry
  | Override_Anonymous | Override_No_Reason

definition override_problems :: "override \<Rightarrow> override_problem list" where
  "override_problems o' =
     (if ov_name o' = [] then [Override_No_Name] else [])
     @ (if ov_permissions o' = [] then [Override_Grants_Nothing] else [])
     @ (if ov_expires o' = None then [Override_No_Expiry] else [])
     @ (if ov_authorised o' = [] then [Override_Anonymous] else [])
     @ (if ov_reason o' = [] then [Override_No_Reason] else [])"

text \<open>An instant is never before the zero time.\<close>

definition before_expiry :: "instant \<Rightarrow> instant option \<Rightarrow> bool" where
  "before_expiry now e = (case e of None \<Rightarrow> False | Some t \<Rightarrow> now < t)"

definition applies :: "override \<Rightarrow> string \<Rightarrow> string \<Rightarrow> instant \<Rightarrow> bool" where
  "applies o' actor tool now =
     (if \<not> before_expiry now (ov_expires o') then False
      else if ov_actors o' \<noteq> [] \<and> actor \<notin> set (ov_actors o') then False
      else if ov_tools o' \<noteq> [] \<and> tool \<notin> set (ov_tools o') then False
      else True)"

section \<open>The engine\<close>

datatype audit_kind = Audit_Permission_Denied | Audit_Override_Installed | Audit_Override_Used

datatype detail = Detail_Text string | Detail_Time "instant option"

record audit_entry =
  au_at :: "instant option"
  au_kind :: audit_kind
  au_actor :: string
  au_descriptor :: descriptor
  au_reason :: string
  au_details :: "(string \<times> detail) list"

record perm_engine =
  pe_roles :: "(string \<times> string list) list"
  pe_overrides :: "(string \<times> override) list"
  pe_audit :: "audit_entry list option"

definition new_perm_engine :: "bool \<Rightarrow> perm_engine" where
  "new_perm_engine audited = \<lparr>pe_roles = [], pe_overrides = [], pe_audit = (if audited then Some [] else None)\<rparr>"

definition write_audit :: "audit_entry \<Rightarrow> perm_engine \<Rightarrow> perm_engine" where
  "write_audit a e = e\<lparr>pe_audit := map_option (\<lambda>as. as @ [a]) (pe_audit e)\<rparr>"

definition define_role :: "string \<Rightarrow> string list \<Rightarrow> perm_engine \<Rightarrow> perm_engine \<times> bool" where
  "define_role role perms e =
     (if role = [] then (e, False) else (e\<lparr>pe_roles := AList.update role perms (pe_roles e)\<rparr>, True))"

definition add_override :: "instant \<Rightarrow> override \<Rightarrow> perm_engine \<Rightarrow> perm_engine \<times> override_problem list" where
  "add_override now o' e =
     (if override_problems o' \<noteq> [] then (e, override_problems o')
      else (write_audit
              \<lparr>au_at = Some now, au_kind = Audit_Override_Installed, au_actor = ov_authorised o',
               au_descriptor = ([], []), au_reason = ov_reason o',
               au_details = [(''override'', Detail_Text (ov_name o')), (''expires'', Detail_Time (ov_expires o'))]\<rparr>
              (e\<lparr>pe_overrides := AList.update (ov_name o') o' (pe_overrides e)\<rparr>), []))"

definition remove_override :: "string \<Rightarrow> perm_engine \<Rightarrow> perm_engine" where
  "remove_override name e = e\<lparr>pe_overrides := AList.delete name (pe_overrides e)\<rparr>"

definition active_overrides :: "instant \<Rightarrow> perm_engine \<Rightarrow> override list" where
  "active_overrides now e =
     sort_key ov_name (filter (\<lambda>o'. before_expiry now (ov_expires o')) (map snd (pe_overrides e)))"

fun join_from :: "bool \<Rightarrow> string list \<Rightarrow> string" where
  "join_from first [] = []"
| "join_from first (s # ss) = (if first then s else '','' @ s) @ join_from False ss"

definition join_sorted :: "string list \<Rightarrow> string" where
  "join_sorted ss = join_from True (sort ss)"

definition record_decision :: "'f contract \<Rightarrow> grant \<Rightarrow> decision \<Rightarrow> perm_engine \<Rightarrow> perm_engine" where
  "record_decision c g d e =
     (if \<not> dc_allowed d \<or> dc_override d \<noteq> []
      then write_audit
             \<lparr>au_at = dc_at d, au_kind = (if dc_allowed d then Audit_Override_Used else Audit_Permission_Denied),
              au_actor = gr_actor g, au_descriptor = ct_descriptor c, au_reason = dc_reason d,
              au_details = [(''tool'', Detail_Text (fst (ct_descriptor c))), (''version'', Detail_Text (snd (ct_descriptor c)))]
                @ (if dc_override d \<noteq> [] then [(''override'', Detail_Text (dc_override d))] else [])
                @ (if dc_missing d \<noteq> [] then [(''missing'', Detail_Text (join_sorted (dc_missing d)))] else [])\<rparr> e
      else e)"

text \<open>The permissions held: those of the grant, then those of its roles.\<close>

definition held_permissions :: "perm_engine \<Rightarrow> grant \<Rightarrow> string list" where
  "held_permissions e g =
     gr_permissions g
     @ concat (map (\<lambda>r. case map_of (pe_roles e) r of None \<Rightarrow> [] | Some ps \<Rightarrow> ps) (gr_roles g))"

definition override_covers :: "perm_engine \<Rightarrow> string \<Rightarrow> string \<Rightarrow> string list \<Rightarrow> instant \<Rightarrow> string option" where
  "override_covers e actor tool missing now =
     find (\<lambda>name. case map_of (pe_overrides e) name of
              None \<Rightarrow> False
            | Some o' \<Rightarrow> applies o' actor tool now \<and> list_all (\<lambda>m. m \<in> set (ov_permissions o')) missing)
       (sort (map fst (pe_overrides e)))"

definition evaluate :: "instant \<Rightarrow> 'f contract \<Rightarrow> grant \<Rightarrow> perm_engine \<Rightarrow> perm_engine \<times> decision" where
  "evaluate now c g e =
     (let answer = (\<lambda>d. (record_decision c g d e, d)) in
      if gr_expires g \<noteq> None \<and> \<not> before_expiry now (gr_expires g)
      then answer ((denied ''grant_expired'' [])\<lparr>dc_at := Some now\<rparr>)
      else
        (let ref = (if ct_consent c = [] then Some []
                    else case map_of (gr_consents g) (ct_consent c) of
                           None \<Rightarrow> None | Some r \<Rightarrow> if r = [] then None else Some r) in
         case ref of
           None \<Rightarrow> answer ((denied ''consent_required'' [])\<lparr>dc_at := Some now\<rparr>)
         | Some consent \<Rightarrow>
             (let held = held_permissions e g;
                  missing = filter (\<lambda>p. p \<notin> set held) (ct_permissions c)
              in if missing = []
                 then answer ((allowed ''granted'')\<lparr>dc_consent := consent, dc_at := Some now\<rparr>)
                 else
                   (case override_covers e (gr_actor g) (fst (ct_descriptor c)) missing now of
                      Some name \<Rightarrow>
                        answer ((allowed ''override'')\<lparr>dc_consent := consent, dc_override := name, dc_at := Some now\<rparr>)
                    | None \<Rightarrow> answer ((denied ''missing_permission'' missing)\<lparr>dc_at := Some now\<rparr>)))))"

section \<open>What a decision means\<close>

text \<open>The policy, apart from how it is computed.\<close>

definition grant_live :: "instant \<Rightarrow> grant \<Rightarrow> bool" where
  "grant_live now g \<longleftrightarrow> (case gr_expires g of None \<Rightarrow> True | Some t \<Rightarrow> now < t)"

definition consent_given :: "'f contract \<Rightarrow> grant \<Rightarrow> bool" where
  "consent_given c g \<longleftrightarrow> ct_consent c = [] \<or> (\<exists>r. map_of (gr_consents g) (ct_consent c) = Some r \<and> r \<noteq> [])"

definition missing_permissions :: "perm_engine \<Rightarrow> 'f contract \<Rightarrow> grant \<Rightarrow> string set" where
  "missing_permissions e c g = set (ct_permissions c) - set (held_permissions e g)"

text \<open>One override waives all of a set.\<close>

definition waives :: "instant \<Rightarrow> 'f contract \<Rightarrow> grant \<Rightarrow> string set \<Rightarrow> override \<Rightarrow> bool" where
  "waives now c g missing o' \<longleftrightarrow>
     (\<exists>t. ov_expires o' = Some t \<and> now < t) \<and> (ov_actors o' = [] \<or> gr_actor g \<in> set (ov_actors o'))
     \<and> (ov_tools o' = [] \<or> fst (ct_descriptor c) \<in> set (ov_tools o')) \<and> missing \<subseteq> set (ov_permissions o')"

lemma applies_waives:
  "(applies o' (gr_actor g) (fst (ct_descriptor c)) now \<and> list_all (\<lambda>m. m \<in> set (ov_permissions o')) ms)
     \<longleftrightarrow> waives now c g (set ms) o'"
  by (auto simp: applies_def waives_def before_expiry_def list_all_iff split: option.splits)

lemma covers_none:
  "override_covers e (gr_actor g) (fst (ct_descriptor c)) ms now = None \<longleftrightarrow>
     (\<forall>n o'. map_of (pe_overrides e) n = Some o' \<longrightarrow> \<not> waives now c g (set ms) o')"
proof -
  have "n \<in> set (map fst (pe_overrides e))" if "map_of (pe_overrides e) n = Some o'" for n o'
    using that by (metis domI dom_map_of_conv_image_fst set_map)
  then show ?thesis
    unfolding override_covers_def find_None_iff applies_waives by (auto split: option.splits)
qed

lemma covers_some:
  "override_covers e (gr_actor g) (fst (ct_descriptor c)) ms now = Some n \<Longrightarrow>
     \<exists>o'. map_of (pe_overrides e) n = Some o' \<and> waives now c g (set ms) o'"
  unfolding override_covers_def applies_waives by (auto simp: find_Some_iff split: option.splits)

lemma missing_set: "set (filter (\<lambda>p. p \<notin> set (held_permissions e g)) (ct_permissions c)) = missing_permissions e c g"
  by (auto simp: missing_permissions_def)

text \<open>The four ways a decision comes about.\<close>

lemma evaluate_cases:
  obtains (expired) "\<not> grant_live now g" "snd (evaluate now c g e) = (denied ''grant_expired'' [])\<lparr>dc_at := Some now\<rparr>"
  | (consent) "grant_live now g" "\<not> consent_given c g"
      "snd (evaluate now c g e) = (denied ''consent_required'' [])\<lparr>dc_at := Some now\<rparr>"
  | (granted) r where "grant_live now g" "consent_given c g" "missing_permissions e c g = {}"
      "snd (evaluate now c g e) = (allowed ''granted'')\<lparr>dc_consent := r, dc_at := Some now\<rparr>"
  | (override) r n o' where "grant_live now g" "consent_given c g" "missing_permissions e c g \<noteq> {}"
      "map_of (pe_overrides e) n = Some o'" "waives now c g (missing_permissions e c g) o'"
      "snd (evaluate now c g e) = (allowed ''override'')\<lparr>dc_consent := r, dc_override := n, dc_at := Some now\<rparr>"
  | (missing) ms where "grant_live now g" "consent_given c g" "missing_permissions e c g \<noteq> {}"
      "\<forall>n o'. map_of (pe_overrides e) n = Some o' \<longrightarrow> \<not> waives now c g (missing_permissions e c g) o'"
      "set ms = missing_permissions e c g"
      "snd (evaluate now c g e) = (denied ''missing_permission'' ms)\<lparr>dc_at := Some now\<rparr>"
proof -
  let ?ms = "filter (\<lambda>p. p \<notin> set (held_permissions e g)) (ct_permissions c)"
  have none: "?ms = [] \<longleftrightarrow> missing_permissions e c g = {}" using missing_set [of e g c] by (metis set_empty)
  show thesis
  proof (cases "grant_live now g")
    case False
    then show thesis
      by (intro expired) (auto simp: grant_live_def evaluate_def before_expiry_def split: option.splits)
  next
    case live: True
    then have l: "(gr_expires g \<noteq> None \<and> \<not> before_expiry now (gr_expires g)) = False"
      by (auto simp: grant_live_def before_expiry_def split: option.splits)
    show thesis
    proof (cases "consent_given c g")
      case False
      then show thesis
        using live
        by (intro consent) (auto simp: consent_given_def evaluate_def Let_def l simp del: not_None_eq split: option.splits)
    next
      case given: True
      define ref where "ref = (if ct_consent c = [] then Some []
          else case map_of (gr_consents g) (ct_consent c) of None \<Rightarrow> None | Some r \<Rightarrow> if r = [] then None else Some r)"
      have "ref \<noteq> None" using given by (auto simp: ref_def consent_given_def)
      then obtain r where r: "ref = Some r" by blast
      note ev = evaluate_def [of now c g e, unfolded Let_def l if_False, folded ref_def, unfolded r option.case]
      show thesis
      proof (cases "?ms = []")
        case True
        then show thesis using live given none by (intro granted [of r]) (simp_all add: ev)
      next
        case some: False
        show thesis
        proof (cases "override_covers e (gr_actor g) (fst (ct_descriptor c)) ?ms now")
          case None
          then show thesis
            using live given none some covers_none [of e g c ?ms now] missing_set [of e g c]
            by (intro missing [of ?ms]) (simp_all add: ev)
        next
          case (Some n)
          then show thesis
            using live given none some covers_some [OF Some] missing_set [of e g c] override [of n _ r]
            by (auto simp: ev)
        qed
      qed
    qed
  qed
qed

section \<open>Operations and their invariant\<close>

datatype 'f perm_op = Pe_Role string "string list" | Pe_Override instant override | Pe_Remove string
  | Pe_Evaluate instant "'f contract" grant

definition perm_step :: "perm_engine \<Rightarrow> 'f perm_op \<Rightarrow> perm_engine" where
  "perm_step e a =
     (case a of
        Pe_Role r ps \<Rightarrow> fst (define_role r ps e)
      | Pe_Override now o' \<Rightarrow> fst (add_override now o' e)
      | Pe_Remove n \<Rightarrow> remove_override n e
      | Pe_Evaluate now c g \<Rightarrow> fst (evaluate now c g e))"

text \<open>The entry that says who installed an override.\<close>

definition installed_in :: "override \<Rightarrow> audit_entry list \<Rightarrow> bool" where
  "installed_in o' as \<longleftrightarrow>
     (\<exists>a \<in> set as. au_kind a = Audit_Override_Installed \<and> au_actor a = ov_authorised o' \<and> au_reason a = ov_reason o'
        \<and> map_of (au_details a) ''override'' = Some (Detail_Text (ov_name o'))
        \<and> map_of (au_details a) ''expires'' = Some (Detail_Time (ov_expires o')))"

definition perm_inv :: "perm_engine \<Rightarrow> bool" where
  "perm_inv e \<longleftrightarrow>
     (\<forall>n o'. map_of (pe_overrides e) n = Some o' \<longrightarrow>
        n = ov_name o' \<and> override_problems o' = []
        \<and> (case pe_audit e of None \<Rightarrow> True | Some as \<Rightarrow> installed_in o' as))"

lemma installed_in_append: "installed_in o' as \<Longrightarrow> installed_in o' (as @ bs)"
  by (auto simp: installed_in_def)

lemma write_audit_fields [simp]:
  "pe_overrides (write_audit a e) = pe_overrides e" "pe_roles (write_audit a e) = pe_roles e"
  "pe_audit (write_audit a e) = map_option (\<lambda>as. as @ [a]) (pe_audit e)"
  by (simp_all add: write_audit_def)

lemma write_audit_inv: "perm_inv e \<Longrightarrow> perm_inv (write_audit a e)"
  by (auto simp: perm_inv_def installed_in_append split: option.splits)

lemma evaluate_state: "fst (evaluate now c g e) = record_decision c g (snd (evaluate now c g e)) e"
  by (simp add: evaluate_def Let_def split: option.split)

lemma record_decision_inv: "perm_inv e \<Longrightarrow> perm_inv (record_decision c g d e)"
  by (simp add: record_decision_def write_audit_inv)

lemma add_override_inv: "perm_inv e \<Longrightarrow> perm_inv (fst (add_override now o' e))"
proof (cases "override_problems o' = []")
  case True
  assume I: "perm_inv e"
  let ?e = "fst (add_override now o' e)"
  show ?thesis unfolding perm_inv_def
  proof (intro allI impI)
    fix n p assume p: "map_of (pe_overrides ?e) n = Some p"
    show "n = ov_name p \<and> override_problems p = [] \<and> (case pe_audit ?e of None \<Rightarrow> True | Some as \<Rightarrow> installed_in p as)"
    proof (cases "n = ov_name o'")
      case new: True
      then have "p = o'" using p True by (simp add: add_override_def update_conv)
      then show ?thesis using new True by (auto simp: add_override_def installed_in_def split: option.split)
    next
      case False
      then have "map_of (pe_overrides e) n = Some p" using p True by (simp add: add_override_def update_conv)
      then show ?thesis using I True
        by (auto simp: perm_inv_def add_override_def installed_in_append split: option.splits)
    qed
  qed
qed (simp add: add_override_def)

lemma define_role_inv: "perm_inv e \<Longrightarrow> perm_inv (fst (define_role r ps e))"
  by (simp add: define_role_def perm_inv_def)

lemma remove_override_inv: "perm_inv e \<Longrightarrow> perm_inv (remove_override n e)"
  by (simp add: remove_override_def perm_inv_def delete_conv fun_upd_apply)

lemma perm_step_inv: "perm_inv e \<Longrightarrow> perm_inv (perm_step e a)"
  by (cases a) (simp_all add: perm_step_def define_role_inv add_override_inv remove_override_inv evaluate_state
      record_decision_inv)

interpretation permissions: invariant_ops perm_step perm_inv
  by unfold_locales (rule perm_step_inv)

lemma new_perm_inv: "perm_inv (new_perm_engine audited)"
  by (simp add: perm_inv_def new_perm_engine_def)

lemma audit_kept: "(pe_audit (perm_step e a) = None) = (pe_audit e = None)"
  by (cases a) (auto simp: perm_step_def define_role_def add_override_def remove_override_def evaluate_state record_decision_def)

lemma run_audited: "(pe_audit (run_ops perm_step e ops) = None) = (pe_audit e = None)"
  by (induction ops arbitrary: e) (simp_all add: audit_kept)

section \<open>Properties\<close>

text \<open>C15. The engine decides exactly the policy: a call is allowed if and only if the grant has not expired,
  the consent the contract names was presented, and the permissions it needs are held by the grant or
  its roles or all that are missing are waived by one override that is in force for the actor and the
  tool; a denial for want of a permission names exactly those that are missing.\<close>

theorem evaluate_is_the_policy:
  "(let d = snd (evaluate now c g e) in
     (dc_allowed d \<longleftrightarrow> grant_live now g \<and> consent_given c g
        \<and> (missing_permissions e c g = {}
           \<or> (\<exists>n o'. map_of (pe_overrides e) n = Some o' \<and> waives now c g (missing_permissions e c g) o')))
     \<and> decision_error d =
         (if dc_allowed d then None
          else if grant_live now g \<and> \<not> consent_given c g then Some Err_Consent_Required
          else Some Err_Permission_Denied)
     \<and> set (dc_missing d) =
         (if \<not> dc_allowed d \<and> grant_live now g \<and> consent_given c g then missing_permissions e c g else {})
     \<and> sorted (dc_missing d))"
  by (rule evaluate_cases [of now g c e]) (auto simp: Let_def denied_def allowed_def decision_error_def)


definition guarded_contract :: "int contract" where
  "guarded_contract = count_contract\<lparr>ct_permissions := [''p'', ''q'']\<rparr>"

definition emergency :: override where
  "emergency = \<lparr>ov_name = ''fire'', ov_permissions = [''q''], ov_actors = [], ov_tools = [''t''], ov_expires = Some 10,
     ov_authorised = ''ops'', ov_reason = ''outage''\<rparr>"

definition some_grant :: grant where
  "some_grant = \<lparr>gr_actor = ''s'', gr_permissions = [], gr_roles = [''r''], gr_consents = [], gr_expires = None\<rparr>"

definition two_perm_ops :: "int perm_op list" where
  "two_perm_ops = [Pe_Role ''r'' [''p''], Pe_Override 1 emergency]"

lemma emergency_allows:
  "dc_allowed (snd (evaluate 5 guarded_contract some_grant (run_ops perm_step (new_perm_engine True) two_perm_ops)))"
  "filter (\<lambda>p. p \<notin> set (held_permissions (run_ops perm_step (new_perm_engine True) two_perm_ops) some_grant))
     (ct_permissions guarded_contract) = [''q'']"
  by code_simp+


end
