(* ===== verification/GovConsent.thy ===== *)
theory GovConsent
  imports Prelude "HOL-Library.AList" StableSort "HOL-Library.Sublist" "HOL-Library.List_Lexorder" "HOL-Library.Char_ord"
begin

text \<open>
  Consent (\<^verbatim>\<open>packages/go/governance/consent.go\<close>): one live record per subject and basis, the
  history behind it, and the version of the terms.  Every operation takes the reading of the clock, and a grant
  the identifier minted for it.  A zero time is \<open>None\<close>.  What is written to the audit log is kept in
  the order it is written; the metrics are not modelled.
\<close>

section \<open>Records\<close>

datatype consent_state = Consent_Granted | Consent_Expired | Consent_Revoked | Consent_Superseded

fun consent_transitions :: "consent_state \<Rightarrow> consent_state list" where
  "consent_transitions Consent_Granted = [Consent_Expired, Consent_Revoked, Consent_Superseded]"
| "consent_transitions Consent_Expired = [Consent_Revoked]"
| "consent_transitions Consent_Revoked = []"
| "consent_transitions Consent_Superseded = [Consent_Revoked]"

definition can_transition :: "consent_state \<Rightarrow> consent_state \<Rightarrow> bool" where
  "can_transition from to = (to \<in> set (consent_transitions from))"

record consent_record =
  co_id :: string
  co_subject :: string
  co_basis :: string
  co_terms :: int
  co_state :: consent_state
  co_purpose :: string
  co_method :: string
  co_granted :: "instant option"
  co_expires :: "instant option"
  co_revoked :: "instant option"
  co_evidence :: string

datatype consent_problem = Consent_No_Subject | Consent_No_Basis | Consent_Terms | Consent_No_Method | Consent_Expiry

definition consent_problems :: "consent_record \<Rightarrow> consent_problem list" where
  "consent_problems c =
     (if co_subject c = [] then [Consent_No_Subject] else [])
     @ (if co_basis c = [] then [Consent_No_Basis] else [])
     @ (if co_terms c < 1 then [Consent_Terms] else [])
     @ (if co_method c = [] then [Consent_No_Method] else [])
     @ (case (co_expires c, co_granted c) of
          (Some x, Some g) \<Rightarrow> if \<not> g < x then [Consent_Expiry] else []
        | _ \<Rightarrow> [])"

definition lapsed :: "instant \<Rightarrow> consent_record \<Rightarrow> bool" where
  "lapsed now c = (case co_expires c of None \<Rightarrow> False | Some x \<Rightarrow> \<not> now < x)"

definition consent_live :: "instant \<Rightarrow> consent_record \<Rightarrow> bool" where
  "consent_live now c = (co_state c = Consent_Granted \<and> \<not> lapsed now c)"

type_synonym consent_key = "string \<times> string"

definition consent_key :: "consent_record \<Rightarrow> consent_key" where
  "consent_key c = (co_subject c, co_basis c)"

section \<open>The registry\<close>

datatype consent_audit = Audit_Granted | Audit_Revoked | Audit_Expired

record consent_registry =
  cr_live :: "(consent_key \<times> consent_record) list"
  cr_history :: "(consent_key \<times> consent_record list) list"
  cr_terms :: "(string \<times> int) list"
  cr_audit :: "(consent_audit \<times> consent_record \<times> string) list"

definition new_consents :: consent_registry where
  "new_consents = \<lparr>cr_live = [], cr_history = [], cr_terms = [], cr_audit = []\<rparr>"

datatype terms_error = Terms_No_Basis | Terms_Below_One | Terms_Backwards

definition set_terms_version :: "string \<Rightarrow> int \<Rightarrow> consent_registry \<Rightarrow> consent_registry \<times> terms_error option" where
  "set_terms_version basis v r =
     (if basis = [] then (r, Some Terms_No_Basis)
      else if v < 1 then (r, Some Terms_Below_One)
      else if (case map_of (cr_terms r) basis of None \<Rightarrow> False | Some c \<Rightarrow> v < c) then (r, Some Terms_Backwards)
      else (r\<lparr>cr_terms := AList.update basis v (cr_terms r)\<rparr>, None))"

definition terms_version :: "consent_registry \<Rightarrow> string \<Rightarrow> int" where
  "terms_version r basis = (case map_of (cr_terms r) basis of None \<Rightarrow> 1 | Some v \<Rightarrow> v)"

definition history_at :: "consent_registry \<Rightarrow> consent_key \<Rightarrow> consent_record list" where
  "history_at r k = (case map_of (cr_history r) k of None \<Rightarrow> [] | Some h \<Rightarrow> h)"

text \<open>What a grant fills in before it is checked, and what it stores.\<close>

definition grant_filled :: "instant \<Rightarrow> (string \<Rightarrow> int) \<Rightarrow> consent_record \<Rightarrow> consent_record" where
  "grant_filled now current c =
     (let c' = (if co_granted c = None then c\<lparr>co_granted := Some now\<rparr> else c)
      in if co_terms c' = 0 then c'\<lparr>co_terms := current (co_basis c')\<rparr> else c')"

definition grant_stored :: "string \<Rightarrow> consent_record \<Rightarrow> consent_record" where
  "grant_stored i c = c\<lparr>co_id := i, co_state := Consent_Granted, co_revoked := None\<rparr>"

definition grant_consent :: "string \<Rightarrow> instant \<Rightarrow> consent_record \<Rightarrow> consent_registry
    \<Rightarrow> consent_registry \<times> (consent_problem list + consent_record)" where
  "grant_consent i now c r =
     (let c' = grant_filled now (terms_version r) c in
      if consent_problems c' \<noteq> [] then (r, Inl (consent_problems c'))
      else
        (let c'' = grant_stored i c';
             k = consent_key c'';
             hist = (case map_of (cr_live r) k of
                       None \<Rightarrow> cr_history r
                     | Some prev \<Rightarrow>
                         AList.update k (history_at r k @
                           [if co_state prev = Consent_Granted then prev\<lparr>co_state := Consent_Superseded\<rparr> else prev]) (cr_history r))
         in (r\<lparr>cr_live := AList.update k c'' (cr_live r), cr_history := hist,
               cr_audit := cr_audit r @ [(Audit_Granted, c'', ''granted'')]\<rparr>, Inr c'')))"

datatype consent_error = Consent_Not_Found | Consent_Cannot_Move consent_state

definition revoke_consent :: "instant \<Rightarrow> string \<Rightarrow> string \<Rightarrow> string \<Rightarrow> consent_registry
    \<Rightarrow> consent_registry \<times> (consent_error + consent_record)" where
  "revoke_consent now subject basis reason r =
     (case map_of (cr_live r) (subject, basis) of
        None \<Rightarrow> (r, Inl Consent_Not_Found)
      | Some c \<Rightarrow>
          (if co_state c = Consent_Revoked then (r, Inr c)
           else if \<not> can_transition (co_state c) Consent_Revoked then (r, Inl (Consent_Cannot_Move (co_state c)))
           else
             (let c' = c\<lparr>co_state := Consent_Revoked, co_revoked := Some now\<rparr>
              in (r\<lparr>cr_live := AList.update (subject, basis) c' (cr_live r),
                    cr_audit := cr_audit r @ [(Audit_Revoked, c', reason)]\<rparr>, Inr c'))))"

datatype consent_check = Check_Not_Found | Check_Revoked consent_record | Check_Superseded consent_record int
  | Check_Expired consent_record | Check_Valid consent_record

definition check_consent :: "instant \<Rightarrow> string \<Rightarrow> string \<Rightarrow> consent_registry \<Rightarrow> consent_check" where
  "check_consent now subject basis r =
     (let current = terms_version r basis in
      case map_of (cr_live r) (subject, basis) of
        None \<Rightarrow> Check_Not_Found
      | Some c \<Rightarrow>
          (if co_state c = Consent_Revoked then Check_Revoked c
           else if co_terms c < current then Check_Superseded c current
           else if \<not> consent_live now c then Check_Expired c
           else Check_Valid c))"

fun check_valid :: "consent_check \<Rightarrow> bool" where
  "check_valid (Check_Valid c) = True"
| "check_valid k = False"

text \<open>The state a check reports.\<close>

fun check_state :: "consent_check \<Rightarrow> consent_state" where
  "check_state Check_Not_Found = Consent_Revoked"
| "check_state (Check_Revoked c) = Consent_Revoked"
| "check_state (Check_Superseded c v) = Consent_Superseded"
| "check_state (Check_Expired c) = Consent_Expired"
| "check_state (Check_Valid c) = Consent_Granted"

definition sweeps :: "instant \<Rightarrow> consent_record \<Rightarrow> bool" where
  "sweeps now c = (co_state c = Consent_Granted \<and> lapsed now c \<and> can_transition (co_state c) Consent_Expired)"

definition sweep_consents :: "instant \<Rightarrow> consent_registry \<Rightarrow> consent_registry \<times> nat" where
  "sweep_consents now r =
     (let moved = map (\<lambda>c. c\<lparr>co_state := Consent_Expired\<rparr>) (filter (sweeps now) (map snd (cr_live r)));
          ordered = stable_sort (\<lambda>a b. if co_subject a \<noteq> co_subject b then co_subject a < co_subject b
                                       else co_basis a < co_basis b) moved
      in (r\<lparr>cr_live := map (\<lambda>(k, c). (k, if sweeps now c then c\<lparr>co_state := Consent_Expired\<rparr> else c)) (cr_live r),
            cr_audit := cr_audit r @ map (\<lambda>c. (Audit_Expired, c, ''expired'')) ordered\<rparr>, length moved))"

definition consent_history :: "string \<Rightarrow> string \<Rightarrow> consent_registry \<Rightarrow> consent_record list" where
  "consent_history subject basis r =
     history_at r (subject, basis) @ (case map_of (cr_live r) (subject, basis) of None \<Rightarrow> [] | Some c \<Rightarrow> [c])"

definition for_subject :: "string \<Rightarrow> consent_registry \<Rightarrow> consent_record list" where
  "for_subject subject r =
     stable_sort (\<lambda>a b. co_basis a < co_basis b) (map snd (filter (\<lambda>(k, c). fst k = subject) (cr_live r)))"

fun revoke_each :: "instant \<Rightarrow> string \<Rightarrow> string \<Rightarrow> string list \<Rightarrow> consent_registry \<Rightarrow> consent_registry \<times> consent_record list" where
  "revoke_each now subject reason [] r = (r, [])"
| "revoke_each now subject reason (b # bs) r =
     (let (r', res) = revoke_consent now subject b reason r;
          (r'', out) = revoke_each now subject reason bs r'
      in (r'', (case res of Inr c \<Rightarrow> c # out | Inl _ \<Rightarrow> out)))"

definition revoke_all :: "instant \<Rightarrow> string \<Rightarrow> string \<Rightarrow> consent_registry \<Rightarrow> consent_registry \<times> consent_record list" where
  "revoke_all now subject reason r =
     revoke_each now subject reason
       (stable_sort (<) (map (\<lambda>(k, c). snd k) (filter (\<lambda>(k, c). fst k = subject \<and> co_state c \<noteq> Consent_Revoked) (cr_live r)))) r"

section \<open>Runs\<close>

datatype consent_op = Co_Terms string int | Co_Grant string consent_record | Co_Revoke string string string
  | Co_Sweep | Co_Revoke_All string string

fun consent_run :: "instant \<Rightarrow> consent_op \<Rightarrow> consent_registry \<Rightarrow> consent_registry" where
  "consent_run now (Co_Terms b v) r = fst (set_terms_version b v r)"
| "consent_run now (Co_Grant i c) r = fst (grant_consent i now c r)"
| "consent_run now (Co_Revoke s b w) r = fst (revoke_consent now s b w r)"
| "consent_run now Co_Sweep r = fst (sweep_consents now r)"
| "consent_run now (Co_Revoke_All s w) r = fst (revoke_all now s w r)"

definition consent_step :: "consent_registry \<Rightarrow> instant \<times> consent_op \<Rightarrow> consent_registry" where
  "consent_step r a = consent_run (fst a) (snd a) r"

section \<open>What is agreed: the specification\<close>

text \<open>Per subject and basis the terms and expiry last agreed to and not withdrawn since; per basis the current
  terms.  There is no state of a record, no history and no sweep.\<close>

record consent_spec =
  cs_agreed :: "consent_key \<Rightarrow> (int \<times> instant option) option"
  cs_terms :: "string \<Rightarrow> int"

definition spec_start :: consent_spec where
  "spec_start = \<lparr>cs_agreed = (\<lambda>_. None), cs_terms = (\<lambda>_. 1)\<rparr>"

fun spec_step :: "consent_spec \<Rightarrow> instant \<times> consent_op \<Rightarrow> consent_spec" where
  "spec_step a (now, Co_Terms b v) =
     (if b \<noteq> [] \<and> 1 \<le> v \<and> cs_terms a b \<le> v then a\<lparr>cs_terms := (cs_terms a)(b := v)\<rparr> else a)"
| "spec_step a (now, Co_Grant i c) =
     (let c' = grant_filled now (cs_terms a) c in
      if consent_problems c' = [] then a\<lparr>cs_agreed := (cs_agreed a)(consent_key c' \<mapsto> (co_terms c', co_expires c'))\<rparr> else a)"
| "spec_step a (now, Co_Revoke s b w) = a\<lparr>cs_agreed := (cs_agreed a)((s, b) := None)\<rparr>"
| "spec_step a (now, Co_Sweep) = a"
| "spec_step a (now, Co_Revoke_All s w) = a\<lparr>cs_agreed := (\<lambda>k. if fst k = s then None else cs_agreed a k)\<rparr>"

definition spec_valid :: "instant \<Rightarrow> string \<Rightarrow> string \<Rightarrow> consent_spec \<Rightarrow> bool" where
  "spec_valid now s b a =
     (case cs_agreed a (s, b) of
        None \<Rightarrow> False
      | Some (v, x) \<Rightarrow> cs_terms a b \<le> v \<and> (case x of None \<Rightarrow> True | Some t \<Rightarrow> now < t))"

section \<open>What each operation does to the live record and the terms\<close>

definition live_at :: "consent_registry \<Rightarrow> consent_key \<Rightarrow> consent_record option" where
  "live_at r = map_of (cr_live r)"

definition withdrawn :: "instant \<Rightarrow> consent_record \<Rightarrow> consent_record" where
  "withdrawn now c = (if co_state c = Consent_Revoked then c else c\<lparr>co_state := Consent_Revoked, co_revoked := Some now\<rparr>)"

lemma to_revoked: "can_transition st Consent_Revoked \<longleftrightarrow> st \<noteq> Consent_Revoked"
  by (cases st) (simp_all add: can_transition_def)

lemma live_terms [simp]: "live_at (fst (set_terms_version b v r)) = live_at r"
  by (simp add: set_terms_version_def live_at_def)

lemma live_revoke: "live_at (fst (revoke_consent now s b w r)) = (live_at r)((s, b) := map_option (withdrawn now) (live_at r (s, b)))"
  by (auto simp: revoke_consent_def live_at_def withdrawn_def to_revoked Let_def update_conv' fun_eq_iff split: option.splits)

lemma live_grant:
  "live_at (fst (grant_consent i now c r)) =
     (let c' = grant_filled now (terms_version r) c in
      if consent_problems c' = [] then (live_at r)(consent_key c' \<mapsto> grant_stored i c') else live_at r)"
  by (simp add: grant_consent_def Let_def live_at_def update_conv' consent_key_def grant_stored_def)

lemma live_sweep:
  "live_at (fst (sweep_consents now r)) k =
     map_option (\<lambda>c. if sweeps now c then c\<lparr>co_state := Consent_Expired\<rparr> else c) (live_at r k)"
  by (simp add: sweep_consents_def Let_def live_at_def map_of_map)

lemma each_step: "fst (revoke_each now s w (b # bs) r) = fst (revoke_each now s w bs (fst (revoke_consent now s b w r)))"
  by (simp split: prod.split)

lemma live_each:
  "live_at (fst (revoke_each now s w bs r)) = (\<lambda>k. if fst k = s \<and> snd k \<in> set bs then map_option (withdrawn now) (live_at r k) else live_at r k)"
proof (induction bs arbitrary: r)
  case Nil
  then show ?case by simp
next
  case (Cons b bs)
  have twice: "withdrawn now (withdrawn now c) = withdrawn now c" for c by (simp add: withdrawn_def)
  show ?case
    unfolding each_step Cons.IH live_revoke by (auto simp: fun_eq_iff option.map_comp comp_def twice)
qed

lemma live_all: "live_at (fst (revoke_all now s w r)) = (\<lambda>k. if fst k = s then map_option (withdrawn now) (live_at r k) else live_at r k)"
proof -
  let ?bs = "map (\<lambda>(k, c). snd k) (filter (\<lambda>(k, c). fst k = s \<and> co_state c \<noteq> Consent_Revoked) (cr_live r))"
  have "map_option (withdrawn now) (live_at r k) = live_at r k" if "fst k = s" "snd k \<notin> set ?bs" for k
  proof (cases "live_at r k")
    case (Some c)
    then have "(k, c) \<in> set (cr_live r)" by (simp add: live_at_def map_of_SomeD)
    then have "co_state c = Consent_Revoked" using that by force
    then show ?thesis using Some by (simp add: withdrawn_def)
  qed simp
  then show ?thesis by (auto simp: revoke_all_def live_each fun_eq_iff)
qed

lemma terms_set:
  "terms_version (fst (set_terms_version b v r)) =
     (if b \<noteq> [] \<and> 1 \<le> v \<and> terms_version r b \<le> v then (terms_version r)(b := v) else terms_version r)"
  by (auto simp: set_terms_version_def terms_version_def fun_eq_iff update_conv' split: option.splits)

lemma terms_revoke [simp]: "terms_version (fst (revoke_consent now s b w r)) = terms_version r"
  by (simp add: revoke_consent_def terms_version_def fun_eq_iff Let_def split: option.split)

lemma terms_each [simp]: "terms_version (fst (revoke_each now s w bs r)) = terms_version r"
proof (induction bs arbitrary: r)
  case (Cons b bs)
  then show ?case unfolding each_step by simp
qed simp

lemma terms_others [simp]:
  "terms_version (fst (grant_consent i now c r)) = terms_version r"
  "terms_version (fst (sweep_consents now r)) = terms_version r"
  "terms_version (fst (revoke_all now s w r)) = terms_version r"
  by (simp_all add: grant_consent_def sweep_consents_def revoke_all_def Let_def terms_version_def fun_eq_iff)

section \<open>The registry implements the specification\<close>

definition agrees_at :: "instant \<Rightarrow> consent_record option \<Rightarrow> (int \<times> instant option) option \<Rightarrow> bool" where
  "agrees_at t l g =
     (case l of
        None \<Rightarrow> g = None
      | Some c \<Rightarrow> (if co_state c = Consent_Revoked then g = None
                   else g = Some (co_terms c, co_expires c) \<and> co_state c \<noteq> Consent_Superseded
                        \<and> (co_state c = Consent_Expired \<longrightarrow> lapsed t c)))"

definition implements :: "instant \<Rightarrow> consent_registry \<Rightarrow> consent_spec \<Rightarrow> bool" where
  "implements t r a \<longleftrightarrow> terms_version r = cs_terms a \<and> (\<forall>k. agrees_at t (live_at r k) (cs_agreed a k))"

lemma agrees_later: "agrees_at t l g \<Longrightarrow> t \<le> t' \<Longrightarrow> agrees_at t' l g"
  by (auto simp: agrees_at_def lapsed_def split: option.splits if_splits)

lemma implementsD:
  assumes "implements t r a" "t \<le> now"
  shows "terms_version r = cs_terms a" "agrees_at now (live_at r k) (cs_agreed a k)"
  using assms agrees_later unfolding implements_def by blast+

lemma withdrawn_agrees: "agrees_at t (map_option (withdrawn now) l) None"
  by (cases l) (auto simp: agrees_at_def withdrawn_def)

lemma implements_step:
  assumes "implements t r a" "t \<le> now"
  shows "implements now (consent_step r (now, op)) (spec_step a (now, op))"
proof -
  have T: "terms_version r = cs_terms a" and A: "\<And>k. agrees_at now (live_at r k) (cs_agreed a k)"
    using implementsD [OF assms] by blast+
  show ?thesis
  proof (cases op)
    case (Co_Terms b v)
    then show ?thesis using T A by (simp add: implements_def consent_step_def terms_set)
  next
    case (Co_Grant i c)
    then show ?thesis using T A
      by (simp add: implements_def consent_step_def live_grant Let_def) (simp add: agrees_at_def grant_stored_def)
  next
    case (Co_Revoke s b w)
    then show ?thesis using T A by (simp add: implements_def consent_step_def live_revoke withdrawn_agrees)
  next
    case Co_Sweep
    have "agrees_at now (map_option (\<lambda>c. if sweeps now c then c\<lparr>co_state := Consent_Expired\<rparr> else c) (live_at r k)) (cs_agreed a k)" for k
      using A [of k] by (auto simp: agrees_at_def sweeps_def lapsed_def split: option.splits if_splits)
    then show ?thesis using Co_Sweep T by (simp add: implements_def consent_step_def live_sweep)
  next
    case (Co_Revoke_All s w)
    then show ?thesis using T A by (simp add: implements_def consent_step_def live_all withdrawn_agrees)
  qed
qed

lemma implements_run:
  "implements t r a \<Longrightarrow> sorted (t # map fst ops) \<Longrightarrow>
     implements (last (t # map fst ops)) (run_ops consent_step r ops) (run_ops spec_step a ops)"
proof (induction ops arbitrary: t r a)
  case Nil
  then show ?case by simp
next
  case (Cons x ops)
  obtain now op where x: "x = (now, op)" by (cases x)
  have "implements now (consent_step r x) (spec_step a x)"
    using implements_step [of t r a now op] Cons.prems x by simp
  from Cons.IH [OF this] Cons.prems show ?case using x by simp
qed

lemma implements_check:
  "implements t r a \<Longrightarrow> t \<le> now \<Longrightarrow> check_valid (check_consent now s b r) = spec_valid now s b a"
  using implementsD(1) [of t r a now] implementsD(2) [of t r a now "(s, b)"]
  by (cases "co_state (the (map_of (cr_live r) (s, b)))")
    (auto simp: check_consent_def spec_valid_def Let_def live_at_def agrees_at_def consent_live_def lapsed_def
      split: option.splits if_splits)

text \<open>C30. On a clock that does not go back, a check is positive exactly when the last thing the subject did about
  that basis was to agree, to terms no older than the current ones, and the agreement has not run out; sweeps
  and how records are stored make no difference.\<close>

theorem consent_is_the_last_word:
  assumes "sorted (map fst ops)" and "list_all (\<lambda>a. fst a \<le> now) ops"
  shows "check_valid (check_consent now s b (run_ops consent_step new_consents ops))
    = spec_valid now s b (run_ops spec_step spec_start ops)"
proof (cases ops)
  case Nil
  then show ?thesis by (simp add: check_consent_def new_consents_def spec_valid_def spec_start_def Let_def)
next
  case (Cons x xs)
  have "implements (fst x) new_consents spec_start"
    by (simp add: implements_def new_consents_def spec_start_def live_at_def agrees_at_def terms_version_def fun_eq_iff)
  then have "implements (last (fst x # map fst ops)) (run_ops consent_step new_consents ops) (run_ops spec_step spec_start ops)"
    by (rule implements_run) (use assms Cons in auto)
  moreover have "last (fst x # map fst ops) \<le> now"
    using assms(2) Cons by (auto simp: list_all_iff last_map)
  ultimately show ?thesis by (rule implements_check)
qed

definition agreement :: "string \<Rightarrow> int \<Rightarrow> instant option \<Rightarrow> consent_record" where
  "agreement b v x = \<lparr>co_id = [], co_subject = ''s'', co_basis = b, co_terms = v, co_state = Consent_Granted,
     co_purpose = [], co_method = ''ivr'', co_granted = None, co_expires = x, co_revoked = None, co_evidence = []\<rparr>"

theorem consent_is_the_last_word_witness:
  "check_valid (check_consent 9 ''s'' ''rec'' (run_ops consent_step new_consents
     [(1, Co_Grant ''i1'' (agreement ''rec'' 0 (Some 3))), (4, Co_Sweep), (5, Co_Revoke ''s'' ''rec'' ''no''),
      (6, Co_Grant ''i2'' (agreement ''rec'' 0 (Some 12)))]))"
  by (subst consent_is_the_last_word) code_simp+

section \<open>The history\<close>

text \<open>A record only moves along the declared transitions, and keeps everything else.\<close>

definition evolves :: "consent_record \<Rightarrow> consent_record \<Rightarrow> bool" where
  "evolves c d \<longleftrightarrow> d = c
     \<or> can_transition (co_state c) (co_state d) \<and> d = c\<lparr>co_state := co_state d, co_revoked := co_revoked d\<rparr>"

lemma evolves_refl: "evolves c c"
  by (simp add: evolves_def)

lemma can_transition_trans: "can_transition a b \<Longrightarrow> can_transition b c \<Longrightarrow> can_transition a c"
  by (cases a; cases b; cases c) (simp_all add: can_transition_def)

lemma evolves_trans:
  assumes "evolves a b" "evolves b c"
  shows "evolves a c"
proof (cases "b = a \<or> c = b")
  case True
  then show ?thesis using assms by auto
next
  case False
  then have "can_transition (co_state a) (co_state c)" using assms can_transition_trans by (auto simp: evolves_def)
  moreover have "b = a\<lparr>co_state := co_state b, co_revoked := co_revoked b\<rparr>" "c = b\<lparr>co_state := co_state c, co_revoked := co_revoked c\<rparr>"
    using False assms by (auto simp: evolves_def)
  then have "c = a\<lparr>co_state := co_state c, co_revoked := co_revoked c\<rparr>" by (cases a; cases b; cases c) simp
  ultimately show ?thesis by (simp add: evolves_def)
qed

definition extends :: "consent_record list \<Rightarrow> consent_record list \<Rightarrow> bool" where
  "extends h h' \<longleftrightarrow> length h \<le> length h' \<and> list_all2 evolves h (take (length h) h')"

lemma extends_refl: "extends h h"
  by (simp add: extends_def list_all2_refl evolves_refl)

lemma extends_trans:
  assumes "extends a b" "extends b c"
  shows "extends a c"
proof -
  have l: "length a \<le> length b" "length b \<le> length c" using assms by (simp_all add: extends_def)
  have "list_all2 evolves (take (length a) b) (take (length a) (take (length b) c))"
    using assms(2) unfolding extends_def by (blast intro: list_all2_takeI)
  then have bc: "list_all2 evolves (take (length a) b) (take (length a) c)" using l by (simp add: min_absorb1)
  have ab: "list_all2 evolves a (take (length a) b)" using assms(1) by (simp add: extends_def)
  have "list_all2 evolves a (take (length a) c)" by (rule list_all2_trans [OF _ ab bc]) (rule evolves_trans)
  then show ?thesis using l by (simp add: extends_def)
qed

lemma extends_last: "evolves c d \<Longrightarrow> extends (h @ [c]) (h @ [d])"
  by (simp add: extends_def list_all2_appendI list_all2_refl evolves_refl)

lemma extends_more: "evolves c d \<Longrightarrow> extends (h @ [c]) (h @ [d, e])"
  by (simp add: extends_def list_all2_appendI list_all2_refl evolves_refl)

lemma history_live: "consent_history s b r = history_at r (s, b) @ (case live_at r (s, b) of None \<Rightarrow> [] | Some c \<Rightarrow> [c])"
  by (simp add: consent_history_def live_at_def)

lemma withdrawn_evolves: "evolves c (withdrawn now c)"
  by (simp add: evolves_def withdrawn_def to_revoked)

lemma sweep_evolves: "evolves c (if sweeps now c then c\<lparr>co_state := Consent_Expired\<rparr> else c)"
  by (auto simp: evolves_def sweeps_def)

lemma live_map_extends:
  "history_at r' (s, b) = history_at r (s, b) \<Longrightarrow> live_at r' (s, b) = map_option f (live_at r (s, b)) \<Longrightarrow> (\<And>c. evolves c (f c))
     \<Longrightarrow> extends (consent_history s b r) (consent_history s b r')"
  by (cases "live_at r (s, b)") (simp_all add: history_live extends_refl extends_last)

lemma history_same [simp]:
  "history_at (fst (set_terms_version b v r)) = history_at r" "history_at (fst (revoke_consent now s b w r)) = history_at r"
  "history_at (fst (sweep_consents now r)) = history_at r"
  by (simp_all add: set_terms_version_def revoke_consent_def sweep_consents_def Let_def history_at_def fun_eq_iff split: option.split)

lemma history_each [simp]: "history_at (fst (revoke_each now s w bs r)) = history_at r"
proof (induction bs arbitrary: r)
  case (Cons b bs)
  then show ?case unfolding each_step by simp
qed simp

lemma history_all: "history_at (fst (revoke_all now s w r)) = history_at r"
  by (simp add: revoke_all_def)

lemma history_grant:
  "consent_problems (grant_filled now (terms_version r) c) = [] \<Longrightarrow> k = consent_key (grant_filled now (terms_version r) c) \<Longrightarrow>
     history_at (fst (grant_consent i now c r)) k' =
       (if k' = k then history_at r k @ (case live_at r k of None \<Rightarrow> []
          | Some p \<Rightarrow> [if co_state p = Consent_Granted then p\<lparr>co_state := Consent_Superseded\<rparr> else p])
        else history_at r k')"
  by (cases "live_at r k") (simp_all add: grant_consent_def Let_def live_at_def history_at_def consent_key_def grant_stored_def update_conv')

lemma history_step: "extends (consent_history s b r) (consent_history s b (consent_step r (now, op)))"
proof (cases op)
  case (Co_Terms b' v)
  then show ?thesis by (simp add: consent_step_def history_live extends_refl)
next
  case (Co_Grant i c)
  let ?c = "grant_filled now (terms_version r) c"
  show ?thesis
  proof (cases "consent_problems ?c = [] \<and> consent_key ?c = (s, b)")
    case True
    have e: "evolves p (if co_state p = Consent_Granted then p\<lparr>co_state := Consent_Superseded\<rparr> else p)" for p
      by (simp add: evolves_def can_transition_def)
    show ?thesis using True e Co_Grant extends_refl
      by (cases "live_at r (s, b)")
        (simp_all add: consent_step_def history_live history_grant live_grant Let_def extends_more,
         simp add: extends_def list_all2_refl evolves_refl)
  next
    case False
    show ?thesis
    proof (cases "consent_problems ?c = []")
      case True
      then have "(s, b) \<noteq> consent_key ?c" using False by auto
      then show ?thesis using True Co_Grant
        by (simp add: consent_step_def history_live history_grant [OF True refl] live_grant Let_def extends_refl)
    next
      case False
      then show ?thesis using Co_Grant by (simp add: consent_step_def grant_consent_def Let_def extends_refl)
    qed
  qed
next
  case (Co_Revoke s' b' w)
  have id: "(\<And>c. evolves c ((if (s, b) = (s', b') then withdrawn now else (\<lambda>c. c)) c))" by (simp add: withdrawn_evolves evolves_refl)
  show ?thesis
    by (rule live_map_extends [OF _ _ id]) (simp_all add: Co_Revoke consent_step_def live_revoke option.map_ident)
next
  case Co_Sweep
  show ?thesis by (rule live_map_extends [OF _ _ sweep_evolves]) (simp_all add: Co_Sweep consent_step_def live_sweep)
next
  case (Co_Revoke_All s' w)
  have id: "(\<And>c. evolves c ((if s = s' then withdrawn now else (\<lambda>c. c)) c))" by (simp add: withdrawn_evolves evolves_refl)
  show ?thesis
    by (rule live_map_extends [OF _ _ id]) (simp_all add: Co_Revoke_All consent_step_def live_all history_all option.map_ident)
qed

text \<open>What a subject agreed to and withdrew is never erased: over any operations on any registry the history of
  a subject and basis only grows, a record in it keeps its identity, terms, method, instants and evidence, its
  state moves only along the declared transitions, and so a revocation stays as it was recorded.\<close>

theorem consent_history_is_kept:
  "extends (consent_history s b r) (consent_history s b (run_ops consent_step r ops))"
proof (induction ops arbitrary: r)
  case Nil
  then show ?case by (simp add: extends_refl)
next
  case (Cons a ops)
  show ?case using extends_trans [OF history_step [of s b r "fst a" "snd a"] Cons.IH [of "consent_step r (fst a, snd a)"]] by simp
qed

text \<open>An agreement to terms that do not exist yet is accepted, and is valid when the current version reaches
  them, although the subject was never shown them.\<close>

theorem future_terms_are_accepted:
  "check_valid (check_consent 9 ''s'' ''rec'' (run_ops consent_step new_consents
     [(1, Co_Grant ''i'' (agreement ''rec'' 7 None)), (2, Co_Terms ''rec'' 7)]))"
  by code_simp

end
