(* ===== verification/GovAction.thy ===== *)
theory GovAction
  imports ToolValue Complex_Main "HOL-Library.Sublist"
begin

text \<open>
  What the governance engine is asked (\<^verbatim>\<open>packages/go/governance/action.go\<close>, the enumerations of
  \<^verbatim>\<open>risk.go\<close> and \<^verbatim>\<open>privacy.go\<close>) and the structural check before policy sees it (\<^verbatim>\<open>validator.go\<close>).
  An enumeration has the declared constants only.  Numbers of attributes and weights are finite, so
  rationals; the text \<^verbatim>\<open>strconv.FormatFloat\<close> gives a number is the parameter \<open>nt\<close>.  A Go map is the
  list of its pairs in any order.
\<close>

section \<open>Enumerations\<close>

datatype action_kind = Kind_Conversation | Kind_Memory | Kind_Tool | Kind_Notification | Kind_External

fun kind_name :: "action_kind \<Rightarrow> string" where
  "kind_name Kind_Conversation = ''conversation''"
| "kind_name Kind_Memory = ''memory''"
| "kind_name Kind_Tool = ''tool''"
| "kind_name Kind_Notification = ''notification''"
| "kind_name Kind_External = ''external''"

definition parse_action_kind :: "string \<Rightarrow> action_kind \<times> bool" where
  "parse_action_kind s =
     (if s = ''conversation'' then (Kind_Conversation, True)
      else if s = ''memory'' then (Kind_Memory, True)
      else if s = ''tool'' then (Kind_Tool, True)
      else if s = ''notification'' then (Kind_Notification, True)
      else if s = ''external'' then (Kind_External, True)
      else (Kind_External, False))"

datatype reversibility = Rev_None | Rev_Fully | Rev_Partially | Rev_Never

fun rev_name :: "reversibility \<Rightarrow> string" where
  "rev_name Rev_None = ''none''"
| "rev_name Rev_Fully = ''fully''"
| "rev_name Rev_Partially = ''partially''"
| "rev_name Rev_Never = ''never''"

definition rev_mutating :: "reversibility \<Rightarrow> bool" where
  "rev_mutating r = (r \<noteq> Rev_None)"

datatype classification = Class_Public | Class_Internal | Class_Personal | Class_Sensitive | Class_Secret

fun class_rank :: "classification \<Rightarrow> nat" where
  "class_rank Class_Public = 0"
| "class_rank Class_Internal = 1"
| "class_rank Class_Personal = 2"
| "class_rank Class_Sensitive = 3"
| "class_rank Class_Secret = 4"

fun class_name :: "classification \<Rightarrow> string" where
  "class_name Class_Public = ''public''"
| "class_name Class_Internal = ''internal''"
| "class_name Class_Personal = ''personal''"
| "class_name Class_Sensitive = ''sensitive''"
| "class_name Class_Secret = ''secret''"

definition class_personal :: "classification \<Rightarrow> bool" where
  "class_personal c = (class_rank c \<ge> class_rank Class_Personal \<and> c \<noteq> Class_Secret)"

datatype risk_level = Risk_Low | Risk_Medium | Risk_High | Risk_Critical

fun risk_rank :: "risk_level \<Rightarrow> nat" where
  "risk_rank Risk_Low = 0"
| "risk_rank Risk_Medium = 1"
| "risk_rank Risk_High = 2"
| "risk_rank Risk_Critical = 3"

text \<open>\<^verbatim>\<open>level++\<close>; the code never raises the last level.\<close>

fun risk_next :: "risk_level \<Rightarrow> risk_level" where
  "risk_next Risk_Low = Risk_Medium"
| "risk_next Risk_Medium = Risk_High"
| "risk_next Risk_High = Risk_Critical"
| "risk_next Risk_Critical = Risk_Critical"

fun risk_name :: "risk_level \<Rightarrow> string" where
  "risk_name Risk_Low = ''low''"
| "risk_name Risk_Medium = ''medium''"
| "risk_name Risk_High = ''high''"
| "risk_name Risk_Critical = ''critical''"

definition parse_risk_level :: "string \<Rightarrow> risk_level option" where
  "parse_risk_level s =
     (if s = ''low'' then Some Risk_Low else if s = ''medium'' then Some Risk_Medium
      else if s = ''high'' then Some Risk_High else if s = ''critical'' then Some Risk_Critical else None)"

lemma risk_rank_inj: "risk_rank a = risk_rank b \<longleftrightarrow> a = b"
  by (cases a; cases b) simp_all

instantiation risk_level :: linorder
begin

definition less_eq_risk_level :: "risk_level \<Rightarrow> risk_level \<Rightarrow> bool" where
  "a \<le> b = (risk_rank a \<le> risk_rank b)"

definition less_risk_level :: "risk_level \<Rightarrow> risk_level \<Rightarrow> bool" where
  "a < b = (risk_rank a < risk_rank b)"

instance
  by standard (auto simp: less_eq_risk_level_def less_risk_level_def risk_rank_inj)

end

section \<open>Attributes\<close>

datatype attr = A_Str string | A_Num rat | A_Bool bool | A_Absent

type_synonym attrs = "(string \<times> attr) list"

definition attr_display :: "(rat \<Rightarrow> string) \<Rightarrow> attr \<Rightarrow> string" where
  "attr_display nt a =
     (case a of A_Str s \<Rightarrow> s | A_Num x \<Rightarrow> nt x | A_Bool b \<Rightarrow> (if b then ''true'' else ''false'')
      | A_Absent \<Rightarrow> ''<absent>'')"

definition attr_canonical :: "(rat \<Rightarrow> string) \<Rightarrow> attr \<Rightarrow> string" where
  "attr_canonical nt a =
     (case a of
        A_Str s \<Rightarrow> ''0'' @ itoa (length s) @ '':'' @ s
      | A_Num x \<Rightarrow> ''1'' @ nt x
      | A_Bool b \<Rightarrow> ''2'' @ (if b then ''t'' else ''f'')
      | A_Absent \<Rightarrow> ''3'')"

definition attrs_keys :: "attrs \<Rightarrow> string list" where
  "attrs_keys a = sort (remdups (map fst a))"

definition attrs_get :: "attrs \<Rightarrow> string \<Rightarrow> attr" where
  "attrs_get a k = (case map_of a k of Some v \<Rightarrow> v | None \<Rightarrow> A_Absent)"

definition attrs_canonical :: "(rat \<Rightarrow> string) \<Rightarrow> attrs \<Rightarrow> string" where
  "attrs_canonical nt a =
     concat (map (\<lambda>k. itoa (length k) @ '':'' @ k @ ''='' @ attr_canonical nt (attrs_get a k) @ '';'') (attrs_keys a))"

section \<open>Requests\<close>

record gov_action =
  ac_kind :: action_kind
  ac_operation :: string
  ac_resource :: string
  ac_reversibility :: reversibility
  ac_class :: classification
  ac_attributes :: attrs

datatype action_problem = No_Operation | Empty_Attribute

definition action_problems :: "gov_action \<Rightarrow> action_problem list" where
  "action_problems a =
     (if ac_operation a = [] then [No_Operation] else [])
     @ map (\<lambda>_. Empty_Attribute) (filter (\<lambda>k. k = []) (attrs_keys (ac_attributes a)))"

definition action_label :: "gov_action \<Rightarrow> string" where
  "action_label a = kind_name (ac_kind a) @ '':'' @ ac_operation a"

definition action_canonical :: "(rat \<Rightarrow> string) \<Rightarrow> gov_action \<Rightarrow> string" where
  "action_canonical nt a =
     kind_name (ac_kind a) @ ''|'' @ ac_operation a @ ''|'' @ ac_resource a @ ''|'' @ rev_name (ac_reversibility a)
     @ ''|'' @ class_name (ac_class a) @ ''|'' @ attrs_canonical nt (ac_attributes a)"

text \<open>A risk observation and the aggregate a decision sees.\<close>

record signal =
  sg_source :: string
  sg_kind :: string
  sg_level :: risk_level
  sg_weight :: rat
  sg_detail :: string

record assessment =
  ra_level :: risk_level
  ra_signals :: "signal list"
  ra_explanation :: string
  ra_capped :: bool

record gov_request =
  gq_action :: gov_action
  gq_actor :: string
  gq_subject :: string
  gq_org :: string
  gq_business :: string
  gq_session :: string
  gq_correlation :: string
  gq_roles :: "string list"
  gq_risk :: assessment
  gq_context :: attrs

text \<open>\<^verbatim>\<open>strings.Join\<close> with a comma.\<close>

fun join_comma :: "string list \<Rightarrow> string" where
  "join_comma [] = []"
| "join_comma [s] = s"
| "join_comma (s # ss) = s @ '','' @ join_comma ss"

definition request_print :: "(string \<Rightarrow> string) \<Rightarrow> (rat \<Rightarrow> string) \<Rightarrow> gov_request \<Rightarrow> string" where
  "request_print hash nt r =
     hash (action_canonical nt (gq_action r) @ ''|'' @ gq_actor r @ ''|'' @ gq_subject r @ ''|'' @ gq_org r @ ''|''
       @ gq_business r @ ''|'' @ join_comma (sort (gq_roles r)) @ ''|''
       @ risk_name (ra_level (gq_risk r)) @ ''|'' @ attrs_canonical nt (gq_context r))"

section \<open>The structural check\<close>

record kind_spec =
  ks_operations :: "string list"
  ks_required :: "string list"
  ks_subject :: bool
  ks_mutating :: "string list"
  ks_reversibility :: bool
  ks_max_resource :: int

record validator =
  va_specs :: "(action_kind \<times> kind_spec) list"
  va_max_attribute :: int
  va_max_resource :: int
  va_max_attributes :: int

definition no_spec :: kind_spec where
  "no_spec = \<lparr>ks_operations = [], ks_required = [], ks_subject = False, ks_mutating = [], ks_reversibility = False,
     ks_max_resource = 0\<rparr>"

definition default_validator :: validator where
  "default_validator =
     \<lparr>va_specs =
        [(Kind_Conversation, no_spec\<lparr>ks_operations := [''speak'', ''listen'', ''summarise'', ''classify'', ''end_call'',
            ''transfer''], ks_subject := True\<rparr>),
         (Kind_Memory, no_spec\<lparr>ks_operations := [''read'', ''write'', ''update'', ''delete'', ''export'', ''search''],
            ks_mutating := [''write'', ''update'', ''delete'', ''export''], ks_subject := True\<rparr>),
         (Kind_Tool, no_spec\<lparr>ks_required := [''capability'']\<rparr>),
         (Kind_Notification, no_spec\<lparr>ks_operations := [''send'', ''schedule'', ''cancel''],
            ks_mutating := [''send'', ''schedule''], ks_required := [''channel''], ks_subject := True\<rparr>),
         (Kind_External, no_spec\<lparr>ks_required := [''destination''], ks_reversibility := True\<rparr>)],
      va_max_attribute = 256, va_max_resource = 512, va_max_attributes = 32\<rparr>"

datatype validator_problem = Max_Attribute_Not_Positive | Max_Resource_Not_Positive | Max_Attributes_Not_Positive

definition validator_problems :: "validator \<Rightarrow> validator_problem list" where
  "validator_problems v =
     (if va_max_attribute v \<le> 0 then [Max_Attribute_Not_Positive] else [])
     @ (if va_max_resource v \<le> 0 then [Max_Resource_Not_Positive] else [])
     @ (if va_max_attributes v \<le> 0 then [Max_Attributes_Not_Positive] else [])"

datatype request_fault = Action_Fault action_problem | No_Actor | Too_Many_Attributes string
  | Attribute_Too_Long string string | Attribute_Line_Break string string | Resource_Too_Long
  | Unknown_Operation | Attribute_Missing string | No_Subject | Claims_Reversible

definition request_problems_gov :: "gov_request \<Rightarrow> request_fault list" where
  "request_problems_gov r =
     map Action_Fault (action_problems (gq_action r)) @ (if gq_actor r = [] then [No_Actor] else [])"

definition check_attributes :: "validator \<Rightarrow> string \<Rightarrow> attrs \<Rightarrow> request_fault list" where
  "check_attributes v place a =
     (if va_max_attributes v > 0 \<and> int (length (attrs_keys a)) > va_max_attributes v then [Too_Many_Attributes place] else [])
     @ concat (map (\<lambda>k.
          case attrs_get a k of
            A_Str s \<Rightarrow>
              (if va_max_attribute v > 0 \<and> int (length s) > va_max_attribute v then [Attribute_Too_Long place k] else [])
              @ (if CHR 0x0A \<in> set s \<or> CHR 0x0D \<in> set s then [Attribute_Line_Break place k] else [])
          | _ \<Rightarrow> []) (attrs_keys a))"

definition check_spec :: "kind_spec \<Rightarrow> gov_request \<Rightarrow> request_fault list" where
  "check_spec s r =
     (let a = gq_action r in
      (if ks_operations s \<noteq> [] \<and> ac_operation a \<notin> set (ks_operations s) then [Unknown_Operation] else [])
      @ map Attribute_Missing (filter (\<lambda>k. map_of (ac_attributes a) k = None) (ks_required s))
      @ (if ks_subject s \<and> gq_subject r = [] then [No_Subject] else [])
      @ (if ac_reversibility a = Rev_None \<and> (ks_reversibility s \<or> ac_operation a \<in> set (ks_mutating s))
         then [Claims_Reversible] else []))"

definition check_request :: "validator \<Rightarrow> gov_request \<Rightarrow> request_fault list" where
  "check_request v r =
     (let spec = map_of (va_specs v) (ac_kind (gq_action r));
          max_res = (case spec of
                       Some s \<Rightarrow> if ks_max_resource s > 0 then ks_max_resource s else va_max_resource v
                     | None \<Rightarrow> va_max_resource v)
      in request_problems_gov r
         @ check_attributes v ''action'' (ac_attributes (gq_action r))
         @ check_attributes v ''context'' (gq_context r)
         @ (if max_res > 0 \<and> int (length (ac_resource (gq_action r))) > max_res then [Resource_Too_Long] else [])
         @ (case spec of Some s \<Rightarrow> check_spec s r | None \<Rightarrow> []))"

end
