(* ===== verification/GovDecision.thy ===== *)
theory GovDecision
  imports GovAction StableSort "HOL-Library.AList"
begin

text \<open>
  What the governance engine answers (\<^verbatim>\<open>packages/go/governance/decision.go\<close>), and the two overlays
  that can only make it stricter: risk (\<^verbatim>\<open>risk.go\<close>) and privacy (\<^verbatim>\<open>privacy.go\<close>).  A zero time
  is \<open>None\<close>.
\<close>

section \<open>Outcomes\<close>

datatype outcome = Deny | Allow | Escalate | Require_Confirmation | Require_Consent | Require_Human
  | Require_Supervisor | Retry_Later | Queue | Defer

definition permits :: "outcome \<Rightarrow> bool" where
  "permits o' = (o' = Allow)"

definition outcome_terminal :: "outcome \<Rightarrow> bool" where
  "outcome_terminal o' = (o' = Deny \<or> o' = Allow)"

definition needs_human :: "outcome \<Rightarrow> bool" where
  "needs_human o' = (o' \<in> {Escalate, Require_Confirmation, Require_Human, Require_Supervisor})"

fun severity :: "outcome \<Rightarrow> nat" where
  "severity Deny = 5"
| "severity Require_Supervisor = 4"
| "severity Require_Human = 3"
| "severity Require_Consent = 2"
| "severity Require_Confirmation = 2"
| "severity Escalate = 2"
| "severity Retry_Later = 1"
| "severity Queue = 1"
| "severity Defer = 1"
| "severity Allow = 0"

section \<open>Obligations\<close>

record obligation =
  ob_kind :: string
  ob_target :: string
  ob_reason :: string
  ob_deadline :: "instant option"
  ob_policy :: string

text \<open>The kinds are fixed words without the separator, so the key is the pair.\<close>

definition ob_key :: "obligation \<Rightarrow> string \<times> string" where
  "ob_key o' = (ob_kind o', ob_target o')"

text \<open>One obligation into the index: the earlier deadline stays.\<close>

definition merge_one :: "obligation \<Rightarrow> ((string \<times> string) \<times> obligation) list \<Rightarrow> ((string \<times> string) \<times> obligation) list" where
  "merge_one o' index =
     (case map_of index (ob_key o') of
        None \<Rightarrow> index @ [(ob_key o', o')]
      | Some e \<Rightarrow>
          (case ob_deadline o' of
             None \<Rightarrow> index
           | Some d \<Rightarrow>
               (if (case ob_deadline e of None \<Rightarrow> True | Some d' \<Rightarrow> d < d')
                then AList.update (ob_key o') (e\<lparr>ob_deadline := Some d\<rparr>) index else index)))"

definition obligation_before :: "obligation \<Rightarrow> obligation \<Rightarrow> bool" where
  "obligation_before a b =
     (if ob_kind a \<noteq> ob_kind b then ob_kind a < ob_kind b
      else if ob_target a \<noteq> ob_target b then ob_target a < ob_target b
      else ob_policy a < ob_policy b)"

definition merge_obligations :: "obligation list list \<Rightarrow> obligation list" where
  "merge_obligations sets = stable_sort obligation_before (map snd (fold merge_one (concat sets) []))"

section \<open>Risk\<close>

record aggregator =
  ag_ceiling :: risk_level
  ag_min_weight :: rat
  ag_escalate_on :: int

definition default_aggregator :: aggregator where
  "default_aggregator = \<lparr>ag_ceiling = Risk_Critical, ag_min_weight = 1 / 100, ag_escalate_on = 3\<rparr>"

datatype aggregator_problem = Min_Weight_Outside | Escalate_Negative

definition aggregator_problems :: "aggregator \<Rightarrow> aggregator_problem list" where
  "aggregator_problems a =
     (if ag_min_weight a < 0 \<or> ag_min_weight a > 1 then [Min_Weight_Outside] else [])
     @ (if ag_escalate_on a < 0 then [Escalate_Negative] else [])"

definition signal_before :: "signal \<Rightarrow> signal \<Rightarrow> bool" where
  "signal_before a b =
     (if sg_level a \<noteq> sg_level b then sg_level a > sg_level b
      else if sg_source a \<noteq> sg_source b then sg_source a < sg_source b
      else sg_kind a < sg_kind b)"

definition counted :: "aggregator \<Rightarrow> signal \<Rightarrow> bool" where
  "counted a s = (\<not> (sg_weight s \<le> 0 \<or> sg_weight s < ag_min_weight a))"

definition explain_risk :: "risk_level \<Rightarrow> signal list \<Rightarrow> bool \<Rightarrow> string" where
  "explain_risk level ranked capped =
     (let cs = take 3 (map (\<lambda>s. sg_source s @ ''/'' @ sg_kind s) (filter (\<lambda>s. sg_level s \<ge> level \<and> sg_weight s > 0) ranked))
      in if cs = [] then ''all signals below the weight floor''
         else fold (\<lambda>c out. out @ '', '' @ c) (tl cs) (hd cs) @ (if capped then '' (capped by aggregator ceiling)'' else []))"

text \<open>The level of the counted signals, and the sources at it.\<close>

definition top_level :: "aggregator \<Rightarrow> signal list \<Rightarrow> risk_level" where
  "top_level a ss = fold (\<lambda>s l. if sg_level s > l then sg_level s else l) (filter (counted a) ss) Risk_Low"

definition sources_at :: "aggregator \<Rightarrow> risk_level \<Rightarrow> signal list \<Rightarrow> string list" where
  "sources_at a l ss = remdups (map sg_source (filter (\<lambda>s. counted a s \<and> sg_level s = l) ss))"

definition aggregate :: "aggregator \<Rightarrow> signal list \<Rightarrow> assessment" where
  "aggregate a signals =
     (let ranked = stable_sort signal_before signals in
      if ranked = [] then \<lparr>ra_level = Risk_Low, ra_signals = [], ra_explanation = ''no signals'', ra_capped = False\<rparr>
      else
        (let level = top_level a ranked;
             level' = (if ag_escalate_on a > 0 \<and> level < Risk_Critical
                          \<and> int (length (sources_at a level ranked)) \<ge> ag_escalate_on a
                       then risk_next level else level);
             capped = (level' > ag_ceiling a);
             level'' = (if capped then ag_ceiling a else level')
         in \<lparr>ra_level = level'', ra_signals = ranked, ra_explanation = explain_risk level'' ranked capped,
             ra_capped = capped\<rparr>))"

text \<open>The signals at the level of the assessment.\<close>

definition dominant_signals :: "assessment \<Rightarrow> signal list" where
  "dominant_signals r = filter (\<lambda>s. sg_level s = ra_level r) (ra_signals r)"

record threshold =
  th_kind :: action_kind
  th_at :: risk_level
  th_then :: outcome
  th_reason :: string

record thresholds =
  ts_any :: "threshold list"
  ts_by_kind :: "threshold list"

definition default_thresholds :: thresholds where
  "default_thresholds =
     \<lparr>ts_any = [\<lparr>th_kind = Kind_Conversation, th_at = Risk_Critical, th_then = Require_Supervisor, th_reason = ''risk_critical''\<rparr>,
                \<lparr>th_kind = Kind_Conversation, th_at = Risk_High, th_then = Require_Confirmation, th_reason = ''risk_high''\<rparr>],
      ts_by_kind = []\<rparr>"

text \<open>The forced outcome and its reason, if a threshold fired.\<close>

definition weigh_threshold :: "gov_action \<Rightarrow> assessment \<Rightarrow> bool \<Rightarrow> threshold \<Rightarrow> (outcome \<times> string) option \<Rightarrow> (outcome \<times> string) option" where
  "weigh_threshold a r kind_matters th best =
     (if kind_matters \<and> th_kind th \<noteq> ac_kind a then best
      else if \<not> ra_level r \<ge> th_at th then best
      else if severity (th_then th) > (case best of None \<Rightarrow> severity Allow | Some (b, _) \<Rightarrow> severity b)
      then Some (th_then th, th_reason th) else best)"

definition thresholds_apply :: "thresholds \<Rightarrow> gov_action \<Rightarrow> assessment \<Rightarrow> (outcome \<times> string) option" where
  "thresholds_apply t a r = fold (weigh_threshold a r True) (ts_by_kind t) (fold (weigh_threshold a r False) (ts_any t) None)"

section \<open>Privacy\<close>

datatype retention = Ret_Ephemeral | Ret_Short | Ret_Standard | Ret_Legal_Hold

record privacy_rules =
  pr_retention :: "(classification \<times> retention) list"
  pr_durations :: "(retention \<times> duration) list"
  pr_export :: "classification list"
  pr_mask :: "classification list"
  pr_delete_on_revocation :: bool

definition default_privacy :: privacy_rules where
  "default_privacy =
     \<lparr>pr_retention = [(Class_Public, Ret_Standard), (Class_Internal, Ret_Standard), (Class_Personal, Ret_Standard),
        (Class_Sensitive, Ret_Short), (Class_Secret, Ret_Ephemeral)],
      pr_durations = [(Ret_Ephemeral, 0), (Ret_Short, 24 * 3600 * second), (Ret_Standard, 90 * 24 * 3600 * second)],
      pr_export = [Class_Public, Class_Internal],
      pr_mask = [Class_Personal, Class_Sensitive, Class_Secret],
      pr_delete_on_revocation = True\<rparr>"

datatype privacy_problem = Legal_Hold_Has_Duration | Duration_Negative retention | Personal_Exportable classification
  | Secret_Exportable

definition privacy_problems :: "privacy_rules \<Rightarrow> privacy_problem list" where
  "privacy_problems p =
     (if map_of (pr_durations p) Ret_Legal_Hold \<noteq> None then [Legal_Hold_Has_Duration] else [])
     @ map (\<lambda>(c, _). Duration_Negative c) (filter (\<lambda>(_, d). d < 0) (pr_durations p))
     @ concat (map (\<lambda>c. (if class_personal c then [Personal_Exportable c] else [])
                        @ (if c = Class_Secret then [Secret_Exportable] else [])) (pr_export p))"

definition retention_for :: "privacy_rules \<Rightarrow> classification \<Rightarrow> retention \<times> duration \<times> bool" where
  "retention_for p c =
     (let class = (case map_of (pr_retention p) c of Some r \<Rightarrow> r | None \<Rightarrow> Ret_Standard) in
      if class = Ret_Legal_Hold then (class, 0, False)
      else (case map_of (pr_durations p) class of Some d \<Rightarrow> (class, d, True) | None \<Rightarrow> (class, 0, False)))"

definition may_export :: "privacy_rules \<Rightarrow> classification \<Rightarrow> bool" where
  "may_export p c = (c \<in> set (pr_export p))"

definition must_mask :: "privacy_rules \<Rightarrow> classification \<Rightarrow> bool" where
  "must_mask p c = (c \<in> set (pr_mask p))"

definition privacy_obligations :: "privacy_rules \<Rightarrow> gov_action \<Rightarrow> string \<Rightarrow> obligation list" where
  "privacy_obligations p a by_policy =
     stable_sort (\<lambda>x y. if ob_kind x \<noteq> ob_kind y then ob_kind x < ob_kind y else ob_target x < ob_target y)
       ((if must_mask p (ac_class a)
         then [\<lparr>ob_kind = ''mask'', ob_target = ''log'', ob_reason = ''classification_'' @ class_name (ac_class a),
                ob_deadline = None, ob_policy = by_policy\<rparr>] else [])
        @ (if ac_kind a = Kind_External \<and> \<not> may_export p (ac_class a)
           then [\<lparr>ob_kind = ''redact'', ob_target = ''export'', ob_reason = ''export_not_permitted'', ob_deadline = None,
                  ob_policy = by_policy\<rparr>] else [])
        @ (if class_personal (ac_class a)
           then [\<lparr>ob_kind = ''audit'', ob_target = kind_name (ac_kind a), ob_reason = ''personal_data'',
                  ob_deadline = None, ob_policy = by_policy\<rparr>] else []))"

text \<open>A table of classifications: the resource's, the kind's, or the default.\<close>

record classifier =
  cf_by_resource :: "(string \<times> classification) list"
  cf_fallback :: "(action_kind \<times> classification) list"
  cf_default :: classification

definition set_resource :: "string \<Rightarrow> classification \<Rightarrow> classifier \<Rightarrow> classifier" where
  "set_resource x c f = f\<lparr>cf_by_resource := AList.update x c (cf_by_resource f)\<rparr>"

definition set_kind :: "action_kind \<Rightarrow> classification \<Rightarrow> classifier \<Rightarrow> classifier" where
  "set_kind k c f = f\<lparr>cf_fallback := AList.update k c (cf_fallback f)\<rparr>"

definition classify_resource :: "classifier \<Rightarrow> action_kind \<Rightarrow> string \<Rightarrow> classification" where
  "classify_resource f k x =
     (case map_of (cf_by_resource f) x of
        Some c \<Rightarrow> c
      | None \<Rightarrow> (case map_of (cf_fallback f) k of Some c \<Rightarrow> c | None \<Rightarrow> cf_default f))"

section \<open>Merging keeps every obligation\<close>

fun opt_min :: "instant option \<Rightarrow> instant option \<Rightarrow> instant option" where
  "opt_min None b = b"
| "opt_min (Some x) None = Some x"
| "opt_min (Some x) (Some y) = Some (min x y)"

definition earliest :: "instant option list \<Rightarrow> instant option" where
  "earliest ds = foldl opt_min None ds"

lemma earliest_snoc [simp]: "earliest (ds @ [d]) = opt_min (earliest ds) d"
  by (simp add: earliest_def)

lemma earliest_nil [simp]: "earliest [] = None"
  by (simp add: earliest_def)

lemma opt_min_none [simp]: "opt_min a None = a"
  by (cases a) simp_all

definition deadlines_of :: "obligation list \<Rightarrow> string \<times> string \<Rightarrow> instant option list" where
  "deadlines_of os k = map ob_deadline (filter (\<lambda>x. ob_key x = k) os)"

lemma deadlines_of_snoc: "deadlines_of (os @ [x]) k = deadlines_of os k @ (if ob_key x = k then [ob_deadline x] else [])"
  by (simp add: deadlines_of_def)

definition index_ok :: "obligation list \<Rightarrow> ((string \<times> string) \<times> obligation) list \<Rightarrow> bool" where
  "index_ok os index \<longleftrightarrow> distinct (map fst index) \<and> list_all (\<lambda>(k, e). ob_key e = k) index
     \<and> (\<forall>k. map_of index k = None \<longleftrightarrow> k \<notin> ob_key ` set os)
     \<and> (\<forall>k e. map_of index k = Some e \<longrightarrow> ob_deadline e = earliest (deadlines_of os k))"

lemma index_okD:
  assumes "index_ok os index"
  shows "distinct (map fst index)" "list_all (\<lambda>(k, e). ob_key e = k) index"
    "map_of index k = None \<longleftrightarrow> k \<notin> ob_key ` set os"
    "map_of index k = Some e \<Longrightarrow> ob_deadline e = earliest (deadlines_of os k)"
  using assms unfolding index_ok_def by blast+

lemma ob_key_deadline [simp]: "ob_key (e\<lparr>ob_deadline := d\<rparr>) = ob_key e"
  by (simp add: ob_key_def)

lemma merge_one_ok: "index_ok os index \<Longrightarrow> index_ok (os @ [x]) (merge_one x index)"
proof -
  assume I: "index_ok os index"
  show ?thesis
  proof (cases "map_of index (ob_key x)")
    case None
    then have new: "ob_key x \<notin> ob_key ` set os" using index_okD(3) [OF I] by blast
    then have d: "deadlines_of os (ob_key x) = []" unfolding deadlines_of_def filter_empty_conv map_is_Nil_conv by (metis imageI)
    have fresh: "ob_key x \<notin> fst ` set index" using None by (simp add: map_of_eq_None_iff)
    have m: "merge_one x index = index @ [(ob_key x, x)]" using None by (simp add: merge_one_def)
    have look: "map_of (merge_one x index) = (map_of index)(ob_key x \<mapsto> x)"
      using None unfolding m by (auto simp: fun_eq_iff map_add_def split: option.splits)
    have opt: "opt_min None (ob_deadline x) = ob_deadline x" by simp
    show ?thesis unfolding index_ok_def look
    proof (intro conjI allI impI)
      show "distinct (map fst (merge_one x index))" using index_okD(1) [OF I] fresh by (simp add: m)
      show "list_all (\<lambda>(k, e). ob_key e = k) (merge_one x index)" using index_okD(2) [OF I] by (simp add: m)
      show "((map_of index)(ob_key x \<mapsto> x)) k = None \<longleftrightarrow> k \<notin> ob_key ` set (os @ [x])" for k
        using index_okD(3) [OF I, of k] by auto
      show "ob_deadline e = earliest (deadlines_of (os @ [x]) k)" if "((map_of index)(ob_key x \<mapsto> x)) k = Some e" for k e
        using that index_okD(4) [OF I, of k e] d by (auto simp: deadlines_of_snoc earliest_def split: if_splits)
    qed
  next
    case (Some e)
    have e: "ob_deadline e = earliest (deadlines_of os (ob_key x))" by (rule index_okD(4) [OF I Some])
    have k: "ob_key x \<in> ob_key ` set os" using index_okD(3) [OF I] Some by (metis option.distinct(1))
    have ke: "ob_key e = ob_key x" using index_okD(2) [OF I] Some by (auto simp: list_all_iff dest: map_of_SomeD)
    define e' where "e' = e\<lparr>ob_deadline := opt_min (ob_deadline e) (ob_deadline x)\<rparr>"
    have upd: "map_of (merge_one x index) = (map_of index)(ob_key x \<mapsto> e')"
      using Some by (auto simp: merge_one_def e'_def update_conv fun_eq_iff min_def split: option.splits)
    have dist: "distinct (map fst (merge_one x index))"
      using index_okD(1) [OF I] Some by (auto simp: merge_one_def distinct_update split: option.splits)
    have keys: "list_all (\<lambda>(k, e). ob_key e = k) (merge_one x index)"
    proof -
      have "ob_key f = k" if "map_of (merge_one x index) k = Some f" for k f
        using that index_okD(2) [OF I] ke unfolding upd
        by (auto simp: e'_def list_all_iff dest: map_of_SomeD split: if_splits)
      then show ?thesis using dist by (auto simp: list_all_iff)
    qed
    show ?thesis unfolding index_ok_def upd
    proof (intro conjI allI impI dist keys)
      show "((map_of index)(ob_key x \<mapsto> e')) k = None \<longleftrightarrow> k \<notin> ob_key ` set (os @ [x])" for k
        using index_okD(3) [OF I, of k] k by auto
      show "ob_deadline f = earliest (deadlines_of (os @ [x]) k)" if "((map_of index)(ob_key x \<mapsto> e')) k = Some f" for k f
        using that index_okD(4) [OF I, of k f] e by (auto simp: deadlines_of_snoc e'_def split: if_splits)
    qed
  qed
qed

lemma merge_fold_ok: "index_ok os index \<Longrightarrow> index_ok (os @ xs) (fold merge_one xs index)"
proof (induction xs arbitrary: os index)
  case Nil
  then show ?case by simp
next
  case (Cons x xs)
  from Cons.IH [OF merge_one_ok [OF Cons.prems, of x]] show ?case by simp
qed

lemma merge_index: "index_ok (concat sets) (fold merge_one (concat sets) [])"
  using merge_fold_ok [of "[]" "[]" "concat sets"] by (simp add: index_ok_def)

lemma index_ok_map: "index_ok os index \<Longrightarrow> map ob_key (map snd index) = map fst index"
  by (auto simp: index_ok_def list_all_iff)

lemma merge_obligations_exact:
  "distinct (map ob_key (merge_obligations sets))"
  "ob_key ` set (merge_obligations sets) = ob_key ` set (concat sets)"
  "x \<in> set (merge_obligations sets) \<Longrightarrow> ob_deadline x = earliest (deadlines_of (concat sets) (ob_key x))"
proof -
  let ?i = "fold merge_one (concat sets) []"
  have I: "index_ok (concat sets) ?i" by (rule merge_index)
  have m: "mset (map ob_key (merge_obligations sets)) = mset (map fst ?i)"
    by (simp add: merge_obligations_def index_ok_map [OF I, symmetric] multiset.map_comp comp_def)
  show "distinct (map ob_key (merge_obligations sets))"
    using I mset_eq_imp_distinct_iff [OF m] by (simp add: index_ok_def)
  have "ob_key ` set (merge_obligations sets) = fst ` set ?i"
    using mset_eq_setD [OF m] by simp
  also have "\<dots> = ob_key ` set (concat sets)"
    using I unfolding index_ok_def map_of_eq_None_iff by blast
  finally show "ob_key ` set (merge_obligations sets) = ob_key ` set (concat sets)" .
  assume "x \<in> set (merge_obligations sets)"
  then have "x \<in> snd ` set ?i" by (simp add: merge_obligations_def)
  then obtain k where "(k, x) \<in> set ?i" by auto
  moreover from this have "k = ob_key x" using I by (auto simp: index_ok_def list_all_iff)
  ultimately have "map_of ?i (ob_key x) = Some x" using index_okD(1) [OF I] by simp
  then show "ob_deadline x = earliest (deadlines_of (concat sets) (ob_key x))" by (rule index_okD(4) [OF I])
qed

text \<open>An earliest deadline is no later than any of them, and one of them.\<close>

lemma earliest_le: "Some d \<in> set ds \<Longrightarrow> \<exists>d'. earliest ds = Some d' \<and> d' \<le> d"
proof (induction ds rule: rev_induct)
  case Nil
  then show ?case by simp
next
  case (snoc x ds)
  then show ?case by (cases "earliest ds"; cases x) auto
qed

lemma earliest_in: "earliest ds = Some d \<Longrightarrow> Some d \<in> set ds"
proof (induction ds arbitrary: d rule: rev_induct)
  case Nil
  then show ?case by simp
next
  case (snoc x ds)
  then show ?case by (cases "earliest ds"; cases x) (auto simp: min_def split: if_splits)
qed

section \<open>Thresholds only raise\<close>

definition fires :: "gov_action \<Rightarrow> assessment \<Rightarrow> bool \<Rightarrow> threshold \<Rightarrow> bool" where
  "fires a r k th \<longleftrightarrow> (k \<longrightarrow> th_kind th = ac_kind a) \<and> th_at th \<le> ra_level r \<and> th_then th \<noteq> Allow"

definition forced_severity :: "(outcome \<times> string) option \<Rightarrow> nat" where
  "forced_severity f = (case f of None \<Rightarrow> 0 | Some (out, _) \<Rightarrow> severity out)"

lemma severity_pos: "0 < severity out \<longleftrightarrow> out \<noteq> Allow"
  by (cases out) simp_all

lemma weigh_fold:
  "forced_severity (fold (weigh_threshold a r k) ths f) =
     fold max (map (\<lambda>th. if fires a r k th then severity (th_then th) else 0) ths) (forced_severity f)"
proof (induction ths arbitrary: f)
  case Nil
  then show ?case by simp
next
  case (Cons th ths)
  have "forced_severity (weigh_threshold a r k th f) = max (if fires a r k th then severity (th_then th) else 0) (forced_severity f)"
    using severity_pos [of "th_then th"]
    by (auto simp: weigh_threshold_def fires_def forced_severity_def max_def not_le split: option.splits prod.splits)
  then show ?case using Cons.IH by simp
qed

section \<open>The risk aggregate is monotone\<close>

lemma top_level_ge_start: "l \<le> fold (\<lambda>s l. if sg_level s > l then sg_level s else l) ss (l :: risk_level)"
proof (induction ss arbitrary: l)
  case Nil
  then show ?case by simp
next
  case (Cons s ss)
  have "l \<le> (if sg_level s > l then sg_level s else l)" by (simp add: less_imp_le)
  also have "\<dots> \<le> fold (\<lambda>s l. if sg_level s > l then sg_level s else l) (s # ss) l" using Cons.IH by simp
  finally show ?case .
qed

lemma top_level_ge_fold: "s \<in> set ss \<Longrightarrow> sg_level s \<le> fold (\<lambda>s l. if sg_level s > l then sg_level s else l) ss l"
proof (induction ss arbitrary: l)
  case Nil
  then show ?case by simp
next
  case (Cons x ss)
  show ?case
  proof (cases "s = x")
    case True
    have "sg_level x \<le> (if sg_level x > l then sg_level x else l)" by (simp add: not_less)
    also have "\<dots> \<le> fold (\<lambda>s l. if sg_level s > l then sg_level s else l) (x # ss) l"
      using top_level_ge_start [where ss = ss] by simp
    finally show ?thesis using True by simp
  next
    case False
    then show ?thesis using Cons by simp
  qed
qed

lemma top_level_from: "fold (\<lambda>s l. if sg_level s > l then sg_level s else l) ss l \<in> insert l (sg_level ` set ss)"
  by (induction ss arbitrary: l) (auto split: if_splits)

lemma top_level_ge: "s \<in> set ss \<Longrightarrow> counted a s \<Longrightarrow> sg_level s \<le> top_level a ss"
  using top_level_ge_fold [of s "filter (counted a) ss" Risk_Low] by (simp add: top_level_def)

lemma risk_low_least [simp]: "Risk_Low \<le> l"
  by (simp add: less_eq_risk_level_def)

lemma risk_critical_greatest [simp]: "l \<le> Risk_Critical"
  by (cases l) (simp_all add: less_eq_risk_level_def)

lemma top_level_attained: "top_level a ss = Risk_Low \<or> (\<exists>s \<in> set ss. counted a s \<and> sg_level s = top_level a ss)"
  using top_level_from [of "filter (counted a) ss" Risk_Low] by (auto simp: top_level_def)

lemma top_level_mono: "set ss \<subseteq> set ts \<Longrightarrow> top_level a ss \<le> top_level a ts"
  using top_level_attained [of a ss] top_level_ge [of _ ts a] by (metis risk_low_least subsetD)

lemma sources_mono: "set ss \<subseteq> set ts \<Longrightarrow> length (sources_at a l ss) \<le> length (sources_at a l ts)"
  unfolding sources_at_def length_remdups_card_conv by (rule card_mono) auto

text \<open>The level before the ceiling.\<close>

definition raised_level :: "aggregator \<Rightarrow> signal list \<Rightarrow> risk_level" where
  "raised_level a ss =
     (if ag_escalate_on a > 0 \<and> top_level a ss < Risk_Critical
         \<and> int (length (sources_at a (top_level a ss) ss)) \<ge> ag_escalate_on a
      then risk_next (top_level a ss) else top_level a ss)"

lemma risk_next_le: "l < m \<Longrightarrow> risk_next l \<le> m"
  by (cases l; cases m) (simp_all add: less_eq_risk_level_def less_risk_level_def)

lemma risk_next_ge: "l \<le> risk_next l"
  by (cases l) (simp_all add: less_eq_risk_level_def)

lemma raised_level_ge: "top_level a ss \<le> raised_level a ss"
  by (simp add: raised_level_def risk_next_ge)

lemma raised_level_mono:
  assumes "set ss \<subseteq> set ts"
  shows "raised_level a ss \<le> raised_level a ts"
proof (cases "top_level a ss = top_level a ts")
  case True
  then show ?thesis
    using sources_mono [OF assms, of a "top_level a ts"] risk_next_ge by (auto simp: raised_level_def)
next
  case False
  then have "top_level a ss < top_level a ts" using top_level_mono [OF assms, of a] by simp
  then have "raised_level a ss \<le> top_level a ts" using risk_next_le by (auto simp: raised_level_def)
  then show ?thesis using raised_level_ge order_trans by blast
qed

lemma top_level_cong: "set ss = set ts \<Longrightarrow> top_level a ss = top_level a ts"
  using top_level_mono [of ss ts a] top_level_mono [of ts ss a] by simp

lemma raised_level_cong: "set ss = set ts \<Longrightarrow> raised_level a ss = raised_level a ts"
  using raised_level_mono [of ss ts a] raised_level_mono [of ts ss a] by simp

lemma aggregate_level: "ra_level (aggregate a ss) = min (ag_ceiling a) (raised_level a ss)"
proof (cases "ss = []")
  case True
  then have "raised_level a ss = Risk_Low" by (auto simp: raised_level_def top_level_def sources_at_def)
  moreover have "ra_level (aggregate a ss) = Risk_Low" using True by (simp add: aggregate_def stable_sort_def)
  ultimately show ?thesis by (simp add: min_absorb2)
next
  case False
  then have "stable_sort signal_before ss \<noteq> []" using set_stable_sort [of signal_before ss] by (metis set_empty)
  then have "ra_level (aggregate a ss) = min (ag_ceiling a) (raised_level a (stable_sort signal_before ss))"
    by (auto simp: aggregate_def Let_def raised_level_def [symmetric] min_def)
  then show ?thesis using raised_level_cong [of "stable_sort signal_before ss" ss a] by simp
qed

section \<open>Properties\<close>

text \<open>A signal never lowers the risk: adding signals, reordering or repeating them leaves the level where
  it was or raises it, whatever the weights, the ceiling and the count of sources that corroborate.\<close>

theorem risk_is_monotone:
  assumes "set ss \<subseteq> set ts"
  shows "ra_level (aggregate a ss) \<le> ra_level (aggregate a ts)"
  unfolding aggregate_level using raised_level_mono [OF assms, of a] by (simp add: min.coboundedI2)

definition some_signal :: "string \<Rightarrow> risk_level \<Rightarrow> signal" where
  "some_signal src l = \<lparr>sg_source = src, sg_kind = ''k'', sg_level = l, sg_weight = 1, sg_detail = []\<rparr>"

theorem risk_is_monotone_witness:
  "ra_level (aggregate default_aggregator [some_signal ''a'' Risk_Medium])
     \<le> ra_level (aggregate default_aggregator [some_signal ''b'' Risk_Medium, some_signal ''a'' Risk_Medium,
          some_signal ''c'' Risk_Medium])"
  using risk_is_monotone [of "[some_signal ''a'' Risk_Medium]"
      "[some_signal ''b'' Risk_Medium, some_signal ''a'' Risk_Medium, some_signal ''c'' Risk_Medium]"] by simp

end
