(* ===== verification/GovPolicy.thy ===== *)
theory GovPolicy
  imports GovDecision
begin

text \<open>
  Policies as data (\<^verbatim>\<open>packages/go/governance/policy.go\<close>) and the registry that holds them
  (\<^verbatim>\<open>registry.go\<close>): conditions, rules, matches, validation, and the snapshot every decision is made
  against.  The order in which Go iterates over the map while a snapshot is built is an argument.
\<close>

section \<open>Scopes and conditions\<close>

datatype scope = Scope_Compliance | Scope_Emergency | Scope_Global | Scope_Organization | Scope_Business | Scope_User
  | Scope_Session | Scope_Temporary | Scope_Feature_Flag

fun scope_rank :: "scope \<Rightarrow> nat" where
  "scope_rank Scope_Compliance = 0"
| "scope_rank Scope_Emergency = 1"
| "scope_rank Scope_Global = 2"
| "scope_rank Scope_Organization = 3"
| "scope_rank Scope_Business = 4"
| "scope_rank Scope_User = 5"
| "scope_rank Scope_Session = 6"
| "scope_rank Scope_Temporary = 7"
| "scope_rank Scope_Feature_Flag = 8"

definition all_scopes :: "scope list" where
  "all_scopes = [Scope_Compliance, Scope_Emergency, Scope_Global, Scope_Organization, Scope_Business, Scope_User,
     Scope_Session, Scope_Temporary, Scope_Feature_Flag]"

definition overridable :: "scope \<Rightarrow> bool" where
  "overridable s = (s \<noteq> Scope_Compliance)"

datatype selector = Sel_Equals | Sel_Not_Equals | Sel_Greater_Than | Sel_Less_Than | Sel_At_Least | Sel_In | Sel_Not_In
  | Sel_Exists | Sel_Absent | Sel_Prefix

fun selector_name :: "selector \<Rightarrow> string" where
  "selector_name Sel_Equals = ''==''"
| "selector_name Sel_Not_Equals = ''!=''"
| "selector_name Sel_Greater_Than = ''>''"
| "selector_name Sel_Less_Than = ''<''"
| "selector_name Sel_At_Least = ''>=''"
| "selector_name Sel_In = ''in''"
| "selector_name Sel_Not_In = ''not_in''"
| "selector_name Sel_Exists = ''exists''"
| "selector_name Sel_Absent = ''absent''"
| "selector_name Sel_Prefix = ''prefix''"

record gov_condition =
  cd_field :: string
  cd_selector :: selector
  cd_value :: attr
  cd_values :: "string list"

datatype condition_problem = No_Field | Empty_Values | Prefix_Needs_String | Needs_Number | Needs_Value

definition gov_condition_problems :: "gov_condition \<Rightarrow> condition_problem list" where
  "gov_condition_problems c =
     (if cd_field c = [] then [No_Field] else [])
     @ (case cd_selector c of
          Sel_In \<Rightarrow> (if cd_values c = [] then [Empty_Values] else [])
        | Sel_Not_In \<Rightarrow> (if cd_values c = [] then [Empty_Values] else [])
        | Sel_Exists \<Rightarrow> []
        | Sel_Absent \<Rightarrow> []
        | Sel_Prefix \<Rightarrow> (case cd_value c of A_Str _ \<Rightarrow> [] | _ \<Rightarrow> [Prefix_Needs_String])
        | Sel_Equals \<Rightarrow> (if cd_value c = A_Absent then [Needs_Value] else [])
        | Sel_Not_Equals \<Rightarrow> (if cd_value c = A_Absent then [Needs_Value] else [])
        | _ \<Rightarrow> (case cd_value c of
                  A_Num _ \<Rightarrow> []
                | _ \<Rightarrow> if cd_field c \<noteq> ''risk'' \<and> cd_field c \<noteq> ''classification'' then [Needs_Number] else []))"

definition resolve_field :: "string \<Rightarrow> gov_request \<Rightarrow> attr" where
  "resolve_field f r =
     (let a = gq_action r in
      if f = ''kind'' then A_Str (kind_name (ac_kind a))
      else if f = ''operation'' then A_Str (ac_operation a)
      else if f = ''resource'' then A_Str (ac_resource a)
      else if f = ''classification'' then A_Num (of_nat (class_rank (ac_class a)))
      else if f = ''reversibility'' then A_Str (rev_name (ac_reversibility a))
      else if f = ''risk'' then A_Num (of_nat (risk_rank (ra_level (gq_risk r))))
      else if f = ''actor'' then A_Str (gq_actor r)
      else if f = ''subject'' then A_Str (gq_subject r)
      else if f = ''org'' then A_Str (gq_org r)
      else if f = ''business'' then A_Str (gq_business r)
      else if f = ''role'' then A_Str (join_comma (sort (gq_roles r)))
      else (case map_of (ac_attributes a) f of
              Some v \<Rightarrow> v
            | None \<Rightarrow> (case map_of (gq_context r) f of Some v \<Rightarrow> v | None \<Rightarrow> A_Absent)))"

fun attr_kind :: "attr \<Rightarrow> nat" where
  "attr_kind (A_Str s) = 0"
| "attr_kind (A_Num x) = 1"
| "attr_kind (A_Bool b) = 2"
| "attr_kind A_Absent = 3"

definition attr_equal :: "(rat \<Rightarrow> string) \<Rightarrow> attr \<Rightarrow> attr \<Rightarrow> bool" where
  "attr_equal nt a b =
     (if attr_kind a = attr_kind b then attr_canonical nt a = attr_canonical nt b
      else attr_display nt a = attr_display nt b)"

definition class_of_name :: "string \<Rightarrow> classification option" where
  "class_of_name s =
     (if s = ''public'' then Some Class_Public else if s = ''internal'' then Some Class_Internal
      else if s = ''personal'' then Some Class_Personal else if s = ''sensitive'' then Some Class_Sensitive
      else if s = ''secret'' then Some Class_Secret else None)"

definition numeric_of :: "attr \<Rightarrow> string \<Rightarrow> rat option" where
  "numeric_of a f =
     (case a of
        A_Num x \<Rightarrow> Some x
      | A_Str s \<Rightarrow>
          (if f = ''risk'' then map_option (\<lambda>l. of_nat (risk_rank l)) (parse_risk_level s)
           else if f = ''classification'' then map_option (\<lambda>c. of_nat (class_rank c)) (class_of_name s)
           else None)
      | _ \<Rightarrow> None)"

definition condition_matches :: "(rat \<Rightarrow> string) \<Rightarrow> gov_condition \<Rightarrow> gov_request \<Rightarrow> bool" where
  "condition_matches nt c r =
     (if cd_field c = ''role'' \<and> cd_selector c \<in> {Sel_In, Sel_Not_In, Sel_Equals}
      then (case cd_selector c of
              Sel_Equals \<Rightarrow> (case cd_value c of A_Str s \<Rightarrow> s \<in> set (gq_roles r) | _ \<Rightarrow> [] \<in> set (gq_roles r))
            | Sel_In \<Rightarrow> list_ex (\<lambda>w. w \<in> set (gq_roles r)) (cd_values c)
            | _ \<Rightarrow> \<not> list_ex (\<lambda>w. w \<in> set (gq_roles r)) (cd_values c))
      else
        (let got = resolve_field (cd_field c) r in
         case cd_selector c of
           Sel_Exists \<Rightarrow> got \<noteq> A_Absent
         | Sel_Absent \<Rightarrow> got = A_Absent
         | sel \<Rightarrow>
             (if got = A_Absent then False
              else
                (case sel of
                   Sel_Equals \<Rightarrow> attr_equal nt got (cd_value c)
                 | Sel_Not_Equals \<Rightarrow> \<not> attr_equal nt got (cd_value c)
                 | Sel_Prefix \<Rightarrow>
                     (case got of
                        A_Str s \<Rightarrow> prefix (case cd_value c of A_Str w \<Rightarrow> w | _ \<Rightarrow> []) s
                      | _ \<Rightarrow> False)
                 | Sel_In \<Rightarrow> attr_display nt got \<in> set (cd_values c)
                 | Sel_Not_In \<Rightarrow> attr_display nt got \<notin> set (cd_values c)
                 | _ \<Rightarrow>
                     (case (numeric_of got (cd_field c), numeric_of (cd_value c) (cd_field c)) of
                        (Some have, Some want) \<Rightarrow>
                          (case sel of
                             Sel_Greater_Than \<Rightarrow> have > want
                           | Sel_Less_Than \<Rightarrow> have < want
                           | _ \<Rightarrow> have \<ge> want)
                      | _ \<Rightarrow> False)))))"

section \<open>Rules and policies\<close>

record gov_rule =
  ru_name :: string
  ru_when :: "gov_condition list"
  ru_then :: outcome
  ru_reason :: string
  ru_explanation :: string
  ru_obligations :: "obligation list"
  ru_retry_after :: duration

definition rule_matches :: "(rat \<Rightarrow> string) \<Rightarrow> gov_rule \<Rightarrow> gov_request \<Rightarrow> bool" where
  "rule_matches nt u r = list_all (\<lambda>c. condition_matches nt c r) (ru_when u)"

text \<open>A bounded machine-readable code.\<close>

datatype reason_problem = Reason_Too_Long | Reason_Bad_Character

definition reason_char :: "char \<Rightarrow> bool" where
  "reason_char c = (CHR ''a'' \<le> c \<and> c \<le> CHR ''z'' \<or> CHR ''0'' \<le> c \<and> c \<le> CHR ''9'' \<or> c = CHR ''_'')"

definition check_reason_code :: "string \<Rightarrow> reason_problem option" where
  "check_reason_code s =
     (if length s > 64 then Some Reason_Too_Long
      else if list_all reason_char s then None else Some Reason_Bad_Character)"

datatype rule_problem = Rule_No_Name | Rule_No_Reason | Rule_Bad_Reason reason_problem | Rule_No_Retry_After
  | Rule_Condition condition_problem

definition rule_problems :: "gov_rule \<Rightarrow> rule_problem list" where
  "rule_problems u =
     (if ru_name u = [] then [Rule_No_Name] else [])
     @ (if ru_reason u = [] then [Rule_No_Reason]
        else case check_reason_code (ru_reason u) of None \<Rightarrow> [] | Some b \<Rightarrow> [Rule_Bad_Reason b])
     @ (if ru_then u = Retry_Later \<and> ru_retry_after u \<le> 0 then [Rule_No_Retry_After] else [])
     @ map Rule_Condition (concat (map gov_condition_problems (ru_when u)))"

record policy_match =
  mt_kinds :: "action_kind list"
  mt_operations :: "string list"
  mt_prefix :: string
  mt_orgs :: "string list"
  mt_businesses :: "string list"
  mt_subjects :: "string list"
  mt_actors :: "string list"

text \<open>Why a policy is out of scope for a request, if it is.\<close>

definition match_skips :: "policy_match \<Rightarrow> gov_request \<Rightarrow> string option" where
  "match_skips m r =
     (if mt_kinds m \<noteq> [] \<and> ac_kind (gq_action r) \<notin> set (mt_kinds m) then Some ''kind''
      else if mt_operations m \<noteq> [] \<and> ac_operation (gq_action r) \<notin> set (mt_operations m) then Some ''operation''
      else if mt_prefix m \<noteq> [] \<and> \<not> prefix (mt_prefix m) (ac_resource (gq_action r)) then Some ''resource''
      else if mt_orgs m \<noteq> [] \<and> gq_org r \<notin> set (mt_orgs m) then Some ''org''
      else if mt_businesses m \<noteq> [] \<and> gq_business r \<notin> set (mt_businesses m) then Some ''business''
      else if mt_subjects m \<noteq> [] \<and> gq_subject r \<notin> set (mt_subjects m) then Some ''subject''
      else if mt_actors m \<noteq> [] \<and> gq_actor r \<notin> set (mt_actors m) then Some ''actor''
      else None)"

record gov_policy =
  po_id :: string
  po_version :: int
  po_scope :: scope
  po_priority :: int
  po_owner :: string
  po_match :: policy_match
  po_rules :: "gov_rule list"
  po_default :: outcome
  po_default_reason :: string
  po_override :: bool
  po_enabled :: bool
  po_from :: "instant option"
  po_until :: "instant option"

datatype policy_problem = Policy_No_Id | Policy_Version | Policy_No_Owner | Policy_No_Default_Reason
  | Policy_Bad_Default_Reason reason_problem | Policy_Blanket_Allow | Policy_Override_Scope | Policy_Temporary_Unbounded
  | Policy_Window | Policy_Rule rule_problem | Policy_Duplicate_Rule string | Policy_Twice string

fun rules_problems :: "string list \<Rightarrow> gov_rule list \<Rightarrow> policy_problem list" where
  "rules_problems seen [] = []"
| "rules_problems seen (u # us) =
     map Policy_Rule (rule_problems u) @ (if ru_name u \<in> set seen then [Policy_Duplicate_Rule (ru_name u)] else [])
     @ rules_problems (ru_name u # seen) us"

definition policy_problems :: "gov_policy \<Rightarrow> policy_problem list" where
  "policy_problems p =
     (if po_id p = [] then [Policy_No_Id] else [])
     @ (if po_version p < 1 then [Policy_Version] else [])
     @ (if po_owner p = [] then [Policy_No_Owner] else [])
     @ (if po_default_reason p = [] then [Policy_No_Default_Reason]
        else case check_reason_code (po_default_reason p) of None \<Rightarrow> [] | Some b \<Rightarrow> [Policy_Bad_Default_Reason b])
     @ (if po_rules p = [] \<and> po_default p = Allow then [Policy_Blanket_Allow] else [])
     @ (if po_override p \<and> po_scope p \<noteq> Scope_Emergency \<and> po_scope p \<noteq> Scope_Compliance then [Policy_Override_Scope] else [])
     @ (if po_scope p = Scope_Temporary \<and> po_until p = None then [Policy_Temporary_Unbounded] else [])
     @ (case (po_from p, po_until p) of (Some f, Some u) \<Rightarrow> if \<not> f < u then [Policy_Window] else [] | _ \<Rightarrow> [])
     @ rules_problems [] (po_rules p)"

text \<open>Why a policy is not in force at an instant, if it is not.\<close>

definition policy_inactive :: "gov_policy \<Rightarrow> instant \<Rightarrow> string option" where
  "policy_inactive p now =
     (if \<not> po_enabled p then Some ''disabled''
      else if (case po_from p of None \<Rightarrow> False | Some f \<Rightarrow> now < f) then Some ''not_yet_effective''
      else if (case po_until p of None \<Rightarrow> False | Some u \<Rightarrow> \<not> now < u) then Some ''expired''
      else None)"

definition default_rule :: "gov_policy \<Rightarrow> gov_rule" where
  "default_rule p =
     \<lparr>ru_name = ''<default>'', ru_when = [], ru_then = Deny, ru_reason = po_default_reason p, ru_explanation = [],
      ru_obligations = [], ru_retry_after = 0\<rparr>"

definition policy_evaluate :: "(rat \<Rightarrow> string) \<Rightarrow> gov_policy \<Rightarrow> gov_request \<Rightarrow> outcome \<times> gov_rule \<times> bool" where
  "policy_evaluate nt p r =
     (case find (\<lambda>u. rule_matches nt u r) (po_rules p) of
        Some u \<Rightarrow> (ru_then u, u, True)
      | None \<Rightarrow> (po_default p, default_rule p, False))"

text \<open>The number of an outcome, as \<^verbatim>\<open>%d\<close> prints it.\<close>

fun outcome_number :: "outcome \<Rightarrow> nat" where
  "outcome_number Deny = 0"
| "outcome_number Allow = 1"
| "outcome_number Escalate = 2"
| "outcome_number Require_Confirmation = 3"
| "outcome_number Require_Consent = 4"
| "outcome_number Require_Human = 5"
| "outcome_number Require_Supervisor = 6"
| "outcome_number Retry_Later = 7"
| "outcome_number Queue = 8"
| "outcome_number Defer = 9"

definition policy_canonical :: "(rat \<Rightarrow> string) \<Rightarrow> gov_policy \<Rightarrow> string" where
  "policy_canonical nt p =
     po_id p @ ''|'' @ format_int (po_version p) @ ''|'' @ itoa (scope_rank (po_scope p)) @ ''|''
     @ format_int (po_priority p) @ ''|'' @ (if po_override p then ''true'' else ''false'') @ ''|''
     @ concat (map (\<lambda>u. ru_name u @ ''>'' @ itoa (outcome_number (ru_then u)) @ ''>'' @ ru_reason u @ '';''
                  @ concat (map (\<lambda>c. cd_field c @ selector_name (cd_selector c) @ attr_display nt (cd_value c) @ '','') (ru_when u)))
                (po_rules p))
     @ ''|'' @ itoa (outcome_number (po_default p)) @ ''|'' @ po_default_reason p"

section \<open>The registry\<close>

record snapshot =
  sn_version :: nat
  sn_by_id :: "(string \<times> gov_policy) list"
  sn_order :: "string list"
  sn_digest :: string
  sn_built_at :: instant

text \<open>Evaluation order: by scope, then descending priority, then identifier.\<close>

definition policy_before :: "gov_policy \<Rightarrow> gov_policy \<Rightarrow> bool" where
  "policy_before a b =
     (if po_scope a \<noteq> po_scope b then scope_rank (po_scope a) < scope_rank (po_scope b)
      else if po_priority a \<noteq> po_priority b then po_priority a > po_priority b
      else po_id a < po_id b)"

definition policy_at :: "(string \<times> gov_policy) list \<Rightarrow> string \<Rightarrow> gov_policy" where
  "policy_at m i = the (map_of m i)"

text \<open>\<^verbatim>\<open>byScope\<close> is the order restricted to a scope.\<close>

definition in_scope :: "snapshot \<Rightarrow> scope \<Rightarrow> string list" where
  "in_scope s sc = filter (\<lambda>i. po_scope (policy_at (sn_by_id s) i) = sc) (sn_order s)"

definition policy_order :: "(string list \<Rightarrow> string list) \<Rightarrow> (string \<times> gov_policy) list \<Rightarrow> string list" where
  "policy_order iterate next =
     stable_sort (\<lambda>i j. policy_before (policy_at next i) (policy_at next j)) (iterate (map fst next))"

definition policy_commit :: "(string \<Rightarrow> string) \<Rightarrow> (rat \<Rightarrow> string) \<Rightarrow> (string list \<Rightarrow> string list) \<Rightarrow> instant
    \<Rightarrow> (string \<times> gov_policy) list \<Rightarrow> snapshot \<Rightarrow> snapshot" where
  "policy_commit hash nt iterate now next s =
     (let order = policy_order iterate next in
      \<lparr>sn_version = sn_version s + 1, sn_by_id = next, sn_order = order,
       sn_digest = hash (concat (map (\<lambda>i. policy_canonical nt (policy_at next i) @ '';'') order)),
       sn_built_at = now\<rparr>)"

definition new_policy_registry :: "instant \<Rightarrow> snapshot" where
  "new_policy_registry now = \<lparr>sn_version = 0, sn_by_id = [], sn_order = [], sn_digest = [], sn_built_at = now\<rparr>"

datatype policy_registry_error = Policies_Invalid "policy_problem list" | Version_Stale string | Policy_Not_Registered

fun batch_problems :: "string list \<Rightarrow> gov_policy list \<Rightarrow> policy_problem list" where
  "batch_problems seen [] = []"
| "batch_problems seen (p # ps) =
     policy_problems p @ (if po_id p \<in> set seen then [Policy_Twice (po_id p)] else [])
     @ batch_problems (po_id p # seen) ps"

definition stale_version :: "snapshot \<Rightarrow> gov_policy \<Rightarrow> bool" where
  "stale_version s p =
     (case map_of (sn_by_id s) (po_id p) of None \<Rightarrow> False | Some prev \<Rightarrow> po_version p \<le> po_version prev)"

text \<open>All of a batch or none.  A lone registration is a batch of one.\<close>

definition register_all :: "(string \<Rightarrow> string) \<Rightarrow> (rat \<Rightarrow> string) \<Rightarrow> (string list \<Rightarrow> string list) \<Rightarrow> instant
    \<Rightarrow> gov_policy list \<Rightarrow> snapshot \<Rightarrow> snapshot \<times> policy_registry_error option" where
  "register_all hash nt iterate now ps s =
     (if batch_problems [] ps \<noteq> [] then (s, Some (Policies_Invalid (batch_problems [] ps)))
      else
        (case find (stale_version s) ps of
           Some p \<Rightarrow> (s, Some (Version_Stale (po_id p)))
         | None \<Rightarrow>
             (policy_commit hash nt iterate now (fold (\<lambda>p m. AList.update (po_id p) p m) ps (sn_by_id s)) s, None)))"

definition register_policy :: "(string \<Rightarrow> string) \<Rightarrow> (rat \<Rightarrow> string) \<Rightarrow> (string list \<Rightarrow> string list) \<Rightarrow> instant
    \<Rightarrow> gov_policy \<Rightarrow> snapshot \<Rightarrow> snapshot \<times> policy_registry_error option" where
  "register_policy hash nt iterate now p s =
     (if policy_problems p \<noteq> [] then (s, Some (Policies_Invalid (policy_problems p)))
      else if stale_version s p then (s, Some (Version_Stale (po_id p)))
      else (policy_commit hash nt iterate now (AList.update (po_id p) p (sn_by_id s)) s, None))"

definition unregister_policy :: "(string \<Rightarrow> string) \<Rightarrow> (rat \<Rightarrow> string) \<Rightarrow> (string list \<Rightarrow> string list) \<Rightarrow> instant
    \<Rightarrow> string \<Rightarrow> snapshot \<Rightarrow> snapshot \<times> policy_registry_error option" where
  "unregister_policy hash nt iterate now i s =
     (if map_of (sn_by_id s) i = None then (s, Some Policy_Not_Registered)
      else (policy_commit hash nt iterate now (AList.delete i (sn_by_id s)) s, None))"

definition set_enabled :: "(string \<Rightarrow> string) \<Rightarrow> (rat \<Rightarrow> string) \<Rightarrow> (string list \<Rightarrow> string list) \<Rightarrow> instant
    \<Rightarrow> string \<Rightarrow> bool \<Rightarrow> snapshot \<Rightarrow> snapshot \<times> policy_registry_error option" where
  "set_enabled hash nt iterate now i en s =
     (case map_of (sn_by_id s) i of
        None \<Rightarrow> (s, Some Policy_Not_Registered)
      | Some p \<Rightarrow>
          (if po_enabled p = en then (s, None)
           else (policy_commit hash nt iterate now (AList.update i (p\<lparr>po_enabled := en\<rparr>) (sn_by_id s)) s, None)))"

text \<open>Policies whose window has passed, and how many could match each kind.\<close>

definition expired_policies :: "instant \<Rightarrow> snapshot \<Rightarrow> gov_policy list" where
  "expired_policies now s =
     filter (\<lambda>p. case po_until p of None \<Rightarrow> False | Some u \<Rightarrow> \<not> now < u) (map (policy_at (sn_by_id s)) (sn_order s))"

definition policy_coverage :: "snapshot \<Rightarrow> action_kind \<Rightarrow> nat" where
  "policy_coverage s k =
     sum_list (map (\<lambda>p. if \<not> po_enabled p then 0
                        else if mt_kinds (po_match p) = [] then 1
                        else length (filter (\<lambda>k'. k' = k) (mt_kinds (po_match p))))
               (map (policy_at (sn_by_id s)) (sn_order s)))"

section \<open>Every registry reached is well formed\<close>

datatype policy_op = Po_Register gov_policy | Po_Register_All "gov_policy list" | Po_Unregister string
  | Po_Enable string bool

fun policy_op_run :: "(string \<Rightarrow> string) \<Rightarrow> (rat \<Rightarrow> string) \<Rightarrow> (string list \<Rightarrow> string list) \<Rightarrow> instant \<Rightarrow> policy_op
    \<Rightarrow> snapshot \<Rightarrow> snapshot" where
  "policy_op_run hash nt it now (Po_Register p) s = fst (register_policy hash nt it now p s)"
| "policy_op_run hash nt it now (Po_Register_All ps) s = fst (register_all hash nt it now ps s)"
| "policy_op_run hash nt it now (Po_Unregister i) s = fst (unregister_policy hash nt it now i s)"
| "policy_op_run hash nt it now (Po_Enable i en) s = fst (set_enabled hash nt it now i en s)"

text \<open>Go iterates over a map in any order.\<close>

definition iteration :: "(string list \<Rightarrow> string list) \<Rightarrow> bool" where
  "iteration it \<longleftrightarrow> (\<forall>xs. mset (it xs) = mset xs)"

definition policy_step :: "(string \<Rightarrow> string) \<Rightarrow> (rat \<Rightarrow> string) \<Rightarrow> snapshot \<Rightarrow> instant \<times> policy_op \<Rightarrow> snapshot" where
  "policy_step hash nt s a = policy_op_run hash nt (\<lambda>xs. xs) (fst a) (snd a) s"

definition by_id_ok :: "(string \<times> gov_policy) list \<Rightarrow> bool" where
  "by_id_ok m \<longleftrightarrow> distinct (map fst m) \<and> (\<forall>i p. map_of m i = Some p \<longrightarrow> po_id p = i \<and> policy_problems p = [])"

definition snapshot_inv :: "snapshot \<Rightarrow> bool" where
  "snapshot_inv s \<longleftrightarrow> by_id_ok (sn_by_id s) \<and> sn_order s = policy_order (\<lambda>xs. xs) (sn_by_id s)"

text \<open>The orders the snapshot is sorted by.\<close>

lemma policy_before_lex:
  "policy_before = (\<lambda>a b. scope_rank (po_scope a) < scope_rank (po_scope b)
     \<or> \<not> scope_rank (po_scope b) < scope_rank (po_scope a)
       \<and> (po_priority b < po_priority a \<or> \<not> po_priority a < po_priority b \<and> po_id a < po_id b))"
proof -
  have "scope_rank (po_scope a) = scope_rank (po_scope b) \<longleftrightarrow> po_scope a = po_scope b" for a b :: gov_policy
    by (cases "po_scope a"; cases "po_scope b") simp_all
  then show ?thesis by (auto simp: policy_before_def fun_eq_iff less_le)
qed

interpretation policies_by: strict_weak policy_before
  unfolding policy_before_lex
  by (intro strict_weak_then strict_weak_on [OF strict_weak_linorder, of "\<lambda>p. scope_rank (po_scope p)"]
      strict_weak_on [OF strict_weak_linorder, of po_id]
      strict_weak_on [OF strict_weak_reversed [OF strict_weak_linorder], of po_priority])

lemma policy_before_total: "po_id a \<noteq> po_id b \<Longrightarrow> policy_before a b \<or> policy_before b a"
  by (auto simp: policy_before_lex)

lemma by_id_at: "by_id_ok m \<Longrightarrow> i \<in> fst ` set m \<Longrightarrow> map_of m i = Some (policy_at m i)"
  by (cases "map_of m i") (auto simp: policy_at_def map_of_eq_None_iff)

lemma policy_order_iteration:
  assumes m: "by_id_ok m" and it: "iteration it"
  shows "policy_order it m = policy_order (\<lambda>xs. xs) m"
  unfolding policy_order_def
proof (rule strict_weak.sort_unique [OF strict_weak_on [OF policies_by.strict_weak_axioms]])
  show i: "mset (it (map fst m)) = mset (map fst m)" using it by (simp add: iteration_def)
  show "policy_before (policy_at m x) (policy_at m y) \<or> policy_before (policy_at m y) (policy_at m x)"
    if "x \<in> set (it (map fst m))" "y \<in> set (it (map fst m))" "x \<noteq> y" for x y
  proof -
    have "map_of m x = Some (policy_at m x)" "map_of m y = Some (policy_at m y)"
      using that mset_eq_setD [OF i] by (auto intro!: by_id_at [OF m])
    then have "po_id (policy_at m x) = x" "po_id (policy_at m y) = y" using m unfolding by_id_ok_def by blast+
    then show ?thesis using policy_before_total that(3) by metis
  qed
qed

lemma commit_iteration: "by_id_ok m \<Longrightarrow> iteration it \<Longrightarrow> policy_commit hash nt it now m s = policy_commit hash nt (\<lambda>xs. xs) now m s"
  by (simp add: policy_commit_def policy_order_iteration)

lemma by_id_empty: "by_id_ok []"
  by (simp add: by_id_ok_def)

lemma by_id_update: "by_id_ok m \<Longrightarrow> policy_problems p = [] \<Longrightarrow> by_id_ok (AList.update (po_id p) p m)"
  by (auto simp: by_id_ok_def distinct_update update_conv' split: if_splits)

lemma by_id_delete: "by_id_ok m \<Longrightarrow> by_id_ok (AList.delete i m)"
  by (auto simp: by_id_ok_def distinct_delete delete_conv' split: if_splits)

lemma batch_each: "batch_problems seen ps = [] \<Longrightarrow> p \<in> set ps \<Longrightarrow> policy_problems p = []"
  by (induction ps arbitrary: seen) (auto split: if_splits)

lemma by_id_fold:
  "by_id_ok m \<Longrightarrow> (\<And>p. p \<in> set ps \<Longrightarrow> policy_problems p = []) \<Longrightarrow> by_id_ok (fold (\<lambda>p m. AList.update (po_id p) p m) ps m)"
  by (induction ps arbitrary: m) (auto intro: by_id_update)

lemma enabled_problems [simp]: "policy_problems (p\<lparr>po_enabled := en\<rparr>) = policy_problems p"
  by (simp add: policy_problems_def)

lemma policy_op_writes:
  "by_id_ok (sn_by_id s) \<Longrightarrow>
     (\<forall>it. policy_op_run hash nt it now a s = s)
     \<or> (\<exists>m. by_id_ok m \<and> (\<forall>it. policy_op_run hash nt it now a s = policy_commit hash nt it now m s))"
proof (cases a)
  case (Po_Enable i en)
  assume ok: "by_id_ok (sn_by_id s)"
  show ?thesis
  proof (cases "map_of (sn_by_id s) i")
    case (Some p)
    then have "po_id p = i" "policy_problems p = []" using ok unfolding by_id_ok_def by blast+
    then have "by_id_ok (AList.update i (p\<lparr>po_enabled := en\<rparr>) (sn_by_id s))"
      using by_id_update [OF ok, of "p\<lparr>po_enabled := en\<rparr>"] by simp
    then show ?thesis using Po_Enable Some by (auto simp: set_enabled_def)
  qed (simp add: Po_Enable set_enabled_def)
qed (auto simp: register_policy_def register_all_def unregister_policy_def
    intro: by_id_update by_id_fold by_id_delete batch_each split: option.splits)

lemma policy_commit_inv: "by_id_ok m \<Longrightarrow> snapshot_inv (policy_commit hash nt (\<lambda>xs. xs) now m s)"
  by (simp add: snapshot_inv_def policy_commit_def Let_def)

lemma policy_step_inv: "snapshot_inv s \<Longrightarrow> snapshot_inv (policy_step hash nt s a)"
  using policy_op_writes [of s hash nt "fst a" "snd a"] policy_commit_inv
  by (auto simp: policy_step_def snapshot_inv_def)

interpretation policy_ops: invariant_ops "policy_step hash nt" snapshot_inv for hash nt
  by unfold_locales (rule policy_step_inv)

lemma policy_op_iteration:
  "snapshot_inv s \<Longrightarrow> iteration it \<Longrightarrow> policy_op_run hash nt it now a s = policy_op_run hash nt (\<lambda>xs. xs) now a s"
  using policy_op_writes [of s hash nt now a] commit_iteration unfolding snapshot_inv_def by metis

text \<open>A run of writes, each with the iteration order it happened to see.\<close>

definition policy_run :: "(string \<Rightarrow> string) \<Rightarrow> (rat \<Rightarrow> string) \<Rightarrow> instant
    \<Rightarrow> ((string list \<Rightarrow> string list) \<times> instant \<times> policy_op) list \<Rightarrow> snapshot" where
  "policy_run hash nt t0 ops =
     foldl (\<lambda>s (it, now, a). policy_op_run hash nt it now a s) (new_policy_registry t0) ops"

lemma new_policy_inv: "snapshot_inv (new_policy_registry t0)"
  by (simp add: snapshot_inv_def new_policy_registry_def by_id_ok_def policy_order_def stable_sort_def)

lemma policy_run_fold:
  "list_all (\<lambda>a. iteration (fst a)) ops \<Longrightarrow> snapshot_inv s \<Longrightarrow>
     foldl (\<lambda>s (it, now, a). policy_op_run hash nt it now a s) s ops = run_ops (policy_step hash nt) s (map snd ops)"
proof (induction ops arbitrary: s)
  case Nil
  then show ?case by simp
next
  case (Cons a ops)
  obtain it now b where a: "a = (it, now, b)" by (cases a)
  have "policy_op_run hash nt it now b s = policy_step hash nt s (now, b)"
    using Cons.prems a policy_op_iteration by (simp add: policy_step_def)
  moreover have "snapshot_inv (policy_step hash nt s (now, b))" using Cons.prems by (simp add: policy_step_inv)
  ultimately show ?case using Cons a by simp
qed

lemma policy_run_ops:
  "list_all (\<lambda>a. iteration (fst a)) ops \<Longrightarrow> policy_run hash nt t0 ops = run_ops (policy_step hash nt) (new_policy_registry t0) (map snd ops)"
  unfolding policy_run_def by (rule policy_run_fold) (simp_all add: new_policy_inv)

lemma policy_run_inv: "list_all (\<lambda>a. iteration (fst a)) ops \<Longrightarrow> snapshot_inv (policy_run hash nt t0 ops)"
  by (simp add: policy_run_ops policy_ops.run_inv new_policy_inv)

lemma snapshot_policy:
  assumes "snapshot_inv s" and "i \<in> set (sn_order s)"
  shows "map_of (sn_by_id s) i = Some (policy_at (sn_by_id s) i)"
    and "po_id (policy_at (sn_by_id s) i) = i" and "policy_problems (policy_at (sn_by_id s) i) = []"
proof -
  have "i \<in> fst ` set (sn_by_id s)" using assms by (simp add: snapshot_inv_def policy_order_def)
  then show m: "map_of (sn_by_id s) i = Some (policy_at (sn_by_id s) i)"
    using assms(1) by_id_at by (simp add: snapshot_inv_def)
  then show "po_id (policy_at (sn_by_id s) i) = i" "policy_problems (policy_at (sn_by_id s) i) = []"
    using assms(1) unfolding snapshot_inv_def by_id_ok_def by blast+
qed

section \<open>Properties\<close>

text \<open>The snapshot a registry publishes is a function of the writes it received: whatever orders the runtime
  iterates over its maps in, two registries that saw the same writes hold the same policies in the same
  order with the same digest and version.\<close>

theorem snapshots_are_reproducible:
  assumes "list_all (\<lambda>a. iteration (fst a)) ops" and "list_all (\<lambda>a. iteration (fst a)) ops'"
    and "map snd ops = map snd ops'"
  shows "policy_run hash nt t0 ops = policy_run hash nt t0 ops'"
  using assms by (simp add: policy_run_ops)

definition everywhere :: policy_match where
  "everywhere = \<lparr>mt_kinds = [], mt_operations = [], mt_prefix = [], mt_orgs = [], mt_businesses = [], mt_subjects = [],
     mt_actors = []\<rparr>"

definition deny_all :: "string \<Rightarrow> scope \<Rightarrow> gov_policy" where
  "deny_all i sc = \<lparr>po_id = i, po_version = 1, po_scope = sc, po_priority = 10, po_owner = ''o'', po_match = everywhere,
     po_rules = [], po_default = Deny, po_default_reason = ''no'', po_override = False, po_enabled = True,
     po_from = None, po_until = None\<rparr>"

theorem snapshots_are_reproducible_witness:
  "policy_run (\<lambda>x. x) (\<lambda>_. []) 0 [(rev, 1, Po_Register_All [deny_all ''a'' Scope_Global, deny_all ''b'' Scope_User])]
     = policy_run (\<lambda>x. x) (\<lambda>_. []) 0 [(\<lambda>xs. xs, 1, Po_Register_All [deny_all ''a'' Scope_Global, deny_all ''b'' Scope_User])]"
  by (rule snapshots_are_reproducible) (simp_all add: iteration_def)

text \<open>The digest does not see what a policy matches, whether it is enabled, when it is in force, or the lists
  its conditions compare with: snapshots that decide differently can have one digest.\<close>

theorem digest_misses_the_match:
  "policy_canonical nt (p\<lparr>po_match := m, po_enabled := en, po_from := f, po_until := u\<rparr>) = policy_canonical nt p"
  by (simp add: policy_canonical_def)

end
