(* ===== verification/GovEvaluator.thy ===== *)
theory GovEvaluator
  imports GovPolicy
begin

text \<open>
  The evaluator (\<^verbatim>\<open>packages/go/governance/evaluator.go\<close>) and the baseline policies
  (\<^verbatim>\<open>baseline.go\<close>): which policies apply, what each scope says, which scope wins, and the overlays.
\<close>

section \<open>One scope\<close>

record trace_entry =
  tr_policy :: string
  tr_version :: int
  tr_scope :: scope
  tr_priority :: int
  tr_matched :: bool
  tr_rule :: string
  tr_outcome :: outcome
  tr_reason :: string
  tr_skipped :: string
  tr_decisive :: bool

record scope_result =
  sr_scope :: scope
  sr_policy :: string
  sr_outcome :: outcome
  sr_reason :: string
  sr_explanation :: string
  sr_obligations :: "obligation list"
  sr_override :: bool
  sr_priority :: int
  sr_retry_after :: duration

text \<open>Why a policy is not evaluated, if it is not.\<close>

definition policy_skips :: "gov_policy \<Rightarrow> gov_request \<Rightarrow> instant \<Rightarrow> string option" where
  "policy_skips p r now =
     (case policy_inactive p now of
        Some w \<Rightarrow> Some w
      | None \<Rightarrow> map_option (\<lambda>w. ''match_'' @ w) (match_skips (po_match p) r))"

definition trace_of :: "(rat \<Rightarrow> string) \<Rightarrow> gov_policy \<Rightarrow> gov_request \<Rightarrow> instant \<Rightarrow> trace_entry" where
  "trace_of nt p r now =
     (let base = \<lparr>tr_policy = po_id p, tr_version = po_version p, tr_scope = po_scope p, tr_priority = po_priority p,
                  tr_matched = False, tr_rule = [], tr_outcome = Deny, tr_reason = [], tr_skipped = [], tr_decisive = False\<rparr>
      in case policy_skips p r now of
           Some w \<Rightarrow> base\<lparr>tr_skipped := w\<rparr>
         | None \<Rightarrow>
             (let (out, rule, matched) = policy_evaluate nt p r in
              base\<lparr>tr_matched := True, tr_rule := (if matched then ru_name rule else ''<default>''), tr_outcome := out,
                   tr_reason := (if matched then ru_reason rule else po_default_reason p)\<rparr>))"

definition candidate :: "(rat \<Rightarrow> string) \<Rightarrow> gov_policy \<Rightarrow> gov_request \<Rightarrow> scope_result" where
  "candidate nt p r =
     (let (out, rule, matched) = policy_evaluate nt p r in
      \<lparr>sr_scope = po_scope p, sr_policy = po_id p, sr_outcome = out,
       sr_reason = (if matched then ru_reason rule else po_default_reason p), sr_explanation = ru_explanation rule,
       sr_obligations = [], sr_override = po_override p, sr_priority = po_priority p,
       sr_retry_after = ru_retry_after rule\<rparr>)"

definition better :: "scope_result option \<Rightarrow> scope_result \<Rightarrow> scope_result option" where
  "better best c =
     (case best of
        None \<Rightarrow> Some c
      | Some b \<Rightarrow>
          (if sr_priority c > sr_priority b then Some c
           else if sr_priority c = sr_priority b \<and> sr_outcome c \<noteq> sr_outcome b
                  \<and> severity (sr_outcome c) > severity (sr_outcome b) then Some c
           else Some b))"

definition applicable :: "gov_request \<Rightarrow> instant \<Rightarrow> gov_policy \<Rightarrow> bool" where
  "applicable r now p = (policy_skips p r now = None)"

definition scope_policies :: "snapshot \<Rightarrow> scope \<Rightarrow> gov_policy list" where
  "scope_policies s sc = map (policy_at (sn_by_id s)) (in_scope s sc)"

definition rule_obligations :: "(rat \<Rightarrow> string) \<Rightarrow> gov_request \<Rightarrow> gov_policy \<Rightarrow> obligation list" where
  "rule_obligations nt r p = (case policy_evaluate nt p r of (out, rule, matched) \<Rightarrow> ru_obligations rule)"

definition evaluate_scope :: "(rat \<Rightarrow> string) \<Rightarrow> snapshot \<Rightarrow> scope \<Rightarrow> gov_request \<Rightarrow> instant
    \<Rightarrow> scope_result option \<times> trace_entry list" where
  "evaluate_scope nt s sc r now =
     (let ps = scope_policies s sc;
          live = filter (applicable r now) ps;
          best = foldl better None (map (\<lambda>p. candidate nt p r) live)
      in (map_option (\<lambda>b. b\<lparr>sr_obligations := merge_obligations (map (rule_obligations nt r) live)\<rparr>) best,
          map (\<lambda>p. trace_of nt p r now) ps))"

section \<open>Across scopes\<close>

definition scope_wins :: "scope_result option \<Rightarrow> scope_result option \<Rightarrow> scope_result option" where
  "scope_wins winner result =
     (case (winner, result) of
        (_, None) \<Rightarrow> winner
      | (None, Some c) \<Rightarrow> Some c
      | (Some w, Some c) \<Rightarrow>
          (if sr_override w then Some w
           else if sr_override c \<and> overridable (sr_scope w) then Some c
           else if severity (sr_outcome c) > severity (sr_outcome w) then Some c
           else Some w))"

record evaluator =
  ev_default :: outcome
  ev_default_reason :: string
  ev_thresholds :: thresholds
  ev_privacy :: privacy_rules
  ev_privacy_policy :: string

record gov_decision =
  gd_id :: string
  gd_outcome :: outcome
  gd_reason :: string
  gd_explanation :: string
  gd_obligations :: "obligation list"
  gd_decided_by :: string
  gd_scope :: scope
  gd_trace :: "trace_entry list"
  gd_policy_version :: nat
  gd_print :: string
  gd_risk :: assessment
  gd_emergency :: string
  gd_correlation :: string
  gd_session :: string
  gd_actor :: string
  gd_subject :: string
  gd_label :: string
  gd_at :: instant
  gd_retry_after :: duration

fun mark_decisive :: "scope_result option \<Rightarrow> trace_entry list \<Rightarrow> trace_entry list" where
  "mark_decisive w [] = []"
| "mark_decisive w (t # ts) =
     (if (case w of None \<Rightarrow> False | Some b \<Rightarrow> tr_policy t = sr_policy b \<and> tr_scope t = sr_scope b \<and> tr_matched t)
      then t\<lparr>tr_decisive := True\<rparr> # ts else t # mark_decisive w ts)"

definition scope_verdicts :: "(rat \<Rightarrow> string) \<Rightarrow> snapshot \<Rightarrow> gov_request \<Rightarrow> instant \<Rightarrow> scope_result option list" where
  "scope_verdicts nt s r now = map (\<lambda>sc. fst (evaluate_scope nt s sc r now)) all_scopes"

definition policy_decision :: "(string \<Rightarrow> string) \<Rightarrow> (rat \<Rightarrow> string) \<Rightarrow> evaluator \<Rightarrow> snapshot \<Rightarrow> gov_request \<Rightarrow> instant
    \<Rightarrow> scope_result option \<Rightarrow> gov_decision" where
  "policy_decision hash nt e s r now winner =
     (let d = \<lparr>gd_id = [], gd_outcome = ev_default e,
               gd_reason = (if ev_default_reason e = [] then ''no_policy_matched'' else ev_default_reason e),
               gd_explanation = [], gd_obligations = [], gd_decided_by = ''<default>'', gd_scope = Scope_Compliance,
               gd_trace = [], gd_policy_version = sn_version s, gd_print = request_print hash nt r, gd_risk = gq_risk r,
               gd_emergency = [], gd_correlation = gq_correlation r, gd_session = gq_session r, gd_actor = gq_actor r,
               gd_subject = gq_subject r, gd_label = action_label (gq_action r), gd_at = now, gd_retry_after = 0\<rparr>
      in case winner of
           None \<Rightarrow> d
         | Some w \<Rightarrow> d\<lparr>gd_outcome := sr_outcome w, gd_reason := sr_reason w, gd_explanation := sr_explanation w,
                       gd_decided_by := sr_policy w, gd_scope := sr_scope w, gd_retry_after := sr_retry_after w\<rparr>)"

definition risk_obligation :: "string \<Rightarrow> obligation" where
  "risk_obligation reason = \<lparr>ob_kind = ''audit'', ob_target = ''risk'', ob_reason = reason, ob_deadline = None,
     ob_policy = ''<risk>''\<rparr>"

definition gov_evaluate :: "(string \<Rightarrow> string) \<Rightarrow> (rat \<Rightarrow> string) \<Rightarrow> evaluator \<Rightarrow> snapshot \<Rightarrow> gov_request \<Rightarrow> instant
    \<Rightarrow> gov_decision" where
  "gov_evaluate hash nt e s r now =
     (let verdicts = scope_verdicts nt s r now;
          winner = foldl scope_wins None verdicts;
          obls = map sr_obligations (List.map_filter id verdicts);
          d = policy_decision hash nt e s r now winner;
          forced = thresholds_apply (ev_thresholds e) (gq_action r) (gq_risk r);
          d' = (case forced of
                  Some (out, reason) \<Rightarrow>
                    (if severity out > severity (gd_outcome d)
                     then d\<lparr>gd_outcome := out, gd_reason := reason,
                            gd_explanation := ''risk overlay: '' @ ra_explanation (gq_risk r), gd_decided_by := ''<risk>''\<rparr>
                     else d)
                | None \<Rightarrow> d);
          risk_obls = (case forced of Some (out, reason) \<Rightarrow> [[risk_obligation reason]] | None \<Rightarrow> [])
      in d'\<lparr>gd_obligations := merge_obligations
              (obls @ risk_obls @ [privacy_obligations (ev_privacy e) (gq_action r) (ev_privacy_policy e)]),
            gd_trace := mark_decisive winner
              (concat (map (\<lambda>sc. snd (evaluate_scope nt s sc r now)) all_scopes))\<rparr>)"

section \<open>Static conflicts\<close>

definition possible_outcomes :: "gov_policy \<Rightarrow> outcome list" where
  "possible_outcomes p = sort_key outcome_number (remdups (po_default p # map ru_then (po_rules p)))"

definition outcomes_agree :: "gov_policy \<Rightarrow> gov_policy \<Rightarrow> bool" where
  "outcomes_agree a b =
     (if \<not> list_all (\<lambda>o'. o' \<in> set (possible_outcomes a)) (possible_outcomes b) then False
      else length (possible_outcomes a) = 1 \<or> possible_outcomes a = possible_outcomes b)"

definition dominant_outcome :: "gov_policy \<Rightarrow> outcome" where
  "dominant_outcome p =
     fold (\<lambda>u best. if severity (ru_then u) > severity best then ru_then u else best) (po_rules p) (po_default p)"

record policy_conflict =
  cf_a :: string
  cf_b :: string
  cf_scope :: scope
  cf_priority :: int
  cf_outcome_a :: outcome
  cf_outcome_b :: outcome

fun conflict_pairs :: "gov_policy list \<Rightarrow> (gov_policy \<times> gov_policy) list" where
  "conflict_pairs [] = []"
| "conflict_pairs (a # ps) = map (Pair a) ps @ conflict_pairs ps"

definition conflicts_in :: "snapshot \<Rightarrow> policy_conflict list" where
  "conflicts_in s =
     concat (map (\<lambda>sc.
       map (\<lambda>(a, b). \<lparr>cf_a = po_id a, cf_b = po_id b, cf_scope = sc, cf_priority = po_priority a,
                      cf_outcome_a = dominant_outcome a, cf_outcome_b = dominant_outcome b\<rparr>)
         (filter (\<lambda>(a, b). po_enabled a \<and> po_enabled b \<and> po_priority a = po_priority b \<and> \<not> outcomes_agree a b)
            (conflict_pairs (scope_policies s sc)))) all_scopes)"

section \<open>Within a scope\<close>

lemma severity_le: "severity out \<le> 5"
  by (cases out) simp_all

lemma severity_deny: "severity out = 5 \<longleftrightarrow> out = Deny"
  by (cases out) simp_all

lemma severity_allow: "severity out = 0 \<longleftrightarrow> out = Allow"
  by (cases out) simp_all

definition beats :: "scope_result \<Rightarrow> scope_result \<Rightarrow> bool" where
  "beats b c \<longleftrightarrow> sr_priority c < sr_priority b
     \<or> sr_priority c = sr_priority b \<and> severity (sr_outcome c) \<le> severity (sr_outcome b)"

lemma beats_refl: "beats b b"
  by (simp add: beats_def)

lemma beats_trans: "beats a b \<Longrightarrow> beats b c \<Longrightarrow> beats a c"
  by (auto simp: beats_def)

lemma better_cases: "better (Some b) c = Some b \<and> beats b c \<or> better (Some b) c = Some c \<and> beats c b"
  by (auto simp: better_def beats_def not_less)

lemma better_fold: "\<exists>w. foldl better (Some b) cs = Some w \<and> w \<in> insert b (set cs) \<and> (\<forall>c \<in> insert b (set cs). beats w c)"
proof (induction cs arbitrary: b)
  case Nil
  then show ?case by (simp add: beats_refl)
next
  case (Cons c cs)
  obtain d where d: "better (Some b) c = Some d" "d \<in> {b, c}" "beats d b" "beats d c"
    using better_cases [of b c] beats_refl by auto
  obtain w where "foldl better (Some d) cs = Some w" "w \<in> insert d (set cs)" "\<forall>x \<in> insert d (set cs). beats w x"
    using Cons.IH by blast
  then show ?case using d beats_trans by (intro exI [of _ w]) auto
qed

lemma better_best:
  assumes "cs \<noteq> []"
  obtains w where "foldl better None cs = Some w" "w \<in> set cs" "\<And>c. c \<in> set cs \<Longrightarrow> beats w c"
proof -
  obtain c ds where "cs = c # ds" using assms by (cases cs) auto
  moreover have "better None c = Some c" by (simp add: better_def)
  ultimately show ?thesis using that better_fold [of c ds] by auto
qed

text \<open>The policies of a scope that speak for it, and what they say.\<close>

definition verdict :: "(rat \<Rightarrow> string) \<Rightarrow> gov_policy \<Rightarrow> gov_request \<Rightarrow> outcome" where
  "verdict nt p r = fst (policy_evaluate nt p r)"

definition speaks :: "(rat \<Rightarrow> string) \<Rightarrow> snapshot \<Rightarrow> gov_request \<Rightarrow> instant \<Rightarrow> scope \<Rightarrow> gov_policy \<Rightarrow> bool" where
  "speaks nt s r now sc p \<longleftrightarrow> p \<in> set (scope_policies s sc) \<and> applicable r now p
     \<and> list_all (\<lambda>q. applicable r now q \<longrightarrow> po_priority q < po_priority p
          \<or> po_priority q = po_priority p \<and> severity (verdict nt q r) \<le> severity (verdict nt p r)) (scope_policies s sc)"

lemma candidate_sel [simp]:
  "sr_outcome (candidate nt p r) = verdict nt p r" "sr_priority (candidate nt p r) = po_priority p"
  "sr_override (candidate nt p r) = po_override p" "sr_scope (candidate nt p r) = po_scope p"
  "sr_policy (candidate nt p r) = po_id p"
  by (simp_all add: candidate_def verdict_def split: prod.split)

definition scope_verdict :: "(rat \<Rightarrow> string) \<Rightarrow> snapshot \<Rightarrow> gov_request \<Rightarrow> instant \<Rightarrow> scope \<Rightarrow> scope_result option" where
  "scope_verdict nt s r now sc = fst (evaluate_scope nt s sc r now)"

lemma in_scope_scope: "p \<in> set (scope_policies s sc) \<Longrightarrow> po_scope p = sc"
  by (auto simp: scope_policies_def in_scope_def)

lemma scope_verdict_none: "scope_verdict nt s r now sc = None \<longleftrightarrow> \<not> list_ex (applicable r now) (scope_policies s sc)"
proof (cases "filter (applicable r now) (scope_policies s sc)")
  case Nil
  then show ?thesis by (auto simp: scope_verdict_def evaluate_scope_def list_ex_iff filter_empty_conv)
next
  case (Cons p ps)
  have "map (\<lambda>p. candidate nt p r) (p # ps) \<noteq> []" by simp
  then obtain w where "foldl better None (map (\<lambda>p. candidate nt p r) (p # ps)) = Some w" by (rule better_best)
  moreover have "list_ex (applicable r now) (scope_policies s sc)"
    using Cons by (metis filter_eq_ConsD append.assoc list_ex_iff in_set_conv_decomp filter_False list.distinct(1))
  ultimately show ?thesis using Cons by (simp add: scope_verdict_def evaluate_scope_def Let_def)
qed

lemma scope_verdict_speaks:
  assumes "scope_verdict nt s r now sc = Some b"
  obtains p where "speaks nt s r now sc p" "sr_outcome b = verdict nt p r" "sr_override b = po_override p"
    "sr_scope b = sc" "sr_policy b = po_id p" "sr_priority b = po_priority p"
proof -
  let ?cs = "map (\<lambda>p. candidate nt p r) (filter (applicable r now) (scope_policies s sc))"
  have "?cs \<noteq> []" using assms scope_verdict_none [of nt s r now sc] by (auto simp: list_ex_iff filter_empty_conv)
  then obtain w where w: "foldl better None ?cs = Some w" "w \<in> set ?cs" "\<And>c. c \<in> set ?cs \<Longrightarrow> beats w c"
    by (rule better_best) blast
  obtain p where p: "p \<in> set (scope_policies s sc)" "applicable r now p" "w = candidate nt p r" using w(2) by auto
  have "po_priority q < po_priority p \<or> po_priority q = po_priority p \<and> severity (verdict nt q r) \<le> severity (verdict nt p r)"
    if "q \<in> set (scope_policies s sc)" "applicable r now q" for q
    using w(3) [of "candidate nt q r"] that p(3) by (simp add: beats_def)
  then have "speaks nt s r now sc p" using p by (simp add: speaks_def list_all_iff)
  moreover obtain os where "b = candidate nt p r\<lparr>sr_obligations := os\<rparr>"
    using p assms w(1) by (auto simp: scope_verdict_def evaluate_scope_def Let_def)
  ultimately show ?thesis using in_scope_scope [OF p(1)] by (intro that [of p]) simp_all
qed

lemma speaks_same: "speaks nt s r now sc p \<Longrightarrow> speaks nt s r now sc q \<Longrightarrow>
    severity (verdict nt p r) = severity (verdict nt q r)"
  by (fastforce simp: speaks_def list_all_iff)

lemma speaks_some: "speaks nt s r now sc p \<Longrightarrow> \<exists>b. scope_verdict nt s r now sc = Some b"
  using scope_verdict_none [of nt s r now sc] by (cases "scope_verdict nt s r now sc") (auto simp: speaks_def list_ex_iff)

section \<open>Across scopes\<close>

definition winner :: "(rat \<Rightarrow> string) \<Rightarrow> snapshot \<Rightarrow> gov_request \<Rightarrow> instant \<Rightarrow> scope_result option" where
  "winner nt s r now = foldl scope_wins None (scope_verdicts nt s r now)"

definition spoken :: "evaluator \<Rightarrow> scope_result option \<Rightarrow> outcome" where
  "spoken e w = (case w of None \<Rightarrow> ev_default e | Some b \<Rightarrow> sr_outcome b)"

lemma evaluate_severity:
  "severity (gd_outcome (gov_evaluate hash nt e s r now))
     = max (severity (spoken e (winner nt s r now)))
           (forced_severity (thresholds_apply (ev_thresholds e) (gq_action r) (gq_risk r)))"
  by (simp add: gov_evaluate_def Let_def policy_decision_def spoken_def winner_def forced_severity_def max_def
      split: option.splits prod.splits)

lemma evaluate_scope_field:
  "gd_scope (gov_evaluate hash nt e s r now) = (case winner nt s r now of None \<Rightarrow> Scope_Compliance | Some b \<Rightarrow> sr_scope b)"
  by (simp add: gov_evaluate_def Let_def policy_decision_def winner_def split: option.splits prod.splits)

lemma evaluate_obligations:
  "gd_obligations (gov_evaluate hash nt e s r now) =
     merge_obligations (map sr_obligations (List.map_filter id (scope_verdicts nt s r now))
       @ (case thresholds_apply (ev_thresholds e) (gq_action r) (gq_risk r) of Some (out, reason) \<Rightarrow> [[risk_obligation reason]] | None \<Rightarrow> [])
       @ [privacy_obligations (ev_privacy e) (gq_action r) (ev_privacy_policy e)])"
  by (simp add: gov_evaluate_def Let_def)

text \<open>The walk over the scopes.\<close>

lemma wins_none [simp]: "scope_wins w None = w" "scope_wins None v = v"
  by (simp_all add: scope_wins_def split: option.split)

lemma wins_override: "sr_override w \<Longrightarrow> foldl scope_wins (Some w) vs = Some w"
  by (induction vs) (simp_all add: scope_wins_def split: option.split)

lemma wins_from: "foldl scope_wins w vs \<in> insert w (set vs)"
proof (induction vs arbitrary: w)
  case (Cons v vs)
  have "scope_wins w v \<in> {w, v}" by (simp add: scope_wins_def split: option.split)
  then show ?case using Cons.IH [of "scope_wins w v"] by auto
qed simp

lemma wins_plain:
  "\<not> sr_override w \<Longrightarrow> (\<And>v. Some v \<in> set vs \<Longrightarrow> \<not> sr_override v) \<Longrightarrow>
     \<exists>b. foldl scope_wins (Some w) vs = Some b \<and> (b = w \<or> Some b \<in> set vs) \<and> severity (sr_outcome w) \<le> severity (sr_outcome b)
       \<and> (\<forall>v. Some v \<in> set vs \<longrightarrow> severity (sr_outcome v) \<le> severity (sr_outcome b))"
proof (induction vs arbitrary: w)
  case Nil
  then show ?case by simp
next
  case (Cons v vs)
  show ?case
  proof (cases v)
    case None
    then show ?thesis using Cons by simp
  next
    case (Some c)
    then have c: "\<not> sr_override c" using Cons.prems(2) by simp
    define d where "d = (if severity (sr_outcome c) > severity (sr_outcome w) then c else w)"
    have d: "scope_wins (Some w) v = Some d" "\<not> sr_override d"
      using Some c Cons.prems(1) by (simp_all add: scope_wins_def d_def)
    have "\<exists>b. foldl scope_wins (Some d) vs = Some b \<and> (b = d \<or> Some b \<in> set vs) \<and> severity (sr_outcome d) \<le> severity (sr_outcome b)
       \<and> (\<forall>v. Some v \<in> set vs \<longrightarrow> severity (sr_outcome v) \<le> severity (sr_outcome b))"
      using Cons.IH [OF d(2)] Cons.prems(2) by simp
    then show ?thesis using Some d by (auto simp: d_def not_less split: if_splits)
  qed
qed

end
