(* ===== verification/GovHuman.thy ===== *)
theory GovHuman
  imports GovEvaluator
begin

text \<open>
  Escalations to people (\<^verbatim>\<open>packages/go/governance/human.go\<close>): raising, resolving once, expiring.
  The queue is the map from decisions to escalations in the order they were raised; every operation takes the
  reading of the clock.  Metrics and the audit entries, which repeat the escalation, are not modelled.
\<close>

section \<open>Escalations\<close>

datatype escalation_kind = Esc_Confirmation | Esc_Approval | Esc_Supervisor | Esc_Takeover | Esc_Business

definition kind_for :: "outcome \<Rightarrow> escalation_kind option" where
  "kind_for out =
     (if out = Require_Confirmation then Some Esc_Confirmation
      else if out = Require_Human \<or> out = Escalate then Some Esc_Approval
      else if out = Require_Supervisor then Some Esc_Supervisor
      else None)"

datatype resolution = Res_Pending | Res_Approved | Res_Rejected | Res_Taken_Over | Res_Expired

definition resolution_permits :: "resolution \<Rightarrow> bool" where
  "resolution_permits r = (r = Res_Approved)"

record escalation =
  es_id :: string
  es_kind :: escalation_kind
  es_decision :: string
  es_correlation :: string
  es_session :: string
  es_actor :: string
  es_subject :: string
  es_label :: string
  es_reason :: string
  es_policy :: string
  es_risk :: risk_level
  es_raised :: instant
  es_deadline :: "instant option"
  es_resolution :: resolution
  es_by :: string
  es_resolved :: "instant option"
  es_note :: string

definition es_pending :: "escalation \<Rightarrow> bool" where
  "es_pending e = (es_resolution e = Res_Pending)"

definition overdue :: "instant \<Rightarrow> escalation \<Rightarrow> bool" where
  "overdue now e = (es_pending e \<and> (case es_deadline e of None \<Rightarrow> False | Some d \<Rightarrow> \<not> now < d))"

definition default_escalation_timeouts :: "(escalation_kind \<times> duration) list" where
  "default_escalation_timeouts = [(Esc_Confirmation, 30 * second), (Esc_Approval, 300 * second),
     (Esc_Supervisor, 900 * second), (Esc_Takeover, 60 * second), (Esc_Business, 4 * 3600 * second)]"

section \<open>The queue\<close>

record human_runtime =
  hu_pending :: "(string \<times> escalation) list"
  hu_resolved :: "escalation list"
  hu_max_done :: nat
  hu_raised :: nat
  hu_approved :: nat
  hu_rejected :: nat
  hu_expired :: nat

definition new_human_runtime :: human_runtime where
  "new_human_runtime = \<lparr>hu_pending = [], hu_resolved = [], hu_max_done = 512, hu_raised = 0, hu_approved = 0,
     hu_rejected = 0, hu_expired = 0\<rparr>"

definition raise_escalation :: "instant \<Rightarrow> gov_decision \<Rightarrow> escalation_kind \<Rightarrow> duration \<Rightarrow> human_runtime
    \<Rightarrow> human_runtime \<times> escalation" where
  "raise_escalation now d kind timeout h =
     (case map_of (hu_pending h) (gd_id d) of
        Some e \<Rightarrow> (h, e)
      | None \<Rightarrow>
          (let e = \<lparr>es_id = gd_id d, es_kind = kind, es_decision = gd_id d, es_correlation = gd_correlation d,
                    es_session = gd_session d, es_actor = gd_actor d, es_subject = gd_subject d,
                    es_label = gd_label d, es_reason = gd_reason d, es_policy = gd_decided_by d,
                    es_risk = ra_level (gd_risk d), es_raised = now,
                    es_deadline = (if timeout > 0 then Some (now + timeout) else None),
                    es_resolution = Res_Pending, es_by = [], es_resolved = None, es_note = []\<rparr>
           in (h\<lparr>hu_pending := hu_pending h @ [(gd_id d, e)], hu_raised := hu_raised h + 1\<rparr>, e)))"

datatype human_error = Resolved_By_Required | Resolve_To_Pending | Already_Resolved | Escalation_Not_Found

definition resolve_escalation :: "instant \<Rightarrow> string \<Rightarrow> resolution \<Rightarrow> string \<Rightarrow> string \<Rightarrow> human_runtime
    \<Rightarrow> human_runtime \<times> (human_error + escalation)" where
  "resolve_escalation now i res by_whom note h =
     (if by_whom = [] then (h, Inl Resolved_By_Required)
      else if res = Res_Pending then (h, Inl Resolve_To_Pending)
      else
        (case map_of (hu_pending h) i of
           None \<Rightarrow> (h, Inl (if list_ex (\<lambda>e. es_id e = i) (hu_resolved h) then Already_Resolved else Escalation_Not_Found))
         | Some e \<Rightarrow>
             (let e' = e\<lparr>es_resolution := res, es_by := by_whom, es_resolved := Some now, es_note := note\<rparr>;
                  done' = hu_resolved h @ [e']
              in (h\<lparr>hu_pending := AList.delete i (hu_pending h),
                    hu_resolved := (if length done' > hu_max_done h then tl done' else done'),
                    hu_approved := hu_approved h + (if res = Res_Approved then 1 else 0),
                    hu_expired := hu_expired h + (if res = Res_Expired then 1 else 0),
                    hu_rejected := hu_rejected h + (if res = Res_Approved \<or> res = Res_Expired then 0 else 1)\<rparr>,
                  Inr e'))))"

definition get_escalation :: "string \<Rightarrow> human_runtime \<Rightarrow> escalation option" where
  "get_escalation i h =
     (case map_of (hu_pending h) i of
        Some e \<Rightarrow> Some e
      | None \<Rightarrow> find (\<lambda>e. es_id e = i) (rev (hu_resolved h)))"

definition pending_escalations :: "human_runtime \<Rightarrow> escalation list" where
  "pending_escalations h =
     stable_sort (\<lambda>a b. if es_raised a \<noteq> es_raised b then es_raised a < es_raised b else es_id a < es_id b)
       (map snd (hu_pending h))"

definition pending_for :: "escalation_kind \<Rightarrow> human_runtime \<Rightarrow> escalation list" where
  "pending_for k h = filter (\<lambda>e. es_kind e = k) (pending_escalations h)"

fun expire_each :: "instant \<Rightarrow> string list \<Rightarrow> human_runtime \<Rightarrow> human_runtime \<times> nat" where
  "expire_each now [] h = (h, 0)"
| "expire_each now (i # is) h =
     (let (h', res) = resolve_escalation now i Res_Expired ''system'' ''deadline passed'' h;
          (h'', n) = expire_each now is h'
      in (h'', n + (case res of Inr e \<Rightarrow> 1 | Inl e \<Rightarrow> 0)))"

definition sweep_escalations :: "instant \<Rightarrow> human_runtime \<Rightarrow> human_runtime \<times> nat" where
  "sweep_escalations now h =
     expire_each now (stable_sort (<) (map fst (filter (\<lambda>(i, e). overdue now e) (hu_pending h)))) h"

text \<open>Approvals over everything resolved, as a fraction.\<close>

definition approval_rate :: "human_runtime \<Rightarrow> rat" where
  "approval_rate h =
     (let n = hu_approved h + hu_rejected h + hu_expired h
      in if n = 0 then 0 else of_nat (hu_approved h) / of_nat n)"

section \<open>Runs\<close>

datatype human_op = Hu_Raise gov_decision escalation_kind duration | Hu_Resolve string resolution string string | Hu_Sweep

fun human_run :: "instant \<Rightarrow> human_op \<Rightarrow> human_runtime \<Rightarrow> human_runtime" where
  "human_run now (Hu_Raise d k t) h = fst (raise_escalation now d k t h)"
| "human_run now (Hu_Resolve i r w n) h = fst (resolve_escalation now i r w n h)"
| "human_run now Hu_Sweep h = fst (sweep_escalations now h)"

definition human_step :: "human_runtime \<Rightarrow> instant \<times> human_op \<Rightarrow> human_runtime" where
  "human_step h a = human_run (fst a) (snd a) h"

definition answered :: "escalation \<Rightarrow> bool" where
  "answered e \<longleftrightarrow> es_resolution e \<noteq> Res_Pending \<and> es_by e \<noteq> [] \<and> es_resolved e \<noteq> None"

definition human_inv :: "human_runtime \<Rightarrow> bool" where
  "human_inv h \<longleftrightarrow> distinct (map fst (hu_pending h))
     \<and> list_all (\<lambda>(i, e). es_id e = i \<and> es_pending e) (hu_pending h)
     \<and> list_all answered (hu_resolved h)
     \<and> length (hu_resolved h) \<le> hu_max_done h
     \<and> hu_raised h = length (hu_pending h) + hu_approved h + hu_rejected h + hu_expired h"

lemma length_delete_pending:
  "distinct (map fst m) \<Longrightarrow> map_of m k = Some v \<Longrightarrow> Suc (length (AList.delete k m)) = length m"
proof (induction m)
  case (Cons a m)
  obtain j w where a: "a = (j, w)" by (cases a)
  show ?case
  proof (cases "j = k")
    case True
    then have "filter (\<lambda>(k', _). k \<noteq> k') m = m" using Cons.prems(1) a by (force simp: filter_id_conv)
    then show ?thesis using True a by (simp add: AList.delete_eq)
  next
    case False
    then show ?thesis using Cons a by (simp add: AList.delete_eq)
  qed
qed simp

lemma raise_inv: "human_inv h \<Longrightarrow> human_inv (fst (raise_escalation now d k t h))"
  by (auto simp: raise_escalation_def human_inv_def Let_def es_pending_def map_of_eq_None_iff split: option.split)

lemma resolve_inv: "human_inv h \<Longrightarrow> human_inv (fst (resolve_escalation now i r w n h))"
proof (cases "w \<noteq> [] \<and> r \<noteq> Res_Pending \<and> map_of (hu_pending h) i \<noteq> None")
  case False
  moreover assume "human_inv h"
  ultimately show ?thesis by (auto simp: resolve_escalation_def split: option.split)
next
  case True
  then obtain e where e: "map_of (hu_pending h) i = Some e" by blast
  assume I: "human_inv h"
  define e' where "e' = e\<lparr>es_resolution := r, es_by := w, es_resolved := Some now, es_note := n\<rparr>"
  define dn where "dn = hu_resolved h @ [e']"
  have res: "fst (resolve_escalation now i r w n h) = h\<lparr>hu_pending := AList.delete i (hu_pending h),
      hu_resolved := (if length dn > hu_max_done h then tl dn else dn),
      hu_approved := hu_approved h + (if r = Res_Approved then 1 else 0),
      hu_expired := hu_expired h + (if r = Res_Expired then 1 else 0),
      hu_rejected := hu_rejected h + (if r = Res_Approved \<or> r = Res_Expired then 0 else 1)\<rparr>"
    using True e by (simp add: resolve_escalation_def Let_def e'_def dn_def)
  have dn: "list_all answered dn" "length dn \<le> Suc (hu_max_done h)"
    using I True by (simp_all add: dn_def e'_def answered_def human_inv_def)
  have dn': "list_all answered (tl dn)" using dn(1) by (cases dn) simp_all
  have len: "Suc (length (AList.delete i (hu_pending h))) = length (hu_pending h)"
    using I e by (simp add: human_inv_def length_delete_pending)
  have keys: "list_all (\<lambda>(i, e). es_id e = i \<and> es_pending e) (AList.delete i (hu_pending h))"
    using I by (auto simp: human_inv_def list_all_iff AList.delete_eq)
  show ?thesis using I dn dn' len keys by (auto simp: res human_inv_def distinct_delete)
qed

lemma expire_inv: "human_inv h \<Longrightarrow> human_inv (fst (expire_each now is h))"
proof (induction "is" arbitrary: h)
  case (Cons i "is")
  have "fst (expire_each now (i # is) h) = fst (expire_each now is (fst (resolve_escalation now i Res_Expired ''system'' ''deadline passed'' h)))"
    by (simp split: prod.split)
  then show ?case using Cons resolve_inv by simp
qed simp

lemma human_step_inv: "human_inv h \<Longrightarrow> human_inv (human_step h a)"
  by (cases "snd a") (simp_all add: human_step_def raise_inv resolve_inv sweep_escalations_def expire_inv)

interpretation human_ops: invariant_ops human_step human_inv
  by unfold_locales (rule human_step_inv)

lemma new_human_inv: "human_inv new_human_runtime"
  by (simp add: human_inv_def new_human_runtime_def)

section \<open>Properties\<close>

text \<open>Nothing raised is lost and silence is no answer: over any operations every escalation raised is waiting, or
  was counted once as approved, rejected or expired; what is kept as resolved has an answer, a name and an
  instant, and at most 512 of them are kept.\<close>

theorem escalations_are_accounted_for:
  "human_inv (run_ops human_step new_human_runtime ops)"
  by (rule human_ops.run_inv [OF new_human_inv])

lemma resolved_gone: "snd (resolve_escalation now i r w n h) = Inr e \<Longrightarrow> human_inv h \<Longrightarrow>
    map_of (hu_pending (fst (resolve_escalation now i r w n h))) i = None"
  by (auto simp: resolve_escalation_def Let_def delete_conv' split: if_splits option.splits)

definition raises :: "string \<Rightarrow> human_op \<Rightarrow> bool" where
  "raises i op = (case op of Hu_Raise d k t \<Rightarrow> gd_id d = i | _ \<Rightarrow> False)"

lemma resolve_keeps_gone: "map_of (hu_pending h) i = None \<Longrightarrow> map_of (hu_pending (fst (resolve_escalation now j r w n h))) i = None"
  by (auto simp: resolve_escalation_def Let_def delete_conv' split: if_splits option.splits)

lemma expire_keeps_gone: "map_of (hu_pending h) i = None \<Longrightarrow> map_of (hu_pending (fst (expire_each now is h))) i = None"
proof (induction "is" arbitrary: h)
  case (Cons j "is")
  have "fst (expire_each now (j # is) h) = fst (expire_each now is (fst (resolve_escalation now j Res_Expired ''system'' ''deadline passed'' h)))"
    by (simp split: prod.split)
  then show ?case using Cons resolve_keeps_gone by simp
qed simp

lemma step_keeps_gone:
  "map_of (hu_pending h) i = None \<Longrightarrow> \<not> raises i (snd a) \<Longrightarrow> map_of (hu_pending (human_step h a)) i = None"
  by (cases "snd a")
    (auto simp: human_step_def resolve_keeps_gone sweep_escalations_def expire_keeps_gone raise_escalation_def Let_def raises_def
      map_add_def split: option.splits)

lemma run_keeps_gone:
  "map_of (hu_pending h) i = None \<Longrightarrow> list_all (\<lambda>a. \<not> raises i (snd a)) ops \<Longrightarrow> map_of (hu_pending (run_ops human_step h ops)) i = None"
  by (induction ops arbitrary: h) (simp_all add: step_keeps_gone)

text \<open>C33. The first answer wins: once an escalation has been resolved, and until its decision is escalated again,
  whatever else happens to the queue, a second resolution is refused and changes nothing.\<close>

theorem first_resolution_wins:
  assumes "snd (resolve_escalation now i r w n h) = Inr e" and "human_inv h"
    and "list_all (\<lambda>a. \<not> raises i (snd a)) ops"
    and "h' = run_ops human_step (fst (resolve_escalation now i r w n h)) ops"
  shows "fst (resolve_escalation now' i r' w' n' h') = h' \<and> (\<exists>x. snd (resolve_escalation now' i r' w' n' h') = Inl x)"
proof -
  have "map_of (hu_pending h') i = None"
    using run_keeps_gone [OF resolved_gone [OF assms(1,2)] assms(3)] assms(4) by simp
  then show ?thesis by (auto simp: resolve_escalation_def)
qed

definition some_decision :: "string \<Rightarrow> gov_decision" where
  "some_decision i = \<lparr>gd_id = i, gd_outcome = Require_Confirmation, gd_reason = [], gd_explanation = [],
     gd_obligations = [], gd_decided_by = [], gd_scope = Scope_Global, gd_trace = [], gd_policy_version = 0,
     gd_print = [], gd_risk = \<lparr>ra_level = Risk_Low, ra_signals = [], ra_explanation = [], ra_capped = False\<rparr>,
     gd_emergency = [], gd_correlation = [], gd_session = [], gd_actor = [], gd_subject = [], gd_label = [],
     gd_at = 0, gd_retry_after = 0\<rparr>"

definition one_waiting :: human_runtime where
  "one_waiting = run_ops human_step new_human_runtime [(0, Hu_Raise (some_decision ''d'') Esc_Confirmation 30)]"

theorem first_resolution_wins_witness:
  "\<exists>x. snd (resolve_escalation 7 ''d'' Res_Approved ''bob'' [] (run_ops human_step
      (fst (resolve_escalation 5 ''d'' Res_Rejected ''ann'' [] one_waiting)) [(6, Hu_Raise (some_decision ''other'') Esc_Approval 9)])) = Inl x"
proof -
  have r: "\<exists>e. snd (resolve_escalation 5 ''d'' Res_Rejected ''ann'' [] one_waiting) = Inr e"
    by (simp add: one_waiting_def human_step_def raise_escalation_def new_human_runtime_def some_decision_def resolve_escalation_def Let_def)
  then obtain e where e: "snd (resolve_escalation 5 ''d'' Res_Rejected ''ann'' [] one_waiting) = Inr e" by blast
  have i: "human_inv one_waiting" unfolding one_waiting_def by (rule human_ops.run_inv [OF new_human_inv])
  show ?thesis
    using first_resolution_wins [OF e i _ refl, of "[(6, Hu_Raise (some_decision ''other'') Esc_Approval 9)]" 7 Res_Approved "''bob''" "[]"]
    by (simp add: raises_def some_decision_def)
qed

text \<open>Until a sweep comes by, an escalation past its deadline can still be approved; and a decision already
  answered can be put in front of people a second time.\<close>

theorem overdue_escalation_is_approved:
  "\<exists>e. snd (resolve_escalation 31 ''d'' Res_Approved ''ann'' [] one_waiting) = Inr e \<and> resolution_permits (es_resolution e)"
  by (simp add: one_waiting_def human_step_def raise_escalation_def new_human_runtime_def some_decision_def resolve_escalation_def
      Let_def resolution_permits_def)

theorem answered_decision_is_raised_again:
  "pending_escalations (fst (raise_escalation 9 (some_decision ''d'') Esc_Confirmation 30
     (fst (resolve_escalation 5 ''d'' Res_Rejected ''ann'' [] one_waiting)))) \<noteq> []"
  by code_simp

end
