(* ===== verification/GovBaseline.thy ===== *)
theory GovBaseline
  imports GovEvaluator
begin

text \<open>
  What the evaluator guarantees over every registry that can be reached, and the starting rule set
  (\<^verbatim>\<open>packages/go/governance/baseline.go\<close>) with a closed form of what it decides.
\<close>

section \<open>The baseline\<close>

definition at_least_class :: "string \<Rightarrow> gov_condition" where
  "at_least_class c = \<lparr>cd_field = ''classification'', cd_selector = Sel_At_Least, cd_value = A_Str c, cd_values = []\<rparr>"

definition secrets_never_stored :: gov_policy where
  "secrets_never_stored =
     \<lparr>po_id = ''baseline.secrets'', po_version = 1, po_scope = Scope_Compliance, po_priority = 1000,
      po_owner = ''platform-security'', po_match = everywhere,
      po_rules =
        [\<lparr>ru_name = ''refuse-secret-classification'', ru_when = [at_least_class ''secret''], ru_then = Deny,
          ru_reason = ''secret_material'',
          ru_explanation = ''secret material is never stored or transmitted by this platform'', ru_obligations = [],
          ru_retry_after = 0\<rparr>],
      po_default = Allow, po_default_reason = ''not_secret_material'', po_override = False, po_enabled = True,
      po_from = None, po_until = None\<rparr>"

definition below_secret :: gov_condition where
  "below_secret = \<lparr>cd_field = ''classification'', cd_selector = Sel_Less_Than, cd_value = A_Str ''secret'', cd_values = []\<rparr>"

definition consent_operations :: "string list" where
  "consent_operations = [''write'', ''update'', ''export'', ''send'', ''schedule'']"

definition personal_data_needs_basis :: gov_policy where
  "personal_data_needs_basis =
     \<lparr>po_id = ''baseline.personal-data'', po_version = 1, po_scope = Scope_Global, po_priority = 900,
      po_owner = ''platform-privacy'', po_match = everywhere,
      po_rules =
        [\<lparr>ru_name = ''personal-write-needs-consent'',
          ru_when = [at_least_class ''personal'', below_secret,
            \<lparr>cd_field = ''operation'', cd_selector = Sel_In, cd_value = A_Str [], cd_values = consent_operations\<rparr>],
          ru_then = Require_Consent, ru_reason = ''personal_data_retention'',
          ru_explanation = ''retaining or sharing personal data requires a lawful basis'',
          ru_obligations = [\<lparr>ob_kind = ''consent'', ob_target = ''data_processing'', ob_reason = ''personal_data'',
            ob_deadline = None, ob_policy = ''baseline.personal-data''\<rparr>],
          ru_retry_after = 0\<rparr>,
         \<lparr>ru_name = ''sensitive-external-denied'',
          ru_when = [at_least_class ''sensitive'', below_secret,
            \<lparr>cd_field = ''kind'', cd_selector = Sel_Equals, cd_value = A_Str ''external'', cd_values = []\<rparr>],
          ru_then = Deny, ru_reason = ''sensitive_data_external'',
          ru_explanation = ''sensitive data does not leave the platform boundary'', ru_obligations = [],
          ru_retry_after = 0\<rparr>],
      po_default = Allow, po_default_reason = ''no_personal_data_concern'', po_override = False, po_enabled = True,
      po_from = None, po_until = None\<rparr>"

definition reversibility_is :: "string \<Rightarrow> gov_condition" where
  "reversibility_is w = \<lparr>cd_field = ''reversibility'', cd_selector = Sel_Equals, cd_value = A_Str w, cd_values = []\<rparr>"

definition irreversible_needs_confirmation :: gov_policy where
  "irreversible_needs_confirmation =
     \<lparr>po_id = ''baseline.irreversible'', po_version = 1, po_scope = Scope_Global, po_priority = 800,
      po_owner = ''platform-safety'', po_match = everywhere,
      po_rules =
        [\<lparr>ru_name = ''irreversible-confirm'', ru_when = [reversibility_is ''never''], ru_then = Require_Confirmation,
          ru_reason = ''irreversible_action'',
          ru_explanation = ''this action cannot be undone, so it is confirmed before it happens'',
          ru_obligations =
            [\<lparr>ob_kind = ''confirmation'', ob_target = ''user'', ob_reason = ''irreversible'', ob_deadline = None,
              ob_policy = ''baseline.irreversible''\<rparr>,
             \<lparr>ob_kind = ''audit'', ob_target = ''irreversible'', ob_reason = ''irreversible'', ob_deadline = None,
              ob_policy = ''baseline.irreversible''\<rparr>],
          ru_retry_after = 0\<rparr>],
      po_default = Allow, po_default_reason = ''reversible_action'', po_override = False, po_enabled = True,
      po_from = None, po_until = None\<rparr>"

definition external_actions_restricted :: gov_policy where
  "external_actions_restricted =
     \<lparr>po_id = ''baseline.external'', po_version = 1, po_scope = Scope_Global, po_priority = 700,
      po_owner = ''platform-safety'', po_match = everywhere\<lparr>mt_kinds := [Kind_External]\<rparr>,
      po_rules =
        [\<lparr>ru_name = ''external-needs-human'', ru_when = [], ru_then = Require_Human,
          ru_reason = ''unclassified_external_action'',
          ru_explanation = ''an external action with no governing policy is reviewed by a person'',
          ru_obligations = [\<lparr>ob_kind = ''approval'', ob_target = ''operator'', ob_reason = ''external_action'',
            ob_deadline = None, ob_policy = ''baseline.external''\<rparr>],
          ru_retry_after = 0\<rparr>],
      po_default = Require_Human, po_default_reason = ''unclassified_external_action'', po_override = False,
      po_enabled = True, po_from = None, po_until = None\<rparr>"

definition reads_allowed :: gov_policy where
  "reads_allowed =
     \<lparr>po_id = ''baseline.reads'', po_version = 1, po_scope = Scope_Global, po_priority = 100,
      po_owner = ''platform-safety'', po_match = everywhere,
      po_rules =
        [\<lparr>ru_name = ''allow-reads'', ru_when = [reversibility_is ''none''], ru_then = Allow, ru_reason = ''non_mutating'',
          ru_explanation = ''the action changes nothing'', ru_obligations = [], ru_retry_after = 0\<rparr>],
      po_default = Deny, po_default_reason = ''mutating_action_without_policy'', po_override = False, po_enabled = True,
      po_from = None, po_until = None\<rparr>"

definition baseline_policies :: "gov_policy list" where
  "baseline_policies = [secrets_never_stored, personal_data_needs_basis, irreversible_needs_confirmation,
     external_actions_restricted, reads_allowed]"

definition temporary_policy :: "string \<Rightarrow> string \<Rightarrow> instant \<Rightarrow> duration \<Rightarrow> gov_rule list \<Rightarrow> gov_policy" where
  "temporary_policy i owner from d rules =
     \<lparr>po_id = i, po_version = 1, po_scope = Scope_Temporary, po_priority = 500, po_owner = owner, po_match = everywhere,
      po_rules = rules, po_default = Deny, po_default_reason = ''temporary_policy_default'', po_override = False,
      po_enabled = True, po_from = Some from, po_until = Some (from + d)\<rparr>"

definition feature_flag_policy :: "string \<Rightarrow> string \<Rightarrow> policy_match \<Rightarrow> outcome \<Rightarrow> string \<Rightarrow> gov_policy" where
  "feature_flag_policy i owner m out reason =
     \<lparr>po_id = i, po_version = 1, po_scope = Scope_Feature_Flag, po_priority = 500, po_owner = owner, po_match = m,
      po_rules =
        [\<lparr>ru_name = ''flag'', ru_when = [], ru_then = out, ru_reason = reason,
          ru_explanation = ''feature flag '' @ i @ '' is in effect'', ru_obligations = [], ru_retry_after = 0\<rparr>],
      po_default = Allow, po_default_reason = ''flag_not_applicable'', po_override = False, po_enabled = True,
      po_from = None, po_until = None\<rparr>"

section \<open>Reached registries\<close>

text \<open>Only compliance and emergency policies may override.\<close>

lemma policy_override_scope: "policy_problems p = [] \<Longrightarrow> po_override p \<Longrightarrow> po_scope p = Scope_Emergency \<or> po_scope p = Scope_Compliance"
  by (auto simp: policy_problems_def split: if_splits)

lemma reached_override:
  assumes "snapshot_inv s" "p \<in> set (scope_policies s sc)" "po_override p"
  shows "sc = Scope_Emergency \<or> sc = Scope_Compliance"
proof -
  obtain i where "i \<in> set (sn_order s)" "p = policy_at (sn_by_id s) i"
    using assms(2) by (auto simp: scope_policies_def in_scope_def)
  then show ?thesis
    using policy_override_scope snapshot_policy(3) [OF assms(1)] in_scope_scope [OF assms(2)] assms(3) by metis
qed

definition later_scopes :: "scope list" where
  "later_scopes = [Scope_Global, Scope_Organization, Scope_Business, Scope_User, Scope_Session, Scope_Temporary, Scope_Feature_Flag]"

lemma winner_walk:
  "winner nt s r now =
     foldl scope_wins (scope_wins (scope_verdict nt s r now Scope_Compliance) (scope_verdict nt s r now Scope_Emergency))
       (map (scope_verdict nt s r now) later_scopes)"
  by (simp add: winner_def scope_verdicts_def scope_verdict_def all_scopes_def later_scopes_def)

lemma verdicts_all: "scope_verdicts nt s r now = map (scope_verdict nt s r now) all_scopes"
  by (simp add: scope_verdicts_def scope_verdict_def)

lemma later_plain:
  assumes "snapshot_inv s" "Some v \<in> set (map (scope_verdict nt s r now) later_scopes)"
  shows "\<not> sr_override v"
proof
  assume o: "sr_override v"
  obtain sc where sc: "sc \<in> set later_scopes" "scope_verdict nt s r now sc = Some v" using assms(2) by auto
  obtain p where "speaks nt s r now sc p" "sr_override v = po_override p" by (rule scope_verdict_speaks [OF sc(2)])
  then have "sc = Scope_Emergency \<or> sc = Scope_Compliance"
    using reached_override [OF assms(1), of p sc] o by (simp add: speaks_def)
  then show False using sc(1) by (auto simp: later_scopes_def)
qed

lemma later_walk:
  assumes "snapshot_inv s"
  obtains b where "foldl scope_wins (Some w) (map (scope_verdict nt s r now) later_scopes) = Some b"
    "severity (sr_outcome w) \<le> severity (sr_outcome b)" "sr_override w \<Longrightarrow> b = w"
proof (cases "sr_override w")
  case True
  then show ?thesis using that [of w] by (simp add: wins_override)
next
  case False
  then show ?thesis using that wins_plain [of w "map (scope_verdict nt s r now) later_scopes"] later_plain [OF assms] by blast
qed

lemma speaks_verdict:
  assumes "speaks nt s r now sc p" "scope_verdict nt s r now sc = Some b"
  shows "severity (sr_outcome b) = severity (verdict nt p r)"
proof -
  obtain q where "speaks nt s r now sc q" "sr_outcome b = verdict nt q r" by (rule scope_verdict_speaks [OF assms(2)])
  then show ?thesis using speaks_same [OF assms(1)] by metis
qed

lemma compliance_then_emergency:
  assumes "sr_scope w = Scope_Compliance"
  obtains d where "scope_wins (Some w) v = Some d" "severity (sr_outcome w) \<le> severity (sr_outcome d)"
    "d = w \<or> v = Some d"
  using assms that by (cases v; cases "sr_override w"; cases "severity (sr_outcome w) < severity (sr_outcome (the v))")
    (auto simp: scope_wins_def overridable_def)

lemma compliance_floor:
  assumes I: "snapshot_inv s" and p: "speaks nt s r now Scope_Compliance p"
  shows "severity (verdict nt p r) \<le> severity (gd_outcome (gov_evaluate hash nt e s r now))"
proof -
  obtain w where w: "scope_verdict nt s r now Scope_Compliance = Some w" using speaks_some [OF p] by blast
  have sw: "sr_scope w = Scope_Compliance" by (rule scope_verdict_speaks [OF w])
  obtain d where d: "scope_wins (Some w) (scope_verdict nt s r now Scope_Emergency) = Some d"
    "severity (sr_outcome w) \<le> severity (sr_outcome d)"
    by (rule compliance_then_emergency [OF sw])
  obtain b where b: "foldl scope_wins (Some d) (map (scope_verdict nt s r now) later_scopes) = Some b"
    "severity (sr_outcome d) \<le> severity (sr_outcome b)"
    by (rule later_walk [OF I])
  have "winner nt s r now = Some b" by (simp only: winner_walk w d(1) b(1))
  then show ?thesis
    using b(2) d(2) speaks_verdict [OF p w] by (simp add: evaluate_severity spoken_def)
qed

lemma winner_speaks:
  assumes "winner nt s r now = Some b"
  obtains sc p where "speaks nt s r now sc p" "sr_outcome b = verdict nt p r"
proof -
  have "Some b \<in> set (scope_verdicts nt s r now)"
    using assms wins_from [of None "scope_verdicts nt s r now"] by (simp add: winner_def)
  then obtain sc where "scope_verdict nt s r now sc = Some b" by (auto simp: verdicts_all)
  then show ?thesis using that by (rule scope_verdict_speaks)
qed

section \<open>Properties of the evaluator\<close>

text \<open>Compliance is a floor: whatever other policies, emergency overrides and risk say, the decision is at
  least as strict as what the compliance scope decides, so a compliance denial is final.\<close>

theorem compliance_is_a_floor:
  assumes "list_all (\<lambda>a. iteration (fst a)) ops" and "s = policy_run hash nt t0 ops"
    and "speaks nt s r now Scope_Compliance p"
  shows "severity (verdict nt p r) \<le> severity (gd_outcome (gov_evaluate hash nt e s r now))
    \<and> (verdict nt p r = Deny \<longrightarrow> gd_outcome (gov_evaluate hash nt e s r now) = Deny)"
proof -
  have le: "severity (verdict nt p r) \<le> severity (gd_outcome (gov_evaluate hash nt e s r now))"
    using compliance_floor [OF _ assms(3)] policy_run_inv [OF assms(1)] assms(2) by simp
  moreover have "gd_outcome (gov_evaluate hash nt e s r now) = Deny" if "verdict nt p r = Deny"
    using le that severity_le [of "gd_outcome (gov_evaluate hash nt e s r now)"] severity_deny by simp
  ultimately show ?thesis by blast
qed

text \<open>Nothing is permitted by accident: a decision that permits comes from a policy that applied and said so,
  every compliance policy that speaks says so too, and no risk threshold fired.\<close>

theorem permission_is_written:
  assumes "list_all (\<lambda>a. iteration (fst a)) ops" and "s = policy_run hash nt t0 ops"
    and "ev_default e \<noteq> Allow" and "permits (gd_outcome (gov_evaluate hash nt e s r now))"
  shows "(\<exists>sc p. speaks nt s r now sc p \<and> verdict nt p r = Allow)
    \<and> (\<forall>q. speaks nt s r now Scope_Compliance q \<longrightarrow> verdict nt q r = Allow)
    \<and> forced_severity (thresholds_apply (ev_thresholds e) (gq_action r) (gq_risk r)) = 0"
proof -
  have z: "severity (gd_outcome (gov_evaluate hash nt e s r now)) = 0" using assms(4) by (simp add: permits_def)
  then have w: "severity (spoken e (winner nt s r now)) = 0"
    and f: "forced_severity (thresholds_apply (ev_thresholds e) (gq_action r) (gq_risk r)) = 0"
    by (simp_all add: evaluate_severity)
  obtain b where b: "winner nt s r now = Some b" "sr_outcome b = Allow"
    using w assms(3) severity_allow by (auto simp: spoken_def split: option.splits)
  obtain sc p where "speaks nt s r now sc p" "sr_outcome b = verdict nt p r" by (rule winner_speaks [OF b(1)])
  moreover have "verdict nt q r = Allow" if "speaks nt s r now Scope_Compliance q" for q
    using compliance_floor [OF _ that, of hash e] policy_run_inv [OF assms(1)] assms(2) z severity_allow by simp
  ultimately show ?thesis using f b(2) by metis
qed

text \<open>The severities of everything that has a say.\<close>

definition spoken_severities :: "(rat \<Rightarrow> string) \<Rightarrow> snapshot \<Rightarrow> gov_request \<Rightarrow> instant \<Rightarrow> nat set" where
  "spoken_severities nt s r now = {severity (verdict nt p r) |sc p. speaks nt s r now sc p}"

lemma all_scopes_complete: "sc \<in> set all_scopes"
  by (cases sc) (simp_all add: all_scopes_def)

lemma spoken_verdicts:
  "spoken_severities nt s r now = (\<lambda>b. severity (sr_outcome b)) ` {b. Some b \<in> set (scope_verdicts nt s r now)}"
proof (intro set_eqI iffI)
  fix n
  assume "n \<in> spoken_severities nt s r now"
  then obtain sc p where p: "speaks nt s r now sc p" "n = severity (verdict nt p r)"
    by (auto simp: spoken_severities_def)
  obtain b where b: "scope_verdict nt s r now sc = Some b" using speaks_some [OF p(1)] by blast
  then have "Some b \<in> set (scope_verdicts nt s r now)" using all_scopes_complete [of sc] by (force simp: verdicts_all)
  then show "n \<in> (\<lambda>b. severity (sr_outcome b)) ` {b. Some b \<in> set (scope_verdicts nt s r now)}"
    using p(2) speaks_verdict [OF p(1) b] by (intro image_eqI [of _ _ b]) simp_all
next
  fix n
  assume "n \<in> (\<lambda>b. severity (sr_outcome b)) ` {b. Some b \<in> set (scope_verdicts nt s r now)}"
  then obtain b where v: "Some b \<in> set (scope_verdicts nt s r now)" and n: "n = severity (sr_outcome b)" by auto
  from v obtain sc where "scope_verdict nt s r now sc = Some b" by (auto simp: verdicts_all)
  note b = this n
  obtain p where "speaks nt s r now sc p" "sr_outcome b = verdict nt p r" by (rule scope_verdict_speaks [OF b(1)])
  then show "n \<in> spoken_severities nt s r now" using b(2) by (auto simp: spoken_severities_def)
qed

lemma walk_max:
  assumes "\<And>v. Some v \<in> set vs \<Longrightarrow> \<not> sr_override v"
  shows "foldl scope_wins None vs = None \<and> {b. Some b \<in> set vs} = {}
    \<or> (\<exists>b. foldl scope_wins None vs = Some b \<and> Some b \<in> set vs
        \<and> (\<forall>v. Some v \<in> set vs \<longrightarrow> severity (sr_outcome v) \<le> severity (sr_outcome b)))"
  using assms
proof (induction vs)
  case Nil
  then show ?case by simp
next
  case (Cons v vs)
  show ?case
  proof (cases v)
    case None
    then show ?thesis using Cons by auto
  next
    case (Some w)
    then have "\<not> sr_override w" using Cons.prems by simp
    then obtain b where "foldl scope_wins (Some w) vs = Some b" "b = w \<or> Some b \<in> set vs"
      "severity (sr_outcome w) \<le> severity (sr_outcome b)"
      "\<forall>v. Some v \<in> set vs \<longrightarrow> severity (sr_outcome v) \<le> severity (sr_outcome b)"
      using wins_plain [of w vs] Cons.prems by auto
    then show ?thesis using Some by auto
  qed
qed

text \<open>C31. With no override in play the decision is the strictest of everything that has a say: one policy of
  each scope (the highest priority that applies, the stricter of equals), the risk thresholds, and the
  default where no policy applies.  The order of the scopes does not matter.\<close>

theorem decision_is_the_strictest:
  assumes "\<And>sc p. speaks nt s r now sc p \<Longrightarrow> \<not> po_override p"
  shows "severity (gd_outcome (gov_evaluate hash nt e s r now)) =
    Max (insert (forced_severity (thresholds_apply (ev_thresholds e) (gq_action r) (gq_risk r)))
          (if spoken_severities nt s r now = {} then {severity (ev_default e)} else spoken_severities nt s r now))"
proof -
  let ?f = "forced_severity (thresholds_apply (ev_thresholds e) (gq_action r) (gq_risk r))"
  have plain: "\<not> sr_override v" if v: "Some v \<in> set (scope_verdicts nt s r now)" for v
  proof -
    obtain sc where sc: "scope_verdict nt s r now sc = Some v" using v by (auto simp: verdicts_all)
    show ?thesis by (rule scope_verdict_speaks [OF sc]) (use assms in metis)
  qed
  from plain have walk: "foldl scope_wins None (scope_verdicts nt s r now) = None \<and> {b. Some b \<in> set (scope_verdicts nt s r now)} = {}
    \<or> (\<exists>b. foldl scope_wins None (scope_verdicts nt s r now) = Some b \<and> Some b \<in> set (scope_verdicts nt s r now)
        \<and> (\<forall>v. Some v \<in> set (scope_verdicts nt s r now) \<longrightarrow> severity (sr_outcome v) \<le> severity (sr_outcome b)))"
    by (rule walk_max)
  then show ?thesis
  proof (elim disjE conjE exE)
    assume "foldl scope_wins None (scope_verdicts nt s r now) = None" "{b. Some b \<in> set (scope_verdicts nt s r now)} = {}"
    then show ?thesis by (simp add: evaluate_severity spoken_def winner_def spoken_verdicts max.commute)
  next
    fix b
    assume b: "foldl scope_wins None (scope_verdicts nt s r now) = Some b" "Some b \<in> set (scope_verdicts nt s r now)"
      "\<forall>v. Some v \<in> set (scope_verdicts nt s r now) \<longrightarrow> severity (sr_outcome v) \<le> severity (sr_outcome b)"
    have m: "Max (insert ?f (spoken_severities nt s r now)) = max ?f (severity (sr_outcome b))"
      unfolding spoken_verdicts
      by (rule Max_eqI) (use b in \<open>auto intro!: finite_subset [of _ "{..5::nat}"] simp: severity_le\<close>)
    have "spoken_severities nt s r now \<noteq> {}" using b(2) by (auto simp: spoken_verdicts)
    then show ?thesis using b(1) m by (simp add: evaluate_severity spoken_def winner_def max.commute)
  qed
qed

text \<open>Where no compliance policy applies, an emergency whose applicable policies all override decides, even
  against a stricter policy below it; only risk can still raise the outcome.\<close>

theorem emergency_override_decides:
  assumes "\<not> list_ex (applicable r now) (scope_policies s Scope_Compliance)"
    and "speaks nt s r now Scope_Emergency p"
    and "list_all (\<lambda>q. applicable r now q \<longrightarrow> po_override q) (scope_policies s Scope_Emergency)"
  shows "severity (gd_outcome (gov_evaluate hash nt e s r now))
    = max (severity (verdict nt p r)) (forced_severity (thresholds_apply (ev_thresholds e) (gq_action r) (gq_risk r)))"
proof -
  have n: "scope_verdict nt s r now Scope_Compliance = None" using assms(1) by (simp add: scope_verdict_none)
  obtain b where b: "scope_verdict nt s r now Scope_Emergency = Some b" using speaks_some [OF assms(2)] by blast
  obtain q where q: "speaks nt s r now Scope_Emergency q" "sr_override b = po_override q" by (rule scope_verdict_speaks [OF b])
  then have "sr_override b" using assms(3) by (auto simp: speaks_def list_all_iff)
  then have "winner nt s r now = Some b" by (simp add: winner_walk n b wins_override)
  then show ?thesis using speaks_verdict [OF assms(2) b] by (simp add: evaluate_severity spoken_def)
qed

text \<open>An obligation that is among others, possibly with an earlier deadline.\<close>

definition kept_in :: "obligation \<Rightarrow> obligation list \<Rightarrow> bool" where
  "kept_in x ys \<longleftrightarrow> (\<exists>y \<in> set ys. ob_key y = ob_key x
     \<and> (\<forall>d. ob_deadline x = Some d \<longrightarrow> (\<exists>d'. ob_deadline y = Some d' \<and> d' \<le> d)))"

lemma kept_merged:
  assumes "x \<in> set (concat sets)"
  shows "kept_in x (merge_obligations sets)"
proof -
  obtain y where y: "y \<in> set (merge_obligations sets)" "ob_key y = ob_key x"
    using merge_obligations_exact(2) [of sets] assms by (metis imageE imageI)
  have "ob_deadline x \<in> set (deadlines_of (concat sets) (ob_key y))" using assms y(2) by (auto simp: deadlines_of_def)
  then show ?thesis unfolding kept_in_def
    using y merge_obligations_exact(3) [OF y(1)] earliest_le by (intro bexI [of _ y]) auto
qed

lemma kept_through: "kept_in x ys \<Longrightarrow> (\<And>y. y \<in> set ys \<Longrightarrow> kept_in y zs) \<Longrightarrow> kept_in x zs"
  unfolding kept_in_def by (metis order_trans)

lemma scope_obligation_kept:
  assumes "p \<in> set (scope_policies s sc)" "applicable r now p" "x \<in> set (rule_obligations nt r p)"
  shows "kept_in x (concat (map sr_obligations (List.map_filter id (scope_verdicts nt s r now))))"
proof -
  let ?live = "filter (applicable r now) (scope_policies s sc)"
  have "scope_verdict nt s r now sc \<noteq> None"
    using assms(1,2) scope_verdict_none [of nt s r now sc] by (auto simp: list_ex_iff)
  then obtain b where b: "scope_verdict nt s r now sc = Some b" by blast
  then have ob: "sr_obligations b = merge_obligations (map (rule_obligations nt r) ?live)"
    by (auto simp: scope_verdict_def evaluate_scope_def Let_def)
  have "x \<in> set (concat (map (rule_obligations nt r) ?live))" using assms by auto
  then have k: "kept_in x (sr_obligations b)" unfolding ob by (rule kept_merged)
  have "Some b \<in> set (scope_verdicts nt s r now)" using b all_scopes_complete [of sc] by (force simp: verdicts_all)
  then have "set (sr_obligations b) \<subseteq> set (concat (map sr_obligations (List.map_filter id (scope_verdicts nt s r now))))"
    by (force simp: map_filter_def)
  then show ?thesis using k unfolding kept_in_def by blast
qed

lemma evaluated_kept:
  "y \<in> set (concat (map sr_obligations (List.map_filter id (scope_verdicts nt s r now)))) \<Longrightarrow>
     kept_in y (gd_obligations (gov_evaluate hash nt e s r now))"
  unfolding evaluate_obligations by (rule kept_merged) auto

text \<open>No precondition is lost: an obligation written by the rule or default of any policy that applied, in any
  scope and whichever policy won, stays on the decision, with a deadline no later than the one written.\<close>

theorem obligations_are_kept:
  assumes "p \<in> set (scope_policies s sc)" and "applicable r now p" and "x \<in> set (rule_obligations nt r p)"
  shows "kept_in x (gd_obligations (gov_evaluate hash nt e s r now))"
  using scope_obligation_kept [OF assms] evaluated_kept by (rule kept_through)

section \<open>What the baseline decides\<close>

definition baseline_snapshot :: "(string \<Rightarrow> string) \<Rightarrow> (rat \<Rightarrow> string) \<Rightarrow> instant \<Rightarrow> snapshot" where
  "baseline_snapshot hash nt t0 = policy_run hash nt t0 [(\<lambda>xs. xs, t0, Po_Register_All baseline_policies)]"

lemma baseline_valid: "batch_problems [] baseline_policies = []"
  by code_simp

lemma baseline_registered:
  "baseline_snapshot hash nt t0 = policy_commit hash nt (\<lambda>xs. xs) t0 (map (\<lambda>p. (po_id p, p)) baseline_policies) (new_policy_registry t0)"
proof -
  have "find (stale_version (new_policy_registry t0)) baseline_policies = None"
    by (simp add: find_None_iff stale_version_def new_policy_registry_def)
  moreover have "fold (\<lambda>p m. AList.update (po_id p) p m) baseline_policies [] = map (\<lambda>p. (po_id p, p)) baseline_policies"
    by (simp add: baseline_policies_def secrets_never_stored_def personal_data_needs_basis_def
        irreversible_needs_confirmation_def external_actions_restricted_def reads_allowed_def)
  ultimately show ?thesis
    by (simp add: baseline_snapshot_def policy_run_def register_all_def baseline_valid new_policy_registry_def)
qed

lemma baseline_order:
  "policy_order (\<lambda>xs. xs) (map (\<lambda>p. (po_id p, p)) baseline_policies) = map po_id baseline_policies"
  by code_simp

lemma baseline_scopes:
  "scope_policies (baseline_snapshot hash nt t0) Scope_Compliance = [secrets_never_stored]"
  "scope_policies (baseline_snapshot hash nt t0) Scope_Global =
     [personal_data_needs_basis, irreversible_needs_confirmation, external_actions_restricted, reads_allowed]"
  "sc \<noteq> Scope_Compliance \<Longrightarrow> sc \<noteq> Scope_Global \<Longrightarrow> scope_policies (baseline_snapshot hash nt t0) sc = []"
  unfolding scope_policies_def in_scope_def baseline_registered policy_commit_def baseline_order
  by (simp_all add: Let_def baseline_policies_def policy_at_def secrets_never_stored_def personal_data_needs_basis_def
        irreversible_needs_confirmation_def external_actions_restricted_def reads_allowed_def)

text \<open>What the compliance policy and the first global policy say, in closed form.\<close>

definition consent_needed :: "gov_action \<Rightarrow> bool" where
  "consent_needed a \<longleftrightarrow> ac_class a \<in> {Class_Personal, Class_Sensitive} \<and> ac_operation a \<in> set consent_operations"

definition baseline_says :: "gov_action \<Rightarrow> outcome" where
  "baseline_says a =
     (if ac_class a = Class_Secret then Deny
      else if consent_needed a then Require_Consent
      else if ac_class a = Class_Sensitive \<and> ac_kind a = Kind_External then Deny
      else Allow)"

lemma always_applies: "po_match p = everywhere \<Longrightarrow> po_enabled p \<Longrightarrow> po_from p = None \<Longrightarrow> po_until p = None \<Longrightarrow> applicable r now p"
  by (simp add: applicable_def policy_skips_def policy_inactive_def match_skips_def everywhere_def)

lemma class_conditions:
  "condition_matches nt (at_least_class ''secret'') r \<longleftrightarrow> ac_class (gq_action r) = Class_Secret"
  "condition_matches nt (at_least_class ''personal'') r \<longleftrightarrow> ac_class (gq_action r) \<in> {Class_Personal, Class_Sensitive, Class_Secret}"
  "condition_matches nt (at_least_class ''sensitive'') r \<longleftrightarrow> ac_class (gq_action r) \<in> {Class_Sensitive, Class_Secret}"
  "condition_matches nt below_secret r \<longleftrightarrow> ac_class (gq_action r) \<noteq> Class_Secret"
  by (cases "ac_class (gq_action r)"; simp add: condition_matches_def at_least_class_def below_secret_def resolve_field_def
      Let_def numeric_of_def class_of_name_def)+

lemma operation_condition:
  "condition_matches nt \<lparr>cd_field = ''operation'', cd_selector = Sel_In, cd_value = v, cd_values = ws\<rparr> r
     \<longleftrightarrow> ac_operation (gq_action r) \<in> set ws"
  by (simp add: condition_matches_def resolve_field_def Let_def attr_display_def)

lemma kind_condition:
  "condition_matches nt \<lparr>cd_field = ''kind'', cd_selector = Sel_Equals, cd_value = A_Str ''external'', cd_values = ws\<rparr> r
     \<longleftrightarrow> ac_kind (gq_action r) = Kind_External"
proof -
  have "attr_equal nt (A_Str (kind_name k)) (A_Str ''external'') \<longleftrightarrow> k = Kind_External" for k
    by (cases k; simp; code_simp)
  then show ?thesis by (simp add: condition_matches_def resolve_field_def Let_def)
qed

lemma secrets_verdict: "verdict nt secrets_never_stored r = (if ac_class (gq_action r) = Class_Secret then Deny else Allow)"
  by (simp add: verdict_def policy_evaluate_def secrets_never_stored_def rule_matches_def class_conditions)

lemma personal_verdict:
  "ac_class (gq_action r) \<noteq> Class_Secret \<Longrightarrow> verdict nt personal_data_needs_basis r = baseline_says (gq_action r)"
  by (auto simp: verdict_def policy_evaluate_def personal_data_needs_basis_def rule_matches_def class_conditions
      operation_condition kind_condition baseline_says_def consent_needed_def)

lemma sole_speaker:
  assumes "scope_verdict nt s r now sc = Some b" "p \<in> set (scope_policies s sc)" "applicable r now p"
    and "\<And>q. q \<in> set (scope_policies s sc) \<Longrightarrow> q \<noteq> p \<Longrightarrow> po_priority q < po_priority p"
  shows "sr_outcome b = verdict nt p r" "sr_override b = po_override p"
proof -
  obtain q where q: "speaks nt s r now sc q" "sr_outcome b = verdict nt q r" "sr_override b = po_override q"
    by (rule scope_verdict_speaks [OF assms(1)])
  have "q = p"
  proof (rule ccontr)
    assume "q \<noteq> p"
    then have "po_priority q < po_priority p" using q(1) assms(4) by (simp add: speaks_def)
    then show False using q(1) assms(2,3) by (force simp: speaks_def list_all_iff)
  qed
  then show "sr_outcome b = verdict nt p r" "sr_override b = po_override p" using q by simp_all
qed

lemma evaluate_outcome:
  "gd_outcome (gov_evaluate hash nt e s r now) =
     (case thresholds_apply (ev_thresholds e) (gq_action r) (gq_risk r) of
        Some (out, _) \<Rightarrow> if severity out > severity (spoken e (winner nt s r now)) then out else spoken e (winner nt s r now)
      | None \<Rightarrow> spoken e (winner nt s r now))"
  by (simp add: gov_evaluate_def Let_def policy_decision_def spoken_def winner_def split: option.splits prod.splits)

lemma baseline_fields:
  "po_priority personal_data_needs_basis = 900" "po_priority irreversible_needs_confirmation = 800"
  "po_priority external_actions_restricted = 700" "po_priority reads_allowed = 100"
  "\<not> po_override secrets_never_stored" "\<not> po_override personal_data_needs_basis"
  "\<not> po_override irreversible_needs_confirmation" "\<not> po_override external_actions_restricted" "\<not> po_override reads_allowed"
  by (simp_all add: secrets_never_stored_def personal_data_needs_basis_def irreversible_needs_confirmation_def
      external_actions_restricted_def reads_allowed_def)

lemma baseline_applies: "applicable r now secrets_never_stored" "applicable r now personal_data_needs_basis"
  by (rule always_applies; simp add: secrets_never_stored_def personal_data_needs_basis_def)+

lemma baseline_spoken: "spoken e (winner nt (baseline_snapshot hash nt t0) r now) = baseline_says (gq_action r)"
proof -
  let ?s = "baseline_snapshot hash nt t0"
  have a1: "applicable r now secrets_never_stored" and a2: "applicable r now personal_data_needs_basis"
    by (rule baseline_applies)+
  obtain c where c: "scope_verdict nt ?s r now Scope_Compliance = Some c"
    using scope_verdict_none [of nt ?s r now Scope_Compliance] a1
    by (cases "scope_verdict nt ?s r now Scope_Compliance") (auto simp: baseline_scopes)
  obtain g where g: "scope_verdict nt ?s r now Scope_Global = Some g"
    using scope_verdict_none [of nt ?s r now Scope_Global] a2
    by (cases "scope_verdict nt ?s r now Scope_Global") (auto simp: baseline_scopes)
  have c': "sr_outcome c = verdict nt secrets_never_stored r" "sr_override c = po_override secrets_never_stored"
    by (rule sole_speaker [OF c _ a1]; simp add: baseline_scopes)+
  have g': "sr_outcome g = verdict nt personal_data_needs_basis r" "sr_override g = po_override personal_data_needs_basis"
    by (rule sole_speaker [OF g _ a2]; auto simp: baseline_scopes baseline_fields)+
  have none: "scope_verdict nt ?s r now sc = None" if "sc \<noteq> Scope_Compliance" "sc \<noteq> Scope_Global" for sc
    using that scope_verdict_none [of nt ?s r now sc] by (simp add: baseline_scopes)
  have o: "\<not> sr_override c" "\<not> sr_override g"
    using c' g' by (simp_all add: baseline_fields)
  have "winner nt ?s r now = Some (if severity (sr_outcome g) > severity (sr_outcome c) then g else c)"
    using o by (simp add: winner_walk later_scopes_def c g none) (simp add: scope_wins_def)
  then show ?thesis
    using c' g' personal_verdict [of r nt] severity_le [of "sr_outcome g"] severity_allow [of "sr_outcome g"]
    by (cases "ac_class (gq_action r) = Class_Secret") (auto simp: spoken_def secrets_verdict baseline_says_def)
qed

section \<open>Properties of the baseline\<close>

text \<open>C32. Under the baseline alone a decision depends on the classification, on five operation names and, for
  sensitive data, on the kind; a threshold of the evaluator can raise it.  The policies about irreversible
  actions, external actions and reads have a lower priority in the same scope as one that always applies, so
  they never decide: whatever leaves the platform or cannot be undone is permitted unless it carries personal
  data or risk raises it.\<close>

theorem baseline_decides_by_class:
  "gd_outcome (gov_evaluate hash nt e (baseline_snapshot hash nt t0) r now) =
     (case thresholds_apply (ev_thresholds e) (gq_action r) (gq_risk r) of
        None \<Rightarrow> baseline_says (gq_action r)
      | Some (out, _) \<Rightarrow> if severity out > severity (baseline_says (gq_action r)) then out else baseline_says (gq_action r))"
  by (simp add: evaluate_outcome baseline_spoken split: option.splits)

text \<open>An irreversible external action on public data, at low risk: permitted.\<close>

definition default_evaluator :: evaluator where
  "default_evaluator = \<lparr>ev_default = Deny, ev_default_reason = [], ev_thresholds = default_thresholds,
     ev_privacy = default_privacy, ev_privacy_policy = ''<privacy>''\<rparr>"

definition public_release :: gov_request where
  "public_release =
     \<lparr>gq_action = \<lparr>ac_kind = Kind_External, ac_operation = ''release'', ac_resource = ''payment'',
        ac_reversibility = Rev_Never, ac_class = Class_Public, ac_attributes = []\<rparr>,
      gq_actor = ''agent'', gq_subject = ''s'', gq_org = [], gq_business = [], gq_session = [], gq_correlation = [],
      gq_roles = [], gq_risk = \<lparr>ra_level = Risk_Low, ra_signals = [], ra_explanation = [], ra_capped = False\<rparr>,
      gq_context = []\<rparr>"

theorem baseline_releases_externally:
  "gd_outcome (gov_evaluate id (\<lambda>_. []) default_evaluator (baseline_snapshot id (\<lambda>_. []) 0) public_release 0) = Allow"
  by (simp add: evaluate_outcome baseline_spoken public_release_def baseline_says_def consent_needed_def default_evaluator_def
      thresholds_apply_def default_thresholds_def weigh_threshold_def less_eq_risk_level_def)

text \<open>An emergency that overrides to permit, with a global policy that denies everything: permitted when the
  compliance scope is empty, refused when the baseline, whose compliance policy allows by default, is loaded.\<close>

definition emergency_allow :: gov_policy where
  "emergency_allow = (deny_all ''emergency'' Scope_Emergency)
     \<lparr>po_override := True, po_rules := [\<lparr>ru_name = ''open'', ru_when = [], ru_then = Allow, ru_reason = ''emergency'',
        ru_explanation = [], ru_obligations = [], ru_retry_after = 0\<rparr>]\<rparr>"

definition incident :: "gov_policy list \<Rightarrow> snapshot" where
  "incident ps = policy_run id (\<lambda>_. []) 0
     [(\<lambda>xs. xs, 0, Po_Register_All (ps @ [emergency_allow, deny_all ''closed'' Scope_User]))]"

theorem compliance_default_voids_emergencies:
  "gd_outcome (gov_evaluate id (\<lambda>_. []) default_evaluator (incident []) public_release 0) = Allow"
  "gd_outcome (gov_evaluate id (\<lambda>_. []) default_evaluator (incident baseline_policies) public_release 0) = Deny"
  by code_simp+

section \<open>Witnesses\<close>

definition secret_write :: gov_request where
  "secret_write = public_release\<lparr>gq_action := \<lparr>ac_kind = Kind_Memory, ac_operation = ''write'', ac_resource = ''pin'',
     ac_reversibility = Rev_Fully, ac_class = Class_Secret, ac_attributes = []\<rparr>\<rparr>"

lemma secrets_speak: "speaks nt (baseline_snapshot hash nt t0) r now Scope_Compliance secrets_never_stored"
  by (simp add: speaks_def baseline_scopes baseline_applies)

lemma id_iteration: "list_all (\<lambda>a. iteration (fst a)) [(\<lambda>xs. xs, t0, Po_Register_All ps)]"
  by (simp add: iteration_def)

theorem compliance_is_a_floor_witness:
  "gd_outcome (gov_evaluate id (\<lambda>_. []) default_evaluator (baseline_snapshot id (\<lambda>_. []) 0) secret_write 0) = Deny"
proof -
  have "verdict (\<lambda>_. []) secrets_never_stored secret_write = Deny" by (simp add: secrets_verdict secret_write_def)
  then show ?thesis using compliance_is_a_floor [OF id_iteration baseline_snapshot_def secrets_speak] by blast
qed

theorem permission_is_written_witness:
  "\<exists>sc p. speaks (\<lambda>_. []) (baseline_snapshot id (\<lambda>_. []) 0) public_release 0 sc p \<and> verdict (\<lambda>_. []) p public_release = Allow"
proof -
  have a: "permits (gd_outcome (gov_evaluate id (\<lambda>_. []) default_evaluator (baseline_snapshot id (\<lambda>_. []) 0) public_release 0))"
    by (simp add: permits_def evaluate_outcome baseline_spoken public_release_def baseline_says_def consent_needed_def
        default_evaluator_def thresholds_apply_def default_thresholds_def weigh_threshold_def less_eq_risk_level_def)
  show ?thesis
    using permission_is_written [OF id_iteration baseline_snapshot_def _ a] by (simp add: default_evaluator_def)
qed

theorem decision_is_the_strictest_witness:
  "severity (gd_outcome (gov_evaluate id (\<lambda>_. []) default_evaluator (baseline_snapshot id (\<lambda>_. []) 0) secret_write 0)) =
    Max (insert (forced_severity (thresholds_apply default_thresholds (gq_action secret_write) (gq_risk secret_write)))
          (if spoken_severities (\<lambda>_. []) (baseline_snapshot id (\<lambda>_. []) 0) secret_write 0 = {} then {5}
           else spoken_severities (\<lambda>_. []) (baseline_snapshot id (\<lambda>_. []) 0) secret_write 0))"
proof -
  have "\<not> po_override p" if "speaks (\<lambda>_. []) (baseline_snapshot id (\<lambda>_. []) 0) secret_write 0 sc p" for sc p
    using that by (cases "sc = Scope_Compliance"; cases "sc = Scope_Global")
      (auto simp: speaks_def baseline_scopes baseline_fields)
  from decision_is_the_strictest [OF this, where hash = id and e = default_evaluator] show ?thesis by (simp add: default_evaluator_def)
qed

theorem emergency_override_decides_witness:
  "severity (gd_outcome (gov_evaluate id (\<lambda>_. []) default_evaluator (incident []) public_release 0))
    = max (severity (verdict (\<lambda>_. []) emergency_allow public_release))
        (forced_severity (thresholds_apply default_thresholds (gq_action public_release) (gq_risk public_release)))"
proof -
  have "scope_policies (incident []) Scope_Compliance = []" and e: "scope_policies (incident []) Scope_Emergency = [emergency_allow]"
    by code_simp+
  moreover have "applicable public_release 0 emergency_allow" by (rule always_applies) (simp_all add: emergency_allow_def deny_all_def)
  moreover have "po_override emergency_allow" by (simp add: emergency_allow_def)
  ultimately show ?thesis
    using emergency_override_decides [of public_release 0 "incident []" "\<lambda>_. []" emergency_allow id default_evaluator]
    by (simp add: speaks_def default_evaluator_def)
qed

theorem obligations_are_kept_witness:
  "\<exists>y \<in> set (gd_obligations (gov_evaluate id (\<lambda>_. []) default_evaluator (baseline_snapshot id (\<lambda>_. []) 0) public_release 0)).
     ob_key y = (''confirmation'', ''user'')"
proof -
  have p: "irreversible_needs_confirmation \<in> set (scope_policies (baseline_snapshot id (\<lambda>_. []) 0) Scope_Global)"
    by (simp add: baseline_scopes)
  have a: "applicable public_release 0 irreversible_needs_confirmation"
    by (rule always_applies) (simp_all add: irreversible_needs_confirmation_def)
  have x: "\<lparr>ob_kind = ''confirmation'', ob_target = ''user'', ob_reason = ''irreversible'', ob_deadline = None,
      ob_policy = ''baseline.irreversible''\<rparr> \<in> set (rule_obligations (\<lambda>_. []) public_release irreversible_needs_confirmation)"
    by code_simp
  show ?thesis using obligations_are_kept [OF p a x, of id default_evaluator] by (auto simp: ob_key_def kept_in_def)
qed

end
