(* ===== verification/GovEmergency.thy ===== *)
theory GovEmergency
  imports GovBaseline
begin

text \<open>
  Emergencies (\<^verbatim>\<open>packages/go/governance/emergency.go\<close>): an activation installs its policies in
  the policy registry, its end disables them.  The engine and the registry it writes to are a pair of states;
  audit entries and metrics are not modelled.
\<close>

record emergency =
  em_name :: string
  em_policies :: "gov_policy list"
  em_scopes :: "scope list"
  em_activated :: "instant option"
  em_expires :: "instant option"
  em_authorised :: string
  em_reason :: string
  em_ticket :: string

datatype emergency_problem = Emergency_No_Name | Emergency_No_Policies | Emergency_No_Expiry | Emergency_Anonymous
  | Emergency_No_Reason | Emergency_Relaxes scope | Emergency_Policy_Scope string | Emergency_Policy policy_problem
  | Emergency_In_The_Past | Emergency_Already_Active | Emergency_Registry policy_registry_error | Emergency_Not_Found

definition emergency_problems :: "emergency \<Rightarrow> emergency_problem list" where
  "emergency_problems e =
     (if em_name e = [] then [Emergency_No_Name] else [])
     @ (if em_policies e = [] then [Emergency_No_Policies] else [])
     @ (if em_expires e = None then [Emergency_No_Expiry] else [])
     @ (if em_authorised e = [] then [Emergency_Anonymous] else [])
     @ (if em_reason e = [] then [Emergency_No_Reason] else [])
     @ map Emergency_Relaxes (filter (\<lambda>s. \<not> overridable s) (em_scopes e))
     @ concat (map (\<lambda>p. (if po_scope p \<noteq> Scope_Emergency then [Emergency_Policy_Scope (po_id p)] else [])
                        @ map Emergency_Policy (policy_problems p)) (em_policies e))"

definition emergency_active :: "instant \<Rightarrow> emergency \<Rightarrow> bool" where
  "emergency_active now e =
     (case em_expires e of
        None \<Rightarrow> False
      | Some x \<Rightarrow> (case em_activated e of None \<Rightarrow> now < x | Some a \<Rightarrow> \<not> now < a \<and> now < x))"

definition emergency_remaining :: "instant \<Rightarrow> emergency \<Rightarrow> duration" where
  "emergency_remaining now e = (if \<not> emergency_active now e then 0 else case em_expires e of None \<Rightarrow> 0 | Some x \<Rightarrow> x - now)"

record emergency_engine =
  eg_active :: "(string \<times> emergency) list"
  eg_history :: "emergency list"
  eg_max_history :: nat

definition new_emergency_engine :: emergency_engine where
  "new_emergency_engine = \<lparr>eg_active = [], eg_history = [], eg_max_history = 256\<rparr>"

definition activate_emergency :: "(string \<Rightarrow> string) \<Rightarrow> (rat \<Rightarrow> string) \<Rightarrow> (string list \<Rightarrow> string list) \<Rightarrow> instant \<Rightarrow> emergency
    \<Rightarrow> emergency_engine \<times> snapshot \<Rightarrow> (emergency_engine \<times> snapshot) \<times> emergency_problem list" where
  "activate_emergency hash nt iterate now em s =
     (let em' = (if em_activated em = None then em\<lparr>em_activated := Some now\<rparr> else em) in
      if emergency_problems em \<noteq> [] then (s, emergency_problems em)
      else if \<not> emergency_active now em' then (s, [Emergency_In_The_Past])
      else if map_of (eg_active (fst s)) (em_name em) \<noteq> None then (s, [Emergency_Already_Active])
      else
        (case register_all hash nt iterate now (em_policies em) (snd s) of
           (reg, Some err) \<Rightarrow> ((fst s, reg), [Emergency_Registry err])
         | (reg, None) \<Rightarrow> (((fst s)\<lparr>eg_active := AList.update (em_name em) em' (eg_active (fst s))\<rparr>, reg), [])))"

definition disable_policies :: "(string \<Rightarrow> string) \<Rightarrow> (rat \<Rightarrow> string) \<Rightarrow> (string list \<Rightarrow> string list) \<Rightarrow> instant
    \<Rightarrow> gov_policy list \<Rightarrow> snapshot \<Rightarrow> snapshot" where
  "disable_policies hash nt iterate now ps reg = fold (\<lambda>p g. fst (set_enabled hash nt iterate now (po_id p) False g)) ps reg"

definition deactivate_emergency :: "(string \<Rightarrow> string) \<Rightarrow> (rat \<Rightarrow> string) \<Rightarrow> (string list \<Rightarrow> string list) \<Rightarrow> instant \<Rightarrow> string
    \<Rightarrow> emergency_engine \<times> snapshot \<Rightarrow> (emergency_engine \<times> snapshot) \<times> emergency_problem list" where
  "deactivate_emergency hash nt iterate now name s =
     (case map_of (eg_active (fst s)) name of
        None \<Rightarrow> (s, [Emergency_Not_Found])
      | Some em \<Rightarrow>
          (let hist = eg_history (fst s) @ [em] in
           (((fst s)\<lparr>eg_active := AList.delete name (eg_active (fst s)),
                     eg_history := (if length hist > eg_max_history (fst s) then tl hist else hist)\<rparr>,
             disable_policies hash nt iterate now (em_policies em) (snd s)), [])))"

definition sweep_emergencies :: "(string \<Rightarrow> string) \<Rightarrow> (rat \<Rightarrow> string) \<Rightarrow> (string list \<Rightarrow> string list) \<Rightarrow> instant
    \<Rightarrow> emergency_engine \<times> snapshot \<Rightarrow> (emergency_engine \<times> snapshot) \<times> nat" where
  "sweep_emergencies hash nt iterate now s =
     (let expired = stable_sort (<) (map fst (filter (\<lambda>(n, e). \<not> emergency_active now e) (eg_active (fst s))))
      in (fold (\<lambda>n s. fst (deactivate_emergency hash nt iterate now n s)) expired s, length expired))"

definition active_emergencies :: "instant \<Rightarrow> emergency_engine \<Rightarrow> emergency list" where
  "active_emergencies now g =
     stable_sort (\<lambda>a b. em_name a < em_name b) (filter (emergency_active now) (map snd (eg_active g)))"

text \<open>The emergency that owns a policy, in an iteration order of the map.\<close>

definition active_name_for :: "(string list \<Rightarrow> string list) \<Rightarrow> string \<Rightarrow> emergency_engine \<Rightarrow> string" where
  "active_name_for iterate i g =
     (case find (\<lambda>n. list_ex (\<lambda>p. po_id p = i) (case map_of (eg_active g) n of None \<Rightarrow> [] | Some e \<Rightarrow> em_policies e))
             (iterate (map fst (eg_active g))) of
        None \<Rightarrow> [] | Some n \<Rightarrow> n)"

section \<open>The registry stays well formed\<close>

lemma set_enabled_op: "fst (set_enabled hash nt it now i en s) = policy_op_run hash nt it now (Po_Enable i en) s"
  by simp

lemma register_all_op: "fst (register_all hash nt it now ps s) = policy_op_run hash nt it now (Po_Register_All ps) s"
  by simp

lemma op_inv: "iteration it \<Longrightarrow> snapshot_inv s \<Longrightarrow> snapshot_inv (policy_op_run hash nt it now a s)"
  using policy_op_iteration [of s it hash nt now a] policy_step_inv [of s hash nt "(now, a)"] by (simp add: policy_step_def)

lemma disable_inv: "iteration it \<Longrightarrow> snapshot_inv s \<Longrightarrow> snapshot_inv (disable_policies hash nt it now ps s)"
  unfolding disable_policies_def set_enabled_op by (induction ps arbitrary: s) (simp_all add: op_inv del: policy_op_run.simps)

lemma activate_inv:
  assumes it: "iteration it" and s: "snapshot_inv (snd s)"
  shows "snapshot_inv (snd (fst (activate_emergency hash nt it now em s)))"
  using op_inv [OF it s, of hash nt now "Po_Register_All (em_policies em)"] s
  by (auto simp: activate_emergency_def Let_def split: prod.split option.split)

lemma deactivate_inv:
  "iteration it \<Longrightarrow> snapshot_inv (snd s) \<Longrightarrow> snapshot_inv (snd (fst (deactivate_emergency hash nt it now n s)))"
  by (auto simp: deactivate_emergency_def Let_def disable_inv split: option.split)

lemma sweep_emergencies_inv:
  "iteration it \<Longrightarrow> snapshot_inv (snd s) \<Longrightarrow> snapshot_inv (snd (fst (sweep_emergencies hash nt it now s)))"
proof -
  assume it: "iteration it" and s: "snapshot_inv (snd s)"
  have "snapshot_inv (snd (fold (\<lambda>n s. fst (deactivate_emergency hash nt it now n s)) ns s))" for ns
    using s by (induction ns arbitrary: s) (simp_all add: deactivate_inv [OF it])
  then show ?thesis by (simp add: sweep_emergencies_def Let_def)
qed

section \<open>An ended emergency is out of force\<close>

lemma disabled_one: "map_of (sn_by_id (fst (set_enabled hash nt it now i False s))) j =
    (if i = j then map_option (\<lambda>p. p\<lparr>po_enabled := False\<rparr>) (map_of (sn_by_id s) j) else map_of (sn_by_id s) j)"
  by (auto simp: set_enabled_def policy_commit_def Let_def update_conv' split: option.splits)

lemma disabled_all: "map_of (sn_by_id (disable_policies hash nt it now ps s)) j =
    (if j \<in> po_id ` set ps then map_option (\<lambda>p. p\<lparr>po_enabled := False\<rparr>) (map_of (sn_by_id s) j) else map_of (sn_by_id s) j)"
  unfolding disable_policies_def
  by (induction ps arbitrary: s) (auto simp: disabled_one option.map_comp comp_def)

text \<open>When an emergency has been ended, none of the policies it installed speaks in any decision; they stay
  registered, so a record that names one still resolves to it.\<close>

theorem ended_emergency_is_silent:
  assumes "iteration it" and "snapshot_inv (snd s)"
    and "map_of (eg_active (fst s)) name = Some em" and "p \<in> set (em_policies em)"
    and "s' = fst (deactivate_emergency hash nt it now name s)"
  shows "(\<forall>sc q. speaks nt (snd s') r t sc q \<longrightarrow> po_id q \<noteq> po_id p)
    \<and> (map_of (sn_by_id (snd s')) (po_id p) = None \<longleftrightarrow> map_of (sn_by_id (snd s)) (po_id p) = None)"
proof -
  have s': "snd s' = disable_policies hash nt it now (em_policies em) (snd s)"
    using assms(3,5) by (simp add: deactivate_emergency_def Let_def)
  have I: "snapshot_inv (snd s')" unfolding s' by (rule disable_inv [OF assms(1,2)])
  have look: "map_of (sn_by_id (snd s')) (po_id p) = map_option (\<lambda>p. p\<lparr>po_enabled := False\<rparr>) (map_of (sn_by_id (snd s)) (po_id p))"
    using assms(4) by (simp add: s' disabled_all)
  have "po_id q \<noteq> po_id p" if q: "speaks nt (snd s') r t sc q" for sc q
  proof
    assume e: "po_id q = po_id p"
    obtain i where i: "i \<in> set (sn_order (snd s'))" "q = policy_at (sn_by_id (snd s')) i"
      using q by (auto simp: speaks_def scope_policies_def in_scope_def)
    have "map_of (sn_by_id (snd s')) (po_id p) = Some q"
      using snapshot_policy(1,2) [OF I i(1)] i(2) e by simp
    then have "\<not> po_enabled q" using look by auto
    then show False using q by (simp add: speaks_def applicable_def policy_skips_def policy_inactive_def)
  qed
  then show ?thesis using look by simp
qed

definition outage :: "instant \<Rightarrow> emergency" where
  "outage x = \<lparr>em_name = ''inc-1'', em_policies = [emergency_allow], em_scopes = [], em_activated = None,
     em_expires = Some x, em_authorised = ''ann'', em_reason = ''outage'', em_ticket = []\<rparr>"

definition closed_registry :: snapshot where
  "closed_registry = policy_run id (\<lambda>_. []) 0 [(\<lambda>xs. xs, 0, Po_Register (deny_all ''closed'' Scope_User))]"

definition outage_at_5 :: "emergency_engine \<times> snapshot" where
  "outage_at_5 = fst (activate_emergency id (\<lambda>_. []) (\<lambda>xs. xs) 5 (outage 10) (new_emergency_engine, closed_registry))"

theorem ended_emergency_is_silent_witness:
  "map_of (sn_by_id (snd (fst (deactivate_emergency id (\<lambda>_. []) (\<lambda>xs. xs) 7 ''inc-1'' outage_at_5)))) ''emergency'' \<noteq> None"
proof -
  have i: "iteration (\<lambda>xs. xs)" by (simp add: iteration_def)
  have "snapshot_inv closed_registry" unfolding closed_registry_def by (rule policy_run_inv) (simp add: i)
  then have "snapshot_inv (snd outage_at_5)" unfolding outage_at_5_def by (intro activate_inv i) simp
  moreover have "map_of (eg_active (fst outage_at_5)) ''inc-1'' = Some ((outage 10)\<lparr>em_activated := Some 5\<rparr>)" by code_simp
  moreover have "emergency_allow \<in> set (em_policies ((outage 10)\<lparr>em_activated := Some 5\<rparr>))" by (simp add: outage_def)
  ultimately have "map_of (sn_by_id (snd (fst (deactivate_emergency id (\<lambda>_. []) (\<lambda>xs. xs) 7 ''inc-1'' outage_at_5)))) (po_id emergency_allow) = None
      \<longleftrightarrow> map_of (sn_by_id (snd outage_at_5)) (po_id emergency_allow) = None"
    using ended_emergency_is_silent [OF i _ _ _ refl] by blast
  moreover have "map_of (sn_by_id (snd outage_at_5)) ''emergency'' \<noteq> None" by code_simp
  moreover have "po_id emergency_allow = ''emergency''" by (simp add: emergency_allow_def deny_all_def)
  ultimately show ?thesis by simp
qed

text \<open>The expiry of an emergency does not reach the evaluator: until a sweep comes by, a request long after it
  is still decided by the policy the emergency installed.\<close>

theorem expired_emergency_still_decides:
  "\<not> emergency_active 99 ((outage 10)\<lparr>em_activated := Some 5\<rparr>)"
  "gd_decided_by (gov_evaluate id (\<lambda>_. []) default_evaluator (snd outage_at_5) public_release 99) = ''emergency''"
  "gd_outcome (gov_evaluate id (\<lambda>_. []) default_evaluator (snd outage_at_5) public_release 99) = Allow"
  by code_simp+

text \<open>An emergency that was ended cannot be activated again with the policies it had: they are still registered
  with that version, and the registry refuses a version that is not newer.\<close>

theorem ended_emergency_is_not_reactivated:
  "snd (activate_emergency id (\<lambda>_. []) (\<lambda>xs. xs) 8 (outage 20)
      (fst (deactivate_emergency id (\<lambda>_. []) (\<lambda>xs. xs) 7 ''inc-1'' outage_at_5)))
    = [Emergency_Registry (Version_Stale ''emergency'')]"
  by code_simp

end
