(* ===== verification/GovEngine.thy ===== *)
theory GovEngine
  imports GovConsent GovHuman GovEmergency
begin

text \<open>
  The governance engine (\<^verbatim>\<open>packages/go/governance/runtime.go\<close>): the one door every action
  passes, and the maintenance around it.  The identifier of a decision, the text of a validation error and the
  reading of the clock are arguments.  A snapshot pointer that is nil is \<open>None\<close>, and evaluating it
  is the panic that is failed closed.  Metrics, events and the duration are not modelled.
\<close>

section \<open>Configuration\<close>

record gov_config =
  gc_default :: outcome
  gc_default_reason :: string
  gc_validator :: validator
  gc_privacy :: privacy_rules
  gc_aggregator :: aggregator
  gc_thresholds :: thresholds
  gc_timeouts :: "(escalation_kind \<times> duration) list"
  gc_auto_escalate :: bool
  gc_sweep_interval :: duration
  gc_require_auditor :: bool
  gc_fail_closed :: bool

definition default_gov_config :: gov_config where
  "default_gov_config =
     \<lparr>gc_default = Deny, gc_default_reason = ''no_policy_matched'', gc_validator = default_validator,
      gc_privacy = default_privacy, gc_aggregator = default_aggregator, gc_thresholds = default_thresholds,
      gc_timeouts = default_escalation_timeouts, gc_auto_escalate = True, gc_sweep_interval = 30 * second,
      gc_require_auditor = True, gc_fail_closed = True\<rparr>"

datatype gov_config_problem = Default_Not_Deny | Default_Reason_Required | Not_Fail_Closed | Sweep_Interval
  | In_Validator validator_problem | In_Privacy privacy_problem | In_Aggregator aggregator_problem | Auditor_Required

definition gov_config_problems :: "gov_config \<Rightarrow> gov_config_problem list" where
  "gov_config_problems c =
     (if gc_default c \<noteq> Deny then [Default_Not_Deny] else [])
     @ (if gc_default_reason c = [] then [Default_Reason_Required] else [])
     @ (if \<not> gc_fail_closed c then [Not_Fail_Closed] else [])
     @ (if gc_sweep_interval c \<le> 0 then [Sweep_Interval] else [])
     @ map In_Validator (validator_problems (gc_validator c))
     @ map In_Privacy (privacy_problems (gc_privacy c))
     @ map In_Aggregator (aggregator_problems (gc_aggregator c))"

section \<open>The engine\<close>

datatype decision_audit = Audit_Decision | Audit_Denied | Audit_Escalated

record gov_engine =
  ge_config :: gov_config
  ge_registry :: snapshot
  ge_consent :: consent_registry
  ge_emergency :: emergency_engine
  ge_human :: human_runtime
  ge_stopped :: bool
  ge_decisions :: nat
  ge_sweeps :: nat
  ge_panics :: nat
  ge_audit :: "(decision_audit \<times> gov_decision) list"

definition new_gov_engine :: "instant \<Rightarrow> gov_config \<Rightarrow> bool \<Rightarrow> gov_config_problem list + gov_engine" where
  "new_gov_engine now c has_auditor =
     (let problems = gov_config_problems c @ (if gc_require_auditor c \<and> \<not> has_auditor then [Auditor_Required] else []) in
      if problems \<noteq> [] then Inl problems
      else Inr \<lparr>ge_config = c, ge_registry = new_policy_registry now, ge_consent = new_consents,
                ge_emergency = new_emergency_engine, ge_human = new_human_runtime, ge_stopped = False,
                ge_decisions = 0, ge_sweeps = 0, ge_panics = 0, ge_audit = []\<rparr>)"

definition gov_evaluator :: "gov_config \<Rightarrow> evaluator" where
  "gov_evaluator c = \<lparr>ev_default = gc_default c, ev_default_reason = gc_default_reason c,
     ev_thresholds = gc_thresholds c, ev_privacy = gc_privacy c, ev_privacy_policy = ''<privacy>''\<rparr>"

definition engine_decision :: "(string \<Rightarrow> string) \<Rightarrow> (rat \<Rightarrow> string) \<Rightarrow> string \<Rightarrow> string \<Rightarrow> nat \<Rightarrow> gov_request \<Rightarrow> instant
    \<Rightarrow> gov_decision" where
  "engine_decision hash nt reason explanation version r start =
     \<lparr>gd_id = [], gd_outcome = Deny, gd_reason = reason, gd_explanation = explanation, gd_obligations = [],
      gd_decided_by = ''<engine>'', gd_scope = Scope_Compliance, gd_trace = [], gd_policy_version = version,
      gd_print = request_print hash nt r, gd_risk = gq_risk r, gd_emergency = [], gd_correlation = gq_correlation r,
      gd_session = gq_session r, gd_actor = gq_actor r, gd_subject = gq_subject r,
      gd_label = action_label (gq_action r), gd_at = start, gd_retry_after = 0\<rparr>"

definition record_decision :: "gov_decision \<Rightarrow> gov_engine \<Rightarrow> gov_engine" where
  "record_decision d e =
     e\<lparr>ge_decisions := ge_decisions e + 1,
       ge_audit := ge_audit e @ [(if gd_outcome d = Deny then Audit_Denied
                                  else if needs_human (gd_outcome d) then Audit_Escalated else Audit_Decision, d)]\<rparr>"

text \<open>A denial for a request that never reached policy.\<close>

definition refuse :: "(string \<Rightarrow> string) \<Rightarrow> (rat \<Rightarrow> string) \<Rightarrow> string \<Rightarrow> gov_request \<Rightarrow> string \<Rightarrow> instant \<Rightarrow> gov_engine
    \<Rightarrow> gov_engine \<times> gov_decision" where
  "refuse hash nt i r reason start e =
     (let d = (engine_decision hash nt reason [] (sn_version (ge_registry e)) r start)\<lparr>gd_id := i\<rparr>
      in (record_decision d e, d))"

definition evaluate_safely :: "(string \<Rightarrow> string) \<Rightarrow> (rat \<Rightarrow> string) \<Rightarrow> snapshot option \<Rightarrow> gov_request \<Rightarrow> instant \<Rightarrow> gov_engine
    \<Rightarrow> gov_engine \<times> gov_decision" where
  "evaluate_safely hash nt snap r start e =
     (case snap of
        None \<Rightarrow>
          (e\<lparr>ge_panics := ge_panics e + 1\<rparr>,
           engine_decision hash nt ''evaluation_panic'' ''policy evaluation panicked; failing closed'' 0 r start)
      | Some s \<Rightarrow> (e, gov_evaluate hash nt (gov_evaluator (ge_config e)) s r start))"

section \<open>Consent\<close>

fun check_reason :: "consent_check \<Rightarrow> string" where
  "check_reason Check_Not_Found = ''not_found''"
| "check_reason (Check_Revoked c) = ''revoked''"
| "check_reason (Check_Superseded c v) = ''superseded''"
| "check_reason (Check_Expired c) = ''expired''"
| "check_reason (Check_Valid c) = ''valid''"

record consent_walk =
  cw_remaining :: "obligation list"
  cw_asked :: bool
  cw_unmet :: bool
  cw_reason :: string

definition consent_one :: "instant \<Rightarrow> consent_registry \<Rightarrow> string \<Rightarrow> obligation \<Rightarrow> consent_walk \<Rightarrow> consent_walk" where
  "consent_one now c subject x w =
     (if ob_kind x \<noteq> ''consent'' then w\<lparr>cw_remaining := cw_remaining w @ [x]\<rparr>
      else
        (let check = check_consent now subject (ob_target x) c in
         if check_valid check then w\<lparr>cw_asked := True\<rparr>
         else w\<lparr>cw_asked := True, cw_unmet := True,
                cw_reason := (if cw_reason w = [] then ''consent_'' @ check_reason check else cw_reason w),
                cw_remaining := cw_remaining w @ [x\<lparr>ob_reason := check_reason check\<rparr>]\<rparr>))"

definition resolve_consent :: "instant \<Rightarrow> consent_registry \<Rightarrow> gov_request \<Rightarrow> gov_decision \<Rightarrow> gov_decision" where
  "resolve_consent now c r d =
     (if gq_subject r = [] then d
      else
        (let w = fold (consent_one now c (gq_subject r)) (gd_obligations d)
                   \<lparr>cw_remaining = [], cw_asked = False, cw_unmet = False, cw_reason = []\<rparr>;
             d' = d\<lparr>gd_obligations := cw_remaining w\<rparr>
         in if cw_unmet w \<and> severity (gd_outcome d) < severity Require_Consent
            then d'\<lparr>gd_outcome := Require_Consent, gd_reason := cw_reason w\<rparr>
            else if cw_asked w \<and> \<not> cw_unmet w \<and> gd_outcome d = Require_Consent
            then d'\<lparr>gd_outcome := Allow, gd_reason := ''consent_satisfied''\<rparr>
            else d'))"

section \<open>The one door\<close>

definition aggregated :: "gov_config \<Rightarrow> gov_request \<Rightarrow> gov_request" where
  "aggregated c r =
     (if ra_signals (gq_risk r) \<noteq> [] \<or> ra_level (gq_risk r) \<noteq> Risk_Low
      then r\<lparr>gq_risk := aggregate (gc_aggregator c) (ra_signals (gq_risk r))\<rparr> else r)"

definition escalate_decision :: "instant \<Rightarrow> gov_decision \<Rightarrow> gov_engine \<Rightarrow> gov_engine" where
  "escalate_decision now d e =
     (if gc_auto_escalate (ge_config e) \<and> needs_human (gd_outcome d) then
        (case kind_for (gd_outcome d) of
           None \<Rightarrow> e
         | Some k \<Rightarrow>
             e\<lparr>ge_human := fst (raise_escalation now d k
                 (case map_of (gc_timeouts (ge_config e)) k of None \<Rightarrow> 0 | Some t \<Rightarrow> t) (ge_human e))\<rparr>)
      else e)"

definition decide_on :: "(string \<Rightarrow> string) \<Rightarrow> (rat \<Rightarrow> string) \<Rightarrow> (string list \<Rightarrow> string list) \<Rightarrow> string \<Rightarrow> instant
    \<Rightarrow> gov_request \<Rightarrow> gov_engine \<Rightarrow> gov_engine \<times> gov_decision" where
  "decide_on hash nt iterate i now r e =
     (let r' = aggregated (ge_config e) r;
          (e1, d) = evaluate_safely hash nt (Some (ge_registry e)) r' now e;
          d1 = resolve_consent now (ge_consent e) r' (d\<lparr>gd_id := i\<rparr>);
          d2 = (if gd_scope d1 = Scope_Emergency
                then d1\<lparr>gd_emergency := active_name_for iterate (gd_decided_by d1) (ge_emergency e)\<rparr> else d1)
      in (escalate_decision now d2 (record_decision d2 e1), d2))"

definition gov_decide :: "(string \<Rightarrow> string) \<Rightarrow> (rat \<Rightarrow> string) \<Rightarrow> (request_fault list \<Rightarrow> string) \<Rightarrow> (string list \<Rightarrow> string list)
    \<Rightarrow> string \<Rightarrow> instant \<Rightarrow> gov_request \<Rightarrow> gov_engine \<Rightarrow> gov_engine \<times> gov_decision" where
  "gov_decide hash nt show_faults iterate i now r e =
     (if ge_stopped e then refuse hash nt i r ''engine_closed'' now e
      else if check_request (gc_validator (ge_config e)) r \<noteq> [] then
        (case refuse hash nt i r ''malformed_action'' now e of
           (e', d) \<Rightarrow> (e', d\<lparr>gd_explanation := show_faults (check_request (gc_validator (ge_config e)) r)\<rparr>))
      else decide_on hash nt iterate i now r e)"

section \<open>Maintenance and replay\<close>

definition stop_engine :: "gov_engine \<Rightarrow> gov_engine" where
  "stop_engine e = e\<lparr>ge_stopped := True\<rparr>"

record sweep_report =
  sp_consent :: nat
  sp_emergencies :: nat
  sp_escalations :: nat
  sp_policies :: nat
  sp_at :: instant

definition sweep_empty :: "sweep_report \<Rightarrow> bool" where
  "sweep_empty s = (sp_consent s = 0 \<and> sp_emergencies s = 0 \<and> sp_escalations s = 0 \<and> sp_policies s = 0)"

definition gov_sweep :: "(string \<Rightarrow> string) \<Rightarrow> (rat \<Rightarrow> string) \<Rightarrow> (string list \<Rightarrow> string list) \<Rightarrow> instant \<Rightarrow> gov_engine
    \<Rightarrow> gov_engine \<times> sweep_report" where
  "gov_sweep hash nt iterate now e =
     (let (c, n1) = sweep_consents now (ge_consent e);
          ((g, reg), n2) = sweep_emergencies hash nt iterate now (ge_emergency e, ge_registry e);
          (h, n3) = sweep_escalations now (ge_human e)
      in (e\<lparr>ge_sweeps := ge_sweeps e + 1, ge_consent := c, ge_emergency := g, ge_registry := reg, ge_human := h\<rparr>,
          \<lparr>sp_consent = n1, sp_emergencies = n2, sp_escalations = n3, sp_policies = length (expired_policies now reg),
           sp_at = now\<rparr>))"

record replay_metadata =
  rm_outcome :: outcome
  rm_decided_by :: string
  rm_policy_version :: nat
  rm_digest :: string

record gov_drift =
  dr_same :: bool
  dr_was :: outcome
  dr_now :: outcome
  dr_was_policy :: string
  dr_now_policy :: string
  dr_policy_changed :: bool
  dr_was_version :: nat
  dr_now_version :: nat

definition gov_replay :: "(string \<Rightarrow> string) \<Rightarrow> (rat \<Rightarrow> string) \<Rightarrow> instant \<Rightarrow> replay_metadata \<Rightarrow> gov_request \<Rightarrow> gov_engine
    \<Rightarrow> gov_decision \<times> gov_drift" where
  "gov_replay hash nt now m r e =
     (let d = gov_evaluate hash nt (gov_evaluator (ge_config e)) (ge_registry e) r now
      in (d, \<lparr>dr_same = (gd_outcome d = rm_outcome m), dr_was = rm_outcome m, dr_now = gd_outcome d,
              dr_was_policy = rm_decided_by m, dr_now_policy = gd_decided_by d,
              dr_policy_changed = (sn_digest (ge_registry e) \<noteq> rm_digest m),
              dr_was_version = rm_policy_version m, dr_now_version = sn_version (ge_registry e)\<rparr>))"

definition forget_subject :: "instant \<Rightarrow> string \<Rightarrow> string \<Rightarrow> gov_engine \<Rightarrow> gov_engine \<times> consent_record list" where
  "forget_subject now subject reason e =
     (case revoke_all now subject reason (ge_consent e) of (c, out) \<Rightarrow> (e\<lparr>ge_consent := c\<rparr>, out))"

section \<open>Runs of the engine\<close>

datatype engine_op = En_Decide string gov_request | En_Policy policy_op | En_Consent consent_op | En_Activate emergency
  | En_Deactivate string | En_Human human_op | En_Sweep | En_Stop

fun engine_run :: "(string \<Rightarrow> string) \<Rightarrow> (rat \<Rightarrow> string) \<Rightarrow> (request_fault list \<Rightarrow> string) \<Rightarrow> (string list \<Rightarrow> string list)
    \<Rightarrow> instant \<Rightarrow> engine_op \<Rightarrow> gov_engine \<Rightarrow> gov_engine" where
  "engine_run hash nt sh it now (En_Decide i r) e = fst (gov_decide hash nt sh it i now r e)"
| "engine_run hash nt sh it now (En_Policy a) e = e\<lparr>ge_registry := policy_op_run hash nt it now a (ge_registry e)\<rparr>"
| "engine_run hash nt sh it now (En_Consent a) e = e\<lparr>ge_consent := consent_run now a (ge_consent e)\<rparr>"
| "engine_run hash nt sh it now (En_Activate m) e =
     (case fst (activate_emergency hash nt it now m (ge_emergency e, ge_registry e)) of
        (g, reg) \<Rightarrow> e\<lparr>ge_emergency := g, ge_registry := reg\<rparr>)"
| "engine_run hash nt sh it now (En_Deactivate n) e =
     (case fst (deactivate_emergency hash nt it now n (ge_emergency e, ge_registry e)) of
        (g, reg) \<Rightarrow> e\<lparr>ge_emergency := g, ge_registry := reg\<rparr>)"
| "engine_run hash nt sh it now (En_Human a) e = e\<lparr>ge_human := human_run now a (ge_human e)\<rparr>"
| "engine_run hash nt sh it now En_Sweep e = fst (gov_sweep hash nt it now e)"
| "engine_run hash nt sh it now En_Stop e = stop_engine e"

text \<open>An engine that New built, after any calls.\<close>

definition engine_reached :: "(string \<Rightarrow> string) \<Rightarrow> (rat \<Rightarrow> string) \<Rightarrow> (request_fault list \<Rightarrow> string) \<Rightarrow> instant \<Rightarrow> gov_config \<Rightarrow> bool
    \<Rightarrow> ((string list \<Rightarrow> string list) \<times> instant \<times> engine_op) list \<Rightarrow> gov_engine \<Rightarrow> bool" where
  "engine_reached hash nt sh t0 c aud ops e =
     (list_all (\<lambda>a. iteration (fst a)) ops
      \<and> (case new_gov_engine t0 c aud of
            Inl _ \<Rightarrow> False
          | Inr e0 \<Rightarrow> e = foldl (\<lambda>e (it, now, a). engine_run hash nt sh it now a e) e0 ops))"

definition engine_inv :: "gov_engine \<Rightarrow> bool" where
  "engine_inv e \<longleftrightarrow> snapshot_inv (ge_registry e) \<and> human_inv (ge_human e) \<and> gc_default (ge_config e) = Deny"

lemma decide_sel:
  "ge_registry (fst (gov_decide hash nt sh it i now r e)) = ge_registry e"
  "ge_config (fst (gov_decide hash nt sh it i now r e)) = ge_config e"
  by (auto simp: gov_decide_def refuse_def record_decision_def decide_on_def evaluate_safely_def escalate_decision_def Let_def
      split: prod.splits option.splits)

lemma decide_human: "human_inv (ge_human e) \<Longrightarrow> human_inv (ge_human (fst (gov_decide hash nt sh it i now r e)))"
  by (auto simp: gov_decide_def refuse_def record_decision_def decide_on_def evaluate_safely_def escalate_decision_def Let_def raise_inv
      split: prod.splits option.splits)

lemma engine_run_inv:
  assumes it: "iteration it" and e: "engine_inv e"
  shows "engine_inv (engine_run hash nt sh it now a e)"
proof (cases a)
  case (En_Decide i r)
  then show ?thesis using e by (simp add: engine_inv_def decide_sel decide_human)
next
  case (En_Policy b)
  then show ?thesis using e op_inv [OF it] by (simp add: engine_inv_def)
next
  case (En_Consent b)
  then show ?thesis using e by (simp add: engine_inv_def)
next
  case (En_Activate m)
  then show ?thesis
    using e activate_inv [OF it, of "(ge_emergency e, ge_registry e)" hash nt now m] by (auto simp: engine_inv_def split: prod.split)
next
  case (En_Deactivate n)
  then show ?thesis
    using e deactivate_inv [OF it, of "(ge_emergency e, ge_registry e)" hash nt now n] by (auto simp: engine_inv_def split: prod.split)
next
  case (En_Human b)
  then show ?thesis using e human_step_inv [of "ge_human e" "(now, b)"] by (simp add: engine_inv_def human_step_def)
next
  case En_Sweep
  then show ?thesis
    using e sweep_emergencies_inv [OF it, of "(ge_emergency e, ge_registry e)" hash nt now] human_step_inv [of "ge_human e" "(now, Hu_Sweep)"]
    by (auto simp: engine_inv_def gov_sweep_def human_step_def split: prod.splits)
next
  case En_Stop
  then show ?thesis using e by (simp add: engine_inv_def stop_engine_def)
qed

lemma engine_reached_inv: "engine_reached hash nt sh t0 c aud ops e \<Longrightarrow> engine_inv e"
proof -
  assume r: "engine_reached hash nt sh t0 c aud ops e"
  then obtain e0 where n: "new_gov_engine t0 c aud = Inr e0"
    and e: "e = foldl (\<lambda>e (it, now, a). engine_run hash nt sh it now a e) e0 ops"
    and it: "list_all (\<lambda>a. iteration (fst a)) ops" by (auto simp: engine_reached_def split: sum.splits)
  have "engine_inv e0"
    using n by (auto simp: new_gov_engine_def Let_def engine_inv_def new_policy_inv new_human_inv gov_config_problems_def split: if_splits)
  then show ?thesis unfolding e using it
    by (induction ops arbitrary: e0) (auto simp: engine_run_inv split: prod.split)
qed

section \<open>What consent does to a decision\<close>

definition consent_met :: "instant \<Rightarrow> consent_registry \<Rightarrow> string \<Rightarrow> obligation \<Rightarrow> bool" where
  "consent_met now c subject x \<longleftrightarrow> (ob_kind x = ''consent'' \<longrightarrow> check_valid (check_consent now subject (ob_target x) c))"

lemma consent_fold:
  "cw_unmet (fold (consent_one now c s) xs w) \<longleftrightarrow> cw_unmet w \<or> \<not> list_all (consent_met now c s) xs"
  by (induction xs arbitrary: w) (auto simp: consent_one_def consent_met_def Let_def)

lemma resolve_severe: "3 \<le> severity (gd_outcome d) \<Longrightarrow> gd_outcome (resolve_consent now c r d) = gd_outcome d"
  by (auto simp: resolve_consent_def Let_def)

lemma resolve_permits:
  assumes "gd_outcome (resolve_consent now c r d) = Allow"
  shows "gd_outcome d = Allow \<or> gd_outcome d = Require_Consent"
    and "gq_subject r \<noteq> [] \<Longrightarrow> list_all (consent_met now c (gq_subject r)) (gd_obligations d)"
  using assms consent_fold [of now c "gq_subject r" "gd_obligations d"]
  by (auto simp: resolve_consent_def Let_def split: if_splits)

text \<open>A decision that went through the evaluator.\<close>

definition judged :: "(string \<Rightarrow> string) \<Rightarrow> (rat \<Rightarrow> string) \<Rightarrow> instant \<Rightarrow> gov_request \<Rightarrow> gov_engine \<Rightarrow> gov_decision" where
  "judged hash nt now r e =
     gov_evaluate hash nt (gov_evaluator (ge_config e)) (ge_registry e) (aggregated (ge_config e) r) now"

lemma aggregated_sel [simp]: "gq_subject (aggregated c r) = gq_subject r" "gq_action (aggregated c r) = gq_action r"
  by (simp_all add: aggregated_def)

lemma resolve_id: "gd_outcome (resolve_consent now c r (d\<lparr>gd_id := i\<rparr>)) = gd_outcome (resolve_consent now c r d)"
  "gd_obligations (resolve_consent now c r (d\<lparr>gd_id := i\<rparr>)) = gd_obligations (resolve_consent now c r d)"
  by (simp_all add: resolve_consent_def Let_def)

lemma decide_outcome:
  "gd_outcome (snd (gov_decide hash nt sh it i now r e)) =
     (if ge_stopped e \<or> check_request (gc_validator (ge_config e)) r \<noteq> [] then Deny
      else gd_outcome (resolve_consent now (ge_consent e) r (judged hash nt now r e)))"
proof -
  have "resolve_consent now c (aggregated k r) d = resolve_consent now c r d" for c k d
    by (simp add: resolve_consent_def)
  then show ?thesis
    by (auto simp: gov_decide_def refuse_def engine_decision_def decide_on_def evaluate_safely_def judged_def resolve_id Let_def
        split: prod.splits)
qed

section \<open>Properties\<close>



text \<open>The engine of the examples: the default configuration with the baseline loaded, and what a subject agreed.\<close>

definition no_faults :: "request_fault list \<Rightarrow> string" where
  "no_faults fs = []"

definition fresh_engine :: gov_engine where
  "fresh_engine = (case new_gov_engine 0 default_gov_config True of Inr e \<Rightarrow> e | Inl _ \<Rightarrow> undefined)"

definition loaded_engine :: "(instant \<times> engine_op) list \<Rightarrow> gov_engine" where
  "loaded_engine ops = foldl (\<lambda>e (it, now, a). engine_run id (\<lambda>_. []) no_faults it now a e) fresh_engine
     (map (Pair (\<lambda>xs. xs)) ((0, En_Policy (Po_Register_All baseline_policies)) # ops))"

lemma fresh_new: "new_gov_engine 0 default_gov_config True = Inr fresh_engine"
proof -
  have "gov_config_problems default_gov_config = []" by code_simp
  then show ?thesis by (simp add: fresh_engine_def new_gov_engine_def Let_def)
qed

lemma loaded_reached:
  "engine_reached id (\<lambda>_. []) no_faults 0 default_gov_config True
     (map (Pair (\<lambda>xs. xs)) ((0, En_Policy (Po_Register_All baseline_policies)) # ops)) (loaded_engine ops)"
  unfolding engine_reached_def fresh_new loaded_engine_def by (simp add: iteration_def list_all_iff)

lemma loaded_registry: "ge_registry (loaded_engine []) = baseline_snapshot id (\<lambda>_. []) 0"
proof -
  have "ge_registry fresh_engine = new_policy_registry 0"
    using fresh_new by (auto simp: new_gov_engine_def Let_def dest: arg_cong [where f = ge_registry] split: if_splits)
  then show ?thesis by (simp add: loaded_engine_def baseline_snapshot_def policy_run_def)
qed


definition personal_write :: "signal list \<Rightarrow> gov_request" where
  "personal_write ss = public_release\<lparr>gq_action := \<lparr>ac_kind = Kind_Memory, ac_operation = ''write'', ac_resource = ''note'',
     ac_reversibility = Rev_Fully, ac_class = Class_Personal, ac_attributes = []\<rparr>,
     gq_risk := \<lparr>ra_level = Risk_Low, ra_signals = ss, ra_explanation = [], ra_capped = False\<rparr>\<rparr>"

definition agreed_engine :: gov_engine where
  "agreed_engine = loaded_engine [(1, En_Consent (Co_Grant ''c'' (agreement ''data_processing'' 0 None)))]"


text \<open>A caller cannot declare itself low risk: two requests that differ only in the level, the explanation and the
  cap they assert get the same outcome, and leave the same obligations.\<close>

lemma risk_sel:
  "gq_action (r\<lparr>gq_risk := a\<rparr>) = gq_action r" "gq_actor (r\<lparr>gq_risk := a\<rparr>) = gq_actor r"
  "gq_subject (r\<lparr>gq_risk := a\<rparr>) = gq_subject r" "gq_org (r\<lparr>gq_risk := a\<rparr>) = gq_org r"
  "gq_business (r\<lparr>gq_risk := a\<rparr>) = gq_business r" "gq_roles (r\<lparr>gq_risk := a\<rparr>) = gq_roles r"
  "gq_context (r\<lparr>gq_risk := a\<rparr>) = gq_context r" "gq_risk (r\<lparr>gq_risk := a\<rparr>) = a"
  by simp_all

lemma same_level:
  assumes "ra_level a = ra_level (gq_risk r)"
  shows "resolve_field f (r\<lparr>gq_risk := a\<rparr>) = resolve_field f r"
  unfolding resolve_field_def risk_sel assms ..

lemma same_level_policy:
  assumes "ra_level a = ra_level (gq_risk r)"
  shows "policy_evaluate nt p (r\<lparr>gq_risk := a\<rparr>) = policy_evaluate nt p r" "match_skips m (r\<lparr>gq_risk := a\<rparr>) = match_skips m r"
proof -
  have "condition_matches nt c (r\<lparr>gq_risk := a\<rparr>) = condition_matches nt c r" for c
    unfolding condition_matches_def same_level [OF assms] risk_sel ..
  then show "policy_evaluate nt p (r\<lparr>gq_risk := a\<rparr>) = policy_evaluate nt p r" by (simp add: policy_evaluate_def rule_matches_def)
  show "match_skips m (r\<lparr>gq_risk := a\<rparr>) = match_skips m r" unfolding match_skips_def risk_sel ..
qed

lemma same_level_evaluate:
  assumes a: "ra_level a = ra_level (gq_risk r)"
  shows "gd_outcome (gov_evaluate hash nt e s (r\<lparr>gq_risk := a\<rparr>) now) = gd_outcome (gov_evaluate hash nt e s r now)"
    and "gd_obligations (gov_evaluate hash nt e s (r\<lparr>gq_risk := a\<rparr>) now) = gd_obligations (gov_evaluate hash nt e s r now)"
proof -
  have w: "weigh_threshold ac a k = weigh_threshold ac (gq_risk r) k" for ac k
    by (intro ext) (simp only: weigh_threshold_def a)
  have t: "thresholds_apply ts ac a = thresholds_apply ts ac (gq_risk r)" for ts ac
    by (simp add: thresholds_apply_def w)
  have "applicable (r\<lparr>gq_risk := a\<rparr>) now = applicable r now"
    "candidate nt p (r\<lparr>gq_risk := a\<rparr>) = candidate nt p r" "rule_obligations nt (r\<lparr>gq_risk := a\<rparr>) = rule_obligations nt r" for p
    unfolding fun_eq_iff applicable_def policy_skips_def candidate_def rule_obligations_def same_level_policy [OF a] by simp_all
  then have v: "scope_verdicts nt s (r\<lparr>gq_risk := a\<rparr>) now = scope_verdicts nt s r now"
    by (simp add: scope_verdicts_def evaluate_scope_def Let_def)
  show "gd_outcome (gov_evaluate hash nt e s (r\<lparr>gq_risk := a\<rparr>) now) = gd_outcome (gov_evaluate hash nt e s r now)"
    "gd_obligations (gov_evaluate hash nt e s (r\<lparr>gq_risk := a\<rparr>) now) = gd_obligations (gov_evaluate hash nt e s r now)"
    unfolding evaluate_outcome evaluate_obligations winner_def risk_sel t v by (rule refl)+
qed

lemma aggregate_none: "ra_level (aggregate g []) = Risk_Low"
  by (simp add: aggregate_def stable_sort_def)

lemma aggregated_assertion:
  assumes "ra_signals a = ra_signals (gq_risk r)"
  shows "\<exists>b. aggregated c (r\<lparr>gq_risk := a\<rparr>) = (aggregated c r)\<lparr>gq_risk := b\<rparr> \<and> ra_level b = ra_level (gq_risk (aggregated c r))"
  using assms aggregate_none by (cases r) (auto simp: aggregated_def)

theorem asserted_risk_is_ignored:
  assumes "ra_signals a = ra_signals (gq_risk r)"
  shows "gd_outcome (snd (gov_decide hash nt sh it i now (r\<lparr>gq_risk := a\<rparr>) e)) = gd_outcome (snd (gov_decide hash nt sh it i now r e))"
proof -
  obtain b where b: "aggregated (ge_config e) (r\<lparr>gq_risk := a\<rparr>) = (aggregated (ge_config e) r)\<lparr>gq_risk := b\<rparr>"
    "ra_level b = ra_level (gq_risk (aggregated (ge_config e) r))"
    using aggregated_assertion [OF assms] by blast
  have "gd_outcome (judged hash nt now (r\<lparr>gq_risk := a\<rparr>) e) = gd_outcome (judged hash nt now r e)"
    "gd_obligations (judged hash nt now (r\<lparr>gq_risk := a\<rparr>) e) = gd_obligations (judged hash nt now r e)"
    unfolding judged_def b(1) by (rule same_level_evaluate [OF b(2)])+
  then have "gd_outcome (resolve_consent now (ge_consent e) (r\<lparr>gq_risk := a\<rparr>) (judged hash nt now (r\<lparr>gq_risk := a\<rparr>) e))
      = gd_outcome (resolve_consent now (ge_consent e) r (judged hash nt now r e))"
    by (simp add: resolve_consent_def Let_def)
  moreover have "check_request v (r\<lparr>gq_risk := a\<rparr>) = check_request v r" for v
    unfolding check_request_def request_problems_gov_def check_spec_def risk_sel ..
  ultimately show ?thesis by (simp add: decide_outcome)
qed

theorem asserted_risk_is_ignored_witness:
  "gd_outcome (snd (gov_decide id (\<lambda>_. []) no_faults (\<lambda>xs. xs) ''d'' 2
      ((personal_write [])\<lparr>gq_risk := \<lparr>ra_level = Risk_Critical, ra_signals = [], ra_explanation = ''x'', ra_capped = True\<rparr>\<rparr>) agreed_engine))
   = gd_outcome (snd (gov_decide id (\<lambda>_. []) no_faults (\<lambda>xs. xs) ''d'' 2 (personal_write []) agreed_engine))"
  by (rule asserted_risk_is_ignored) (simp add: personal_write_def)

text \<open>A consent on file settles more than the consent: with a high risk, which the thresholds say needs a
  confirmation, a write of personal data is permitted as soon as the subject's consent is there, because the
  two outcomes are equally severe and the evaluator keeps one of them.\<close>

theorem consent_waives_confirmation:
  "ra_level (aggregate default_aggregator [some_signal ''fraud'' Risk_High]) = Risk_High"
  "thresholds_apply default_thresholds (gq_action (personal_write [])) (aggregate default_aggregator [some_signal ''fraud'' Risk_High])
     = Some (Require_Confirmation, ''risk_high'')"
  "gd_outcome (snd (gov_decide id (\<lambda>_. []) no_faults (\<lambda>xs. xs) ''d'' 2 (personal_write [some_signal ''fraud'' Risk_High]) agreed_engine)) = Allow"
  by code_simp+

text \<open>A replay of a request whose consent is on file reports a drift although nothing changed.\<close>

theorem replay_reports_drift:
  "let (e, d) = gov_decide id (\<lambda>_. []) no_faults (\<lambda>xs. xs) ''d'' 2 (personal_write []) agreed_engine;
       m = \<lparr>rm_outcome = gd_outcome d, rm_decided_by = gd_decided_by d, rm_policy_version = gd_policy_version d,
            rm_digest = sn_digest (ge_registry e)\<rparr>;
       x = snd (gov_replay id (\<lambda>_. []) 2 m (personal_write []) e)
   in \<not> dr_policy_changed x \<and> \<not> dr_same x"
  by code_simp

text \<open>A decision that needs a person is put in front of one: with automatic escalation on, its escalation waits in
  the queue, of the kind the outcome asks for, under the decision's identifier.\<close>

theorem needed_person_is_asked:
  assumes "gc_auto_escalate (ge_config e)" and "map_of (hu_pending (ge_human e)) i = None"
    and "(e', d) = gov_decide hash nt sh it i now r e" and "needs_human (gd_outcome d)"
  shows "\<exists>k x. kind_for (gd_outcome d) = Some k \<and> get_escalation i (ge_human e') = Some x \<and> es_pending x \<and> es_kind x = k
    \<and> es_reason x = gd_reason d \<and> es_policy x = gd_decided_by d"
proof -
  define d1 where "d1 = resolve_consent now (ge_consent e) (aggregated (ge_config e) r) ((judged hash nt now r e)\<lparr>gd_id := i\<rparr>)"
  define d2 where "d2 = (if gd_scope d1 = Scope_Emergency then d1\<lparr>gd_emergency := active_name_for it (gd_decided_by d1) (ge_emergency e)\<rparr> else d1)"
  have "\<not> ge_stopped e \<and> check_request (gc_validator (ge_config e)) r = []"
    using assms(3,4) by (auto simp: gov_decide_def refuse_def engine_decision_def needs_human_def Let_def split: if_splits)
  then have eq: "e' = escalate_decision now d2 (record_decision d2 e)" "d = d2"
    using assms(3) by (simp_all add: gov_decide_def decide_on_def evaluate_safely_def judged_def d1_def d2_def Let_def)
  have i: "gd_id d2 = i" by (simp add: d2_def d1_def resolve_consent_def Let_def)
  obtain k where k: "kind_for (gd_outcome d2) = Some k" using assms(4) eq(2) by (auto simp: needs_human_def kind_for_def)
  show ?thesis using assms(1,2,4) k i
    by (simp add: eq escalate_decision_def record_decision_def raise_escalation_def get_escalation_def Let_def es_pending_def map_add_def)
qed

end
