(* ===== verification/TelState.thy ===== *)
theory TelState
  imports RtFsm StableSort "HOL-Library.List_Lexorder" "HOL-Library.Char_ord"
begin

text \<open>
  The states of a call and the declaration of every legal move
  (\<^verbatim>\<open>packages/go/telephony/state.go\<close>), on the generic machine of \<^verbatim>\<open>RtFsm\<close>.
\<close>

section \<open>States\<close>

datatype call_state = Call_Idle | Call_Incoming | Call_Ringing | Call_Screening | Call_Accepted | Call_Rejected
  | Call_Connected | Call_Muted | Call_Hold | Call_Transferred | Call_Escalated | Call_Timeout | Call_Recovery
  | Call_Ended | Call_Failed

definition all_call_states :: "call_state list" where
  "all_call_states = [Call_Idle, Call_Incoming, Call_Ringing, Call_Screening, Call_Accepted, Call_Rejected,
     Call_Connected, Call_Muted, Call_Hold, Call_Transferred, Call_Escalated, Call_Timeout, Call_Recovery,
     Call_Ended, Call_Failed]"

fun call_state_name :: "call_state \<Rightarrow> string" where
  "call_state_name Call_Idle = ''idle''"
| "call_state_name Call_Incoming = ''incoming''"
| "call_state_name Call_Ringing = ''ringing''"
| "call_state_name Call_Screening = ''screening''"
| "call_state_name Call_Accepted = ''accepted''"
| "call_state_name Call_Rejected = ''rejected''"
| "call_state_name Call_Connected = ''connected''"
| "call_state_name Call_Muted = ''muted''"
| "call_state_name Call_Hold = ''hold''"
| "call_state_name Call_Transferred = ''transferred''"
| "call_state_name Call_Escalated = ''escalated''"
| "call_state_name Call_Timeout = ''timeout''"
| "call_state_name Call_Recovery = ''recovery''"
| "call_state_name Call_Ended = ''ended''"
| "call_state_name Call_Failed = ''failed''"

definition call_terminal :: "call_state \<Rightarrow> bool" where
  "call_terminal s = (s = Call_Ended \<or> s = Call_Failed)"

definition call_active :: "call_state \<Rightarrow> bool" where
  "call_active s = (s \<notin> {Call_Idle, Call_Ended, Call_Failed})"

definition call_connected :: "call_state \<Rightarrow> bool" where
  "call_connected s = (s \<in> {Call_Connected, Call_Muted, Call_Hold})"

section \<open>The table\<close>

definition call_transitions :: "(call_state \<times> call_state list) list" where
  "call_transitions =
     [(Call_Idle, [Call_Incoming, Call_Ringing, Call_Failed, Call_Timeout]),
      (Call_Incoming, [Call_Ringing, Call_Screening, Call_Rejected, Call_Failed, Call_Timeout]),
      (Call_Ringing, [Call_Screening, Call_Accepted, Call_Rejected, Call_Failed, Call_Timeout]),
      (Call_Screening, [Call_Accepted, Call_Rejected, Call_Escalated, Call_Failed, Call_Timeout]),
      (Call_Accepted, [Call_Connected, Call_Failed, Call_Timeout]),
      (Call_Rejected, [Call_Ended, Call_Failed]),
      (Call_Connected, [Call_Muted, Call_Hold, Call_Transferred, Call_Escalated, Call_Ended, Call_Failed, Call_Timeout]),
      (Call_Muted, [Call_Connected, Call_Hold, Call_Ended, Call_Failed, Call_Timeout]),
      (Call_Hold, [Call_Connected, Call_Muted, Call_Transferred, Call_Ended, Call_Failed, Call_Timeout]),
      (Call_Transferred, [Call_Ended, Call_Failed]),
      (Call_Escalated, [Call_Connected, Call_Transferred, Call_Ended, Call_Failed]),
      (Call_Timeout, [Call_Ended, Call_Failed]),
      (Call_Recovery, [Call_Connected, Call_Ended, Call_Failed]),
      (Call_Ended, []),
      (Call_Failed, [])]"

type_synonym call_fsm = "(call_state, unit, unit) fsm"

definition call_spec :: "call_state \<Rightarrow> (call_state, unit) fsm_spec" where
  "call_spec initial = \<lparr>fs_initial = initial, fs_transitions = call_transitions, fs_terminal = [Call_Ended, Call_Failed],
     fs_guards = []\<rparr>"

datatype call_fsm_error = Begins_Elsewhere call_state | Bad_Declaration "(call_state, unit) fsm_error"

definition new_call_fsm :: "call_state \<Rightarrow> call_fsm_error + call_fsm" where
  "new_call_fsm initial =
     (if initial \<noteq> Call_Idle \<and> initial \<noteq> Call_Recovery then Inl (Begins_Elsewhere initial)
      else case new_fsm (call_spec initial) of Inl e \<Rightarrow> Inl (Bad_Declaration e) | Inr f \<Rightarrow> Inr f)"

definition can_move :: "call_state \<Rightarrow> call_state \<Rightarrow> bool" where
  "can_move from to = (to \<in> set (case map_of call_transitions from of None \<Rightarrow> [] | Some tos \<Rightarrow> tos))"

definition moves_from :: "call_state \<Rightarrow> call_state list" where
  "moves_from s = stable_sort (\<lambda>a b. call_state_name a < call_state_name b)
     (case map_of call_transitions s of None \<Rightarrow> [] | Some tos \<Rightarrow> tos)"

section \<open>The machine of a call\<close>

definition call_machine :: "call_state \<Rightarrow> call_fsm" where
  "call_machine initial = \<lparr>f_state = initial, f_terminal = [Call_Ended, Call_Failed],
     f_allowed = spec_allowed (call_spec Call_Idle), f_guards = Map.empty, f_hooks = [],
     f_entered = (\<lambda>_. 0)(initial := 1)\<rparr>"

lemma spec_allowed_call: "spec_allowed (call_spec i) = can_move"
  by (auto simp: fun_eq_iff spec_allowed_def call_spec_def can_move_def split: option.splits)

lemma spec_allowed_fields:
  "spec_allowed \<lparr>fs_initial = i, fs_transitions = call_transitions, fs_terminal = ts, fs_guards = gs\<rparr> = can_move"
  by (auto simp: fun_eq_iff spec_allowed_def can_move_def split: option.splits)

lemma new_call_fsm_idle: "new_call_fsm Call_Idle = Inr (call_machine Call_Idle)"
proof -
  have "spec_problems (call_spec Call_Idle) = []" by code_simp
  then show ?thesis
    by (simp add: new_call_fsm_def new_fsm_def spec_guards_def call_machine_def spec_allowed_call)
      (simp add: call_spec_def spec_allowed_fields guard_entries_def)
qed

lemma new_call_fsm_recovery: "new_call_fsm Call_Recovery = Inr (call_machine Call_Recovery)"
proof -
  have "spec_problems (call_spec Call_Recovery) = []" by code_simp
  then show ?thesis
    by (simp add: new_call_fsm_def new_fsm_def spec_guards_def call_machine_def spec_allowed_call)
      (simp add: call_spec_def spec_allowed_fields guard_entries_def)
qed

text \<open>A machine that is a call's: only its state and its counters differ from a fresh one.\<close>

definition call_fsm_ok :: "call_fsm \<Rightarrow> bool" where
  "call_fsm_ok f \<longleftrightarrow> f_terminal f = [Call_Ended, Call_Failed] \<and> f_allowed f = can_move \<and> f_guards f = Map.empty \<and> f_hooks f = []"

lemma call_machine_ok: "call_fsm_ok (call_machine i)"
  by (simp add: call_fsm_ok_def call_machine_def spec_allowed_call)

lemma terminal_stuck: "call_terminal s \<Longrightarrow> \<not> can_move s t"
  by (auto simp: call_terminal_def can_move_def call_transitions_def)

lemma no_self_move: "\<not> can_move s s"
  by (cases s) (simp_all add: can_move_def call_transitions_def)

lemma never_into_recovery: "\<not> can_move s Call_Recovery"
  by (cases s) (simp_all add: can_move_def call_transitions_def)

lemma call_fsm_to:
  assumes "call_fsm_ok f"
  shows "fsm_to f to =
    (if can_move (f_state f) to
     then (f\<lparr>f_state := to, f_entered := (f_entered f)(to := f_entered f to + 1)\<rparr>, f_state f, None, [])
     else (f, f_state f, fsm_error_of f to, []))"
  using assms terminal_stuck [of "f_state f" to] no_self_move
  by (auto simp: call_fsm_ok_def fsm_to_def fsm_error_of_def Let_def call_terminal_def)

lemma call_fsm_error: "call_fsm_ok f \<Longrightarrow> fsm_error_of f to = None \<longleftrightarrow> can_move (f_state f) to"
  using terminal_stuck [of "f_state f" to] no_self_move
  by (auto simp: call_fsm_ok_def fsm_to_def fsm_error_of_def Let_def call_terminal_def)

end
