(* ===== verification/TelSession.thy ===== *)
theory TelSession
  imports TelState "HOL-Library.AList"
begin

text \<open>
  One call: its context (\<^verbatim>\<open>packages/go/telephony/context.go\<close>, \<^verbatim>\<open>ids.go\<close>) and its session with
  history, attributes, snapshot and restore (\<^verbatim>\<open>session.go\<close>).  Minted identifiers and readings of the
  clock are arguments; a zero time is \<open>None\<close>.
\<close>

section \<open>Contexts\<close>

datatype direction = Inbound | Outbound

datatype channel = Chan_Voice | Chan_Video | Chan_Sip | Chan_Pstn | Chan_WebRTC

datatype capability = Cap_Dial | Cap_Answer | Cap_Reject | Cap_Hangup | Cap_Hold | Cap_Mute | Cap_Transfer | Cap_Record | Cap_Dtmf

record endpoint =
  ep_ref :: string
  ep_display :: string
  ep_country :: string

definition endpoint_valid :: "endpoint \<Rightarrow> bool" where
  "endpoint_valid e = (ep_ref e \<noteq> [])"

text \<open>A direction or a channel outside the declared ones is \<open>None\<close>.\<close>

record call_context =
  cc_caller :: endpoint
  cc_callee :: endpoint
  cc_direction :: "direction option"
  cc_channel :: "channel option"
  cc_provider :: string
  cc_capabilities :: "capability list"
  cc_metadata :: "(string \<times> string) list"
  cc_tags :: "string list"

definition id_char :: "char \<Rightarrow> bool" where
  "id_char c = (CHR ''a'' \<le> c \<and> c \<le> CHR ''z'' \<or> CHR ''0'' \<le> c \<and> c \<le> CHR ''9'' \<or> c = CHR ''-'' \<or> c = CHR ''_'')"

definition provider_valid :: "string \<Rightarrow> bool" where
  "provider_valid p = (p \<noteq> [] \<and> length p \<le> 64 \<and> list_all id_char p)"

definition call_id_valid :: "string \<Rightarrow> bool" where
  "call_id_valid i = (take 5 i = ''call_'' \<and> length i > 5)"

datatype context_problem = Caller_Required | Callee_Required | Bad_Direction | Bad_Channel | Bad_Provider
  | Too_Much_Metadata | Metadata_Key string | Metadata_Value string | Too_Many_Tags | Empty_Tag | Tag_Too_Long string

definition context_problems :: "call_context \<Rightarrow> context_problem list" where
  "context_problems c =
     (if \<not> endpoint_valid (cc_caller c) then [Caller_Required] else [])
     @ (if \<not> endpoint_valid (cc_callee c) then [Callee_Required] else [])
     @ (if cc_direction c = None then [Bad_Direction] else [])
     @ (if cc_channel c = None then [Bad_Channel] else [])
     @ (if \<not> provider_valid (cc_provider c) then [Bad_Provider] else [])
     @ (if length (cc_metadata c) > 32 then [Too_Much_Metadata] else [])
     @ concat (map (\<lambda>(k, v). (if length k > 64 then [Metadata_Key k] else []) @ (if length v > 256 then [Metadata_Value k] else []))
         (cc_metadata c))
     @ (if length (cc_tags c) > 16 then [Too_Many_Tags] else [])
     @ concat (map (\<lambda>t. if t = [] then [Empty_Tag] else if length t > 48 then [Tag_Too_Long t] else []) (cc_tags c))"

definition has_tag :: "string \<Rightarrow> call_context \<Rightarrow> bool" where
  "has_tag t c = (t \<in> set (cc_tags c))"

definition has_capability :: "capability \<Rightarrow> call_context \<Rightarrow> bool" where
  "has_capability k c = (k \<in> set (cc_capabilities c))"

section \<open>Sessions\<close>

datatype reason_fault = Reason_Missing | Reason_Length nat | Reason_Characters

definition code_char :: "char \<Rightarrow> bool" where
  "code_char c = (CHR ''a'' \<le> c \<and> c \<le> CHR ''z'' \<or> CHR ''0'' \<le> c \<and> c \<le> CHR ''9'' \<or> c = CHR ''_'' \<or> c = CHR ''.'')"

definition reason_fault_of :: "string \<Rightarrow> reason_fault option" where
  "reason_fault_of s =
     (if s = [] then Some Reason_Missing
      else if length s > 64 then Some (Reason_Length (length s))
      else if list_all code_char s then None else Some Reason_Characters)"

record call_record =
  tr_from :: call_state
  tr_to :: call_state
  tr_reason :: string
  tr_at :: instant
  tr_seq :: nat

record call_session =
  cs_id :: string
  cs_session :: string
  cs_correlation :: string
  cs_ctx :: call_context
  cs_created :: instant
  cs_fsm :: call_fsm
  cs_history :: "call_record list"
  cs_seq :: nat
  cs_updated :: instant
  cs_answered :: "instant option"
  cs_ended :: "instant option"
  cs_legs :: "string list"
  cs_resumes :: nat
  cs_attrs :: "(string \<times> string) list"
  cs_end_reason :: string

definition cs_state :: "call_session \<Rightarrow> call_state" where
  "cs_state s = f_state (cs_fsm s)"

datatype session_fault = Session_Context "context_problem list" | Session_Machine call_fsm_error
  | Session_Reason reason_fault | Session_Transition call_state call_state | Attr_Too_Long | Attrs_Full
  | Not_Recoverable

definition new_call_session :: "string \<Rightarrow> string \<Rightarrow> string \<Rightarrow> call_context \<Rightarrow> call_state \<Rightarrow> instant
    \<Rightarrow> session_fault + call_session" where
  "new_call_session i sess corr cc initial now =
     (if context_problems cc \<noteq> [] then Inl (Session_Context (context_problems cc))
      else case new_call_fsm initial of
        Inl e \<Rightarrow> Inl (Session_Machine e)
      | Inr f \<Rightarrow> Inr \<lparr>cs_id = i, cs_session = sess, cs_correlation = corr, cs_ctx = cc, cs_created = now, cs_fsm = f,
                   cs_history = [], cs_seq = 0, cs_updated = now, cs_answered = None, cs_ended = None, cs_legs = [],
                   cs_resumes = 0, cs_attrs = [], cs_end_reason = []\<rparr>)"

text \<open>The first record stays; of the rest the oldest makes room.\<close>

definition append_record :: "call_record list \<Rightarrow> call_record \<Rightarrow> call_record list" where
  "append_record h r = (if length h < 128 then h @ [r] else hd h # drop 2 h @ [r])"

definition session_transition :: "instant \<Rightarrow> call_state \<Rightarrow> string \<Rightarrow> call_session \<Rightarrow> call_session \<times> session_fault option" where
  "session_transition now to reason s =
     (case reason_fault_of reason of
        Some e \<Rightarrow> (s, Some (Session_Reason e))
      | None \<Rightarrow>
          (case fsm_to (cs_fsm s) to of
             (f, from, Some e, calls) \<Rightarrow> (s, Some (Session_Transition from to))
           | (f, from, None, calls) \<Rightarrow>
               (let r = \<lparr>tr_from = from, tr_to = to, tr_reason = reason, tr_at = now, tr_seq = cs_seq s + 1\<rparr>;
                    s1 = s\<lparr>cs_fsm := f, cs_seq := cs_seq s + 1, cs_history := append_record (cs_history s) r, cs_updated := now\<rparr>;
                    s2 = (if call_connected to \<and> cs_answered s = None then s1\<lparr>cs_answered := Some now\<rparr> else s1)
                in (if call_terminal to then s2\<lparr>cs_ended := Some now, cs_end_reason := reason\<rparr> else s2, None))))"

definition call_duration :: "instant \<Rightarrow> call_session \<Rightarrow> duration" where
  "call_duration now s = (case cs_ended s of None \<Rightarrow> now - cs_created s | Some e \<Rightarrow> e - cs_created s)"

definition talk_duration :: "instant \<Rightarrow> call_session \<Rightarrow> duration" where
  "talk_duration now s =
     (case cs_answered s of None \<Rightarrow> 0 | Some a \<Rightarrow> (case cs_ended s of None \<Rightarrow> now - a | Some e \<Rightarrow> e - a))"

definition add_leg :: "instant \<Rightarrow> string \<Rightarrow> call_session \<Rightarrow> call_session" where
  "add_leg now leg s = s\<lparr>cs_legs := cs_legs s @ [leg], cs_updated := now\<rparr>"

definition set_attr :: "instant \<Rightarrow> string \<Rightarrow> string \<Rightarrow> call_session \<Rightarrow> call_session \<times> session_fault option" where
  "set_attr now k v s =
     (if length k > 64 \<or> length v > 256 then (s, Some Attr_Too_Long)
      else if map_of (cs_attrs s) k = None \<and> length (cs_attrs s) \<ge> 32 then (s, Some Attrs_Full)
      else (s\<lparr>cs_attrs := AList.update k v (cs_attrs s), cs_updated := now\<rparr>, None))"

section \<open>Snapshots\<close>

record call_snapshot =
  ss_schema :: int
  ss_call :: string
  ss_session :: string
  ss_correlation :: string
  ss_state :: "call_state option"
  ss_context :: call_context
  ss_created :: instant
  ss_updated :: instant
  ss_answered :: "instant option"
  ss_ended :: "instant option"
  ss_end_reason :: string
  ss_history :: "call_record list"
  ss_legs :: "string list"
  ss_attrs :: "(string \<times> string) list"
  ss_resumes :: nat

definition call_snapshot_of :: "call_session \<Rightarrow> call_snapshot" where
  "call_snapshot_of s =
     \<lparr>ss_schema = 1, ss_call = cs_id s, ss_session = cs_session s, ss_correlation = cs_correlation s,
      ss_state = Some (cs_state s), ss_context = cs_ctx s, ss_created = cs_created s, ss_updated = cs_updated s,
      ss_answered = cs_answered s, ss_ended = cs_ended s, ss_end_reason = cs_end_reason s, ss_history = cs_history s,
      ss_legs = cs_legs s, ss_attrs = cs_attrs s, ss_resumes = cs_resumes s\<rparr>"

definition snapshot_recoverable :: "call_snapshot \<Rightarrow> bool" where
  "snapshot_recoverable p =
     (ss_schema p = 1 \<and> (case ss_state p of None \<Rightarrow> False | Some st \<Rightarrow> \<not> call_terminal st) \<and> call_id_valid (ss_call p))"

definition restore_session :: "string \<Rightarrow> instant \<Rightarrow> call_snapshot \<Rightarrow> session_fault + call_session" where
  "restore_session sess now p =
     (if \<not> snapshot_recoverable p then Inl Not_Recoverable
      else if context_problems (ss_context p) \<noteq> [] then Inl Not_Recoverable
      else case new_call_fsm Call_Recovery of
        Inl e \<Rightarrow> Inl (Session_Machine e)
      | Inr f \<Rightarrow> Inr \<lparr>cs_id = ss_call p, cs_session = sess, cs_correlation = ss_correlation p, cs_ctx = ss_context p,
                   cs_created = ss_created p, cs_fsm = f, cs_history = ss_history p,
                   cs_seq = (if ss_history p = [] then 0 else tr_seq (last (ss_history p))), cs_updated = now,
                   cs_answered = ss_answered p, cs_ended = None, cs_legs = ss_legs p, cs_resumes = ss_resumes p + 1,
                   cs_attrs = ss_attrs p, cs_end_reason = []\<rparr>)"

definition snapshot_before :: "call_snapshot \<Rightarrow> call_snapshot \<Rightarrow> bool" where
  "snapshot_before a b = (if ss_created a \<noteq> ss_created b then ss_created a < ss_created b else ss_call a < ss_call b)"

section \<open>The invariant of a session\<close>

text \<open>Records carry increasing numbers up to the session's, each a declared move, and those of an unbroken
  stretch after the first are a path; the end of the history is where the machine is, unless the session has
  just been restored.\<close>

definition record_ok :: "call_record \<Rightarrow> bool" where
  "record_ok r \<longleftrightarrow> can_move (tr_from r) (tr_to r)"

definition session_ok :: "call_session \<Rightarrow> bool" where
  "session_ok s \<longleftrightarrow> call_fsm_ok (cs_fsm s) \<and> context_problems (cs_ctx s) = [] \<and> list_all record_ok (cs_history s)
     \<and> sorted_wrt (\<lambda>a b. tr_seq a < tr_seq b) (cs_history s)
     \<and> list_all (\<lambda>r. tr_seq r \<le> cs_seq s) (cs_history s) \<and> length (cs_history s) \<le> 128
     \<and> (cs_state s \<noteq> Call_Recovery \<longrightarrow> cs_history s \<noteq> [] \<longrightarrow> tr_to (last (cs_history s)) = cs_state s)
     \<and> (cs_ended s \<noteq> None \<longleftrightarrow> call_terminal (cs_state s))"

lemma append_record_last: "last (append_record h r) = r" "append_record h r \<noteq> []"
  by (simp_all add: append_record_def)

lemma append_record_set: "set (append_record h r) \<subseteq> insert r (set h)"
  using set_drop_subset [of 2 h] by (cases h) (auto simp: append_record_def)

lemma append_record_all: "list_all P h \<Longrightarrow> P r \<Longrightarrow> list_all P (append_record h r)"
  using append_record_set [of h r] by (auto simp: list_all_iff)

lemma append_record_length: "length h \<le> 128 \<Longrightarrow> length (append_record h r) \<le> 128"
  by (simp add: append_record_def)

lemma append_record_sorted:
  assumes "sorted_wrt (\<lambda>a b. tr_seq a < tr_seq b) h" "list_all (\<lambda>x. tr_seq x < tr_seq r) h"
  shows "sorted_wrt (\<lambda>a b. tr_seq a < tr_seq b) (append_record h r)"
proof (cases h)
  case Nil
  then show ?thesis by (simp add: append_record_def)
next
  case (Cons a t)
  have "sorted_wrt (\<lambda>a b. tr_seq a < tr_seq b) (drop 1 t)" using assms(1) Cons by (auto intro: sorted_wrt_drop)
  moreover have "set (drop 1 t) \<subseteq> set t" by (rule set_drop_subset)
  ultimately show ?thesis using assms Cons by (auto simp: append_record_def sorted_wrt_append list_all_iff)
qed

text \<open>What a transition does: nothing, or one move with its record.\<close>

definition move_record :: "instant \<Rightarrow> call_state \<Rightarrow> string \<Rightarrow> call_session \<Rightarrow> call_record" where
  "move_record now to reason s = \<lparr>tr_from = cs_state s, tr_to = to, tr_reason = reason, tr_at = now, tr_seq = cs_seq s + 1\<rparr>"

definition moved_session :: "instant \<Rightarrow> call_state \<Rightarrow> string \<Rightarrow> call_session \<Rightarrow> call_session" where
  "moved_session now to reason s =
     s\<lparr>cs_fsm := (cs_fsm s)\<lparr>f_state := to, f_entered := (f_entered (cs_fsm s))(to := f_entered (cs_fsm s) to + 1)\<rparr>,
       cs_seq := cs_seq s + 1, cs_history := append_record (cs_history s) (move_record now to reason s), cs_updated := now,
       cs_answered := (if call_connected to \<and> cs_answered s = None then Some now else cs_answered s),
       cs_ended := (if call_terminal to then Some now else cs_ended s),
       cs_end_reason := (if call_terminal to then reason else cs_end_reason s)\<rparr>"

lemma moved_session_sel [simp]:
  "cs_id (moved_session now to reason s) = cs_id s" "cs_session (moved_session now to reason s) = cs_session s"
  "cs_correlation (moved_session now to reason s) = cs_correlation s" "cs_ctx (moved_session now to reason s) = cs_ctx s"
  "cs_state (moved_session now to reason s) = to" "cs_updated (moved_session now to reason s) = now"
  "cs_seq (moved_session now to reason s) = cs_seq s + 1"
  "cs_history (moved_session now to reason s) = append_record (cs_history s) (move_record now to reason s)"
  "cs_ended (moved_session now to reason s) = (if call_terminal to then Some now else cs_ended s)"
  by (simp_all add: moved_session_def cs_state_def)

lemma session_transition_taken:
  assumes "call_fsm_ok (cs_fsm s)" "reason_fault_of reason = None" "can_move (cs_state s) to"
  shows "session_transition now to reason s = (moved_session now to reason s, None)"
  using assms call_fsm_to [OF assms(1), of to]
  by (simp add: session_transition_def moved_session_def move_record_def cs_state_def Let_def)

lemma session_transition_refused:
  assumes "call_fsm_ok (cs_fsm s)" "\<not> (reason_fault_of reason = None \<and> can_move (cs_state s) to)"
  shows "fst (session_transition now to reason s) = s \<and> snd (session_transition now to reason s) \<noteq> None"
  using assms call_fsm_to [OF assms(1), of to] call_fsm_error [OF assms(1), of to]
  by (auto simp: session_transition_def cs_state_def split: option.splits)

lemma session_transition_moves:
  "call_fsm_ok (cs_fsm s) \<Longrightarrow> snd (session_transition now to reason s) = None \<longleftrightarrow>
     reason_fault_of reason = None \<and> can_move (cs_state s) to"
  using session_transition_taken [of s reason to now] session_transition_refused [of s reason to now] by fastforce

lemma session_ok_fsm: "session_ok s \<Longrightarrow> call_fsm_ok (cs_fsm s)"
  by (simp add: session_ok_def)

lemma moved_fsm_ok: "call_fsm_ok (cs_fsm s) \<Longrightarrow> call_fsm_ok (cs_fsm (moved_session now to reason s))"
  by (simp add: call_fsm_ok_def moved_session_def)

lemma moved_session_ok:
  assumes ok: "session_ok s" and m: "can_move (cs_state s) to"
  shows "session_ok (moved_session now to reason s)"
proof -
  let ?r = "move_record now to reason s"
  have "list_all record_ok (append_record (cs_history s) ?r)"
    by (rule append_record_all) (use ok m in \<open>simp_all add: session_ok_def record_ok_def move_record_def\<close>)
  moreover have "sorted_wrt (\<lambda>a b. tr_seq a < tr_seq b) (append_record (cs_history s) ?r)"
    by (rule append_record_sorted) (use ok in \<open>auto simp: session_ok_def list_all_iff move_record_def less_Suc_eq_le\<close>)
  moreover have "list_all (\<lambda>x. tr_seq x \<le> cs_seq s + 1) (append_record (cs_history s) ?r)"
    by (rule append_record_all) (use ok in \<open>auto simp: session_ok_def list_all_iff move_record_def\<close>)
  moreover have "length (append_record (cs_history s) ?r) \<le> 128"
    using ok by (intro append_record_length) (simp add: session_ok_def)
  moreover have "tr_to (last (append_record (cs_history s) ?r)) = to" by (simp add: append_record_last move_record_def)
  moreover have "cs_ended s = None" using ok m terminal_stuck by (auto simp: session_ok_def)
  ultimately show ?thesis
    using ok moved_fsm_ok [OF session_ok_fsm [OF ok]] by (simp add: session_ok_def)
qed

lemma session_transition_ok:
  assumes ok: "session_ok s"
  shows "session_ok (fst (session_transition now to reason s))"
proof (cases "reason_fault_of reason = None \<and> can_move (cs_state s) to")
  case True
  then show ?thesis using session_transition_taken [OF session_ok_fsm [OF ok]] moved_session_ok [OF ok] by simp
next
  case False
  then show ?thesis using session_transition_refused [OF session_ok_fsm [OF ok] False] ok by simp
qed

section \<open>Properties\<close>

text \<open>A snapshot of a live call restores to a session that is the same call: its identity, correlation, context,
  start, answer, history, legs and attributes, one more resume, in the recovery state; a snapshot of a call that
  has ended, or whose context or identifier is not valid, is refused.\<close>

theorem restore_continues_the_call:
  "restore_session sess now (call_snapshot_of s) =
     (if call_terminal (cs_state s) \<or> \<not> call_id_valid (cs_id s) \<or> context_problems (cs_ctx s) \<noteq> [] then Inl Not_Recoverable
      else Inr (s\<lparr>cs_session := sess, cs_fsm := call_machine Call_Recovery, cs_updated := now, cs_ended := None,
                 cs_resumes := cs_resumes s + 1, cs_end_reason := [],
                 cs_seq := (if cs_history s = [] then 0 else tr_seq (last (cs_history s)))\<rparr>))"
  by (simp add: restore_session_def snapshot_recoverable_def call_snapshot_of_def new_call_fsm_recovery)

end
