(* ===== verification/TelRuntime.thy ===== *)
theory TelRuntime
  imports TelSession Complex_Main
begin

text \<open>
  Many calls: the registry (\<^verbatim>\<open>packages/go/telephony/registry.go\<close>), the lifecycle that moves them
  (\<^verbatim>\<open>lifecycle.go\<close>), admission (\<^verbatim>\<open>scheduler.go\<close>, \<^verbatim>\<open>config.go\<close>), recovery after a restart
  (\<^verbatim>\<open>recovery.go\<close>) and the coordinator and dispatcher in front of them (\<^verbatim>\<open>runtime.go\<close>).  What a
  carrier answers, minted identifiers, the clock and the order in which the registry is walked are arguments.
  The 64 shards are one map; a failed publish only counts, so the events are the log of what was offered to the
  publisher.  Metrics are not modelled.
\<close>

section \<open>Configuration\<close>

record tel_config =
  tc_max_calls :: int
  tc_max_per_provider :: int
  tc_high_water :: rat
  tc_setup :: duration
  tc_ring :: duration
  tc_screen :: duration
  tc_connect :: duration
  tc_teardown :: duration
  tc_escalation :: duration
  tc_recovery :: duration
  tc_sweep :: duration
  tc_provider :: duration
  tc_publish :: duration
  tc_snapshot :: duration
  tc_drain :: duration

definition default_tel_config :: tel_config where
  "default_tel_config =
     \<lparr>tc_max_calls = 10000, tc_max_per_provider = 5000, tc_high_water = 95 / 100, tc_setup = 5 * second,
      tc_ring = 45 * second, tc_screen = 20 * second, tc_connect = 10 * second, tc_teardown = 15 * second,
      tc_escalation = 300 * second, tc_recovery = 30 * second, tc_sweep = second, tc_provider = 5 * second,
      tc_publish = 2 * second, tc_snapshot = 10 * second, tc_drain = 30 * second\<rparr>"

datatype tel_config_problem = Max_Calls_Not_Positive | Max_Per_Provider_Negative | Max_Per_Provider_Never_Binds
  | High_Water_Range | Duration_Not_Positive string | Snapshot_Negative | Sweep_Too_Slow string

definition tel_durations :: "tel_config \<Rightarrow> (string \<times> duration) list" where
  "tel_durations c =
     [(''SetupTimeout'', tc_setup c), (''RingTimeout'', tc_ring c), (''ScreenTimeout'', tc_screen c),
      (''ConnectTimeout'', tc_connect c), (''TeardownTimeout'', tc_teardown c),
      (''EscalationTimeout'', tc_escalation c), (''RecoveryTimeout'', tc_recovery c),
      (''SweepInterval'', tc_sweep c), (''ProviderTimeout'', tc_provider c), (''PublishTimeout'', tc_publish c),
      (''DrainTimeout'', tc_drain c)]"

definition shortest_deadline :: "tel_config \<Rightarrow> string \<times> duration" where
  "shortest_deadline c =
     fold (\<lambda>(n, d) (bn, best). if d > 0 \<and> d < best then (n, d) else (bn, best)) (take 7 (tel_durations c))
       (''SetupTimeout'', tc_setup c)"

definition tel_config_problems :: "tel_config \<Rightarrow> tel_config_problem list" where
  "tel_config_problems c =
     (if tc_max_calls c \<le> 0 then [Max_Calls_Not_Positive] else [])
     @ (if tc_max_per_provider c < 0 then [Max_Per_Provider_Negative] else [])
     @ (if tc_max_per_provider c > tc_max_calls c \<and> tc_max_calls c > 0 then [Max_Per_Provider_Never_Binds] else [])
     @ (if tc_high_water c \<le> 0 \<or> tc_high_water c > 1 then [High_Water_Range] else [])
     @ map (\<lambda>(n, d). Duration_Not_Positive n) (filter (\<lambda>(n, d). d \<le> 0) (tel_durations c))
     @ (if tc_snapshot c < 0 then [Snapshot_Negative] else [])
     @ (if tc_sweep c > 0 \<and> snd (shortest_deadline c) > 0 \<and> tc_sweep c > snd (shortest_deadline c)
        then [Sweep_Too_Slow (fst (shortest_deadline c))] else [])"

definition tel_capacity :: "tel_config \<Rightarrow> int" where
  "tel_capacity c = (let n = \<lfloor>of_int (tc_max_calls c) * tc_high_water c\<rfloor> in if n < 1 then 1 else n)"

section \<open>State\<close>

datatype tel_event_type = Ev_Created | Ev_Ringing | Ev_Screening | Ev_Answered | Ev_Rejected | Ev_Connected
  | Ev_Transferred | Ev_Escalated | Ev_Timeout | Ev_Ended | Ev_Failed | Ev_Recovery_Started | Ev_Recovery_Resumed
  | Ev_Recovery_Abandoned

fun state_event :: "call_state \<Rightarrow> tel_event_type option" where
  "state_event Call_Incoming = Some Ev_Created"
| "state_event Call_Ringing = Some Ev_Ringing"
| "state_event Call_Screening = Some Ev_Screening"
| "state_event Call_Accepted = Some Ev_Answered"
| "state_event Call_Rejected = Some Ev_Rejected"
| "state_event Call_Connected = Some Ev_Connected"
| "state_event Call_Transferred = Some Ev_Transferred"
| "state_event Call_Escalated = Some Ev_Escalated"
| "state_event Call_Timeout = Some Ev_Timeout"
| "state_event Call_Ended = Some Ev_Ended"
| "state_event Call_Failed = Some Ev_Failed"
| "state_event Call_Idle = None"
| "state_event Call_Muted = None"
| "state_event Call_Hold = None"
| "state_event Call_Recovery = None"

record tel_event =
  ev_type :: tel_event_type
  ev_call :: string
  ev_session :: string
  ev_correlation :: string
  ev_from :: "call_state option"
  ev_to :: call_state
  ev_reason :: string
  ev_ctx :: call_context
  ev_duration_ms :: int
  ev_talk_ms :: int
  ev_sequence :: nat
  ev_at :: instant

datatype tel_phase = Tel_New | Tel_Running | Tel_Draining | Tel_Stopped

record tel_runtime =
  te_cfg :: tel_config
  te_providers :: "string list"
  te_sessions :: "(string \<times> call_session) list"
  te_live :: int
  te_total :: nat
  te_per_provider :: "string \<Rightarrow> nat"
  te_store :: "(string \<times> call_snapshot) list option"
  te_events :: "tel_event list"
  te_phase :: tel_phase
  te_admitted :: nat
  te_shed :: nat
  te_recovered :: nat

datatype tel_error = Call_Not_Found | Call_Exists | Call_Id_Malformed | Session_Fault session_fault
  | Wrong_Direction | Capability_Unsupported | Provider_Not_Registered | Provider_Answer_Failed
  | Capacity_Exceeded string | Runtime_Not_Running tel_phase | Context_Invalid "context_problem list"
  | Provider_Known | Provider_Id_Invalid | Already_Started tel_phase | No_Provider_Registered

definition new_tel_runtime :: "tel_config \<Rightarrow> (string \<times> call_snapshot) list option \<Rightarrow> tel_config_problem list + tel_runtime" where
  "new_tel_runtime c store =
     (if tel_config_problems c \<noteq> [] then Inl (tel_config_problems c)
      else Inr \<lparr>te_cfg = c, te_providers = [], te_sessions = [], te_live = 0, te_total = 0, te_per_provider = (\<lambda>_. 0),
                te_store = store, te_events = [], te_phase = Tel_New, te_admitted = 0, te_shed = 0, te_recovered = 0\<rparr>)"

definition register_provider :: "string \<Rightarrow> tel_runtime \<Rightarrow> tel_runtime \<times> tel_error option" where
  "register_provider p t =
     (if te_phase t \<noteq> Tel_New then (t, Some (Already_Started (te_phase t)))
      else if \<not> provider_valid p then (t, Some Provider_Id_Invalid)
      else if p \<in> set (te_providers t) then (t, Some Provider_Known)
      else (t\<lparr>te_providers := te_providers t @ [p]\<rparr>, None))"

section \<open>The registry\<close>

definition register_call :: "call_session \<Rightarrow> tel_runtime \<Rightarrow> tel_runtime \<times> tel_error option" where
  "register_call s t =
     (if map_of (te_sessions t) (cs_id s) \<noteq> None then (t, Some Call_Exists)
      else (t\<lparr>te_sessions := te_sessions t @ [(cs_id s, s)], te_live := te_live t + 1, te_total := te_total t + 1\<rparr>, None))"

definition remove_call :: "string \<Rightarrow> tel_runtime \<Rightarrow> tel_runtime" where
  "remove_call i t =
     (if map_of (te_sessions t) i = None then t
      else t\<lparr>te_sessions := AList.delete i (te_sessions t), te_live := te_live t - 1\<rparr>)"

text \<open>The identifiers minted for a new call: the call's, the session's, the correlation.\<close>

type_synonym minted = "string \<times> string \<times> string"

definition create_call :: "minted \<Rightarrow> instant \<Rightarrow> call_context \<Rightarrow> tel_runtime \<Rightarrow> tel_runtime \<times> tel_error option" where
  "create_call m now cc t =
     (case m of (i, sess, corr) \<Rightarrow>
        if \<not> call_id_valid i then (t, Some Call_Id_Malformed)
        else case new_call_session i sess corr cc Call_Idle now of
          Inl e \<Rightarrow> (t, Some (Session_Fault e))
        | Inr s \<Rightarrow> register_call s t)"

definition calls_by_state :: "tel_runtime \<Rightarrow> call_state \<Rightarrow> nat" where
  "calls_by_state t st = length (filter (\<lambda>(i, s). cs_state s = st) (te_sessions t))"

section \<open>The one transition path\<close>

definition emit_event :: "instant \<Rightarrow> call_session \<Rightarrow> call_state \<Rightarrow> call_state \<Rightarrow> string \<Rightarrow> tel_runtime \<Rightarrow> tel_runtime" where
  "emit_event now s from to reason t =
     (case state_event to of
        None \<Rightarrow> t
      | Some ty \<Rightarrow> t\<lparr>te_events := te_events t @
          [\<lparr>ev_type = ty, ev_call = cs_id s, ev_session = cs_session s, ev_correlation = cs_correlation s,
            ev_from = Some from, ev_to = to, ev_reason = reason, ev_ctx = cs_ctx s,
            ev_duration_ms = go_div (call_duration now s) 1000000, ev_talk_ms = go_div (talk_duration now s) 1000000,
            ev_sequence = length (cs_history s), ev_at = now\<rparr>]\<rparr>)"

definition tel_transition :: "instant \<Rightarrow> string \<Rightarrow> call_state \<Rightarrow> string \<Rightarrow> tel_runtime \<Rightarrow> tel_runtime \<times> tel_error option" where
  "tel_transition now i to reason t =
     (case map_of (te_sessions t) i of
        None \<Rightarrow> (t, Some Call_Not_Found)
      | Some s \<Rightarrow>
          (case session_transition now to reason s of
             (s', Some e) \<Rightarrow> (t, Some (Session_Fault e))
           | (s', None) \<Rightarrow>
               (emit_event now s' (cs_state s) to reason (t\<lparr>te_sessions := AList.update i s' (te_sessions t)\<rparr>), None)))"

definition tel_end :: "instant \<Rightarrow> string \<Rightarrow> call_state \<Rightarrow> string \<Rightarrow> tel_runtime \<Rightarrow> tel_runtime \<times> tel_error option" where
  "tel_end now i to reason t =
     (case tel_transition now i to reason t of
        (t', Some e) \<Rightarrow> (t', Some e)
      | (t', None) \<Rightarrow> (remove_call i t', None))"

section \<open>The lifecycle\<close>

definition tel_begin :: "minted \<Rightarrow> instant \<Rightarrow> call_context \<Rightarrow> call_state \<Rightarrow> string \<Rightarrow> tel_runtime \<Rightarrow> tel_runtime \<times> tel_error option" where
  "tel_begin m now cc to reason t =
     (if cc_provider cc \<notin> set (te_providers t) then (t, Some Provider_Not_Registered)
      else case create_call m now cc t of
        (t1, Some e) \<Rightarrow> (t1, Some e)
      | (t1, None) \<Rightarrow>
          (case tel_transition now (fst m) to reason t1 of
             (t2, Some e) \<Rightarrow> (remove_call (fst m) t2, Some e)
           | (t2, None) \<Rightarrow> (t2, None)))"

definition tel_incoming :: "minted \<Rightarrow> instant \<Rightarrow> call_context \<Rightarrow> tel_runtime \<Rightarrow> tel_runtime \<times> tel_error option" where
  "tel_incoming m now cc t =
     (if cc_direction cc \<noteq> Some Inbound then (t, Some Wrong_Direction)
      else tel_begin m now cc Call_Incoming ''carrier_offered'' t)"

definition tel_outgoing :: "minted \<Rightarrow> instant \<Rightarrow> call_context \<Rightarrow> tel_runtime \<Rightarrow> tel_runtime \<times> tel_error option" where
  "tel_outgoing m now cc t =
     (if cc_direction cc \<noteq> Some Outbound then (t, Some Wrong_Direction)
      else if \<not> has_capability Cap_Dial cc then (t, Some Capability_Unsupported)
      else tel_begin m now cc Call_Ringing ''dialed'' t)"

definition tel_accept :: "instant \<Rightarrow> string \<Rightarrow> string \<Rightarrow> bool \<Rightarrow> tel_runtime \<Rightarrow> tel_runtime \<times> tel_error option" where
  "tel_accept now i reason answers t =
     (case map_of (te_sessions t) i of
        None \<Rightarrow> (t, Some Call_Not_Found)
      | Some s \<Rightarrow>
          (if \<not> has_capability Cap_Answer (cs_ctx s) then (t, Some Capability_Unsupported)
           else if cc_provider (cs_ctx s) \<notin> set (te_providers t) then (t, Some Provider_Not_Registered)
           else if \<not> answers then (fst (tel_transition now i Call_Failed ''provider_answer_failed'' t), Some Provider_Answer_Failed)
           else tel_transition now i Call_Accepted reason t))"

definition tel_reject :: "instant \<Rightarrow> string \<Rightarrow> string \<Rightarrow> tel_runtime \<Rightarrow> tel_runtime \<times> tel_error option" where
  "tel_reject now i reason t =
     (case map_of (te_sessions t) i of
        None \<Rightarrow> (t, Some Call_Not_Found)
      | Some s \<Rightarrow>
          (case reason_fault_of reason of
             Some e \<Rightarrow> (t, Some (Session_Fault (Session_Reason e)))
           | None \<Rightarrow>
               (if cc_provider (cs_ctx s) \<notin> set (te_providers t) then (t, Some Provider_Not_Registered)
                else tel_transition now i Call_Rejected reason t)))"

definition tel_controlled :: "instant \<Rightarrow> string \<Rightarrow> call_state \<Rightarrow> capability \<Rightarrow> string \<Rightarrow> tel_runtime \<Rightarrow> tel_runtime \<times> tel_error option" where
  "tel_controlled now i to need reason t =
     (case map_of (te_sessions t) i of
        None \<Rightarrow> (t, Some Call_Not_Found)
      | Some s \<Rightarrow>
          (if \<not> has_capability need (cs_ctx s) then (t, Some Capability_Unsupported)
           else tel_transition now i to reason t))"

definition tel_transfer :: "instant \<Rightarrow> string \<Rightarrow> string \<Rightarrow> string \<Rightarrow> tel_runtime \<Rightarrow> tel_runtime \<times> tel_error option" where
  "tel_transfer now i reason leg t =
     (case tel_controlled now i Call_Transferred Cap_Transfer reason t of
        (t1, Some e) \<Rightarrow> (t1, Some e)
      | (t1, None) \<Rightarrow> (t1\<lparr>te_sessions := AList.map_entry i (add_leg now leg) (te_sessions t1)\<rparr>, None))"

datatype tel_control = Ctl_Ring | Ctl_Screen | Ctl_Connect | Ctl_Mute | Ctl_Unmute | Ctl_Hold | Ctl_Unhold
  | Ctl_Escalate string | Ctl_Deescalate | Ctl_Timeout string

fun tel_move :: "instant \<Rightarrow> string \<Rightarrow> tel_control \<Rightarrow> tel_runtime \<Rightarrow> tel_runtime \<times> tel_error option" where
  "tel_move now i Ctl_Ring t = tel_transition now i Call_Ringing ''alerting'' t"
| "tel_move now i Ctl_Screen t = tel_transition now i Call_Screening ''screening_started'' t"
| "tel_move now i Ctl_Connect t = tel_transition now i Call_Connected ''media_established'' t"
| "tel_move now i Ctl_Mute t = tel_controlled now i Call_Muted Cap_Mute ''muted'' t"
| "tel_move now i Ctl_Unmute t = tel_transition now i Call_Connected ''unmuted'' t"
| "tel_move now i Ctl_Hold t = tel_controlled now i Call_Hold Cap_Hold ''held'' t"
| "tel_move now i Ctl_Unhold t = tel_transition now i Call_Connected ''unheld'' t"
| "tel_move now i (Ctl_Escalate w) t = tel_transition now i Call_Escalated w t"
| "tel_move now i Ctl_Deescalate t = tel_transition now i Call_Connected ''escalation_resolved'' t"
| "tel_move now i (Ctl_Timeout w) t = tel_transition now i Call_Timeout w t"

definition tel_disconnect :: "instant \<Rightarrow> string \<Rightarrow> string \<Rightarrow> tel_runtime \<Rightarrow> tel_runtime \<times> tel_error option" where
  "tel_disconnect now i reason t =
     (case map_of (te_sessions t) i of
        None \<Rightarrow> (t, Some Call_Not_Found)
      | Some s \<Rightarrow>
          (case reason_fault_of reason of
             Some e \<Rightarrow> (t, Some (Session_Fault (Session_Reason e)))
           | None \<Rightarrow> tel_end now i Call_Ended reason t))"

definition tel_fail :: "instant \<Rightarrow> string \<Rightarrow> string \<Rightarrow> tel_runtime \<Rightarrow> tel_runtime \<times> tel_error option" where
  "tel_fail now i reason t = tel_end now i Call_Failed reason t"

section \<open>Deadlines\<close>

definition deadline_for :: "tel_config \<Rightarrow> call_state \<Rightarrow> duration" where
  "deadline_for c s =
     (case s of
        Call_Idle \<Rightarrow> tc_setup c
      | Call_Incoming \<Rightarrow> tc_setup c
      | Call_Ringing \<Rightarrow> tc_ring c
      | Call_Screening \<Rightarrow> tc_screen c
      | Call_Accepted \<Rightarrow> tc_connect c
      | Call_Rejected \<Rightarrow> tc_teardown c
      | Call_Timeout \<Rightarrow> tc_teardown c
      | Call_Transferred \<Rightarrow> tc_teardown c
      | Call_Escalated \<Rightarrow> tc_escalation c
      | Call_Recovery \<Rightarrow> tc_recovery c
      | _ \<Rightarrow> 0)"

definition sweep_one :: "instant \<Rightarrow> string \<Rightarrow> tel_runtime \<Rightarrow> tel_runtime" where
  "sweep_one now i t =
     (case map_of (te_sessions t) i of
        None \<Rightarrow> t
      | Some s \<Rightarrow>
          (let d = deadline_for (te_cfg t) (cs_state s) in
           if d \<le> 0 \<or> now - cs_updated s < d then t
           else fst (tel_transition now i Call_Timeout ''lifecycle_deadline'' t)))"

definition reap_one :: "instant \<Rightarrow> string \<Rightarrow> tel_runtime \<Rightarrow> tel_runtime" where
  "reap_one now i t =
     (case map_of (te_sessions t) i of
        None \<Rightarrow> t
      | Some s \<Rightarrow>
          (if cs_state s \<noteq> Call_Timeout \<or> now - cs_updated s < tc_teardown (te_cfg t) then t
           else fst (tel_end now i Call_Ended ''reaped_after_timeout'' t)))"

definition sweep_timeouts :: "(string list \<Rightarrow> string list) \<Rightarrow> instant \<Rightarrow> tel_runtime \<Rightarrow> tel_runtime" where
  "sweep_timeouts walk now t = fold (sweep_one now) (walk (map fst (te_sessions t))) t"

definition reap_terminal :: "(string list \<Rightarrow> string list) \<Rightarrow> instant \<Rightarrow> tel_runtime \<Rightarrow> tel_runtime" where
  "reap_terminal walk now t = fold (reap_one now) (walk (map fst (te_sessions t))) t"

definition tel_sweep :: "(string list \<Rightarrow> string list) \<Rightarrow> instant \<Rightarrow> tel_runtime \<Rightarrow> tel_runtime" where
  "tel_sweep walk now t = reap_terminal walk now (sweep_timeouts walk now t)"

section \<open>Admission\<close>

definition admit_call :: "string \<Rightarrow> tel_runtime \<Rightarrow> tel_runtime \<times> string option" where
  "admit_call p t =
     (if te_live t \<ge> tel_capacity (te_cfg t) then (t, Some ''capacity_exceeded'')
      else if tc_max_per_provider (te_cfg t) > 0 \<and> int (te_per_provider t p) \<ge> tc_max_per_provider (te_cfg t)
      then (t, Some ''provider_capacity_exceeded'')
      else (t\<lparr>te_per_provider := (te_per_provider t)(p := te_per_provider t p + 1)\<rparr>, None))"

definition release_call :: "string \<Rightarrow> tel_runtime \<Rightarrow> tel_runtime" where
  "release_call p t = t\<lparr>te_per_provider := (te_per_provider t)(p := te_per_provider t p - 1)\<rparr>"

text \<open>The two halves of a begin: other calls go on between them.\<close>

definition coordinator_admit :: "call_context \<Rightarrow> tel_runtime \<Rightarrow> tel_runtime \<times> tel_error option" where
  "coordinator_admit cc t =
     (if te_phase t \<noteq> Tel_Running then (t, Some (Runtime_Not_Running (te_phase t)))
      else if context_problems cc \<noteq> [] then (t, Some (Context_Invalid (context_problems cc)))
      else case admit_call (cc_provider cc) t of
        (t', Some why) \<Rightarrow> (t'\<lparr>te_shed := te_shed t' + 1\<rparr>, Some (Capacity_Exceeded why))
      | (t', None) \<Rightarrow> (t', None))"

definition coordinator_start :: "minted \<Rightarrow> instant \<Rightarrow> call_context \<Rightarrow> tel_runtime \<Rightarrow> tel_runtime \<times> tel_error option" where
  "coordinator_start m now cc t =
     (case (if cc_direction cc = Some Inbound then tel_incoming m now cc t else tel_outgoing m now cc t) of
        (t', Some e) \<Rightarrow> (release_call (cc_provider cc) t', Some e)
      | (t', None) \<Rightarrow> (t'\<lparr>te_admitted := te_admitted t' + 1\<rparr>, None))"

definition coordinator_begin :: "minted \<Rightarrow> instant \<Rightarrow> call_context \<Rightarrow> tel_runtime \<Rightarrow> tel_runtime \<times> tel_error option" where
  "coordinator_begin m now cc t =
     (case coordinator_admit cc t of
        (t', Some e) \<Rightarrow> (t', Some e)
      | (t', None) \<Rightarrow> coordinator_start m now cc t')"

definition store_delete :: "string \<Rightarrow> tel_runtime \<Rightarrow> tel_runtime" where
  "store_delete i t = t\<lparr>te_store := map_option (AList.delete i) (te_store t)\<rparr>"

definition coordinator_finish :: "(tel_runtime \<Rightarrow> tel_runtime \<times> tel_error option) \<Rightarrow> string \<Rightarrow> tel_runtime \<Rightarrow> tel_runtime \<times> tel_error option" where
  "coordinator_finish how i t =
     (case map_of (te_sessions t) i of
        None \<Rightarrow> (t, Some Call_Not_Found)
      | Some s \<Rightarrow>
          (case how t of
             (t', Some e) \<Rightarrow> (t', Some e)
           | (t', None) \<Rightarrow> (store_delete i (release_call (cc_provider (cs_ctx s)) t'), None)))"

definition coordinator_end :: "instant \<Rightarrow> string \<Rightarrow> string \<Rightarrow> tel_runtime \<Rightarrow> tel_runtime \<times> tel_error option" where
  "coordinator_end now i reason = coordinator_finish (tel_disconnect now i reason) i"

definition coordinator_fail :: "instant \<Rightarrow> string \<Rightarrow> string \<Rightarrow> tel_runtime \<Rightarrow> tel_runtime \<times> tel_error option" where
  "coordinator_fail now i reason = coordinator_finish (tel_fail now i reason) i"

datatype signal_outcome = Signal_Applied | Signal_Unknown_Call | Signal_Not_Applicable | Signal_Rejected

definition dispatch_signal :: "instant \<Rightarrow> string \<Rightarrow> call_state \<Rightarrow> string \<Rightarrow> tel_runtime \<Rightarrow> tel_runtime \<times> signal_outcome" where
  "dispatch_signal now i to reason t =
     (case map_of (te_sessions t) i of
        None \<Rightarrow> (t, Signal_Unknown_Call)
      | Some s \<Rightarrow>
          (if \<not> can_move (cs_state s) to then (t, Signal_Not_Applicable)
           else case tel_transition now i to reason t of
             (t', Some e) \<Rightarrow> (t', Signal_Rejected)
           | (t', None) \<Rightarrow> (t', Signal_Applied)))"

section \<open>Snapshots and recovery\<close>

definition snapshot_all :: "(string list \<Rightarrow> string list) \<Rightarrow> bool \<Rightarrow> tel_runtime \<Rightarrow> tel_runtime \<times> nat option" where
  "snapshot_all walk saved t =
     (case te_store t of
        None \<Rightarrow> (t, Some 0)
      | Some store \<Rightarrow>
          (let live = filter (\<lambda>s. \<not> is_terminal (cs_fsm s)) (List.map_filter (map_of (te_sessions t)) (walk (map fst (te_sessions t))));
               snaps = stable_sort snapshot_before (map call_snapshot_of live)
           in if snaps = [] then (t, Some 0)
              else if \<not> saved then (t, None)
              else (t\<lparr>te_store := Some (fold (\<lambda>p st. AList.update (ss_call p) p st) snaps store)\<rparr>, Some (length snaps))))"

datatype recovery_outcome = Rec_Resumed | Rec_Concluded | Rec_Abandoned

definition recovery_event :: "tel_event_type \<Rightarrow> call_session \<Rightarrow> call_state option \<Rightarrow> call_state \<Rightarrow> string \<Rightarrow> instant \<Rightarrow> tel_runtime \<Rightarrow> tel_runtime" where
  "recovery_event ty s from to reason now t =
     t\<lparr>te_events := te_events t @
       [\<lparr>ev_type = ty, ev_call = cs_id s, ev_session = cs_session s, ev_correlation = cs_correlation s, ev_from = from,
         ev_to = to, ev_reason = reason, ev_ctx = cs_ctx s, ev_duration_ms = 0, ev_talk_ms = 0, ev_sequence = 0, ev_at = now\<rparr>]\<rparr>"

definition recover_one :: "(call_snapshot \<Rightarrow> bool) \<Rightarrow> (string \<Rightarrow> string) \<Rightarrow> instant \<Rightarrow> call_snapshot \<Rightarrow> tel_runtime
    \<Rightarrow> tel_runtime \<times> recovery_outcome" where
  "recover_one alive mint now p t =
     (case restore_session (mint (ss_call p)) now p of
        Inl e \<Rightarrow> (store_delete (ss_call p) t, Rec_Abandoned)
      | Inr s \<Rightarrow>
          (case register_call s t of
             (t1, Some e) \<Rightarrow> (t1, Rec_Abandoned)
           | (t1, None) \<Rightarrow>
               (let t2 = recovery_event Ev_Recovery_Started s None Call_Recovery ''process_restart'' now t1;
                    t3 = fst (admit_call (cc_provider (ss_context p)) t2)
                in if alive p then
                     (case tel_transition now (cs_id s) Call_Connected ''resumed_after_restart'' t3 of
                        (t4, Some e) \<Rightarrow> (fst (tel_end now (cs_id s) Call_Failed ''resume_failed'' t4), Rec_Abandoned)
                      | (t4, None) \<Rightarrow>
                          (recovery_event Ev_Recovery_Resumed s (Some Call_Recovery) Call_Connected ''resumed_after_restart'' now
                             (store_delete (ss_call p) t4), Rec_Resumed))
                   else
                     (recovery_event Ev_Recovery_Abandoned s (Some Call_Recovery) Call_Ended ''not_live_after_restart'' now
                        (store_delete (ss_call p) (fst (tel_end now (cs_id s) Call_Ended ''concluded_after_restart'' t3))),
                      Rec_Concluded))))"

fun recover_each :: "(call_snapshot \<Rightarrow> bool) \<Rightarrow> (string \<Rightarrow> string) \<Rightarrow> instant \<Rightarrow> call_snapshot list \<Rightarrow> tel_runtime
    \<Rightarrow> tel_runtime \<times> (string \<times> recovery_outcome) list" where
  "recover_each alive mint now [] t = (t, [])"
| "recover_each alive mint now (p # ps) t =
     (let (t1, out) = recover_one alive mint now p t;
          (t2, outs) = recover_each alive mint now ps t1
      in (t2, (ss_call p, out) # outs))"

definition recover_sessions :: "(call_snapshot \<Rightarrow> bool) \<Rightarrow> (string \<Rightarrow> string) \<Rightarrow> instant \<Rightarrow> tel_runtime
    \<Rightarrow> tel_runtime \<times> (string \<times> recovery_outcome) list" where
  "recover_sessions alive mint now t =
     (case te_store t of
        None \<Rightarrow> (t, [])
      | Some store \<Rightarrow> recover_each alive mint now (stable_sort snapshot_before (map snd store)) t)"

definition tel_start :: "(call_snapshot \<Rightarrow> bool) \<Rightarrow> (string \<Rightarrow> string) \<Rightarrow> instant \<Rightarrow> tel_runtime \<Rightarrow> tel_runtime \<times> tel_error option" where
  "tel_start alive mint now t =
     (if te_phase t \<noteq> Tel_New then (t, Some (Already_Started (te_phase t)))
      else if te_providers t = [] then (t, Some No_Provider_Registered)
      else
        (let (t', outs) = recover_sessions alive mint now t
         in (t'\<lparr>te_phase := Tel_Running,
               te_recovered := te_recovered t' + length (filter (\<lambda>(i, out). out = Rec_Resumed) outs)\<rparr>, None)))"

end
