(* ===== verification/TelInv.thy ===== *)
theory TelInv
  imports TelRuntime
begin

text \<open>
  Runs of the telephony runtime.  The operations of \<^verbatim>\<open>TelRuntime\<close> are the steps of one system (a begin is
  two steps, its admission and its start, so that other calls go on in between); each is shown to be a sequence of
  six atomic effects on the registry and the slots, and what holds of every run is proved over the effects.
\<close>

section \<open>Operations in any order\<close>

datatype tel_op =
    Op_Register string
  | Op_Boot "call_snapshot \<Rightarrow> bool" "string \<Rightarrow> string" instant
  | Op_Admit call_context
  | Op_Start nat minted instant
  | Op_Move instant string tel_control
  | Op_Accept instant string string bool
  | Op_Reject instant string string
  | Op_Transfer instant string string string
  | Op_Disconnect instant string string
  | Op_End instant string string
  | Op_Fail instant string string
  | Op_Signal instant string call_state string
  | Op_Sweep_One instant string
  | Op_Reap_One instant string
  | Op_Snapshot "string list \<Rightarrow> string list" bool

text \<open>A system is the runtime and the contexts that have been admitted and not yet started.\<close>

type_synonym tel_system = "tel_runtime \<times> call_context list"

fun tel_apply :: "tel_op \<Rightarrow> tel_system \<Rightarrow> tel_system" where
  "tel_apply (Op_Register p) (t, pend) = (fst (register_provider p t), pend)"
| "tel_apply (Op_Boot alive mint now) (t, pend) = (fst (tel_start alive mint now t), pend)"
| "tel_apply (Op_Admit cc) (t, pend) =
     (case coordinator_admit cc t of (t', None) \<Rightarrow> (t', pend @ [cc]) | (t', Some e) \<Rightarrow> (t', pend))"
| "tel_apply (Op_Start k m now) (t, pend) =
     (if k < length pend then (fst (coordinator_start m now (pend ! k) t), take k pend @ drop (Suc k) pend) else (t, pend))"
| "tel_apply (Op_Move now i c) (t, pend) = (fst (tel_move now i c t), pend)"
| "tel_apply (Op_Accept now i r ans) (t, pend) = (fst (tel_accept now i r ans t), pend)"
| "tel_apply (Op_Reject now i r) (t, pend) = (fst (tel_reject now i r t), pend)"
| "tel_apply (Op_Transfer now i r leg) (t, pend) = (fst (tel_transfer now i r leg t), pend)"
| "tel_apply (Op_Disconnect now i r) (t, pend) = (fst (tel_disconnect now i r t), pend)"
| "tel_apply (Op_End now i r) (t, pend) = (fst (coordinator_end now i r t), pend)"
| "tel_apply (Op_Fail now i r) (t, pend) = (fst (coordinator_fail now i r t), pend)"
| "tel_apply (Op_Signal now i to r) (t, pend) = (fst (dispatch_signal now i to r t), pend)"
| "tel_apply (Op_Sweep_One now i) (t, pend) = (sweep_one now i t, pend)"
| "tel_apply (Op_Reap_One now i) (t, pend) = (reap_one now i t, pend)"
| "tel_apply (Op_Snapshot walk saved) (t, pend) = (fst (snapshot_all walk saved t), pend)"

definition tel_run :: "tel_op list \<Rightarrow> tel_system \<Rightarrow> tel_system" where
  "tel_run ops x = run_ops (\<lambda>y op. tel_apply op y) x ops"

section \<open>The invariant\<close>

definition snapshot_ok :: "call_snapshot \<Rightarrow> bool" where
  "snapshot_ok p \<longleftrightarrow> list_all record_ok (ss_history p) \<and> sorted_wrt (\<lambda>a b. tr_seq a < tr_seq b) (ss_history p)
     \<and> length (ss_history p) \<le> 128"

definition stored_ok :: "(string \<times> call_snapshot) list \<Rightarrow> bool" where
  "stored_ok st \<longleftrightarrow> distinct (map fst st) \<and> list_all (\<lambda>(i, p). ss_call p = i \<and> snapshot_ok p) st"

definition tel_ok :: "tel_runtime \<Rightarrow> bool" where
  "tel_ok t \<longleftrightarrow> distinct (map fst (te_sessions t)) \<and> te_live t = int (length (te_sessions t))
     \<and> list_all (\<lambda>(i, s). cs_id s = i \<and> call_id_valid i \<and> session_ok s) (te_sessions t)
     \<and> (case te_store t of None \<Rightarrow> True | Some st \<Rightarrow> stored_ok st)"

lemma tel_ok_distinct: "tel_ok t \<Longrightarrow> distinct (map fst (te_sessions t))"
  and tel_ok_live: "tel_ok t \<Longrightarrow> te_live t = int (length (te_sessions t))"
  and tel_ok_store: "tel_ok t \<Longrightarrow> te_store t = Some st \<Longrightarrow> stored_ok st"
  by (simp_all add: tel_ok_def)

lemma tel_ok_session:
  assumes "tel_ok t" "map_of (te_sessions t) i = Some s"
  shows "session_ok s" "cs_id s = i" "call_id_valid i" "call_fsm_ok (cs_fsm s)"
proof -
  have "list_all (\<lambda>(i, s). cs_id s = i \<and> call_id_valid i \<and> session_ok s) (te_sessions t)" using assms(1) by (simp add: tel_ok_def)
  from this map_of_Some_mem [OF assms(2)] have "cs_id s = i \<and> call_id_valid i \<and> session_ok s" by (fastforce simp: list_all_iff)
  then show "session_ok s" "cs_id s = i" "call_id_valid i" "call_fsm_ok (cs_fsm s)" by (simp_all add: session_ok_def)
qed

lemma live_session_counts:
  assumes "tel_ok t" "map_of (te_sessions t) i = Some s"
  shows "te_live t \<ge> 1"
  using assms map_of_Some_mem [OF assms(2)] tel_ok_live [OF assms(1)] by (cases "te_sessions t") auto

lemma list_all_update: "list_all P xs \<Longrightarrow> P (k, v) \<Longrightarrow> list_all P (AList.update k v xs)"
  by (induction xs) auto

lemma list_all_delete: "list_all P xs \<Longrightarrow> list_all P (AList.delete k xs)"
  by (auto simp: list_all_iff AList.delete_eq)

lemma length_update_present: "map_of xs k \<noteq> None \<Longrightarrow> length (AList.update k v xs) = length xs"
  by (induction xs) auto

lemma delete_absent: "k \<notin> fst ` set xs \<Longrightarrow> AList.delete k xs = xs"
  by (induction xs) auto

lemma length_delete_present:
  "distinct (map fst xs) \<Longrightarrow> map_of xs k \<noteq> None \<Longrightarrow> length xs = Suc (length (AList.delete k xs))"
proof (induction xs)
  case (Cons a xs)
  show ?case
  proof (cases "fst a = k")
    case True
    then have "AList.delete k xs = xs" using Cons.prems(1) by (intro delete_absent) auto
    then show ?thesis using True by (cases a) simp
  next
    case False
    then show ?thesis using Cons by (cases a) auto
  qed
qed simp

lemma stored_ok_delete: "stored_ok st \<Longrightarrow> stored_ok (AList.delete i st)"
  by (simp add: stored_ok_def list_all_delete AList.distinct_delete)

section \<open>What the primitives do to the registry and the slots\<close>

lemma emit_event_sel [simp]:
  "te_sessions (emit_event now s from to r t) = te_sessions t" "te_live (emit_event now s from to r t) = te_live t"
  "te_per_provider (emit_event now s from to r t) = te_per_provider t" "te_cfg (emit_event now s from to r t) = te_cfg t"
  "te_providers (emit_event now s from to r t) = te_providers t" "te_phase (emit_event now s from to r t) = te_phase t"
  "te_store (emit_event now s from to r t) = te_store t"
  by (simp_all add: emit_event_def split: option.split)

text \<open>A move: refused, or one session replaced by the moved one.\<close>

lemma tel_transition_cases:
  assumes "tel_ok t"
  obtains (refused) "fst (tel_transition now i to reason t) = t" "snd (tel_transition now i to reason t) \<noteq> None"
    | (taken) s where "map_of (te_sessions t) i = Some s" "can_move (cs_state s) to" "reason_fault_of reason = None"
        "tel_transition now i to reason t =
           (emit_event now (moved_session now to reason s) (cs_state s) to reason
             (t\<lparr>te_sessions := AList.update i (moved_session now to reason s) (te_sessions t)\<rparr>), None)"
proof (cases "map_of (te_sessions t) i")
  case None
  then show ?thesis using refused by (simp add: tel_transition_def)
next
  case (Some s)
  have f: "call_fsm_ok (cs_fsm s)" by (rule tel_ok_session [OF assms Some])
  show ?thesis
  proof (cases "reason_fault_of reason = None \<and> can_move (cs_state s) to")
    case True
    then show ?thesis using taken [OF Some] session_transition_taken [OF f] Some by (simp add: tel_transition_def)
  next
    case False
    obtain s' e where "session_transition now to reason s = (s', Some e)"
      using session_transition_refused [OF f False, of now] by (cases "session_transition now to reason s") auto
    then show ?thesis using refused Some by (simp add: tel_transition_def)
  qed
qed

lemma tel_transition_taken:
  assumes "tel_ok t" "map_of (te_sessions t) i = Some s" "can_move (cs_state s) to" "reason_fault_of reason = None"
  shows "tel_transition now i to reason t =
    (emit_event now (moved_session now to reason s) (cs_state s) to reason
      (t\<lparr>te_sessions := AList.update i (moved_session now to reason s) (te_sessions t)\<rparr>), None)"
  using session_transition_taken [OF tel_ok_session(4) [OF assms(1,2)] assms(4,3)] assms(2)
  by (simp add: tel_transition_def)

lemma tel_transition_refused:
  assumes "tel_ok t" "map_of (te_sessions t) i = Some s" "\<not> can_move (cs_state s) to"
  shows "fst (tel_transition now i to reason t) = t" "snd (tel_transition now i to reason t) \<noteq> None"
  using session_transition_refused [OF tel_ok_session(4) [OF assms(1,2)], of reason to now] assms(2,3)
  by (auto simp: tel_transition_def split: prod.split option.split)

section \<open>Effects\<close>

definition same_frame :: "tel_runtime \<Rightarrow> tel_runtime \<Rightarrow> bool" where
  "same_frame t t' \<longleftrightarrow> te_cfg t' = te_cfg t \<and> te_providers t' = te_providers t \<and> te_phase t' = te_phase t"

abbreviation provider_of :: "call_session \<Rightarrow> string" where
  "provider_of s \<equiv> cc_provider (cs_ctx s)"

inductive tel_effect :: "tel_system \<Rightarrow> tel_system \<Rightarrow> bool" where
  Eff_Frame: "same_frame t t' \<Longrightarrow> te_sessions t' = te_sessions t \<Longrightarrow> te_live t' = te_live t
    \<Longrightarrow> te_per_provider t' = te_per_provider t \<Longrightarrow> (tel_ok t \<Longrightarrow> tel_ok t') \<Longrightarrow> tel_effect (t, pend) (t', pend)"
| Eff_Move: "same_frame t t' \<Longrightarrow> map_of (te_sessions t) i = Some s \<Longrightarrow> \<not> call_terminal (cs_state s) \<or> cs_fsm s' = cs_fsm s
    \<Longrightarrow> session_ok s' \<Longrightarrow> cs_id s' = cs_id s \<Longrightarrow> cs_ctx s' = cs_ctx s
    \<Longrightarrow> te_sessions t' = AList.update i s' (te_sessions t) \<Longrightarrow> te_live t' = te_live t
    \<Longrightarrow> te_per_provider t' = te_per_provider t \<Longrightarrow> te_store t' = te_store t \<Longrightarrow> tel_effect (t, pend) (t', pend)"
| Eff_Admit: "admit_call (cc_provider cc) t = (t', None) \<Longrightarrow> tel_effect (t, pend) (t', pend @ [cc])"
| Eff_Open: "same_frame t t' \<Longrightarrow> map_of (te_sessions t) i = None \<Longrightarrow> call_id_valid i \<Longrightarrow> session_ok s \<Longrightarrow> cs_id s = i
    \<Longrightarrow> provider_of s = cc_provider cc \<Longrightarrow> te_sessions t' = te_sessions t @ [(i, s)] \<Longrightarrow> te_live t' = te_live t + 1
    \<Longrightarrow> te_per_provider t' = te_per_provider t \<Longrightarrow> te_store t' = te_store t
    \<Longrightarrow> tel_effect (t, xs @ cc # ys) (t', xs @ ys)"
| Eff_Drop: "tel_effect (t, xs @ cc # ys) (release_call (cc_provider cc) t, xs @ ys)"
| Eff_Close: "same_frame t t' \<Longrightarrow> map_of (te_sessions t) i = Some s \<Longrightarrow> \<not> call_terminal (cs_state s)
    \<Longrightarrow> te_sessions t' = AList.delete i (te_sessions t) \<Longrightarrow> te_live t' = te_live t - 1 \<Longrightarrow> te_store t' = te_store t
    \<Longrightarrow> te_per_provider t' = te_per_provider t \<or> te_per_provider t' = te_per_provider (release_call (provider_of s) t)
    \<Longrightarrow> tel_effect (t, pend) (t', pend)"

inductive_cases tel_effect_elim: "tel_effect (t, pend) (t', pend')"

lemma same_frame_refl [simp]: "same_frame t t" by (simp add: same_frame_def)

lemma admit_call_sel:
  assumes "admit_call p t = (t', None)"
  shows "t' = t\<lparr>te_per_provider := (te_per_provider t)(p := te_per_provider t p + 1)\<rparr>"
    "te_live t < tel_capacity (te_cfg t)"
    "tc_max_per_provider (te_cfg t) > 0 \<Longrightarrow> int (te_per_provider t p) < tc_max_per_provider (te_cfg t)"
  using assms by (simp_all add: admit_call_def split: if_splits)

lemma admit_call_frame [simp]:
  "te_sessions (fst (admit_call p t)) = te_sessions t" "te_live (fst (admit_call p t)) = te_live t"
  "te_store (fst (admit_call p t)) = te_store t" "te_cfg (fst (admit_call p t)) = te_cfg t"
  "te_providers (fst (admit_call p t)) = te_providers t" "te_phase (fst (admit_call p t)) = te_phase t"
  by (simp_all add: admit_call_def)

lemma tel_ok_cong:
  "te_sessions t' = te_sessions t \<Longrightarrow> te_live t' = te_live t \<Longrightarrow> te_store t' = te_store t \<Longrightarrow> tel_ok t' = tel_ok t"
  by (simp add: tel_ok_def)

lemma eff_same: "same_frame t t' \<Longrightarrow> te_sessions t' = te_sessions t \<Longrightarrow> te_live t' = te_live t
    \<Longrightarrow> te_per_provider t' = te_per_provider t \<Longrightarrow> te_store t' = te_store t \<Longrightarrow> tel_effect (t, pend) (t', pend)"
  by (rule Eff_Frame) (simp_all add: tel_ok_def)

lemma tel_ok_update:
  assumes "tel_ok t" "map_of (te_sessions t) i = Some s" "session_ok s'" "cs_id s' = cs_id s"
    "te_sessions t' = AList.update i s' (te_sessions t)" "te_live t' = te_live t" "te_store t' = te_store t"
  shows "tel_ok t'"
  using assms tel_ok_session [OF assms(1,2)] length_update_present [of "te_sessions t" i s']
  by (simp add: tel_ok_def AList.distinct_update list_all_update)

lemma tel_ok_delete:
  assumes "tel_ok t" "map_of (te_sessions t) i = Some s"
    "te_sessions t' = AList.delete i (te_sessions t)" "te_live t' = te_live t - 1" "te_store t' = te_store t"
  shows "tel_ok t'"
  using assms length_delete_present [of "te_sessions t" i]
  by (simp add: tel_ok_def AList.distinct_delete list_all_delete)

lemma tel_ok_snoc:
  assumes "tel_ok t" "map_of (te_sessions t) i = None" "call_id_valid i" "session_ok s" "cs_id s = i"
    "te_sessions t' = te_sessions t @ [(i, s)]" "te_live t' = te_live t + 1" "te_store t' = te_store t"
  shows "tel_ok t'"
  using assms by (auto simp: tel_ok_def map_of_None_iff)

lemma release_call_sel [simp]:
  "te_sessions (release_call p t) = te_sessions t" "te_live (release_call p t) = te_live t"
  "te_store (release_call p t) = te_store t" "te_cfg (release_call p t) = te_cfg t"
  "te_providers (release_call p t) = te_providers t" "te_phase (release_call p t) = te_phase t"
  "te_per_provider (release_call p t) q = (if q = p then te_per_provider t p - 1 else te_per_provider t q)"
  by (simp_all add: release_call_def)

theorem tel_effect_ok: "tel_effect x y \<Longrightarrow> tel_ok (fst x) \<Longrightarrow> tel_ok (fst y)"
proof (induction rule: tel_effect.induct)
  case (Eff_Admit cc t t' pend)
  then show ?case using admit_call_sel(1) [OF Eff_Admit(1)] by (simp add: tel_ok_def)
next
  case (Eff_Drop t xs cc ys)
  then show ?case by (simp add: tel_ok_def)
qed (auto intro: tel_ok_update tel_ok_delete tel_ok_snoc)

lemma tel_effects_ok: "tel_effect\<^sup>*\<^sup>* x y \<Longrightarrow> tel_ok (fst x) \<Longrightarrow> tel_ok (fst y)"
  by (induction rule: rtranclp_induct) (auto intro: tel_effect_ok)

lemma tel_effect_frame: "tel_effect x y \<Longrightarrow> same_frame (fst x) (fst y)"
  by (induction rule: tel_effect.induct) (auto simp: same_frame_def dest: admit_call_sel(1))

lemma tel_effects_frame: "tel_effect\<^sup>*\<^sup>* x y \<Longrightarrow> same_frame (fst x) (fst y)"
  by (induction rule: rtranclp_induct) (auto dest!: tel_effect_frame simp: same_frame_def)

section \<open>Operations are effects\<close>

lemma moved_keeps_ok: "session_ok s \<Longrightarrow> can_move (cs_state s) to \<Longrightarrow> \<not> call_terminal (cs_state s)"
  using terminal_stuck by blast

lemma eff_transition:
  assumes "tel_ok t"
  shows "tel_effect (t, pend) (fst (tel_transition now i to r t), pend)"
proof (rule tel_transition_cases [OF assms, of now i to r])
  assume "fst (tel_transition now i to r t) = t"
  then show ?thesis by (simp add: eff_same)
next
  fix s
  assume s: "map_of (te_sessions t) i = Some s" "can_move (cs_state s) to"
    and eq: "tel_transition now i to r t =
       (emit_event now (moved_session now to r s) (cs_state s) to r
         (t\<lparr>te_sessions := AList.update i (moved_session now to r s) (te_sessions t)\<rparr>), None)"
  have ok: "session_ok s" by (rule tel_ok_session [OF assms s(1)])
  show ?thesis
    unfolding eq fst_conv
    by (rule Eff_Move [OF _ s(1), where s' = "moved_session now to r s"])
      (use ok s terminal_stuck in \<open>auto simp: same_frame_def moved_session_ok\<close>)
qed

lemma tel_end_taken:
  assumes "tel_ok t" "map_of (te_sessions t) i = Some s" "can_move (cs_state s) to" "reason_fault_of r = None"
  obtains t2 where "tel_end now i to r t = (t2, None)" "same_frame t t2"
    "te_sessions t2 = AList.delete i (te_sessions t)" "te_live t2 = te_live t - 1" "te_store t2 = te_store t"
    "te_per_provider t2 = te_per_provider t"
proof -
  let ?t1 = "emit_event now (moved_session now to r s) (cs_state s) to r
      (t\<lparr>te_sessions := AList.update i (moved_session now to r s) (te_sessions t)\<rparr>)"
  have "map_of (te_sessions ?t1) i \<noteq> None" by (simp add: AList.update_conv')
  then have rm: "remove_call i ?t1 = ?t1\<lparr>te_sessions := AList.delete i (te_sessions ?t1), te_live := te_live ?t1 - 1\<rparr>"
    by (simp only: remove_call_def if_False)
  have "tel_end now i to r t = (remove_call i ?t1, None)"
    unfolding tel_end_def tel_transition_taken [OF assms] prod.case option.case ..
  then have "tel_end now i to r t = (?t1\<lparr>te_sessions := AList.delete i (te_sessions ?t1), te_live := te_live ?t1 - 1\<rparr>, None)"
    unfolding rm .
  then show ?thesis by (rule that) (simp_all add: same_frame_def AList.delete_update_same)
qed

lemma tel_end_cases:
  assumes "tel_ok t"
  obtains (refused) "fst (tel_end now i to r t) = t" "snd (tel_end now i to r t) \<noteq> None"
    | (ended) s t2 where "map_of (te_sessions t) i = Some s" "\<not> call_terminal (cs_state s)"
       "tel_end now i to r t = (t2, None)" "same_frame t t2" "te_sessions t2 = AList.delete i (te_sessions t)"
       "te_live t2 = te_live t - 1" "te_store t2 = te_store t" "te_per_provider t2 = te_per_provider t"
proof (rule tel_transition_cases [OF assms, of now i to r])
  assume "fst (tel_transition now i to r t) = t" "snd (tel_transition now i to r t) \<noteq> None"
  then have "tel_end now i to r t = (t, snd (tel_transition now i to r t))"
    by (cases "tel_transition now i to r t") (auto simp: tel_end_def)
  then show ?thesis using refused \<open>snd (tel_transition now i to r t) \<noteq> None\<close> by simp
next
  fix s assume s: "map_of (te_sessions t) i = Some s" "can_move (cs_state s) to" "reason_fault_of r = None"
  obtain t2 where "tel_end now i to r t = (t2, None)" "same_frame t t2"
    "te_sessions t2 = AList.delete i (te_sessions t)" "te_live t2 = te_live t - 1" "te_store t2 = te_store t"
    "te_per_provider t2 = te_per_provider t" by (rule tel_end_taken [OF assms s])
  then show ?thesis using ended s terminal_stuck by metis
qed

lemma eff_end:
  assumes "tel_ok t"
  shows "tel_effect (t, pend) (fst (tel_end now i to r t), pend)"
proof (rule tel_end_cases [OF assms, of now i to r])
  assume "fst (tel_end now i to r t) = t"
  then show ?thesis by (simp add: eff_same)
next
  fix s t2
  assume s: "map_of (te_sessions t) i = Some s" "\<not> call_terminal (cs_state s)" "tel_end now i to r t = (t2, None)"
    "same_frame t t2" "te_sessions t2 = AList.delete i (te_sessions t)" "te_live t2 = te_live t - 1" "te_store t2 = te_store t"
    "te_per_provider t2 = te_per_provider t"
  show ?thesis unfolding s(3) fst_conv by (rule Eff_Close [OF s(4,1,2,5,6,7)]) (simp add: s(8))
qed

end
