(* ===== verification/TelSystem.thy ===== *)
theory TelSystem
  imports TelInv
begin

text \<open>
  Every operation of a started telephony runtime is a sequence of the effects of \<^verbatim>\<open>TelInv\<close>; the
  invariant and the accounting of slots follow for every run.
\<close>

section \<open>Each operation\<close>

lemma eff_refl: "tel_effect\<^sup>*\<^sup>* x x" by simp

lemma eff_control:
  assumes "tel_ok t"
  shows "tel_effect\<^sup>*\<^sup>* (t, pend) (fst (tel_controlled now i to need r t), pend)"
  using eff_transition [OF assms, of pend now i to r] by (auto simp: tel_controlled_def split: option.split)

lemma eff_move:
  assumes "tel_ok t"
  shows "tel_effect\<^sup>*\<^sup>* (t, pend) (fst (tel_move now i c t), pend)"
proof -
  have tr: "tel_effect\<^sup>*\<^sup>* (t, pend) (fst (tel_transition now i to r t), pend)" for to r
    by (rule r_into_rtranclp) (rule eff_transition [OF assms])
  show ?thesis by (cases c) (simp_all add: tr eff_control [OF assms])
qed

lemma eff_accept:
  assumes "tel_ok t"
  shows "tel_effect\<^sup>*\<^sup>* (t, pend) (fst (tel_accept now i r ans t), pend)"
  using eff_transition [OF assms, of pend now i Call_Failed "''provider_answer_failed''"]
    eff_transition [OF assms, of pend now i Call_Accepted r]
  by (auto simp: tel_accept_def split: option.split)

lemma eff_reject:
  assumes "tel_ok t"
  shows "tel_effect\<^sup>*\<^sup>* (t, pend) (fst (tel_reject now i r t), pend)"
  using eff_transition [OF assms, of pend now i Call_Rejected r] by (auto simp: tel_reject_def split: option.split)

lemma eff_signal:
  assumes "tel_ok t"
  shows "tel_effect\<^sup>*\<^sup>* (t, pend) (fst (dispatch_signal now i to r t), pend)"
  using eff_transition [OF assms, of pend now i to r] by (auto simp: dispatch_signal_def split: option.split prod.split)

lemma map_entry_update:
  "distinct (map fst xs) \<Longrightarrow> map_of xs k = Some v \<Longrightarrow> AList.map_entry k f xs = AList.update k (f v) xs"
proof (induction xs)
  case (Cons a xs)
  then show ?case by (cases a) (auto split: if_splits)
qed simp

lemma map_entry_absent: "map_of xs k = None \<Longrightarrow> AList.map_entry k f xs = xs"
  by (induction xs) (auto split: if_splits)

lemma leg_ok: "session_ok s \<Longrightarrow> session_ok (add_leg now leg s)"
  by (simp add: session_ok_def add_leg_def cs_state_def)

lemma eff_leg:
  assumes ok: "tel_ok t"
  shows "tel_effect (t, pend) (t\<lparr>te_sessions := AList.map_entry i (add_leg now leg) (te_sessions t)\<rparr>, pend)"
proof (cases "map_of (te_sessions t) i")
  case None
  show ?thesis by (rule eff_same) (simp_all add: map_entry_absent [OF None] same_frame_def)
next
  case (Some s)
  show ?thesis
    by (rule Eff_Move [OF _ Some, where s' = "add_leg now leg s"])
      (use tel_ok_session(1) [OF ok Some] in
        \<open>simp_all add: same_frame_def leg_ok add_leg_def [of now leg s] map_entry_update [OF tel_ok_distinct [OF ok] Some]
          leg_ok [unfolded add_leg_def]\<close>)
qed

lemma eff_transfer:
  assumes ok: "tel_ok t"
  shows "tel_effect\<^sup>*\<^sup>* (t, pend) (fst (tel_transfer now i r leg t), pend)"
proof (cases "tel_controlled now i Call_Transferred Cap_Transfer r t")
  case (Pair t1 e)
  have one: "tel_effect\<^sup>*\<^sup>* (t, pend) (t1, pend)"
    using eff_control [OF ok, of pend now i Call_Transferred Cap_Transfer r] Pair by simp
  have "tel_ok t1" using tel_effects_ok [OF one] ok by simp
  from rtranclp.rtrancl_into_rtrancl [OF one eff_leg [OF this]] one show ?thesis
    by (cases e) (simp_all add: tel_transfer_def Pair)
qed

lemma eff_disconnect:
  assumes "tel_ok t"
  shows "tel_effect\<^sup>*\<^sup>* (t, pend) (fst (tel_disconnect now i r t), pend)"
  using eff_end [OF assms, of pend now i Call_Ended r] by (auto simp: tel_disconnect_def split: option.split)

lemma eff_store_delete: "tel_effect (t, pend) (store_delete i t, pend)"
  by (rule Eff_Frame) (auto simp: store_delete_def same_frame_def tel_ok_def stored_ok_delete split: option.splits)

lemma eff_finish:
  assumes ok: "tel_ok t" and how: "how t = tel_end now i to r t \<or> fst (how t) = t \<and> snd (how t) \<noteq> None"
  shows "tel_effect\<^sup>*\<^sup>* (t, pend) (fst (coordinator_finish how i t), pend)"
proof (cases "map_of (te_sessions t) i")
  case None
  then show ?thesis by (simp add: coordinator_finish_def)
next
  case (Some s)
  show ?thesis
  proof (cases "snd (how t)")
    case None
    with how have h: "how t = tel_end now i to r t" by auto
    show ?thesis
    proof (rule tel_end_cases [OF ok, of now i to r])
      assume "snd (tel_end now i to r t) \<noteq> None"
      then show ?thesis using None h by simp
    next
      fix s' t2
      assume s: "map_of (te_sessions t) i = Some s'" "\<not> call_terminal (cs_state s')" "tel_end now i to r t = (t2, None)"
        "same_frame t t2" "te_sessions t2 = AList.delete i (te_sessions t)" "te_live t2 = te_live t - 1"
        "te_store t2 = te_store t" "te_per_provider t2 = te_per_provider t"
      let ?t3 = "release_call (provider_of s) t2"
      have "tel_effect (t, pend) (?t3, pend)"
        by (rule Eff_Close [OF _ s(1,2)]) (use s Some in \<open>auto simp: same_frame_def release_call_def\<close>)
      then have "tel_effect\<^sup>*\<^sup>* (t, pend) (?t3, pend)" by (rule r_into_rtranclp)
      from rtranclp.rtrancl_into_rtrancl [OF this eff_store_delete [of ?t3 pend i]]
      show ?thesis using Some h s(3) by (simp add: coordinator_finish_def)
    qed
  next
    case (Some e)
    from how have "fst (how t) = t"
    proof
      assume h: "how t = tel_end now i to r t"
      show ?thesis by (rule tel_end_cases [OF ok, of now i to r]) (use h Some in auto)
    qed simp
    with Some \<open>map_of (te_sessions t) i = Some s\<close> have "fst (coordinator_finish how i t) = t"
      by (cases "how t") (simp add: coordinator_finish_def)
    then show ?thesis by simp
  qed
qed

lemma eff_coordinator_end:
  assumes "tel_ok t"
  shows "tel_effect\<^sup>*\<^sup>* (t, pend) (fst (coordinator_end now i r t), pend)"
  unfolding coordinator_end_def
  by (rule eff_finish [OF assms, where now = now and to = Call_Ended and r = r])
    (auto simp: tel_disconnect_def split: option.split)

lemma eff_coordinator_fail:
  assumes "tel_ok t"
  shows "tel_effect\<^sup>*\<^sup>* (t, pend) (fst (coordinator_fail now i r t), pend)"
  unfolding coordinator_fail_def
  by (rule eff_finish [OF assms, where now = now and to = Call_Failed and r = r]) (simp add: tel_fail_def)

lemma eff_sweep_one:
  assumes "tel_ok t"
  shows "tel_effect\<^sup>*\<^sup>* (t, pend) (sweep_one now i t, pend)"
  using eff_transition [OF assms, of pend now i Call_Timeout] by (auto simp: sweep_one_def Let_def split: option.split)

lemma eff_reap_one:
  assumes "tel_ok t"
  shows "tel_effect\<^sup>*\<^sup>* (t, pend) (reap_one now i t, pend)"
  using eff_end [OF assms, of pend now i Call_Ended] by (auto simp: reap_one_def split: option.split)

section \<open>Beginning\<close>

lemma eff_admit:
  "tel_effect\<^sup>*\<^sup>* (t, pend) (case coordinator_admit cc t of (t', None) \<Rightarrow> (t', pend @ [cc]) | (t', Some e) \<Rightarrow> (t', pend))"
proof (cases "te_phase t = Tel_Running \<and> context_problems cc = []")
  case True
  show ?thesis
  proof (cases "admit_call (cc_provider cc) t")
    case (Pair t' w)
    show ?thesis
    proof (cases w)
      case None
      then have "tel_effect (t, pend) (t', pend @ [cc])" using Pair by (auto intro: Eff_Admit)
      then show ?thesis using True Pair None by (simp add: coordinator_admit_def)
    next
      case (Some why)
      then have "t' = t" using Pair by (auto simp: admit_call_def split: if_splits)
      have "tel_effect (t, pend) (t\<lparr>te_shed := te_shed t + 1\<rparr>, pend)" by (rule eff_same) (simp_all add: same_frame_def)
      then show ?thesis using True Pair Some \<open>t' = t\<close> by (simp add: coordinator_admit_def)
    qed
  qed
qed (auto simp: coordinator_admit_def)

lemma new_session_ok:
  assumes "new_call_session i sess corr cc Call_Idle now = Inr s"
  shows "session_ok s" "cs_id s = i" "cs_ctx s = cc" "cs_state s = Call_Idle" "call_fsm_ok (cs_fsm s)" "cs_history s = []"
  using assms call_machine_ok [of Call_Idle]
  by (auto simp: new_call_session_def new_call_fsm_idle session_ok_def cs_state_def call_machine_def call_terminal_def split: if_splits)

text \<open>A begin that gets as far as the registry moves the call; nothing is left behind by one that does not.\<close>

lemma create_call_cases:
  obtains (refused) e where "create_call m now cc t = (t, Some e)"
    | (created) s t1 where "create_call m now cc t = (t1, None)" "map_of (te_sessions t) (fst m) = None" "call_id_valid (fst m)"
        "session_ok s" "cs_id s = fst m" "cs_ctx s = cc" "cs_state s = Call_Idle" "same_frame t t1"
        "te_sessions t1 = te_sessions t @ [(fst m, s)]" "te_live t1 = te_live t + 1"
        "te_per_provider t1 = te_per_provider t" "te_store t1 = te_store t"
proof -
  obtain i sess corr where m: "m = (i, sess, corr)" by (cases m)
  show ?thesis
  proof (cases "call_id_valid i")
    case True
    show ?thesis
    proof (cases "new_call_session i sess corr cc Call_Idle now")
      case (Inl e)
      then show ?thesis using refused True m by (simp add: create_call_def)
    next
      case (Inr s)
      note n = new_session_ok [OF Inr]
      show ?thesis
      proof (cases "map_of (te_sessions t) i")
        case None
        show ?thesis
          by (rule created [of "t\<lparr>te_sessions := te_sessions t @ [(i, s)], te_live := te_live t + 1, te_total := te_total t + 1\<rparr>" s])
            (use None Inr True m n in \<open>simp_all add: create_call_def register_call_def same_frame_def\<close>)
      next
        case (Some s')
        then show ?thesis using refused Inr True m n by (simp add: create_call_def register_call_def)
      qed
    qed
  qed (use refused m in \<open>simp add: create_call_def\<close>)
qed

lemma tel_begin_cases:
  assumes ok: "tel_ok t" and to: "can_move Call_Idle to" and r: "reason_fault_of r = None"
  obtains (refused) e where "tel_begin m now cc to r t = (t, Some e)"
    | (begun) s s' t1 t2 where "tel_begin m now cc to r t = (t2, None)" "map_of (te_sessions t) (fst m) = None"
        "call_id_valid (fst m)" "session_ok s" "cs_id s = fst m" "cs_ctx s = cc" "same_frame t t1"
        "te_sessions t1 = te_sessions t @ [(fst m, s)]" "te_live t1 = te_live t + 1"
        "te_per_provider t1 = te_per_provider t" "te_store t1 = te_store t" "tel_ok t1"
        "t2 = fst (tel_transition now (fst m) to r t1)"
proof (cases "cc_provider cc \<in> set (te_providers t)")
  case False
  then show ?thesis using refused by (simp add: tel_begin_def)
next
  case True
  show ?thesis
  proof (rule create_call_cases [of m now cc t])
    fix e assume "create_call m now cc t = (t, Some e)"
    then show ?thesis using refused True by (simp add: tel_begin_def)
  next
    fix s t1
    assume c: "create_call m now cc t = (t1, None)" "map_of (te_sessions t) (fst m) = None" "call_id_valid (fst m)"
      "session_ok s" "cs_id s = fst m" "cs_ctx s = cc" "cs_state s = Call_Idle" "same_frame t t1"
      "te_sessions t1 = te_sessions t @ [(fst m, s)]" "te_live t1 = te_live t + 1"
      "te_per_provider t1 = te_per_provider t" "te_store t1 = te_store t"
    have ok1: "tel_ok t1" by (rule tel_ok_snoc [OF ok c(2,3,4,5,9,10,12)])
    have at: "map_of (te_sessions t1) (fst m) = Some s" using c(2,9) by (simp add: map_add_def)
    have "snd (tel_transition now (fst m) to r t1) = None"
      using tel_transition_taken [OF ok1 at _ r, of to now] to c(7) by simp
    then have "tel_begin m now cc to r t = (fst (tel_transition now (fst m) to r t1), None)"
      using True c(1) by (cases "tel_transition now (fst m) to r t1") (simp add: tel_begin_def)
    then show ?thesis using begun c ok1 by blast
  qed
qed

lemma begin_reasons: "reason_fault_of ''carrier_offered'' = None" "reason_fault_of ''dialed'' = None"
  by code_simp+

lemma begin_moves: "can_move Call_Idle Call_Incoming" "can_move Call_Idle Call_Ringing"
  by code_simp+

lemma coordinator_start_cases:
  assumes ok: "tel_ok t"
  obtains (refused) e where "coordinator_start m now cc t = (release_call (cc_provider cc) t, Some e)"
    | (begun) s t1 to r where "coordinator_start m now cc t =
          ((fst (tel_transition now (fst m) to r t1))\<lparr>te_admitted := te_admitted (fst (tel_transition now (fst m) to r t1)) + 1\<rparr>, None)"
        "map_of (te_sessions t) (fst m) = None" "call_id_valid (fst m)" "session_ok s" "cs_id s = fst m" "cs_ctx s = cc"
        "same_frame t t1" "te_sessions t1 = te_sessions t @ [(fst m, s)]" "te_live t1 = te_live t + 1"
        "te_per_provider t1 = te_per_provider t" "te_store t1 = te_store t" "tel_ok t1"
proof -
  have refused': ?thesis if "\<exists>e. (if cc_direction cc = Some Inbound then tel_incoming m now cc t else tel_outgoing m now cc t) = (t, Some e)"
    using that refused by (auto simp: coordinator_start_def)
  have begun': ?thesis if eq: "(if cc_direction cc = Some Inbound then tel_incoming m now cc t else tel_outgoing m now cc t) = tel_begin m now cc to r t"
    and to: "can_move Call_Idle to" and r: "reason_fault_of r = None" for to r
  proof (rule tel_begin_cases [OF ok to r, of m now cc])
    fix e assume "tel_begin m now cc to r t = (t, Some e)"
    then show ?thesis using refused' eq by auto
  next
    fix s s' t1 t2
    assume b: "tel_begin m now cc to r t = (t2, None)" "map_of (te_sessions t) (fst m) = None"
        "call_id_valid (fst m)" "session_ok s" "cs_id s = fst m" "cs_ctx s = cc" "same_frame t t1"
        "te_sessions t1 = te_sessions t @ [(fst m, s)]" "te_live t1 = te_live t + 1"
        "te_per_provider t1 = te_per_provider t" "te_store t1 = te_store t" "tel_ok t1"
        "t2 = fst (tel_transition now (fst m) to r t1)"
    have "coordinator_start m now cc t = (t2\<lparr>te_admitted := te_admitted t2 + 1\<rparr>, None)"
      by (simp add: coordinator_start_def eq b(1))
    then show ?thesis using begun b(2-12) unfolding b(13) by blast
  qed
  show ?thesis
  proof (cases "cc_direction cc = Some Inbound")
    case True
    then show ?thesis by (intro begun' [OF _ begin_moves(1) begin_reasons(1)]) (simp add: tel_incoming_def)
  next
    case False
    show ?thesis
    proof (cases "cc_direction cc = Some Outbound \<and> has_capability Cap_Dial cc")
      case True
      then show ?thesis by (intro begun' [OF _ begin_moves(2) begin_reasons(2)]) (simp add: tel_outgoing_def)
    next
      case no: False
      then show ?thesis using False by (intro refused') (auto simp: tel_outgoing_def)
    qed
  qed
qed

lemma eff_start:
  assumes ok: "tel_ok t"
  shows "tel_effect\<^sup>*\<^sup>* (t, xs @ cc # ys) (fst (coordinator_start m now cc t), xs @ ys)"
proof (rule coordinator_start_cases [OF ok, of m now cc])
  fix e assume "coordinator_start m now cc t = (release_call (cc_provider cc) t, Some e)"
  then show ?thesis using Eff_Drop [of t xs cc ys] by auto
next
  fix s t1 to r
  let ?t2 = "fst (tel_transition now (fst m) to r t1)"
  assume b: "coordinator_start m now cc t = (?t2\<lparr>te_admitted := te_admitted ?t2 + 1\<rparr>, None)"
     "map_of (te_sessions t) (fst m) = None" "call_id_valid (fst m)" "session_ok s" "cs_id s = fst m" "cs_ctx s = cc"
     "same_frame t t1" "te_sessions t1 = te_sessions t @ [(fst m, s)]" "te_live t1 = te_live t + 1"
     "te_per_provider t1 = te_per_provider t" "te_store t1 = te_store t" "tel_ok t1"
  have 1: "tel_effect (t, xs @ cc # ys) (t1, xs @ ys)"
    by (rule Eff_Open [OF b(7,2,3,4,5)]) (simp_all add: b)
  have 2: "tel_effect (t1, xs @ ys) (?t2, xs @ ys)" by (rule eff_transition [OF b(12)])
  have 3: "tel_effect (?t2, xs @ ys) (?t2\<lparr>te_admitted := te_admitted ?t2 + 1\<rparr>, xs @ ys)"
    by (rule eff_same) (simp_all add: same_frame_def)
  show ?thesis using 1 2 3 b(1) by (auto intro: rtranclp.rtrancl_into_rtrancl)
qed

section \<open>Snapshots\<close>

lemma snapshot_of_ok: "session_ok s \<Longrightarrow> snapshot_ok (call_snapshot_of s)"
  by (simp add: snapshot_ok_def session_ok_def call_snapshot_of_def)

lemma stored_ok_update: "stored_ok st \<Longrightarrow> snapshot_ok p \<Longrightarrow> stored_ok (AList.update (ss_call p) p st)"
  by (simp add: stored_ok_def AList.distinct_update list_all_update)

lemma stored_ok_fold:
  "stored_ok st \<Longrightarrow> list_all snapshot_ok ps \<Longrightarrow> stored_ok (fold (\<lambda>p st. AList.update (ss_call p) p st) ps st)"
  by (induction ps arbitrary: st) (simp_all add: stored_ok_update)

text \<open>The sessions a snapshot pass writes.\<close>

abbreviation live_sessions :: "(string list \<Rightarrow> string list) \<Rightarrow> tel_runtime \<Rightarrow> call_session list" where
  "live_sessions walk t \<equiv> filter (\<lambda>s. \<not> is_terminal (cs_fsm s))
     (List.map_filter (map_of (te_sessions t)) (walk (map fst (te_sessions t))))"

lemma map_filter_mem: "s \<in> set (List.map_filter f xs) \<longleftrightarrow> (\<exists>x\<in>set xs. f x = Some s)"
  by (induction xs) (auto simp: List.map_filter_simps split: option.splits)

lemma eff_snapshot: "tel_effect\<^sup>*\<^sup>* (t, pend) (fst (snapshot_all walk saved t), pend)"
proof (cases "te_store t")
  case None
  then show ?thesis by (simp add: snapshot_all_def)
next
  case (Some st)
  let ?ps = "stable_sort snapshot_before (map call_snapshot_of (live_sessions walk t))"
  have "list_all snapshot_ok ?ps" if "tel_ok t"
    using tel_ok_session(1) [OF that] by (auto simp: list_all_iff map_filter_mem snapshot_of_ok)
  then have "tel_effect (t, pend) (t\<lparr>te_store := Some (fold (\<lambda>p st. AList.update (ss_call p) p st) ?ps st)\<rparr>, pend)"
    using Some by (intro Eff_Frame) (auto simp: same_frame_def tel_ok_def stored_ok_fold)
  then show ?thesis using Some by (auto simp: snapshot_all_def Let_def)
qed

section \<open>Runs\<close>

definition is_setup :: "tel_op \<Rightarrow> bool" where
  "is_setup op = (case op of Op_Register p \<Rightarrow> True | Op_Boot al m n \<Rightarrow> True | _ \<Rightarrow> False)"

lemma tel_apply_effects:
  assumes ok: "tel_ok t" and up: "te_phase t \<noteq> Tel_New \<or> \<not> is_setup op"
  shows "tel_effect\<^sup>*\<^sup>* (t, pend) (tel_apply op (t, pend))"
proof (cases op)
  case (Op_Start k m now)
  then show ?thesis
    using eff_start [OF ok, of "take k pend" "pend ! k" "drop (Suc k) pend" m now] id_take_nth_drop [of k pend] by auto
next
  case (Op_Disconnect now i r)
  then show ?thesis using eff_disconnect [OF ok] by simp
qed (use ok up in \<open>simp_all add: is_setup_def register_provider_def tel_start_def eff_admit eff_move eff_accept eff_reject eff_transfer
      eff_coordinator_end eff_coordinator_fail eff_signal eff_sweep_one eff_reap_one eff_snapshot\<close>)

lemma tel_run_simps [simp]: "tel_run [] x = x" "tel_run (op # ops) x = tel_run ops (tel_apply op x)"
  by (simp_all add: tel_run_def)

lemma tel_run_effects:
  assumes "tel_ok (fst x)" "te_phase (fst x) \<noteq> Tel_New"
  shows "tel_effect\<^sup>*\<^sup>* x (tel_run ops x)"
  using assms
proof (induction ops arbitrary: x)
  case (Cons op ops)
  obtain t pend where x: "x = (t, pend)" by (cases x)
  have e: "tel_effect\<^sup>*\<^sup>* x (tel_apply op x)" using tel_apply_effects Cons.prems by (simp add: x)
  have "tel_ok (fst (tel_apply op x))" "te_phase (fst (tel_apply op x)) \<noteq> Tel_New"
    using tel_effects_ok [OF e] tel_effects_frame [OF e] Cons.prems by (simp_all add: same_frame_def)
  then show ?case using Cons.IH [of "tel_apply op x"] e by simp
qed simp

text \<open>What every effect keeps, every run keeps.\<close>

lemma tel_run_keeps:
  assumes "tel_ok (fst x)" "te_phase (fst x) \<noteq> Tel_New" "I x"
    and step: "\<And>y z. tel_effect y z \<Longrightarrow> tel_ok (fst y) \<Longrightarrow> I y \<Longrightarrow> I z"
  shows "I (tel_run ops x)"
proof -
  have "tel_effect\<^sup>*\<^sup>* x y \<Longrightarrow> tel_ok (fst y) \<and> I y" for y
    by (induction rule: rtranclp_induct) (use assms(1,3) step tel_effect_ok in blast)+
  then show ?thesis using tel_run_effects [OF assms(1,2)] by blast
qed

section \<open>Recovery keeps the invariant\<close>

lemma sorted_below_last: "sorted_wrt (\<lambda>a b. tr_seq a < tr_seq b) xs \<Longrightarrow> list_all (\<lambda>r. tr_seq r \<le> tr_seq (last xs)) xs"
  by (induction xs rule: rev_induct) (auto simp: list_all_iff sorted_wrt_append)

lemma restored_ok:
  assumes "restore_session sess now p = Inr s" "snapshot_ok p"
  shows "session_ok s" "cs_id s = ss_call p" "call_id_valid (cs_id s)" "cs_state s = Call_Recovery" "cs_ctx s = ss_context p"
proof -
  have h: "list_all record_ok (ss_history p)" "sorted_wrt (\<lambda>a b. tr_seq a < tr_seq b) (ss_history p)" "length (ss_history p) \<le> 128"
    using assms(2) by (simp_all add: snapshot_ok_def)
  have last: "list_all (\<lambda>r. tr_seq r \<le> tr_seq (last (ss_history p))) (ss_history p)"
    by (rule sorted_below_last [OF h(2)])
  show "session_ok s" "cs_id s = ss_call p" "call_id_valid (cs_id s)" "cs_state s = Call_Recovery" "cs_ctx s = ss_context p"
    using assms(1) h last call_machine_ok [of Call_Recovery]
    by (auto simp: restore_session_def new_call_fsm_recovery session_ok_def cs_state_def call_machine_def call_terminal_def
        snapshot_recoverable_def split: if_splits)
qed

lemma tel_ok_store_delete: "tel_ok t \<Longrightarrow> tel_ok (store_delete i t)"
  using tel_effect_ok [OF eff_store_delete [of t "[]" i]] by simp

lemma tel_ok_transition: "tel_ok t \<Longrightarrow> tel_ok (fst (tel_transition now i to r t))"
  using tel_effect_ok [OF eff_transition [of t "[]" now i to r]] by simp

lemma tel_ok_end: "tel_ok t \<Longrightarrow> tel_ok (fst (tel_end now i to r t))"
  using tel_effect_ok [OF eff_end [of t "[]" now i to r]] by simp

lemma tel_ok_admit [simp]: "tel_ok (fst (admit_call p t)) = tel_ok t"
  by (rule tel_ok_cong) simp_all

lemma recovery_event_sel [simp]:
  "te_sessions (recovery_event ty s fr to r now t) = te_sessions t" "te_live (recovery_event ty s fr to r now t) = te_live t"
  "te_store (recovery_event ty s fr to r now t) = te_store t" "te_cfg (recovery_event ty s fr to r now t) = te_cfg t"
  "te_providers (recovery_event ty s fr to r now t) = te_providers t" "te_phase (recovery_event ty s fr to r now t) = te_phase t"
  "te_per_provider (recovery_event ty s fr to r now t) = te_per_provider t"
  by (simp_all add: recovery_event_def)

lemma tel_ok_recovery_event [simp]: "tel_ok (recovery_event ty s fr to r now t) = tel_ok t"
  by (rule tel_ok_cong) simp_all

lemma tel_ok_register:
  assumes "tel_ok t" "session_ok s" "call_id_valid (cs_id s)"
  shows "tel_ok (fst (register_call s t))"
proof (cases "map_of (te_sessions t) (cs_id s)")
  case None
  show ?thesis
    by (rule tel_ok_snoc [OF assms(1) None assms(3,2)]) (simp_all add: register_call_def None)
qed (simp add: register_call_def assms(1))

lemma recovery_reasons: "reason_fault_of ''resumed_after_restart'' = None" "reason_fault_of ''concluded_after_restart'' = None"
  by code_simp+

lemma recovery_moves: "can_move Call_Recovery Call_Connected" "can_move Call_Recovery Call_Ended"
  by code_simp+

text \<open>The four ways a snapshot is dealt with.  A resume is never refused: the restored session is in recovery.\<close>

lemma recover_one_cases:
  assumes ok: "tel_ok t" and p: "snapshot_ok p"
  obtains (unusable) e where "restore_session (mint (ss_call p)) now p = Inl e"
      "recover_one alive mint now p t = (store_delete (ss_call p) t, Rec_Abandoned)"
    | (known) s where "restore_session (mint (ss_call p)) now p = Inr s" "map_of (te_sessions t) (ss_call p) \<noteq> None"
      "recover_one alive mint now p t = (t, Rec_Abandoned)"
    | (resumed) s t' where "restore_session (mint (ss_call p)) now p = Inr s" "map_of (te_sessions t) (ss_call p) = None"
      "alive p" "recover_one alive mint now p t = (t', Rec_Resumed)" "tel_ok t'" "same_frame t t'"
      "map_of (te_sessions t') = (map_of (te_sessions t))(ss_call p \<mapsto> moved_session now Call_Connected ''resumed_after_restart'' s)"
      "te_store t' = map_option (AList.delete (ss_call p)) (te_store t)"
    | (concluded) s t' where "restore_session (mint (ss_call p)) now p = Inr s" "map_of (te_sessions t) (ss_call p) = None"
      "\<not> alive p" "recover_one alive mint now p t = (t', Rec_Concluded)" "tel_ok t'" "same_frame t t'"
      "map_of (te_sessions t') = map_of (te_sessions t)"
      "te_store t' = map_option (AList.delete (ss_call p)) (te_store t)"
proof (cases "restore_session (mint (ss_call p)) now p")
  case (Inl e)
  then show ?thesis using unusable by (simp add: recover_one_def)
next
  case (Inr s)
  note r = restored_ok [OF Inr p]
  show ?thesis
  proof (cases "map_of (te_sessions t) (ss_call p)")
    case (Some x)
    then show ?thesis using known Inr r(2) by (simp add: recover_one_def register_call_def)
  next
    case None
    define t1 where "t1 = fst (register_call s t)"
    define t2 where "t2 = recovery_event Ev_Recovery_Started s None Call_Recovery ''process_restart'' now t1"
    define t3 where "t3 = fst (admit_call (cc_provider (ss_context p)) t2)"
    have reg: "register_call s t = (t1, None)" using None r(2) by (simp add: register_call_def t1_def)
    have ok3: "tel_ok t3" unfolding t3_def t2_def t1_def using tel_ok_register [OF ok r(1,3)] by simp
    have fr3: "same_frame t t3" "te_store t3 = te_store t" "te_sessions t3 = te_sessions t @ [(ss_call p, s)]"
      using None r(2) by (simp_all add: t3_def t2_def t1_def register_call_def same_frame_def)
    have at: "map_of (te_sessions t3) (ss_call p) = Some s" using None by (simp add: fr3 map_add_def)
    show ?thesis
    proof (cases "alive p")
      case True
      let ?m = "moved_session now Call_Connected ''resumed_after_restart'' s"
      define t4 where "t4 = fst (tel_transition now (cs_id s) Call_Connected ''resumed_after_restart'' t3)"
      have mv: "can_move (cs_state s) Call_Connected" using recovery_moves r(4) by simp
      note tr = tel_transition_taken [OF ok3 at mv recovery_reasons(1), of now]
      have t4: "tel_transition now (cs_id s) Call_Connected ''resumed_after_restart'' t3 = (t4, None)"
        unfolding t4_def r(2) tr by simp
      have sel: "te_sessions t4 = AList.update (ss_call p) ?m (te_sessions t3)" "te_store t4 = te_store t3" "same_frame t t4"
        using fr3(1) by (simp_all add: t4_def r(2) tr same_frame_def)
      have ok4: "tel_ok t4" unfolding t4_def by (rule tel_ok_transition [OF ok3])
      define t5 where "t5 = recovery_event Ev_Recovery_Resumed s (Some Call_Recovery) Call_Connected ''resumed_after_restart'' now
          (store_delete (ss_call p) t4)"
      have "recover_one alive mint now p t = (t5, Rec_Resumed)"
        using True Inr reg t4 by (simp add: recover_one_def Let_def t2_def [symmetric] t3_def [symmetric] t5_def)
      moreover have "tel_ok t5" using tel_ok_store_delete [OF ok4] by (simp add: t5_def)
      moreover have "map_of (te_sessions t5) = (map_of (te_sessions t))(ss_call p \<mapsto> ?m)"
        using None by (simp add: t5_def store_delete_def sel fr3 AList.update_conv' map_add_def fun_eq_iff split: option.split)
      moreover have "te_store t5 = map_option (AList.delete (ss_call p)) (te_store t)" "same_frame t t5"
        using sel(3) by (simp_all add: t5_def store_delete_def sel fr3 same_frame_def)
      ultimately show ?thesis using resumed Inr None True by blast
    next
      case False
      have mv: "can_move (cs_state s) Call_Ended" using recovery_moves r(4) by simp
      obtain t4 where t4: "tel_end now (ss_call p) Call_Ended ''concluded_after_restart'' t3 = (t4, None)" "same_frame t3 t4"
         "te_sessions t4 = AList.delete (ss_call p) (te_sessions t3)" "te_store t4 = te_store t3"
        by (rule tel_end_taken [OF ok3 at mv recovery_reasons(2), of now]) blast
      have ok4: "tel_ok t4" using tel_ok_end [OF ok3, of now "ss_call p" Call_Ended "''concluded_after_restart''"] t4(1) by simp
      define t5 where "t5 = recovery_event Ev_Recovery_Abandoned s (Some Call_Recovery) Call_Ended ''not_live_after_restart'' now
          (store_delete (ss_call p) t4)"
      have "recover_one alive mint now p t = (t5, Rec_Concluded)"
        using False Inr reg t4(1) r(2) by (simp add: recover_one_def Let_def t2_def [symmetric] t3_def [symmetric] t5_def)
      moreover have "tel_ok t5" using tel_ok_store_delete [OF ok4] by (simp add: t5_def)
      moreover have "map_of (te_sessions t5) = map_of (te_sessions t)"
        using None by (simp add: t5_def store_delete_def t4 fr3 AList.delete_conv' map_add_def fun_eq_iff split: option.split)
      moreover have "te_store t5 = map_option (AList.delete (ss_call p)) (te_store t)" "same_frame t t5"
        using t4(2) fr3(1) by (simp_all add: t5_def store_delete_def t4 fr3 same_frame_def)
      ultimately show ?thesis using concluded Inr None False by blast
    qed
  qed
qed

lemma recover_one_ok:
  assumes ok: "tel_ok t" and p: "snapshot_ok p"
  shows "tel_ok (fst (recover_one alive mint now p t)) \<and> same_frame t (fst (recover_one alive mint now p t))"
proof (rule recover_one_cases [OF ok p, of mint now alive])
  assume e: "recover_one alive mint now p t = (store_delete (ss_call p) t, Rec_Abandoned)"
  show ?thesis unfolding e fst_conv using tel_ok_store_delete [OF ok] by (simp add: same_frame_def store_delete_def)
next
  assume e: "recover_one alive mint now p t = (t, Rec_Abandoned)"
  show ?thesis unfolding e fst_conv using ok by simp
next
  fix t' assume e: "recover_one alive mint now p t = (t', Rec_Resumed)" "tel_ok t'" "same_frame t t'"
  then show ?thesis by simp
next
  fix t' assume e: "recover_one alive mint now p t = (t', Rec_Concluded)" "tel_ok t'" "same_frame t t'"
  then show ?thesis by simp
qed

lemma recover_each_ok:
  "tel_ok t \<Longrightarrow> list_all snapshot_ok ps \<Longrightarrow>
     tel_ok (fst (recover_each alive mint now ps t)) \<and> same_frame t (fst (recover_each alive mint now ps t))"
proof (induction ps arbitrary: t)
  case (Cons p ps)
  obtain t1 out where one: "recover_one alive mint now p t = (t1, out)" by fastforce
  have p: "snapshot_ok p" and ps: "list_all snapshot_ok ps" using Cons.prems(2) by simp_all
  have ok1: "tel_ok t1" and fr1: "same_frame t t1"
    using recover_one_ok [OF Cons.prems(1) p, of alive mint now] by (simp_all add: one)
  have "recover_each alive mint now (p # ps) t =
      (fst (recover_each alive mint now ps t1), (ss_call p, out) # snd (recover_each alive mint now ps t1))"
    by (simp add: one split_beta Let_def)
  then show ?case using Cons.IH [OF ok1 ps] fr1 by (simp add: same_frame_def)
qed simp

lemma stored_snapshots: "stored_ok st \<Longrightarrow> list_all snapshot_ok (stable_sort snapshot_before (map snd st))"
  by (auto simp: stored_ok_def list_all_iff)

lemma recover_sessions_ok: "tel_ok t \<Longrightarrow> tel_ok (fst (recover_sessions alive mint now t))"
  using recover_each_ok [of t] stored_snapshots tel_ok_store [of t]
  by (simp add: recover_sessions_def split: option.split)

lemma tel_start_ok: "tel_ok t \<Longrightarrow> tel_ok (fst (tel_start alive mint now t))"
proof -
  assume ok: "tel_ok t"
  have "tel_ok (t'\<lparr>te_phase := ph, te_recovered := n\<rparr>) = tel_ok t'" for t' ph n by (rule tel_ok_cong) simp_all
  then show ?thesis using ok recover_sessions_ok [OF ok, of alive mint now] by (simp add: tel_start_def split_beta Let_def)
qed

lemma tel_apply_ok: "tel_ok (fst x) \<Longrightarrow> tel_ok (fst (tel_apply op x))"
proof (cases x)
  case (Pair t pend)
  assume ok: "tel_ok (fst x)"
  show ?thesis
  proof (cases "is_setup op")
    case True
    then show ?thesis using ok Pair tel_start_ok [of t]
      by (cases op) (simp_all add: is_setup_def register_provider_def tel_ok_def)
  next
    case False
    have "tel_effect\<^sup>*\<^sup>* x (tel_apply op x)" using tel_apply_effects [of t op pend] ok False Pair by simp
    then show ?thesis using tel_effects_ok ok by blast
  qed
qed

interpretation tel: invariant_ops "\<lambda>x op. tel_apply op x" "\<lambda>x. tel_ok (fst x)"
  by unfold_locales (rule tel_apply_ok)

end
