(* ===== verification/TelSlots.thy ===== *)
theory TelSlots
  imports TelSystem
begin

text \<open>
  The accounting of slots over every run of the telephony runtime: what a provider's counter guarantees, and
  the ways in which slots are lost.
\<close>

section \<open>Counting\<close>

definition live_of :: "string \<Rightarrow> tel_runtime \<Rightarrow> nat" where
  "live_of p t = length (filter (\<lambda>(i, s). provider_of s = p) (te_sessions t))"

definition pending_of :: "string \<Rightarrow> call_context list \<Rightarrow> nat" where
  "pending_of p pend = length (filter (\<lambda>cc. cc_provider cc = p) pend)"

lemma count_update:
  assumes "map_of xs k = Some v" "P v' = P v"
  shows "length (filter (\<lambda>(i, s). P s) (AList.update k v' xs)) = length (filter (\<lambda>(i, s). P s) xs)"
  using assms(1) by (induction xs) (auto simp: assms(2) split: if_splits)

lemma count_delete:
  assumes "distinct (map fst xs)" "map_of xs k = Some v"
  shows "length (filter (\<lambda>(i, s). P s) xs) = length (filter (\<lambda>(i, s). P s) (AList.delete k xs)) + (if P v then 1 else 0)"
  using assms
proof (induction xs)
  case (Cons a xs)
  show ?case
  proof (cases "fst a = k")
    case True
    then have "AList.delete k xs = xs" using Cons.prems(1) by (intro delete_absent) auto
    then show ?thesis using True Cons.prems(2) by (cases a) simp
  next
    case False
    then show ?thesis using Cons by (cases a) auto
  qed
qed simp

lemma live_of_update:
  "map_of (te_sessions t) i = Some s \<Longrightarrow> te_sessions t' = AList.update i s' (te_sessions t) \<Longrightarrow> cs_ctx s' = cs_ctx s
     \<Longrightarrow> live_of p t' = live_of p t"
  using count_update [of "te_sessions t" i s "\<lambda>s. provider_of s = p" s'] by (simp add: live_of_def)

lemma live_of_delete:
  "tel_ok t \<Longrightarrow> map_of (te_sessions t) i = Some s \<Longrightarrow> te_sessions t' = AList.delete i (te_sessions t)
     \<Longrightarrow> live_of p t = live_of p t' + (if provider_of s = p then 1 else 0)"
  using count_delete [OF tel_ok_distinct, of t i s "\<lambda>s. provider_of s = p"] by (simp add: live_of_def)

text \<open>A provider's counter covers its live calls and its calls about to start.\<close>

definition slots_ok :: "tel_system \<Rightarrow> bool" where
  "slots_ok x \<longleftrightarrow> (\<forall>p. live_of p (fst x) + pending_of p (snd x) \<le> te_per_provider (fst x) p
     \<and> (tc_max_per_provider (te_cfg (fst x)) > 0 \<longrightarrow> int (te_per_provider (fst x) p) \<le> tc_max_per_provider (te_cfg (fst x))))"

lemma slots_okI:
  assumes "\<And>p. live_of p t + pending_of p pend \<le> te_per_provider t p"
    "\<And>p. tc_max_per_provider (te_cfg t) > 0 \<Longrightarrow> int (te_per_provider t p) \<le> tc_max_per_provider (te_cfg t)"
  shows "slots_ok (t, pend)"
  using assms by (simp add: slots_ok_def)

lemma slots_okD:
  assumes "slots_ok (t, pend)"
  shows "live_of p t + pending_of p pend \<le> te_per_provider t p"
    "tc_max_per_provider (te_cfg t) > 0 \<Longrightarrow> int (te_per_provider t p) \<le> tc_max_per_provider (te_cfg t)"
  using assms by (simp_all add: slots_ok_def)

lemma slots_effect: "tel_effect y z \<Longrightarrow> tel_ok (fst y) \<Longrightarrow> slots_ok y \<Longrightarrow> slots_ok z"
proof (induction rule: tel_effect.induct)
  case (Eff_Frame t t' pend)
  then show ?case by (simp add: slots_ok_def same_frame_def live_of_def)
next
  case (Eff_Move t t' i s s' pend)
  then show ?case using live_of_update [OF Eff_Move(2,7,6)] by (simp add: slots_ok_def same_frame_def)
next
  case (Eff_Admit cc t t' pend)
  note a = admit_call_sel [OF Eff_Admit(1)]
  show ?case
  proof (rule slots_okI)
    fix p
    show "live_of p t' + pending_of p (pend @ [cc]) \<le> te_per_provider t' p"
      using slots_okD(1) [OF Eff_Admit(3), of p] by (auto simp: a(1) live_of_def pending_of_def)
    show "int (te_per_provider t' p) \<le> tc_max_per_provider (te_cfg t')" if "tc_max_per_provider (te_cfg t') > 0"
      using slots_okD(2) [OF Eff_Admit(3), of p] a(3) that by (auto simp: a(1))
  qed
next
  case (Eff_Open t t' i s cc xs ys)
  show ?case
  proof (rule slots_okI)
    fix p
    show "live_of p t' + pending_of p (xs @ ys) \<le> te_per_provider t' p"
      using slots_okD(1) [OF Eff_Open(12), of p] Eff_Open(6,7,9) by (auto simp: live_of_def pending_of_def)
    show "int (te_per_provider t' p) \<le> tc_max_per_provider (te_cfg t')" if "tc_max_per_provider (te_cfg t') > 0"
      using slots_okD(2) [OF Eff_Open(12), of p] that Eff_Open(1,9) by (simp add: same_frame_def)
  qed
next
  case (Eff_Drop t xs cc ys)
  show ?case
  proof (rule slots_okI)
    fix p
    show "live_of p (release_call (cc_provider cc) t) + pending_of p (xs @ ys) \<le> te_per_provider (release_call (cc_provider cc) t) p"
      using slots_okD(1) [OF Eff_Drop(2), of p] by (auto simp: live_of_def pending_of_def split: if_splits)
    show "int (te_per_provider (release_call (cc_provider cc) t) p) \<le> tc_max_per_provider (te_cfg (release_call (cc_provider cc) t))"
      if "tc_max_per_provider (te_cfg (release_call (cc_provider cc) t)) > 0"
      using slots_okD(2) [OF Eff_Drop(2), of p] that by auto
  qed
next
  case (Eff_Close t t' i s pend)
  have ok: "tel_ok t" using Eff_Close by simp
  have cfg: "te_cfg t' = te_cfg t" using Eff_Close(1) by (simp add: same_frame_def)
  show ?case
  proof (rule slots_okI)
    fix p
    show "live_of p t' + pending_of p pend \<le> te_per_provider t' p"
      using slots_okD(1) [OF Eff_Close(9), of p] live_of_delete [OF ok Eff_Close(2,4), of p] Eff_Close(7) by auto
    show "int (te_per_provider t' p) \<le> tc_max_per_provider (te_cfg t')" if "tc_max_per_provider (te_cfg t') > 0"
      using slots_okD(2) [OF Eff_Close(9), of p] that Eff_Close(7) cfg by auto
  qed
qed

section \<open>The cap on a provider's calls\<close>

text \<open>The runtime as it is after construction, registration and start, on a store that holds nothing.\<close>

lemma fresh_started:
  assumes "new_tel_runtime c store = Inr t0" "store = None \<or> store = Some []"
    "tel_start alive mint now (t0\<lparr>te_providers := ps\<rparr>) = (t, None)"
  shows "tel_ok t" "slots_ok (t, [])" "te_phase t \<noteq> Tel_New" "te_cfg t = c" "te_sessions t = []" "te_per_provider t = (\<lambda>_. 0)"
    "te_providers t = ps"
  using assms
  by (auto simp: new_tel_runtime_def tel_start_def recover_sessions_def Let_def tel_ok_def stored_ok_def slots_ok_def
      live_of_def pending_of_def stable_sort_def split: if_splits)

text \<open>C34.  However operations interleave - a begin admitted and not yet started counts too - a provider never has
  more live calls than its cap.\<close>

theorem provider_cap_holds:
  assumes "new_tel_runtime c store = Inr t0" "store = None \<or> store = Some []"
    "tel_start alive mint now (t0\<lparr>te_providers := ps\<rparr>) = (t, None)" "tc_max_per_provider c > 0"
  shows "int (live_of p (fst (tel_run ops (t, [])))) \<le> tc_max_per_provider c"
proof -
  note f = fresh_started [OF assms(1-3)]
  have s: "slots_ok (tel_run ops (t, []))" by (rule tel_run_keeps [where I = slots_ok]) (use f slots_effect in auto)
  have e: "tel_effect\<^sup>*\<^sup>* (t, []) (tel_run ops (t, []))" by (rule tel_run_effects) (use f in auto)
  have cfg: "te_cfg (fst (tel_run ops (t, []))) = c" using tel_effects_frame [OF e] f(4) by (simp add: same_frame_def)
  obtain u pend where u: "tel_run ops (t, []) = (u, pend)" by fastforce
  show ?thesis using slots_okD [of u pend p] s cfg assms(4) by (simp add: u)
qed

section \<open>Slots that are lost\<close>

definition dead_call :: "string \<Rightarrow> tel_system \<Rightarrow> bool" where
  "dead_call i x = (case map_of (te_sessions (fst x)) i of None \<Rightarrow> False | Some s \<Rightarrow> call_terminal (cs_state s))"

lemma dead_effect: "tel_effect y z \<Longrightarrow> dead_call i y \<Longrightarrow> dead_call i z"
  by (induction rule: tel_effect.induct)
    (auto simp: dead_call_def AList.update_conv' AList.delete_conv' map_add_def cs_state_def split: option.splits if_splits
      dest: admit_call_sel(1))

text \<open>C40.  A call that reached Ended or Failed while still registered - a failed answer, a terminal signal - is never
  removed: whatever happens next it is there, counted as live and against its provider.\<close>

theorem dead_call_holds_its_slot:
  assumes "tel_ok t" "te_phase t \<noteq> Tel_New" "dead_call i (t, pend)"
  shows "dead_call i (tel_run ops (t, pend)) \<and> te_live (fst (tel_run ops (t, pend))) \<ge> 1"
proof -
  have d: "dead_call i (tel_run ops (t, pend))"
    by (rule tel_run_keeps [where I = "dead_call i"]) (use assms dead_effect in auto)
  have "tel_ok (fst (tel_run ops (t, pend)))" unfolding tel_run_def using tel.run_inv [of "(t, pend)" ops] assms(1) by simp
  then show ?thesis using d live_session_counts by (auto simp: dead_call_def split: option.splits)
qed

definition starved :: "string \<Rightarrow> tel_system \<Rightarrow> bool" where
  "starved p x \<longleftrightarrow> tc_max_per_provider (te_cfg (fst x)) > 0 \<and> live_of p (fst x) = 0 \<and> pending_of p (snd x) = 0
     \<and> int (te_per_provider (fst x) p) \<ge> tc_max_per_provider (te_cfg (fst x))"

lemma starved_effect: "tel_effect y z \<Longrightarrow> tel_ok (fst y) \<Longrightarrow> starved p y \<Longrightarrow> starved p z"
proof (induction rule: tel_effect.induct)
  case (Eff_Frame t t' pend)
  then show ?case by (simp add: starved_def same_frame_def live_of_def)
next
  case (Eff_Move t t' i s s' pend)
  then show ?case using live_of_update [OF Eff_Move(2,7,6)] by (simp add: starved_def same_frame_def)
next
  case (Eff_Admit cc t t' pend)
  note a = admit_call_sel [OF Eff_Admit(1)]
  have "cc_provider cc \<noteq> p" using a(3) Eff_Admit(3) by (auto simp: starved_def)
  then show ?case using Eff_Admit(3) by (simp add: starved_def a(1) live_of_def pending_of_def)
next
  case (Eff_Open t t' i s cc xs ys)
  then show ?case by (auto simp: starved_def same_frame_def live_of_def pending_of_def)
next
  case (Eff_Drop t xs cc ys)
  then show ?case by (auto simp: starved_def live_of_def pending_of_def split: if_splits)
next
  case (Eff_Close t t' i s pend)
  have ok: "tel_ok t" using Eff_Close by simp
  have "provider_of s \<noteq> p" using live_of_delete [OF ok Eff_Close(2,4), of p] Eff_Close(9) by (auto simp: starved_def)
  then show ?case using live_of_delete [OF ok Eff_Close(2,4), of p] Eff_Close(1,7,9) by (auto simp: starved_def same_frame_def)
qed

text \<open>C39.  A provider whose counter is at the cap with no call of its own - its calls were reaped or concluded by
  recovery, which release nothing - is refused for ever.\<close>

theorem starved_provider_is_refused_for_ever:
  assumes "tel_ok t" "te_phase t \<noteq> Tel_New" "starved p (t, pend)"
  shows "snd (admit_call p (fst (tel_run ops (t, pend)))) \<noteq> None"
proof -
  have "starved p (tel_run ops (t, pend))"
    by (rule tel_run_keeps [where I = "starved p"]) (use assms starved_effect in auto)
  then show ?thesis by (auto simp: starved_def admit_call_def)
qed

end
