(* ===== verification/TelSweep.thy ===== *)
theory TelSweep
  imports TelSlots
begin

text \<open>
  The maintenance pass of the telephony runtime over all its calls: which calls it ends, and which it never can.
\<close>

section \<open>One pass over the registry\<close>

text \<open>A pass applies one step to each call; the step of one call leaves the others alone.\<close>

locale registry_pass =
  fixes f :: "string \<Rightarrow> tel_runtime \<Rightarrow> tel_runtime"
  assumes step: "tel_ok t \<Longrightarrow> tel_effect\<^sup>*\<^sup>* (t, []) (f i t, [])"
    and others: "tel_ok t \<Longrightarrow> i \<noteq> j \<Longrightarrow> map_of (te_sessions (f j t)) i = map_of (te_sessions t) i"
begin

lemma step_ok: "tel_ok t \<Longrightarrow> tel_ok (f i t) \<and> same_frame t (f i t)"
  using tel_effects_ok [OF step] tel_effects_frame [OF step] by simp

lemma pass_ok: "tel_ok t \<Longrightarrow> tel_ok (fold f xs t) \<and> same_frame t (fold f xs t)"
proof (induction xs arbitrary: t)
  case (Cons x xs)
  then show ?case using Cons.IH [of "f x t"] step_ok [of t x] by (simp add: same_frame_def)
qed simp

lemma pass_others: "tel_ok t \<Longrightarrow> i \<notin> set xs \<Longrightarrow> map_of (te_sessions (fold f xs t)) i = map_of (te_sessions t) i"
proof (induction xs arbitrary: t)
  case (Cons x xs)
  then show ?case using Cons.IH [of "f x t"] step_ok [of t x] others [of t i x] by auto
qed simp

lemma pass_one:
  assumes ok: "tel_ok t" and d: "distinct xs" and i: "i \<in> set xs"
  obtains u where "tel_ok u" "same_frame t u" "map_of (te_sessions u) i = map_of (te_sessions t) i"
    "map_of (te_sessions (fold f xs t)) i = map_of (te_sessions (f i u)) i"
proof -
  obtain as bs where xs: "xs = as @ i # bs" using i by (meson split_list)
  have na: "i \<notin> set as" and nb: "i \<notin> set bs" using d xs by auto
  let ?u = "fold f as t"
  have u: "tel_ok ?u" "same_frame t ?u" using pass_ok [OF ok] by simp_all
  have "map_of (te_sessions (fold f xs t)) i = map_of (te_sessions (fold f bs (f i ?u))) i" by (simp add: xs)
  also have "\<dots> = map_of (te_sessions (f i ?u)) i" using pass_others [OF _ nb] step_ok [OF u(1)] by simp
  finally show ?thesis using that u pass_others [OF ok na] by blast
qed

end

lemma transition_others:
  "tel_ok t \<Longrightarrow> i \<noteq> j \<Longrightarrow> map_of (te_sessions (fst (tel_transition now j to r t))) i = map_of (te_sessions t) i"
  by (rule tel_transition_cases [of t now j to r]) (auto simp: AList.update_conv')

lemma end_others:
  assumes ok: "tel_ok t" and ne: "i \<noteq> j"
  shows "map_of (te_sessions (fst (tel_end now j to r t))) i = map_of (te_sessions t) i"
  by (rule tel_end_cases [OF ok, of now j to r]) (use ne in \<open>auto simp: AList.delete_conv'\<close>)

lemma end_gone:
  assumes "tel_ok t" "map_of (te_sessions t) i = Some s" "can_move (cs_state s) to" "reason_fault_of r = None"
  shows "map_of (te_sessions (fst (tel_end now i to r t))) i = None"
  by (rule tel_end_taken [OF assms, of now]) (simp add: AList.delete_conv')

interpretation sweep: registry_pass "sweep_one now" for now
proof
  fix t i assume ok: "tel_ok t"
  show "tel_effect\<^sup>*\<^sup>* (t, []) (sweep_one now i t, [])" by (rule eff_sweep_one [OF ok])
next
  fix t i j assume ok: "tel_ok t" and ne: "(i :: string) \<noteq> j"
  show "map_of (te_sessions (sweep_one now j t)) i = map_of (te_sessions t) i"
    using transition_others [OF ok ne] by (simp add: sweep_one_def Let_def split: option.split)
qed

interpretation reap: registry_pass "reap_one now" for now
proof
  fix t i assume ok: "tel_ok t"
  show "tel_effect\<^sup>*\<^sup>* (t, []) (reap_one now i t, [])" by (rule eff_reap_one [OF ok])
next
  fix t i j assume ok: "tel_ok t" and ne: "(i :: string) \<noteq> j"
  show "map_of (te_sessions (reap_one now j t)) i = map_of (te_sessions t) i"
    using end_others [OF ok ne] by (simp add: reap_one_def split: option.split)
qed

text \<open>The order in which the shards are walked is any order of the registered calls.\<close>

definition walks_all :: "(string list \<Rightarrow> string list) \<Rightarrow> tel_runtime \<Rightarrow> bool" where
  "walks_all walk t = (mset (walk (map fst (te_sessions t))) = mset (map fst (te_sessions t)))"

lemma walks_all_distinct: "tel_ok t \<Longrightarrow> walks_all walk t \<Longrightarrow> distinct (walk (map fst (te_sessions t)))"
  unfolding walks_all_def using mset_eq_imp_distinct_iff tel_ok_distinct by blast

lemma walks_all_set: "walks_all walk t \<Longrightarrow> set (walk (map fst (te_sessions t))) = dom (map_of (te_sessions t))"
  by (metis walks_all_def set_mset_mset dom_map_of_conv_image_fst list.set_map)

section \<open>Which calls a sweep moves\<close>

lemma lifecycle_reasons: "reason_fault_of ''lifecycle_deadline'' = None" "reason_fault_of ''reaped_after_timeout'' = None"
  by code_simp+

lemma timeout_ends: "can_move Call_Timeout Call_Ended" "\<not> can_move Call_Timeout Call_Timeout"
  by code_simp+

lemma sweep_one_overdue:
  assumes ok: "tel_ok t" and s: "map_of (te_sessions t) i = Some s" "can_move (cs_state s) Call_Timeout"
    and d: "0 < deadline_for (te_cfg t) (cs_state s)" "deadline_for (te_cfg t) (cs_state s) \<le> now - cs_updated s"
  shows "map_of (te_sessions (sweep_one now i t)) i = Some (moved_session now Call_Timeout ''lifecycle_deadline'' s)"
  using tel_transition_taken [OF ok s lifecycle_reasons(1), of now] s(1) d
  by (simp add: sweep_one_def Let_def AList.update_conv')

lemma sweep_one_stuck:
  assumes ok: "tel_ok t" and s: "map_of (te_sessions t) i = Some s" "\<not> can_move (cs_state s) Call_Timeout"
  shows "sweep_one now i t = t"
  using tel_transition_refused(1) [OF ok s] s(1) by (simp add: sweep_one_def Let_def)

lemma sweep_at:
  assumes ok: "tel_ok t" and w: "walks_all walk t" and s: "map_of (te_sessions t) i = Some s"
  obtains u where "tel_ok u" "te_cfg u = te_cfg t" "map_of (te_sessions u) i = Some s"
    "map_of (te_sessions (sweep_timeouts walk now t)) i = map_of (te_sessions (sweep_one now i u)) i"
proof -
  have i: "i \<in> set (walk (map fst (te_sessions t)))" using walks_all_set [OF w] s by auto
  show ?thesis
    by (rule sweep.pass_one [OF ok walks_all_distinct [OF ok w] i, of now])
      (use that s in \<open>auto simp: sweep_timeouts_def same_frame_def\<close>)
qed

lemma reap_at:
  assumes ok: "tel_ok t" and w: "walks_all walk t" and s: "map_of (te_sessions t) i = Some s"
  obtains u where "tel_ok u" "te_cfg u = te_cfg t" "map_of (te_sessions u) i = Some s"
    "map_of (te_sessions (reap_terminal walk now t)) i = map_of (te_sessions (reap_one now i u)) i"
proof -
  have i: "i \<in> set (walk (map fst (te_sessions t)))" using walks_all_set [OF w] s by auto
  show ?thesis
    by (rule reap.pass_one [OF ok walks_all_distinct [OF ok w] i, of now])
      (use that s in \<open>auto simp: reap_terminal_def same_frame_def\<close>)
qed

lemma sweep_pass_ok: "tel_ok t \<Longrightarrow> tel_ok (sweep_timeouts walk now t) \<and> te_cfg (sweep_timeouts walk now t) = te_cfg t"
  using sweep.pass_ok by (simp add: sweep_timeouts_def same_frame_def)

lemma reap_pass_ok: "tel_ok t \<Longrightarrow> tel_ok (reap_terminal walk now t) \<and> te_cfg (reap_terminal walk now t) = te_cfg t"
  using reap.pass_ok by (simp add: reap_terminal_def same_frame_def)

lemma tel_sweep_ok: "tel_ok t \<Longrightarrow> tel_ok (tel_sweep walk now t) \<and> te_cfg (tel_sweep walk now t) = te_cfg t"
  using sweep_pass_ok [of t walk now] reap_pass_ok [of "sweep_timeouts walk now t" walk now] by (simp add: tel_sweep_def)

text \<open>A sweep at its clock moves an overdue call to Timeout and does not reap it in the same pass.\<close>

lemma overdue_swept:
  assumes ok: "tel_ok t" and w: "\<And>u. walks_all walk u" and s: "map_of (te_sessions t) i = Some s" "can_move (cs_state s) Call_Timeout"
    and d: "0 < deadline_for (te_cfg t) (cs_state s)" "deadline_for (te_cfg t) (cs_state s) \<le> now - cs_updated s"
    and td: "0 < tc_teardown (te_cfg t)"
  shows "map_of (te_sessions (tel_sweep walk now t)) i = Some (moved_session now Call_Timeout ''lifecycle_deadline'' s)"
proof -
  let ?m = "moved_session now Call_Timeout ''lifecycle_deadline'' s"
  have 1: "map_of (te_sessions (sweep_timeouts walk now t)) i = Some ?m"
    by (rule sweep_at [OF ok w s(1), of now]) (use sweep_one_overdue s d in simp)
  have ok1: "tel_ok (sweep_timeouts walk now t)" "te_cfg (sweep_timeouts walk now t) = te_cfg t" using sweep_pass_ok [OF ok] by simp_all
  show ?thesis
    unfolding tel_sweep_def
    by (rule reap_at [OF ok1(1) w 1, of now]) (use ok1(2) td in \<open>simp add: reap_one_def\<close>)
qed

lemma timeout_reaped:
  assumes ok: "tel_ok t" and w: "\<And>u. walks_all walk u" and s: "map_of (te_sessions t) i = Some s" "cs_state s = Call_Timeout"
    and d: "tc_teardown (te_cfg t) \<le> now - cs_updated s"
  shows "map_of (te_sessions (tel_sweep walk now t)) i = None"
proof -
  have nt: "\<not> can_move (cs_state s) Call_Timeout" using timeout_ends s(2) by simp
  have 1: "map_of (te_sessions (sweep_timeouts walk now t)) i = Some s"
    by (rule sweep_at [OF ok w s(1), of now]) (use sweep_one_stuck nt in simp)
  have ok1: "tel_ok (sweep_timeouts walk now t)" "te_cfg (sweep_timeouts walk now t) = te_cfg t" using sweep_pass_ok [OF ok] by simp_all
  show ?thesis
    unfolding tel_sweep_def
  proof (rule reap_at [OF ok1(1) w 1, of now])
    fix u assume u: "tel_ok u" "te_cfg u = te_cfg (sweep_timeouts walk now t)" "map_of (te_sessions u) i = Some s"
      "map_of (te_sessions (reap_terminal walk now (sweep_timeouts walk now t))) i = map_of (te_sessions (reap_one now i u)) i"
    have "can_move (cs_state s) Call_Ended" using timeout_ends s(2) by simp
    from end_gone [OF u(1,3) this lifecycle_reasons(2), of now]
    have "map_of (te_sessions (reap_one now i u)) i = None" using u(2,3) ok1(2) s(2) d by (simp add: reap_one_def)
    then show "map_of (te_sessions (reap_terminal walk now (sweep_timeouts walk now t))) i = None" using u(4) by simp
  qed
qed

text \<open>A call that cannot time out is not touched.\<close>

lemma sweep_fold_untouched:
  "tel_ok t \<and> map_of (te_sessions t) i = Some s \<Longrightarrow> \<not> can_move (cs_state s) Call_Timeout
     \<Longrightarrow> tel_ok (fold (sweep_one now) xs t) \<and> map_of (te_sessions (fold (sweep_one now) xs t)) i = Some s"
proof (induction xs arbitrary: t)
  case (Cons x xs)
  then show ?case
    using Cons.IH [of "sweep_one now x t"] sweep.step_ok [of t now x] sweep.others [of t i x now]
      sweep_one_stuck [of t i s now] by (cases "x = i") auto
qed simp

lemma reap_fold_untouched:
  "tel_ok t \<and> map_of (te_sessions t) i = Some s \<Longrightarrow> cs_state s \<noteq> Call_Timeout
     \<Longrightarrow> tel_ok (fold (reap_one now) xs t) \<and> map_of (te_sessions (fold (reap_one now) xs t)) i = Some s"
proof (induction xs arbitrary: t)
  case (Cons x xs)
  have "reap_one now i t = t" using Cons.prems by (simp add: reap_one_def)
  then show ?case
    using Cons.prems Cons.IH [of "reap_one now x t"] reap.step_ok [of t now x] reap.others [of t i x now] by (cases "x = i") auto
qed simp

lemma sweep_untouched:
  assumes "tel_ok t \<and> map_of (te_sessions t) i = Some s" "\<not> can_move (cs_state s) Call_Timeout" "cs_state s \<noteq> Call_Timeout"
  shows "tel_ok (tel_sweep walk now t) \<and> map_of (te_sessions (tel_sweep walk now t)) i = Some s"
  unfolding tel_sweep_def reap_terminal_def sweep_timeouts_def
  by (rule reap_fold_untouched [OF sweep_fold_untouched [OF assms(1,2)] assms(3)])

section \<open>Properties\<close>


text \<open> Rejected, Transferred, Escalated and Recovery calls have a positive deadline and no way to time out: no
  number of sweeps at any time ever touches one.\<close>

theorem deadline_without_effect:
  assumes "tel_ok t" "tel_config_problems (te_cfg t) = []" "map_of (te_sessions t) i = Some s"
    "List.member [Call_Rejected, Call_Transferred, Call_Escalated, Call_Recovery] (cs_state s)"
  shows "0 < deadline_for (te_cfg t) (cs_state s)
    \<and> map_of (te_sessions (fold (\<lambda>(walk, now). tel_sweep walk now) passes t)) i = Some s"
proof
  have "0 < tc_teardown (te_cfg t)" "0 < tc_escalation (te_cfg t)" "0 < tc_recovery (te_cfg t)"
    using assms(2) by (auto simp: tel_config_problems_def tel_durations_def split: if_splits)
  then show "0 < deadline_for (te_cfg t) (cs_state s)" using assms(4) by (auto simp: deadline_for_def)
next
  have st: "\<not> can_move (cs_state s) Call_Timeout" "cs_state s \<noteq> Call_Timeout"
    using assms(4) by (auto simp: can_move_def call_transitions_def)
  have "tel_ok u \<and> map_of (te_sessions u) i = Some s \<Longrightarrow>
      map_of (te_sessions (fold (\<lambda>(walk, now). tel_sweep walk now) passes u)) i = Some s" for u
  proof (induction passes arbitrary: u)
    case (Cons p ps)
    obtain walk now where p: "p = (walk, now)" by (cases p)
    show ?case using Cons.IH [OF sweep_untouched [OF Cons.prems st, of walk now]] by (simp add: p)
  qed simp
  then show "map_of (te_sessions (fold (\<lambda>(walk, now). tel_sweep walk now) passes t)) i = Some s" using assms(1,3) by blast
qed

end
