(* ===== verification/TelRecovery.thy ===== *)
theory TelRecovery
  imports TelSweep
begin

text \<open>
  A restart: what one process wrote before it stopped is what the next one resumes.
\<close>

section \<open>What a snapshot pass leaves in the store\<close>

lemma fold_store_others:
  "i \<notin> ss_call ` set ps \<Longrightarrow> map_of (fold (\<lambda>p st. AList.update (ss_call p) p st) ps st) i = map_of st i"
  by (induction ps arbitrary: st) (auto simp: AList.update_conv')

lemma fold_store_mem:
  "distinct (map ss_call ps) \<Longrightarrow> p \<in> set ps \<Longrightarrow> map_of (fold (\<lambda>p st. AList.update (ss_call p) p st) ps st) (ss_call p) = Some p"
proof (induction ps arbitrary: st)
  case (Cons q ps)
  show ?case
  proof (cases "p = q")
    case True
    then have "ss_call p \<notin> ss_call ` set ps" using Cons.prems(1) by auto
    from fold_store_others [OF this, of "AList.update (ss_call p) p st"] True show ?thesis by (simp add: AList.update_conv')
  next
    case False
    then show ?thesis using Cons by auto
  qed
qed simp

lemma live_session_ids:
  assumes ok: "tel_ok t" and w: "walks_all walk t"
  shows "distinct (map cs_id (live_sessions walk t))"
proof -
  have ids: "map_of (te_sessions t) x = Some s \<Longrightarrow> cs_id s = x" for x s by (rule tel_ok_session(2) [OF ok])
  have "distinct xs \<Longrightarrow> distinct (map cs_id (List.map_filter (map_of (te_sessions t)) xs))" for xs
    by (induction xs) (auto simp: List.map_filter_simps map_filter_mem dest!: ids split: option.split)
  from this [OF walks_all_distinct [OF ok w]] show ?thesis by (rule distinct_map_filter)
qed

lemma live_session_mem:
  assumes "walks_all walk t" "map_of (te_sessions t) i = Some s" "tel_ok t"
  shows "s \<in> set (live_sessions walk t) \<longleftrightarrow> \<not> call_terminal (cs_state s)"
proof -
  have "call_fsm_ok (cs_fsm s)" by (rule tel_ok_session(4) [OF assms(3,2)])
  then have "is_terminal (cs_fsm s) = call_terminal (cs_state s)"
    by (auto simp: is_terminal_def call_fsm_ok_def call_terminal_def cs_state_def)
  then show ?thesis using assms walks_all_set [OF assms(1)] by (auto simp: map_filter_mem)
qed

lemma snapshot_all_stores:
  assumes ok: "tel_ok t" and w: "walks_all walk t" and st: "te_store t = Some st"
    and s: "map_of (te_sessions t) i = Some s" "\<not> call_terminal (cs_state s)"
  obtains st' where "te_store (fst (snapshot_all walk True t)) = Some st'" "map_of st' i = Some (call_snapshot_of s)"
proof -
  let ?ps = "stable_sort snapshot_before (map call_snapshot_of (live_sessions walk t))"
  have id: "ss_call (call_snapshot_of s) = i" using tel_ok_session(2) [OF ok s(1)] by (simp add: call_snapshot_of_def)
  have mem: "call_snapshot_of s \<in> set ?ps" using live_session_mem [OF w s(1) ok] s(2) by simp
  have "mset (map ss_call ?ps) = mset (map cs_id (live_sessions walk t))"
    by (simp add: call_snapshot_of_def comp_def multiset.map_comp)
  then have d: "distinct (map ss_call ?ps)" using live_session_ids [OF ok w] mset_eq_imp_distinct_iff by blast
  have ne: "?ps \<noteq> []" using mem by (metis empty_iff empty_set)
  show ?thesis
    by (rule that [of "fold (\<lambda>p st. AList.update (ss_call p) p st) ?ps st"])
      (use ne st fold_store_mem [OF d mem, of st] id in \<open>simp_all add: snapshot_all_def Let_def\<close>)
qed

section \<open>What recovery makes of the store\<close>

text \<open>The session a snapshot comes back as, if any.\<close>

definition recovered_session :: "(call_snapshot \<Rightarrow> bool) \<Rightarrow> (string \<Rightarrow> string) \<Rightarrow> instant \<Rightarrow> call_snapshot \<Rightarrow> call_session option" where
  "recovered_session alive mint now p =
     (case restore_session (mint (ss_call p)) now p of
        Inl e \<Rightarrow> None
      | Inr s \<Rightarrow> if alive p then Some (moved_session now Call_Connected ''resumed_after_restart'' s) else None)"

definition recovered_outcome :: "(call_snapshot \<Rightarrow> bool) \<Rightarrow> (string \<Rightarrow> string) \<Rightarrow> instant \<Rightarrow> call_snapshot \<Rightarrow> recovery_outcome" where
  "recovered_outcome alive mint now p =
     (case restore_session (mint (ss_call p)) now p of
        Inl e \<Rightarrow> Rec_Abandoned | Inr s \<Rightarrow> if alive p then Rec_Resumed else Rec_Concluded)"

lemma recover_one_fresh:
  assumes ok: "tel_ok t" and p: "snapshot_ok p" and fresh: "map_of (te_sessions t) (ss_call p) = None"
  obtains t' where "recover_one alive mint now p t = (t', recovered_outcome alive mint now p)" "tel_ok t'" "same_frame t t'"
    "map_of (te_sessions t') = (map_of (te_sessions t))(ss_call p := recovered_session alive mint now p)"
    "te_store t' = map_option (AList.delete (ss_call p)) (te_store t)"
proof (rule recover_one_cases [OF ok p, of mint now alive])
  fix e assume "restore_session (mint (ss_call p)) now p = Inl e"
     "recover_one alive mint now p t = (store_delete (ss_call p) t, Rec_Abandoned)"
  then show ?thesis using that [of "store_delete (ss_call p) t"] tel_ok_store_delete [OF ok] fresh
    by (simp add: recovered_outcome_def recovered_session_def store_delete_def same_frame_def fun_upd_idem)
next
  assume "map_of (te_sessions t) (ss_call p) \<noteq> None"
  then show ?thesis using fresh by simp
next
  fix s t'
  assume "restore_session (mint (ss_call p)) now p = Inr s" "alive p" "recover_one alive mint now p t = (t', Rec_Resumed)"
    "tel_ok t'" "same_frame t t'" "te_store t' = map_option (AList.delete (ss_call p)) (te_store t)"
    "map_of (te_sessions t') = (map_of (te_sessions t))(ss_call p \<mapsto> moved_session now Call_Connected ''resumed_after_restart'' s)"
  then show ?thesis using that [of t'] by (simp add: recovered_outcome_def recovered_session_def)
next
  fix s t'
  assume "restore_session (mint (ss_call p)) now p = Inr s" "\<not> alive p" "recover_one alive mint now p t = (t', Rec_Concluded)"
    "tel_ok t'" "same_frame t t'" "te_store t' = map_option (AList.delete (ss_call p)) (te_store t)"
    "map_of (te_sessions t') = map_of (te_sessions t)"
  then show ?thesis using that [of t'] fresh by (simp add: recovered_outcome_def recovered_session_def fun_upd_idem)
qed

lemma recover_each_fresh:
  assumes "tel_ok t" "list_all snapshot_ok ps" "distinct (map ss_call ps)"
    "\<And>p. p \<in> set ps \<Longrightarrow> map_of (te_sessions t) (ss_call p) = None"
  shows "snd (recover_each alive mint now ps t) = map (\<lambda>p. (ss_call p, recovered_outcome alive mint now p)) ps
    \<and> (\<forall>i. i \<notin> ss_call ` set ps \<longrightarrow> map_of (te_sessions (fst (recover_each alive mint now ps t))) i = map_of (te_sessions t) i)
    \<and> (\<forall>p\<in>set ps. map_of (te_sessions (fst (recover_each alive mint now ps t))) (ss_call p) = recovered_session alive mint now p)
    \<and> te_store (fst (recover_each alive mint now ps t)) = map_option (fold AList.delete (map ss_call ps)) (te_store t)"
  using assms
proof (induction ps arbitrary: t)
  case (Cons p ps)
  have p: "snapshot_ok p" and ps: "list_all snapshot_ok ps" using Cons.prems(2) by simp_all
  have np: "ss_call p \<notin> ss_call ` set ps" and d: "distinct (map ss_call ps)" using Cons.prems(3) by auto
  obtain t' where one: "recover_one alive mint now p t = (t', recovered_outcome alive mint now p)" "tel_ok t'"
    "map_of (te_sessions t') = (map_of (te_sessions t))(ss_call p := recovered_session alive mint now p)"
    "te_store t' = map_option (AList.delete (ss_call p)) (te_store t)"
    by (rule recover_one_fresh [OF Cons.prems(1) p]) (use Cons.prems(4) in simp_all)
  have fresh: "\<And>q. q \<in> set ps \<Longrightarrow> map_of (te_sessions t') (ss_call q) = None"
    using one(3) np Cons.prems(4) by (auto simp: image_iff)
  note IH = Cons.IH [OF one(2) ps d fresh]
  have rec: "recover_each alive mint now (p # ps) t =
      (fst (recover_each alive mint now ps t'), (ss_call p, recovered_outcome alive mint now p) # snd (recover_each alive mint now ps t'))"
    by (simp add: one(1) split_beta Let_def)
  have "map_of (te_sessions (fst (recover_each alive mint now ps t'))) (ss_call p) = recovered_session alive mint now p"
    using IH np one(3) by (simp add: fun_upd_same)
  then show ?case unfolding rec using IH one(3,4) by (auto simp: map_option.compositionality comp_def)
qed (simp add: option.map_id)

lemma fold_delete_all: "set (map fst st) \<subseteq> set ks \<Longrightarrow> fold AList.delete ks st = []"
proof (induction ks arbitrary: st)
  case (Cons k ks)
  have "set (map fst (AList.delete k st)) \<subseteq> set ks" using Cons.prems by (auto simp: AList.delete_eq)
  then show ?case using Cons.IH by simp
qed simp

lemma new_tel_ok: "new_tel_runtime c store = Inr t \<Longrightarrow> (case store of None \<Rightarrow> True | Some st \<Rightarrow> stored_ok st) \<Longrightarrow> tel_ok t"
  by (auto simp: new_tel_runtime_def tel_ok_def split: if_splits)

lemma stored_calls: "stored_ok st \<Longrightarrow> map ss_call (map snd st) = map fst st"
  by (auto simp: stored_ok_def list_all_iff)

text \<open>A start on a store, in terms of what each snapshot comes back as.\<close>

lemma started_on_store:
  assumes c: "new_tel_runtime c (Some st) = Inr t0" and st: "stored_ok st"
    and s: "tel_start alive mint now (t0\<lparr>te_providers := ps\<rparr>) = (u, None)"
  shows "map_of (te_sessions u) i = (case map_of st i of None \<Rightarrow> None | Some p \<Rightarrow> recovered_session alive mint now p)"
    "te_store u = Some []"
    "snd (recover_sessions alive mint now (t0\<lparr>te_providers := ps\<rparr>)) =
       map (\<lambda>p. (ss_call p, recovered_outcome alive mint now p)) (stable_sort snapshot_before (map snd st))"
proof -
  let ?t = "t0\<lparr>te_providers := ps\<rparr>" and ?ps = "stable_sort snapshot_before (map snd st)"
  have t0: "te_sessions ?t = []" "te_store ?t = Some st" using c by (auto simp: new_tel_runtime_def split: if_splits)
  have "tel_ok t0" using new_tel_ok [OF c] st by simp
  then have ok: "tel_ok ?t" by (simp add: tel_ok_def)
  have "mset (map ss_call ?ps) = mset (map fst st)" using stored_calls [OF st] by (metis mset_map mset_stable_sort)
  moreover have "distinct (map fst st)" using st by (simp add: stored_ok_def)
  ultimately have d: "distinct (map ss_call ?ps)" and keys: "set (map ss_call ?ps) = set (map fst st)"
    using mset_eq_imp_distinct_iff mset_eq_setD by blast+
  have fresh: "\<And>p. map_of (te_sessions ?t) (ss_call p) = None" by (simp only: t0 map_of.simps)
  note R = recover_each_fresh [OF ok stored_snapshots [OF st] d fresh, of alive mint now]
  let ?r = "recover_each alive mint now ?ps ?t"
  have rs: "recover_sessions alive mint now ?t = ?r" by (simp add: recover_sessions_def t0)
  have u: "te_sessions u = te_sessions (fst ?r) \<and> te_store u = te_store (fst ?r)"
    using s by (cases ?r) (auto simp: tel_start_def rs Let_def split: if_splits)
  have mem: "p \<in> set ?ps" "ss_call p = i" if "map_of st i = Some p" for p
    using map_of_SomeD [OF that] st by (force simp: stored_ok_def list_all_iff)+
  have "fold AList.delete (map ss_call ?ps) st = []" by (rule fold_delete_all) (simp only: keys order.refl)
  then show "te_store u = Some []" using R t0(2) u by simp
  show "snd (recover_sessions alive mint now ?t) = map (\<lambda>p. (ss_call p, recovered_outcome alive mint now p)) ?ps"
    unfolding rs using R by blast
  show "map_of (te_sessions u) i = (case map_of st i of None \<Rightarrow> None | Some p \<Rightarrow> recovered_session alive mint now p)"
  proof (cases "map_of st i")
    case None
    then have "i \<notin> ss_call ` set ?ps" using keys by (simp add: map_of_eq_None_iff)
    then show ?thesis using R t0(1) u None by simp
  next
    case (Some p)
    have "map_of (te_sessions (fst ?r)) (ss_call p) = recovered_session alive mint now p" using R mem(1) [OF Some] by blast
    then show ?thesis using u Some mem(2) [OF Some] by simp
  qed
qed

section \<open>Properties\<close>

text \<open>C36.  A restart.  A live call of a runtime that snapshots and stops is, in a new process started on that store, a
  connected session of the same call if the carrier says it is up, and absent if not; the store is empty again.\<close>

theorem restart_resumes_live_calls:
  assumes "tel_ok t" "te_store t = Some st" "walks_all walk t"
    "new_tel_runtime c (te_store (fst (snapshot_all walk True t))) = Inr t0"
    "tel_start alive mint now (t0\<lparr>te_providers := ps\<rparr>) = (u, None)"
    "map_of (te_sessions t) i = Some s" "\<not> call_terminal (cs_state s)"
  shows "te_store u = Some []
    \<and> (case map_of (te_sessions u) i of
         None \<Rightarrow> \<not> alive (call_snapshot_of s)
       | Some s' \<Rightarrow> alive (call_snapshot_of s) \<and> cs_state s' = Call_Connected \<and> cs_id s' = i \<and> cs_ctx s' = cs_ctx s
           \<and> cs_correlation s' = cs_correlation s \<and> cs_created s' = cs_created s \<and> cs_legs s' = cs_legs s
           \<and> cs_attrs s' = cs_attrs s \<and> cs_resumes s' = cs_resumes s + 1 \<and> cs_session s' = mint i)"
proof -
  obtain st' where st': "te_store (fst (snapshot_all walk True t)) = Some st'" "map_of st' i = Some (call_snapshot_of s)"
    by (rule snapshot_all_stores [OF assms(1,3,2,6,7)])
  have "tel_ok (fst (snapshot_all walk True t))"
    using tel_effects_ok [OF eff_snapshot [of t "[]" walk True]] assms(1) by simp
  then have ok': "stored_ok st'" using st'(1) by (rule tel_ok_store)
  note S = started_on_store [OF assms(4) [unfolded st'(1)] ok' assms(5)]
  have so: "cs_id s = i" "call_id_valid i" "context_problems (cs_ctx s) = []"
    using tel_ok_session [OF assms(1,6)] by (simp_all add: session_ok_def)
  let ?r = "s\<lparr>cs_session := mint i, cs_fsm := call_machine Call_Recovery, cs_updated := now, cs_ended := None,
     cs_resumes := cs_resumes s + 1, cs_end_reason := [],
     cs_seq := (if cs_history s = [] then 0 else tr_seq (last (cs_history s)))\<rparr>"
  have "ss_call (call_snapshot_of s) = i" using so by (simp add: call_snapshot_of_def)
  then have "recovered_session alive mint now (call_snapshot_of s) =
      (if alive (call_snapshot_of s) then Some (moved_session now Call_Connected ''resumed_after_restart'' ?r) else None)"
    using so assms(7) restore_continues_the_call [of "mint i" now s] by (simp add: recovered_session_def)
  then show ?thesis using S(1) [of i] S(2) st'(2) so(1) by (simp add: moved_session_def cs_state_def)
qed

interpretation snapshots: strict_weak snapshot_before
  by unfold_locales (auto simp: snapshot_before_def split: if_splits)

lemma snapshots_told_apart:
  assumes "stored_ok st" "p \<in> set (map snd st)" "q \<in> set (map snd st)" "p \<noteq> q"
  shows "snapshot_before p q \<or> snapshot_before q p"
proof -
  have "distinct (map ss_call (map snd st))" unfolding stored_calls [OF assms(1)] using assms(1) by (simp add: stored_ok_def)
  then have "ss_call p \<noteq> ss_call q" using assms(2-4) by (metis distinct_map inj_on_def)
  then show ?thesis by (auto simp: snapshot_before_def)
qed

text \<open>C38.  A start recovers every stored snapshot exactly once, and neither the outcomes nor their order nor the sessions
  depend on the order in which the store lists them.\<close>

theorem recovery_is_deterministic:
  assumes "new_tel_runtime c (Some st) = Inr t0" "new_tel_runtime c (Some st') = Inr t0'" "stored_ok st" "mset st' = mset st"
    "tel_start alive mint now (t0\<lparr>te_providers := ps\<rparr>) = (u, None)"
    "tel_start alive mint now (t0'\<lparr>te_providers := ps\<rparr>) = (u', None)"
  shows "snd (recover_sessions alive mint now (t0\<lparr>te_providers := ps\<rparr>)) = snd (recover_sessions alive mint now (t0'\<lparr>te_providers := ps\<rparr>))
    \<and> mset (map fst (snd (recover_sessions alive mint now (t0\<lparr>te_providers := ps\<rparr>)))) = mset (map fst st)
    \<and> map_of (te_sessions u) = map_of (te_sessions u')"
proof -
  have dist: "distinct (map fst st)" "distinct (map fst st')"
    using assms(3,4) mset_eq_imp_distinct_iff [of "map fst st'" "map fst st"] by (simp_all add: stored_ok_def)
  have set: "set st' = set st" using assms(4) by (rule mset_eq_setD)
  have ok': "stored_ok st'" using assms(3) dist set by (simp add: stored_ok_def list_all_iff)
  note S = started_on_store [OF assms(1,3,5)] and S' = started_on_store [OF assms(2) ok' assms(6)]
  have "mset (map snd st) = mset (map snd st')" using assms(4) by simp
  then have sorts: "stable_sort snapshot_before (map snd st) = stable_sort snapshot_before (map snd st')"
    by (rule snapshots.sort_unique) (rule snapshots_told_apart [OF assms(3)])
  have "map_of st' = map_of st" using dist set by (simp add: map_of_inject_set)
  then have "map_of (te_sessions u) = map_of (te_sessions u')" by (simp add: fun_eq_iff S(1) S'(1))
  moreover have "mset (map fst (snd (recover_sessions alive mint now (t0\<lparr>te_providers := ps\<rparr>)))) = mset (map fst st)"
  proof -
    have "mset (map ss_call (stable_sort snapshot_before (map snd st))) = mset (map fst st)"
      unfolding stored_calls [OF assms(3), symmetric] by (simp add: multiset.map_comp)
    then show ?thesis unfolding S(3) by (simp add: comp_def)
  qed
  ultimately show ?thesis unfolding S(3) S'(3) sorts by simp
qed

end
