(* ===== verification/TelProps.thy ===== *)
theory TelProps
  imports TelRecovery
begin

text \<open>
  The telephony runtime as a whole: the invariant of every run, how calls end, the events, and runs that show
  how slots are lost.
\<close>

section \<open>Every run\<close>


section \<open>Ending a call\<close>

lemma can_fail: "\<not> call_terminal s \<Longrightarrow> can_move s Call_Failed"
  by (cases s) (auto simp: call_terminal_def can_move_def call_transitions_def)

lemma cannot_end:
  "s \<in> {Call_Idle, Call_Incoming, Call_Ringing, Call_Screening, Call_Accepted} \<longleftrightarrow>
     \<not> can_move s Call_Ended \<and> \<not> call_terminal s"
  by (cases s) (auto simp: call_terminal_def can_move_def call_transitions_def)

lemma end_refused_here:
  assumes "tel_ok t" "map_of (te_sessions t) i = Some s" "\<not> can_move (cs_state s) to"
  shows "fst (tel_end now i to r t) = t" "snd (tel_end now i to r t) \<noteq> None"
  using tel_transition_refused [OF assms, of now r] by (cases "tel_transition now i to r t"; auto simp: tel_end_def)+

text \<open> Failing a live call in any state removes it, returns its provider's slot and forgets its snapshot.\<close>

theorem fail_ends_any_live_call:
  assumes "tel_ok t" "map_of (te_sessions t) i = Some s" "\<not> call_terminal (cs_state s)" "reason_fault_of r = None"
  shows "snd (coordinator_fail now i r t) = None
    \<and> map_of (te_sessions (fst (coordinator_fail now i r t))) = (map_of (te_sessions t))(i := None)
    \<and> te_live (fst (coordinator_fail now i r t)) = te_live t - 1
    \<and> te_per_provider (fst (coordinator_fail now i r t)) (provider_of s) = te_per_provider t (provider_of s) - 1
    \<and> te_store (fst (coordinator_fail now i r t)) = map_option (AList.delete i) (te_store t)"
proof -
  obtain t2 where t2: "tel_end now i Call_Failed r t = (t2, None)" "te_sessions t2 = AList.delete i (te_sessions t)"
    "te_live t2 = te_live t - 1" "te_store t2 = te_store t" "te_per_provider t2 = te_per_provider t"
    by (rule tel_end_taken [OF assms(1,2) can_fail [OF assms(3)] assms(4), of now]) blast
  have "coordinator_fail now i r t = (store_delete i (release_call (provider_of s) t2), None)"
    using assms(2) t2(1) by (simp add: coordinator_fail_def coordinator_finish_def tel_fail_def)
  then show ?thesis by (simp add: store_delete_def t2 AList.delete_conv')
qed

text \<open> Ending a call that is not yet answered is refused and leaves it where it is - although the carrier has by
  then been asked to hang up.\<close>

theorem end_before_answer_is_refused:
  assumes "tel_ok t" "map_of (te_sessions t) i = Some s"
    "List.member [Call_Idle, Call_Incoming, Call_Ringing, Call_Screening, Call_Accepted] (cs_state s)"
  shows "fst (coordinator_end now i r t) = t \<and> snd (coordinator_end now i r t) \<noteq> None"
proof -
  have "\<not> can_move (cs_state s) Call_Ended" using assms(3) cannot_end [of "cs_state s"] by auto
  note e = end_refused_here [OF assms(1,2) this, of now r]
  obtain u err where te: "tel_end now i Call_Ended r t = (u, Some err)" "u = t" using e by (cases "tel_end now i Call_Ended r t") auto
  show ?thesis
    using te assms(2) by (auto simp: coordinator_end_def coordinator_finish_def tel_disconnect_def split: option.split)
qed

section \<open>Events\<close>

text \<open>The number of an event is the length of the kept history, which stops at 128: from then on every event of a call
  has the same number.\<close>

theorem event_numbers_stop:
  assumes "tel_ok t" "map_of (te_sessions t) i = Some s" "length (cs_history s) = 128"
    "can_move (cs_state s) to" "reason_fault_of r = None" "state_event to \<noteq> None"
  shows "te_events (fst (tel_transition now i to r t)) \<noteq> []
    \<and> ev_sequence (last (te_events (fst (tel_transition now i to r t)))) = 128
    \<and> (case map_of (te_sessions (fst (tel_transition now i to r t))) i of None \<Rightarrow> False
       | Some s' \<Rightarrow> length (cs_history s') = 128)"
proof -
  have "length (append_record (cs_history s) x) = 128" for x using assms(3) by (simp add: append_record_def)
  then show ?thesis
    using tel_transition_taken [OF assms(1,2,4,5), of now] assms(6) by (auto simp: emit_event_def AList.update_conv')
qed

section \<open>Runs\<close>

definition sip_call :: call_context where
  "sip_call = \<lparr>cc_caller = \<lparr>ep_ref = ''a'', ep_display = [], ep_country = []\<rparr>,
     cc_callee = \<lparr>ep_ref = ''b'', ep_display = [], ep_country = []\<rparr>, cc_direction = Some Inbound, cc_channel = Some Chan_Sip,
     cc_provider = ''sip'', cc_capabilities = [Cap_Answer, Cap_Hangup], cc_metadata = [], cc_tags = []\<rparr>"

definition one_call_config :: tel_config where
  "one_call_config = default_tel_config\<lparr>tc_max_calls := 1, tc_max_per_provider := 1, tc_high_water := 1\<rparr>"

definition two_call_config :: tel_config where
  "two_call_config = default_tel_config\<lparr>tc_max_calls := 1, tc_max_per_provider := 0, tc_high_water := 1\<rparr>"

definition sip_new :: "tel_config \<Rightarrow> (string \<times> call_snapshot) list option \<Rightarrow> tel_runtime" where
  "sip_new c store = \<lparr>te_cfg = c, te_providers = [], te_sessions = [], te_live = 0, te_total = 0, te_per_provider = (\<lambda>_. 0),
     te_store = store, te_events = [], te_phase = Tel_New, te_admitted = 0, te_shed = 0, te_recovered = 0\<rparr>"

definition sip_up :: "tel_config \<Rightarrow> tel_runtime" where
  "sip_up c = (sip_new c None)\<lparr>te_providers := [''sip''], te_phase := Tel_Running\<rparr>"

lemma configs_valid: "tel_config_problems one_call_config = []" "tel_config_problems two_call_config = []"
  "tel_config_problems default_tel_config = []"
  by code_simp+

lemma sip_new_made: "tel_config_problems c = [] \<Longrightarrow> new_tel_runtime c store = Inr (sip_new c store)"
  by (simp add: new_tel_runtime_def sip_new_def)

lemma sip_started: "tel_start alive mint now ((sip_new c None)\<lparr>te_providers := [''sip'']\<rparr>) = (sip_up c, None)"
  by (simp add: tel_start_def sip_new_def sip_up_def recover_sessions_def)

lemma sip_up_ok: "tel_ok (sip_up c)" "te_phase (sip_up c) \<noteq> Tel_New"
  by (simp_all add: sip_up_def sip_new_def tel_ok_def)

definition call_ids :: "string \<Rightarrow> minted" where
  "call_ids i = (i, ''s'', ''c'')"

text \<open>Two admissions that both run before either call starts: the runtime has room for one and takes both.\<close>

definition two_at_once :: tel_system where
  "two_at_once = tel_run [Op_Admit sip_call, Op_Admit sip_call, Op_Start 0 (call_ids ''call_1'') 1, Op_Start 0 (call_ids ''call_2'') 1]
     (sip_up two_call_config, [])"

theorem capacity_can_be_exceeded:
  "tel_capacity (te_cfg (fst two_at_once)) = 1 \<and> te_live (fst two_at_once) = 2"
  by code_simp

text \<open>A carrier that refuses to answer leaves the failed call registered.\<close>

definition unanswered :: tel_system where
  "unanswered = tel_run [Op_Admit sip_call, Op_Start 0 (call_ids ''call_1'') 1, Op_Move 2 ''call_1'' Ctl_Ring,
     Op_Accept 3 ''call_1'' ''ok'' False] (sip_up one_call_config, [])"

lemma unanswered_is_dead: "dead_call ''call_1'' unanswered" "snd unanswered = []"
  by code_simp+

text \<open>A call that times out is reaped and its slot is gone: the provider has no call and is refused.\<close>

definition timed_out :: tel_system where
  "timed_out = tel_run [Op_Admit sip_call, Op_Start 0 (call_ids ''call_1'') 1, Op_Sweep_One 10000000000 ''call_1'',
     Op_Reap_One 30000000000 ''call_1''] (sip_up one_call_config, [])"

lemma timed_out_is_starved: "starved ''sip'' timed_out" "te_live (fst timed_out) = 0" "snd timed_out = []"
  by code_simp+

text \<open>An escalated call with a snapshot store behind it.\<close>

definition screened :: tel_system where
  "screened = tel_run [Op_Admit sip_call, Op_Start 0 (call_ids ''call_1'') 1, Op_Move 2 ''call_1'' Ctl_Screen]
     ((sip_up default_tel_config)\<lparr>te_store := Some []\<rparr>, [])"

lemma screened_state:
  "map_option cs_state (map_of (te_sessions (fst screened)) ''call_1'') = Some Call_Screening" "te_store (fst screened) = Some []"
  by code_simp+

section \<open>The properties at concrete runs\<close>

lemma run_pair: "x = (fst x, [])" if "snd x = []" for x :: tel_system
  using that by (cases x) simp

lemma sip_run_ok: "tel_ok (fst (tel_run ops (sip_up c, [])))" "te_phase (fst (tel_run ops (sip_up c, []))) \<noteq> Tel_New"
proof -
  have e: "tel_effect\<^sup>*\<^sup>* (sip_up c, []) (tel_run ops (sip_up c, []))" by (rule tel_run_effects) (simp_all add: sip_up_ok)
  show "tel_ok (fst (tel_run ops (sip_up c, [])))" using tel_effects_ok [OF e] by (simp add: sip_up_ok)
  show "te_phase (fst (tel_run ops (sip_up c, []))) \<noteq> Tel_New" using tel_effects_frame [OF e] sip_up_ok by (simp add: same_frame_def)
qed

lemma unanswered_ok: "tel_ok (fst unanswered)" "te_phase (fst unanswered) \<noteq> Tel_New"
  unfolding unanswered_def by (rule sip_run_ok)+

lemma timed_out_ok: "tel_ok (fst timed_out)" "te_phase (fst timed_out) \<noteq> Tel_New"
  unfolding timed_out_def by (rule sip_run_ok)+

lemma screened_ok: "tel_ok (fst screened)" "te_cfg (fst screened) = default_tel_config"
proof -
  have "tel_ok (fst (tel_run ops ((sip_up default_tel_config)\<lparr>te_store := Some []\<rparr>, [])))" for ops
    unfolding tel_run_def by (rule tel.run_inv) (simp add: sip_up_def sip_new_def tel_ok_def stored_ok_def)
  then show "tel_ok (fst screened)" unfolding screened_def .
  have "te_cfg (fst (tel_run ops x)) = te_cfg (fst x)" if "tel_ok (fst x)" "te_phase (fst x) \<noteq> Tel_New" for ops x
    using tel_effects_frame [OF tel_run_effects [OF that]] by (simp add: same_frame_def)
  then have "te_cfg (fst (tel_run ops ((sip_up default_tel_config)\<lparr>te_store := Some []\<rparr>, []))) = default_tel_config" for ops
    by (simp add: sip_up_def sip_new_def tel_ok_def stored_ok_def)
  then show "te_cfg (fst screened) = default_tel_config" unfolding screened_def .
qed

definition screened_call :: call_session where
  "screened_call = (case map_of (te_sessions (fst screened)) ''call_1'' of Some s \<Rightarrow> s)"

lemma screened_call_at: "map_of (te_sessions (fst screened)) ''call_1'' = Some screened_call" "cs_state screened_call = Call_Screening"
  using screened_state(1) by (auto simp: screened_call_def)

lemma screened_updated: "cs_updated screened_call = 2"
  by code_simp

lemma every_order: "walks_all (\<lambda>ks. rev ks) u"
  by (simp add: walks_all_def)


theorem provider_cap_holds_witness:
  "int (live_of ''sip'' (fst (tel_run [Op_Admit sip_call, Op_Admit sip_call, Op_Start 0 (call_ids ''call_1'') 1] (sip_up one_call_config, []))))
     \<le> tc_max_per_provider one_call_config"
  by (rule provider_cap_holds [OF sip_new_made [OF configs_valid(1)] _ sip_started]) (simp_all add: one_call_config_def)

theorem dead_call_holds_its_slot_witness:
  "dead_call ''call_1'' (tel_run [Op_End 4 ''call_1'' ''bye'', Op_Fail 5 ''call_1'' ''bye''] (fst unanswered, []))
   \<and> te_live (fst (tel_run [Op_End 4 ''call_1'' ''bye'', Op_Fail 5 ''call_1'' ''bye''] (fst unanswered, []))) \<ge> 1"
  by (rule dead_call_holds_its_slot [OF unanswered_ok])
    (use unanswered_is_dead run_pair [OF unanswered_is_dead(2)] in simp)

theorem starved_provider_is_refused_for_ever_witness:
  "snd (admit_call ''sip'' (fst (tel_run [Op_Sweep_One 40000000000 ''call_1'', Op_Admit sip_call] (fst timed_out, [])))) \<noteq> None"
  by (rule starved_provider_is_refused_for_ever [OF timed_out_ok])
    (use timed_out_is_starved run_pair [OF timed_out_is_starved(3)] in simp)


theorem fail_ends_any_live_call_witness:
  "snd (coordinator_fail 5 ''call_1'' ''bye'' (fst screened)) = None
   \<and> map_of (te_sessions (fst (coordinator_fail 5 ''call_1'' ''bye'' (fst screened)))) ''call_1'' = None"
proof -
  have r: "reason_fault_of ''bye'' = None" by code_simp
  have n: "\<not> call_terminal (cs_state screened_call)" by (simp add: screened_call_at call_terminal_def)
  show ?thesis using fail_ends_any_live_call [OF screened_ok(1) screened_call_at(1) n r, of 5] by simp
qed

theorem end_before_answer_is_refused_witness:
  "fst (coordinator_end 5 ''call_1'' ''bye'' (fst screened)) = fst screened
   \<and> snd (coordinator_end 5 ''call_1'' ''bye'' (fst screened)) \<noteq> None"
  by (rule end_before_answer_is_refused [OF screened_ok(1) screened_call_at(1)]) (simp add: screened_call_at)

definition escalated :: tel_system where
  "escalated = tel_run [Op_Move 3 ''call_1'' (Ctl_Escalate ''help'')] screened"

lemma escalated_state: "map_option cs_state (map_of (te_sessions (fst escalated)) ''call_1'') = Some Call_Escalated"
  by code_simp

lemma escalated_ok: "tel_ok (fst escalated)" "tel_config_problems (te_cfg (fst escalated)) = []"
proof -
  show "tel_ok (fst escalated)" unfolding escalated_def tel_run_def by (rule tel.run_inv [OF screened_ok(1)])
  show "tel_config_problems (te_cfg (fst escalated)) = []" by code_simp
qed

theorem deadline_without_effect_witness:
  "map_option cs_state (map_of (te_sessions (fold (\<lambda>(walk, now). tel_sweep walk now)
      [(\<lambda>ks. ks, 1000000000000), (\<lambda>ks. rev ks, 2000000000000)] (fst escalated))) ''call_1'') = Some Call_Escalated"
proof -
  obtain s where s: "map_of (te_sessions (fst escalated)) ''call_1'' = Some s" "cs_state s = Call_Escalated"
    using escalated_state by auto
  show ?thesis
    using deadline_without_effect [OF escalated_ok s(1), of "[(\<lambda>ks. ks, 1000000000000), (\<lambda>ks. rev ks, 2000000000000)]"] s(2)
    by simp
qed

definition stored_call :: "string \<Rightarrow> instant \<Rightarrow> call_snapshot" where
  "stored_call i created = (call_snapshot_of screened_call)\<lparr>ss_call := i, ss_created := created\<rparr>"

definition call_store :: "(string \<times> call_snapshot) list" where
  "call_store = [(''call_2'', stored_call ''call_2'' 7), (''call_1'', stored_call ''call_1'' 5)]"

lemma call_store_ok: "stored_ok call_store" "stored_ok (rev call_store)"
  by code_simp+

definition sip_restarted :: "(string \<times> call_snapshot) list \<Rightarrow> tel_runtime" where
  "sip_restarted st = fst (tel_start (\<lambda>_. True) (\<lambda>i. i @ ''r'') 100 ((sip_new default_tel_config (Some st))\<lparr>te_providers := [''sip'']\<rparr>))"

lemma sip_restarts:
  "tel_start (\<lambda>_. True) (\<lambda>i. i @ ''r'') 100 ((sip_new default_tel_config (Some st))\<lparr>te_providers := [''sip'']\<rparr>) = (sip_restarted st, None)"
  by (simp add: sip_restarted_def tel_start_def sip_new_def split_beta Let_def)

theorem restart_resumes_live_calls_witness:
  "\<exists>st. te_store (fst (snapshot_all (\<lambda>ks. rev ks) True (fst screened))) = Some st
     \<and> te_store (sip_restarted st) = Some [] \<and> map_of (te_sessions (sip_restarted st)) ''call_1'' \<noteq> None"
proof -
  have n: "\<not> call_terminal (cs_state screened_call)" by (simp add: screened_call_at call_terminal_def)
  obtain st where st: "te_store (fst (snapshot_all (\<lambda>ks. rev ks) True (fst screened))) = Some st"
    by (rule snapshot_all_stores [OF screened_ok(1) every_order screened_state(2) screened_call_at(1) n])
  show ?thesis
    using restart_resumes_live_calls [OF screened_ok(1) screened_state(2) every_order sip_new_made [OF configs_valid(3)]
        sip_restarts [of st, folded st] screened_call_at(1) n] st
    by (auto split: option.splits)
qed

theorem recovery_is_deterministic_witness:
  "mset (map fst (snd (recover_sessions (\<lambda>_. True) (\<lambda>i. i @ ''r'') 100
       ((sip_new default_tel_config (Some call_store))\<lparr>te_providers := [''sip'']\<rparr>)))) = mset [''call_1'', ''call_2'']
   \<and> map_of (te_sessions (sip_restarted call_store)) = map_of (te_sessions (sip_restarted (rev call_store)))"
proof -
  have m: "mset (rev call_store) = mset call_store" "mset (map fst call_store) = mset [''call_1'', ''call_2'']"
    by (simp_all add: call_store_def)
  note d = recovery_is_deterministic [OF sip_new_made [OF configs_valid(3)] sip_new_made [OF configs_valid(3)]
      call_store_ok(1) m(1) sip_restarts sip_restarts]
  show ?thesis using d unfolding m(2) by blast
qed

end
