(* ===== verification/Spec2Isabelle.thy ===== *)
theory Spec2Isabelle
  imports RtFsm SessionFsm MediaFrame RingBuffer Jitter Breaker Fence IdentityRepo IdentityService
    IdentityProps ToolValue ToolScheduler ToolExecutor ToolPlanner
    ToolDispatcher ToolPermission GovEngine TelProps
begin

text \<open>
  A model of the Go core of the Aegis voice agent, a service that answers a subscriber's calls.
  Everything here is translated from the Go sources; Kotlin, Python, SQL and generated code are
  not modelled.

  \<^bold>\<open>The program and its parts.\<close>  A subscriber signs in with a one-time code sent to the phone, and
  may bind the session to a device key (\<^verbatim>\<open>services/go/identity/internal/app\<close>).  Calls reach the
  platform through a telephony gateway of which one process at a time may own the line; the
  owner is decided by a lock in the database (\<^verbatim>\<open>services/go/telephony-gateway/internal/fence\<close>).
  The audio of a call is cut into frames, re-ordered by an adaptive jitter buffer and carried
  between the stages by ring buffers (\<^verbatim>\<open>packages/go/media\<close>).  A voice session is a state machine
  with one table of legal transitions (\<^verbatim>\<open>packages/go/voice\<close>); the other runtimes declare theirs on a
  generic machine, and every call to an external provider goes through a circuit breaker and a
  retry policy (\<^verbatim>\<open>packages/go/runtime\<close>).  What the agent does for the subscriber it does through
  tools, each execution of which is admitted, deduplicated by a ledger and undone if its plan fails
  (\<^verbatim>\<open>packages/go/toolruntime\<close>).  Before anything is said, remembered, executed or sent, the
  governance engine is asked (\<^verbatim>\<open>packages/go/governance\<close>): policies decide by scope and priority, risk and
  privacy can only make the decision stricter, consent is looked up, and people are asked.  The calls
  themselves are held by the telephony runtime (\<^verbatim>\<open>packages/go/telephony\<close>), which admits them, moves them
  through their states, ends the overdue ones and recovers the live ones after a restart.

  \<^bold>\<open>The theories.\<close>

  \<^item> \<^verbatim>\<open>Prelude\<close>: durations and instants (nanoseconds, unbounded integers), Go's truncating division,
    running a list of operations, and the interfaces: \<open>invariant_ops\<close> (operations that keep an
    invariant), \<open>stable_ops\<close> (a fact that, once true, no operation undoes), \<open>declared_machine\<close> (a
    machine that moves along declared edges and stays in its final states) and \<open>bounded_queue\<close>
    (what a consumer of a FIFO relies on).
  \<^item> \<^verbatim>\<open>RtFsm\<close> (\<^verbatim>\<open>runtime/fsm.go\<close>): a specification and its problems, \<^verbatim>\<open>NewFSM\<close>, \<^verbatim>\<open>To\<close> and the
    queries.  The lemmas show that what \<^verbatim>\<open>NewFSM\<close> accepts is well formed and stays so; the
    interpretation \<open>rt\<close> of \<open>declared_machine\<close> gives reachability along declared edges.
  \<^item> \<^verbatim>\<open>SessionFsm\<close> (\<^verbatim>\<open>voice/fsm.go\<close>, \<^verbatim>\<open>state.go\<close>, \<^verbatim>\<open>ids.go\<close>, \<^verbatim>\<open>classifications.go\<close>): the states, the
    declared edges and the compiled table, and \<^verbatim>\<open>To\<close> with its history, counters and publication.
    The table is compared with the declaration by evaluation; the history is shown to be a trace.
  \<^item> \<^verbatim>\<open>MediaFrame\<close> (\<^verbatim>\<open>media/frame.go\<close>, \<^verbatim>\<open>errors.go\<close>): formats, byte and duration arithmetic, validity.
  \<^item> \<^verbatim>\<open>RingBuffer\<close> (\<^verbatim>\<open>media/buffer.go\<close>): slots, cursors and bytes as the code lays them out.  A
    well-formedness invariant holds for every run; for payloads of one length the layout is
    exact and the ring refines a bounded queue (interpretation \<open>rb\<close>).
  \<^item> \<^verbatim>\<open>Jitter\<close> (\<^verbatim>\<open>media/jitter.go\<close>): the estimator and the buffer.  Its invariant orders the frames
    held and keeps them ahead of the playout position; the properties follow by induction over
    operations.
  \<^item> \<^verbatim>\<open>Breaker\<close> (\<^verbatim>\<open>runtime/breaker.go\<close>, \<^verbatim>\<open>errors.go\<close>): the breaker, and a system that adds the
    clock and the tickets \<^verbatim>\<open>Allow\<close> has handed out, so that reports come late and in any order.
  \<^item> \<^verbatim>\<open>Fence\<close> (\<^verbatim>\<open>fence.go\<close>): the ownership state of a process, and a step relation over any number
    of processes, their database sessions and the lock server.
  \<^item> \<^verbatim>\<open>IdentityRepo\<close> (\<^verbatim>\<open>identity.go\<close>, \<^verbatim>\<open>erasure_memory.go\<close>): the repository and its invariant over any
    sequence of calls, and facts no call undoes, each an interpretation of \<open>stable_ops\<close>.
  \<^item> \<^verbatim>\<open>IdentityService\<close> (\<^verbatim>\<open>identity.go\<close>, \<^verbatim>\<open>erasure.go\<close>, the tier decision of \<^verbatim>\<open>integrity.go\<close>): each
    method is a program over the calls it makes, in the order the code makes them, so that the
    interleaving of requests on one repository can be stated: \<open>runs\<close> relates a program, the calls
    with their replies and its result; \<open>logged\<close> is a log of calls of many requests with
    the replies the repository gave or a failure of the store.
  \<^item> \<^verbatim>\<open>IdentityProps\<close>: what sign-in, enrolment, refresh, deletion and the HTTP answers guarantee.
  \<^item> \<^verbatim>\<open>ToolValue\<close> (\<^verbatim>\<open>toolruntime/value.go\<close>, \<^verbatim>\<open>ids.go\<close>, \<^verbatim>\<open>DeriveKey\<close> of \<^verbatim>\<open>idempotency.go\<close>): argument
    values, their canonical form, shown to be read back by a parser on any rest of input, and
    the key derived from it.
  \<^item> \<^verbatim>\<open>ToolLedger\<close> (\<^verbatim>\<open>idempotency.go\<close>, \<^verbatim>\<open>compensation.go\<close>): claims, settlement, release and
    eviction, with an invariant of the queue and the map of entries; the journal and its rollback.
  \<^item> \<^verbatim>\<open>ToolExecutor\<close> (\<^verbatim>\<open>executor.go\<close>): \<^verbatim>\<open>Execute\<close> as a step function, any number of executions on
    one ledger, and four invariants of the system, each an interpretation of \<open>invariant_ops\<close>.
  \<^item> \<^verbatim>\<open>ToolScheduler\<close> (\<^verbatim>\<open>queue.go\<close>): slots, queues and the choice of the next waiter, with callers
    that hold, wait, were handed a slot or have left.
  \<^item> \<^verbatim>\<open>ToolRetry\<close> (\<^verbatim>\<open>errors.go\<close>, \<^verbatim>\<open>retry.go\<close>, \<^verbatim>\<open>sandbox.go\<close>): which errors are retried, retry
    specifications and their use of the runtime's backoff, dead letters, budgets, and the sandbox with its
    leases (interpretation \<open>sandbox_accounts\<close>).
  \<^item> \<^verbatim>\<open>ToolContract\<close> (\<^verbatim>\<open>contract.go\<close>, \<^verbatim>\<open>ids.go\<close>): fields, contracts, validation of inputs and outputs,
    versions and constraints.
  \<^item> \<^verbatim>\<open>StableSort\<close>: Go's stable sort by a comparison function, and what a strict weak order gives it
    (locale \<open>strict_weak\<close>).
  \<^item> \<^verbatim>\<open>ToolRegistry\<close> (\<^verbatim>\<open>registry.go\<close>, \<^verbatim>\<open>discovery.go\<close>): the registry's snapshot, its writers, the order of
    preference (interpretations \<open>by_descriptor\<close>, \<open>preference\<close>) and the resolution of a capability; every
    writer keeps the snapshot's index exact (interpretation \<open>registry_ops\<close>).
  \<^item> \<^verbatim>\<open>ToolPlan\<close> (\<^verbatim>\<open>intent.go\<close>, \<^verbatim>\<open>plan.go\<close>): intents, their validation, the search for a cycle, the levels
    and the tree of steps.  \<^verbatim>\<open>ToolPlanner\<close> (\<^verbatim>\<open>plan.go\<close>): each request resolved, checked and
    assembled into the plan.
  \<^item> \<^verbatim>\<open>ToolDispatcher\<close> (\<^verbatim>\<open>dispatcher.go\<close>): the run of a plan as a step relation over processes; what the
    executor answers is an input of each step.  A weight that every step lowers gives termination.
  \<^item> \<^verbatim>\<open>ToolPermission\<close> (\<^verbatim>\<open>permission.go\<close>, \<^verbatim>\<open>audit.go\<close>): grants, roles, consent, overrides, the decision
    and its audit entries (interpretation \<open>permissions\<close>).
  \<^item> \<^verbatim>\<open>GovAction\<close> (\<^verbatim>\<open>governance/action.go\<close>, \<^verbatim>\<open>validator.go\<close>): actions, attributes, requests and their structural
    validation.  \<^verbatim>\<open>GovDecision\<close> (\<^verbatim>\<open>decision.go\<close>, \<^verbatim>\<open>risk.go\<close>, \<^verbatim>\<open>privacy.go\<close>): outcomes and their severity, the
    merge of obligations, which loses none, the risk aggregate, which is monotone in the signals, and
    the privacy rules.
  \<^item> \<^verbatim>\<open>GovPolicy\<close> (\<^verbatim>\<open>policy.go\<close>, \<^verbatim>\<open>registry.go\<close>): conditions, rules, policies and the registry; an invariant
    of every writer (interpretation \<open>policy_ops\<close>) and a total order of evaluation (interpretation
    \<open>policies_by\<close>) make the snapshot independent of the order in which maps are iterated.
  \<^item> \<^verbatim>\<open>GovEvaluator\<close> (\<^verbatim>\<open>evaluator.go\<close>): one scope, the walk over the scopes and the overlays, with lemmas on
    what wins.  \<^verbatim>\<open>GovBaseline\<close> (\<^verbatim>\<open>baseline.go\<close>): the starting policies, what the evaluator guarantees
    over every registry reached, and a closed form of what the baseline decides.
  \<^item> \<^verbatim>\<open>GovConsent\<close> (\<^verbatim>\<open>consent.go\<close>): the registry of consents, shown to implement a specification that knows
    only what is agreed, and its history.  \<^verbatim>\<open>GovHuman\<close> (\<^verbatim>\<open>human.go\<close>): escalations (interpretation
    \<open>human_ops\<close>).  \<^verbatim>\<open>GovEmergency\<close> (\<^verbatim>\<open>emergency.go\<close>): emergencies over the policy registry.
  \<^item> \<^verbatim>\<open>GovEngine\<close> (\<^verbatim>\<open>runtime.go\<close>): the one door, with what holds after any calls.
  \<^item> \<^verbatim>\<open>TelState\<close>, \<^verbatim>\<open>TelSession\<close>, \<^verbatim>\<open>TelRuntime\<close> (\<^verbatim>\<open>packages/go/telephony\<close>): the table of a call's states, one
    call with its history and snapshot, and the runtime over all calls: registry, lifecycle,
    admission, deadlines, recovery, coordinator and dispatcher.  \<^verbatim>\<open>TelInv\<close> and \<^verbatim>\<open>TelSystem\<close> make the
    operations one system, in which a begin is two steps, and show that each operation is a sequence of six
    atomic effects on registry and slots; \<^verbatim>\<open>TelSlots\<close> accounts for the slots over every run,
    \<^verbatim>\<open>TelSweep\<close> for the deadlines (interpretations \<open>sweep\<close> and \<open>reap\<close> of one pass over the
    registry), \<^verbatim>\<open>TelRecovery\<close> for a restart, and \<^verbatim>\<open>TelProps\<close> holds the runs that show how slots are lost.
\<close>

text \<open>
  \<^bold>\<open>Modelling decisions.\<close>  A method that holds a mutex is one step of the model; it reads the clock
  at most once while it holds the mutex, or the readings are arguments.  Durations and instants
  are unbounded: the configured values are far from the ends of 64-bit nanoseconds.  Sequence
  numbers and lock keys are 64-bit words and wrap.  The breaker's and the backoff's floating point
  is exact rational arithmetic.  Byte payloads are lists of 8-bit words; the ring copies
  them as the code does.

  The hash functions of the identity service (keyed HMAC-SHA256) are parameters; a property that
  needs two tokens to have different hashes assumes that the tokens' hashes differ.  A random token and the
  verdict of a proof verifier are replies of the environment, of which nothing is assumed unless
  the property says so.  The lock server keeps one holder, grants the lock only when it is free,
  answers a session's query with the truth at the moment it evaluates it, and may release a lock
  at any moment; the processes' clocks run at one rate from different origins.

  \<^bold>\<open>Bounds and fuel.\<close>  The one definition with fuel is the depth-first search for a dependency cycle
  (\<open>visit\<close>): it is called with the number of refs plus one, and every call on its stack has coloured a
  ref of its own, so it never runs out (\<open>visit_fuel\<close>).  The loop that builds levels ends because each
  level takes at least one ref off.  Other loops over slices are recursions on lists or on a
  counter of elements left (\<open>drain_loop\<close> on the count read before the loop, \<open>insert_pos\<close> on the
  position scanned down).

  \<^bold>\<open>What modelling showed.\<close>  The ring overwrites an unread frame when payload lengths differ
  (\<open>ring_overwrites_unread_frame\<close>); a jitter buffer that was reset refuses the first frame of the new
  source (\<open>reset_refuses_new_source\<close>) and never crosses a gap above its maximum delay
  (\<open>gap_is_never_crossed\<close>); a half-open breaker whose probes leak never recovers
  (\<open>leaked_probes_wedge\<close>) and a late success closes a breaker that has opened again
  (\<open>straggler_closes_open_breaker\<close>).  A tool result that breaks its contract frees the key of a call
  that was made (\<open>rejected_result_runs_again\<close>), a waiter on a released key is told it was cancelled
  (\<open>released_waiter_is_cancelled\<close>), two actors can share a key (\<open>keys_of_two_actors_collide\<close>), a slot
  granted to a caller that leaves at that moment is lost
  (\<open>granted_and_cancelled_leaks_the_slot\<close>), and background work starves between two classes
  (\<open>background_waits_for_both\<close>).  A contract's default may break the contract
  (\<open>default_breaks_its_own_bounds\<close>), a healthy deprecated version is chosen over an active one
  (\<open>deprecated_is_preferred\<close>), registering a retired version revives it
  (\<open>registration_revives_retired\<close>), the order of preference is not total
  (\<open>preference_is_not_total\<close>), and a fallback chain may go on to an irreversible tool
  (\<open>fallback_reaches_irreversible\<close>).  One baseline policy of governance always wins its scope, so those
  on irreversible, external and mutating actions never decide (\<open>baseline_decides_by_class\<close>,
  \<open>baseline_releases_externally\<close>); a compliance policy that merely allows voids every emergency that permits
  (\<open>compliance_default_voids_emergencies\<close>); a consent on file waives the confirmation a high risk asks for
  (\<open>consent_waives_confirmation\<close>); an expired emergency decides until a sweep and an ended one cannot be
  activated again (\<open>expired_emergency_still_decides\<close>, \<open>ended_emergency_is_not_reactivated\<close>); an overdue
  escalation is approved and an answered decision raised again (\<open>overdue_escalation_is_approved\<close>,
  \<open>answered_decision_is_raised_again\<close>); consent to terms that do not exist yet is accepted
  (\<open>future_terms_are_accepted\<close>); a replay reports drift where nothing changed (\<open>replay_reports_drift\<close>), and the
  digest of the policies misses what they match (\<open>digest_misses_the_match\<close>).  In the telephony runtime a call
  whose answer fails is registered for ever (\<open>dead_call_holds_its_slot\<close>), a reaped call keeps its provider's
  slot until the provider is refused for good (\<open>starved_provider_is_refused_for_ever\<close>), concurrent admissions
  exceed the capacity (\<open>capacity_can_be_exceeded\<close>), four states have a deadline that never ends a call
  (\<open>deadline_without_effect\<close>), ending a call before it is answered is refused
  (\<open>end_before_answer_is_refused\<close>), and event numbers stop at 128 (\<open>event_numbers_stop\<close>).

  \<^bold>\<open>Not modelled.\<close>  Rendering to strings, metrics, logging, random identifiers, HTTP parsing and
  routing, SQL, subprocess and network providers.  Of the telephony runtime: stop and drain, a
  snapshot store that fails, and the shards, which are one map.  Planned next, in this order: the memory
  runtime, speech chunking and transcript assembly, the context window, the media stream and its pipeline over
  the two buffers, the Play Integrity policy.
\<close>

end
